(* ===== verification/Prelude.thy ===== *)
theory Prelude
  imports Complex_Main
begin

text \<open>
  What the components share: JavaScript operators that HOL lacks (\<open>??\<close>, \<open>slice(-n)\<close>,
  \<open>toLowerCase\<close>, \<open>split\<close>, \<open>trim\<close>), the instants the engine stores as ISO text, the
  result type of fallible operations, and the generic list lemmas the component proofs use.

  Strings are lists of characters. The code compares, splits and measures text that is ASCII
  in every place modelled here; a character outside ASCII would count once in JavaScript and
  once per byte here.
\<close>

named_theorems engine_defs \<open>definitions of the engine's small operations, for unfolding\<close>
named_theorems inv_rules \<open>preservation lemmas of the component invariants\<close>

section \<open>JavaScript operators\<close>

text \<open>\<open>x ?? d\<close>: null and undefined are both \<open>None\<close> here.\<close>

definition dflt :: "'a option \<Rightarrow> 'a \<Rightarrow> 'a" where
  "dflt x d = (case x of None \<Rightarrow> d | Some v \<Rightarrow> v)"

lemma dflt_simps [simp]: "dflt None d = d" "dflt (Some v) d = v"
  by (simp_all add: dflt_def)

text \<open>\<open>xs.slice(-n)\<close> for a positive \<open>n\<close>: the last \<open>n\<close> elements, or all of them.\<close>

definition slice_last :: "nat \<Rightarrow> 'a list \<Rightarrow> 'a list" where
  "slice_last n xs = drop (length xs - n) xs"

lemma length_slice_last [simp]: "length (slice_last n xs) = min n (length xs)"
  by (simp add: slice_last_def min_def)

lemma slice_last_short: "length xs \<le> n \<Longrightarrow> slice_last n xs = xs"
  by (simp add: slice_last_def)

lemma last_slice_last: "0 < n \<Longrightarrow> xs \<noteq> [] \<Longrightarrow> last (slice_last n xs) = last xs"
  by (simp add: slice_last_def)

lemma slice_last_nonempty [simp]: "0 < n \<Longrightarrow> (slice_last n xs = []) = (xs = [])"
  by (cases xs) (auto simp: slice_last_def)

text \<open>Results: \<open>Inl\<close> is what the code throws, \<open>Inr\<close> what it returns.\<close>

fun is_ok :: "'e + 'a \<Rightarrow> bool" where
  "is_ok (Inl _) = False"
| "is_ok (Inr _) = True"

fun res_bind :: "'e + 'a \<Rightarrow> ('a \<Rightarrow> 'e + 'b) \<Rightarrow> 'e + 'b" where
  "res_bind (Inl e) f = Inl e"
| "res_bind (Inr x) f = f x"

lemma res_bind_eq_Inr: "(res_bind r f = Inr y) = (\<exists>x. r = Inr x \<and> f x = Inr y)"
  by (cases r) auto

text \<open>Decimal rendering of a natural number in a template string.\<close>

fun show_nat :: "nat \<Rightarrow> string" where
  "show_nat n = (if n < 10 then [char_of (48 + n)] else show_nat (n div 10) @ [char_of (48 + n mod 10)])"

declare show_nat.simps [simp del]

section \<open>Instants\<close>

text \<open>
  The engine stores instants as text. \<open>Iso n\<close> is the text \<open>new Date(n).toISOString()\<close>
  writes; \<open>Junk s\<close> is text on which \<open>Date.parse\<close> answers NaN. Times are milliseconds
  since the epoch, exact integers in the range the clock can reach.
\<close>

datatype stamp = Iso int | Junk string

fun date_parse :: "stamp \<Rightarrow> int option" where
  "date_parse (Iso n) = Some n"
| "date_parse (Junk _) = None"

text \<open>A comparison \<open>Date.parse(x) <= n\<close> is false when the text does not parse.\<close>

definition parsed_le :: "stamp \<Rightarrow> int \<Rightarrow> bool" where
  "parsed_le s n = (case date_parse s of None \<Rightarrow> False | Some m \<Rightarrow> m \<le> n)"

lemma parsed_le_simps [simp]: "parsed_le (Iso m) n = (m \<le> n)" "\<not> parsed_le (Junk x) n"
  by (simp_all add: parsed_le_def)

section \<open>Characters and strings\<close>

definition code_of :: "char \<Rightarrow> nat" where
  "code_of c = of_char c"

definition is_lower :: "char \<Rightarrow> bool" where
  "is_lower c = (97 \<le> code_of c \<and> code_of c \<le> 122)"

definition is_upper :: "char \<Rightarrow> bool" where
  "is_upper c = (65 \<le> code_of c \<and> code_of c \<le> 90)"

definition is_digit :: "char \<Rightarrow> bool" where
  "is_digit c = (48 \<le> code_of c \<and> code_of c \<le> 57)"

text \<open>The ASCII part of JavaScript's white space.\<close>

definition is_space :: "char \<Rightarrow> bool" where
  "is_space c = (code_of c = 32 \<or> (9 \<le> code_of c \<and> code_of c \<le> 13))"

definition lower_char :: "char \<Rightarrow> char" where
  "lower_char c = (if is_upper c then char_of (code_of c + 32) else c)"

definition upper_char :: "char \<Rightarrow> char" where
  "upper_char c = (if is_lower c then char_of (code_of c - 32) else c)"

lemma code_of_Char:
  "code_of (Char b0 b1 b2 b3 b4 b5 b6 b7) =
     of_bool b0 + 2 * of_bool b1 + 4 * of_bool b2 + 8 * of_bool b3 + 16 * of_bool b4 + 32 * of_bool b5 + 64 * of_bool b6 + 128 * of_bool b7"
  by (simp add: code_of_def of_char_Char algebra_simps)

text \<open>The same on the bits of a character, which is what evaluation uses.\<close>

lemma char_class_code [code]:
  "is_upper (Char b0 b1 b2 b3 b4 b5 b6 b7) =
     (\<not> b7 \<and> b6 \<and> \<not> b5 \<and> (b0 \<or> b1 \<or> b2 \<or> b3 \<or> b4) \<and> \<not> (b4 \<and> b3 \<and> (b2 \<or> b1 \<and> b0)))"
  "is_lower (Char b0 b1 b2 b3 b4 b5 b6 b7) =
     (\<not> b7 \<and> b6 \<and> b5 \<and> (b0 \<or> b1 \<or> b2 \<or> b3 \<or> b4) \<and> \<not> (b4 \<and> b3 \<and> (b2 \<or> b1 \<and> b0)))"
  "is_digit (Char b0 b1 b2 b3 b4 b5 b6 b7) = (\<not> b7 \<and> \<not> b6 \<and> b5 \<and> b4 \<and> \<not> (b3 \<and> (b2 \<or> b1)))"
  "is_space (Char b0 b1 b2 b3 b4 b5 b6 b7) =
     (\<not> b7 \<and> \<not> b6 \<and> \<not> b4 \<and>
      (if b5 then \<not> b3 \<and> \<not> b2 \<and> \<not> b1 \<and> \<not> b0 else b3 \<and> (b2 \<or> b1 \<or> b0) \<and> \<not> (b2 \<and> b1)))"
  unfolding is_upper_def is_lower_def is_digit_def is_space_def code_of_Char
  by (cases b7; cases b6; cases b5; cases b4; cases b3; cases b2; cases b1; cases b0; simp)+

lemma char_case_code [code]:
  "lower_char (Char b0 b1 b2 b3 b4 b5 b6 b7) =
     (if is_upper (Char b0 b1 b2 b3 b4 b5 b6 b7) then Char b0 b1 b2 b3 b4 True b6 b7 else Char b0 b1 b2 b3 b4 b5 b6 b7)"
  "upper_char (Char b0 b1 b2 b3 b4 b5 b6 b7) =
     (if is_lower (Char b0 b1 b2 b3 b4 b5 b6 b7) then Char b0 b1 b2 b3 b4 False b6 b7 else Char b0 b1 b2 b3 b4 b5 b6 b7)"
proof -
  have bits: "is_upper (Char b0 b1 b2 b3 b4 b5 b6 b7) \<Longrightarrow> b5 = False" "is_lower (Char b0 b1 b2 b3 b4 b5 b6 b7) \<Longrightarrow> b5 = True"
    by (auto simp: char_class_code)
  have up: "char_of (code_of (Char b0 b1 b2 b3 b4 False b6 b7) + 32) = Char b0 b1 b2 b3 b4 True b6 b7"
    using char_of_char [of "Char b0 b1 b2 b3 b4 True b6 b7"] by (simp add: code_of_def of_char_Char algebra_simps)
  have down: "char_of (code_of (Char b0 b1 b2 b3 b4 True b6 b7) - 32) = Char b0 b1 b2 b3 b4 False b6 b7"
    using char_of_char [of "Char b0 b1 b2 b3 b4 False b6 b7"] by (simp add: code_of_def of_char_Char algebra_simps)
  show "lower_char (Char b0 b1 b2 b3 b4 b5 b6 b7) =
     (if is_upper (Char b0 b1 b2 b3 b4 b5 b6 b7) then Char b0 b1 b2 b3 b4 True b6 b7 else Char b0 b1 b2 b3 b4 b5 b6 b7)"
    unfolding lower_char_def using bits(1) up by (intro if_cong refl) blast
  show "upper_char (Char b0 b1 b2 b3 b4 b5 b6 b7) =
     (if is_lower (Char b0 b1 b2 b3 b4 b5 b6 b7) then Char b0 b1 b2 b3 b4 False b6 b7 else Char b0 b1 b2 b3 b4 b5 b6 b7)"
    unfolding upper_char_def using bits(2) down by (intro if_cong refl) blast
qed

definition toLowerCase :: "string \<Rightarrow> string" where
  "toLowerCase s = map lower_char s"

definition toUpperCase :: "string \<Rightarrow> string" where
  "toUpperCase s = map upper_char s"

definition trimStart :: "string \<Rightarrow> string" where
  "trimStart s = dropWhile is_space s"

definition trimEnd :: "string \<Rightarrow> string" where
  "trimEnd s = rev (dropWhile is_space (rev s))"

definition js_trim :: "string \<Rightarrow> string" where
  "js_trim s = trimEnd (trimStart s)"

definition startsWith :: "string \<Rightarrow> string \<Rightarrow> bool" where
  "startsWith s p = (take (length p) s = p)"

definition endsWith :: "string \<Rightarrow> string \<Rightarrow> bool" where
  "endsWith s p = (length p \<le> length s \<and> drop (length s - length p) s = p)"

fun str_includes :: "string \<Rightarrow> string \<Rightarrow> bool" where
  "str_includes [] p = (p = [])"
| "str_includes (c # cs) p = (startsWith (c # cs) p \<or> str_includes cs p)"

text \<open>\<open>s.split(sep)\<close> for a one-character separator class: the segments between separators.\<close>

fun split_on :: "(char \<Rightarrow> bool) \<Rightarrow> string \<Rightarrow> string list" where
  "split_on P [] = [[]]"
| "split_on P (c # cs) =
     (if P c then [] # split_on P cs
      else (case split_on P cs of [] \<Rightarrow> [[c]] | w # ws \<Rightarrow> (c # w) # ws))"

lemma split_on_nonempty [simp]: "split_on P s \<noteq> []"
  by (induction s) (auto split: list.splits)

lemma split_on_no_sep: "w \<in> set (split_on P s) \<Longrightarrow> c \<in> set w \<Longrightarrow> \<not> P c"
proof (induction s arbitrary: w)
  case Nil
  then show ?case by simp
next
  case (Cons a s)
  then show ?case by (cases "split_on P s") (fastforce split: if_splits)+
qed

lemma split_on_chars: "w \<in> set (split_on P s) \<Longrightarrow> set w \<subseteq> set s"
proof (induction s arbitrary: w)
  case Nil
  then show ?case by simp
next
  case (Cons a s)
  then show ?case by (cases "split_on P s") (fastforce split: if_splits)+
qed

text \<open>\<open>xs.join(sep)\<close>.\<close>

fun join_with :: "'a list \<Rightarrow> 'a list list \<Rightarrow> 'a list" where
  "join_with sep [] = []"
| "join_with sep [w] = w"
| "join_with sep (w # v # ws) = w @ sep @ join_with sep (v # ws)"

lemma join_split: "join_with [c] (split_on (\<lambda>x. x = c) s) = s"
proof (induction s)
  case Nil
  then show ?case by simp
next
  case (Cons a s)
  obtain w ws where "split_on (\<lambda>x. x = c) s = w # ws"
    by (cases "split_on (\<lambda>x. x = c) s") auto
  with Cons show ?case by (cases ws) auto
qed

lemma trimStart_id: "s = [] \<or> \<not> is_space (hd s) \<Longrightarrow> trimStart s = s"
  by (cases s) (auto simp: trimStart_def)

lemma trimEnd_id: "s = [] \<or> \<not> is_space (last s) \<Longrightarrow> trimEnd s = s"
proof -
  assume "s = [] \<or> \<not> is_space (last s)"
  then have "dropWhile is_space (rev s) = rev s"
    by (cases "rev s") (auto simp: hd_rev [symmetric])
  then show ?thesis by (simp add: trimEnd_def)
qed

lemma js_trim_id: "s \<noteq> [] \<Longrightarrow> \<not> is_space (hd s) \<Longrightarrow> \<not> is_space (last s) \<Longrightarrow> js_trim s = s"
  by (simp add: js_trim_def trimStart_id trimEnd_id)

lemma split_join:
  "ls \<noteq> [] \<Longrightarrow> \<forall>l\<in>set ls. c \<notin> set l \<Longrightarrow>
   split_on (\<lambda>x. x = c) (join_with [c] ls) = ls"
proof (induction "[c]" ls rule: join_with.induct)
  case 1
  then show ?case by simp
next
  case (2 w)
  then have "c \<notin> set w" by simp
  then show ?case by (induction w) auto
next
  case (3 w v ws)
  have "split_on (\<lambda>x. x = c) (u @ c # r) = u # split_on (\<lambda>x. x = c) r"
    if "c \<notin> set u" for u r
    using that by (induction u) auto
  then show ?case using 3 by simp
qed

lemma set_join: "set (join_with sep ls) \<subseteq> set sep \<union> (\<Union>l\<in>set ls. set l)"
  by (induction sep ls rule: join_with.induct) auto

text \<open>\<open>Number.parseInt(s, 10)\<close>: white space, an optional sign and the longest run of digits;
  \<open>None\<close> is NaN.\<close>

definition digits_val :: "string \<Rightarrow> int" where
  "digits_val ds = foldl (\<lambda>n c. 10 * n + (int (code_of c) - 48)) 0 ds"

definition js_parseInt :: "string \<Rightarrow> int option" where
  "js_parseInt s =
    (let t = trimStart s;
         neg = startsWith t ''-'';
         body = (if neg \<or> startsWith t ''+'' then tl t else t);
         ds = takeWhile is_digit body
     in if ds = [] then None else Some (if neg then - digits_val ds else digits_val ds))"

section \<open>Association lists: objects with their keys in insertion order\<close>

text \<open>Assignment \<open>o[k] = v\<close>: an existing key keeps its position, a new one goes last.\<close>

fun assoc_put :: "'k \<Rightarrow> 'v \<Rightarrow> ('k \<times> 'v) list \<Rightarrow> ('k \<times> 'v) list" where
  "assoc_put k v [] = [(k, v)]"
| "assoc_put k v ((k', v') # xs) = (if k = k' then (k, v) # xs else (k', v') # assoc_put k v xs)"

lemma map_of_assoc_put [simp]: "map_of (assoc_put k v xs) = (map_of xs)(k \<mapsto> v)"
  by (induction xs) (auto simp: fun_eq_iff)

lemma assoc_put_nonempty [simp]: "assoc_put k v xs \<noteq> []"
  by (induction k v xs rule: assoc_put.induct) simp_all

lemma keys_assoc_put: "fst ` set (assoc_put k v xs) = insert k (fst ` set xs)"
  by (induction k v xs rule: assoc_put.induct) (simp_all add: insert_commute)

lemma distinct_assoc_put: "distinct (map fst xs) \<Longrightarrow> distinct (map fst (assoc_put k v xs))"
proof (induction xs)
  case Nil
  then show ?case by simp
next
  case (Cons x xs)
  obtain a b where x: "x = (a, b)" by (cases x)
  have "set (map fst (assoc_put k v xs)) = insert k (set (map fst xs))"
    by (simp only: set_map keys_assoc_put)
  with Cons show ?case by (simp add: x del: set_map)
qed

text \<open>The spread \<open>{ ...base, ...over }\<close>.\<close>

definition spread :: "('k \<times> 'v) list \<Rightarrow> ('k \<times> 'v) list \<Rightarrow> ('k \<times> 'v) list" where
  "spread base over = fold (\<lambda>(k, v). assoc_put k v) over base"

lemma map_of_spread:
  "distinct (map fst over) \<Longrightarrow> map_of (spread base over) = map_of base ++ map_of over"
proof (induction over arbitrary: base)
  case Nil
  then show ?case by (simp add: spread_def)
next
  case (Cons x over)
  obtain k v where x: "x = (k, v)" by (cases x)
  from Cons have IH: "map_of (spread (assoc_put k v base) over) = map_of (assoc_put k v base) ++ map_of over"
    by simp
  have k: "map_of over k = None" using Cons.prems x by (auto simp: map_of_eq_None_iff)
  have "map_of (spread base (x # over)) = map_of (spread (assoc_put k v base) over)"
    by (simp add: spread_def x)
  also have "\<dots> = (map_of base)(k \<mapsto> v) ++ map_of over" using IH by simp
  also have "\<dots> = map_of base ++ map_of (x # over)"
    using k by (auto simp: x fun_eq_iff map_add_def split: option.splits)
  finally show ?case .
qed

lemma keys_spread: "fst ` set (spread base over) = fst ` set base \<union> fst ` set over"
proof (induction over arbitrary: base)
  case Nil
  then show ?case by (simp add: spread_def)
next
  case (Cons x over)
  obtain k v where x: "x = (k, v)" by (cases x)
  have "spread base (x # over) = spread (assoc_put k v base) over"
    by (simp add: spread_def x)
  with Cons show ?case by (simp add: x keys_assoc_put)
qed

section \<open>Generic list lemmas\<close>

lemma filter_length_partition:
  "length (filter P xs) + length (filter (\<lambda>x. \<not> P x) xs) = length xs"
  by (induction xs) auto

lemma find_Some_iff_mem: "List.find P xs = Some x \<Longrightarrow> x \<in> set xs \<and> P x"
  by (induction xs) (auto split: if_splits)

lemma mem_map_filter: "e \<in> set (List.map_filter g xs) \<longleftrightarrow> (\<exists>x\<in>set xs. g x = Some e)"
  by (induction xs) (auto simp: List.map_filter_simps split: option.splits)

end
