(* ===== verification/Lifecycle.thy ===== *)
theory Lifecycle
  imports Prelude
begin

text \<open>
  The task state machine, \<open>src/task/lifecycle.js\<close>, with the status and wait-reason
  vocabularies of \<open>src/state/schema.js\<close>. A task is a record with the fields the state
  machine reads or writes; \<open>None\<close> stands for null and for an absent field, which the code
  never tells apart (\<open>??\<close>). \<open>transition\<close> takes the target as text, as the code does, and
  returns the new task with the event it appends, or the error it throws.
\<close>

section \<open>Vocabularies\<close>

datatype status = Pending | Running | Waiting | Paused | Complete | Failed | Blocked
  | Cancelled | Expired | DeadLettered | PrOpen

definition TASK_STATUSES :: "(string \<times> status) list" where
  "TASK_STATUSES =
    [(''pending'', Pending), (''running'', Running), (''waiting'', Waiting), (''paused'', Paused),
     (''complete'', Complete), (''failed'', Failed), (''blocked'', Blocked),
     (''cancelled'', Cancelled), (''expired'', Expired), (''dead-lettered'', DeadLettered),
     (''pr-open'', PrOpen)]"

definition status_of :: "string \<Rightarrow> status option" where
  "status_of s = map_of TASK_STATUSES s"

fun status_name :: "status \<Rightarrow> string" where
  "status_name Pending = ''pending''"
| "status_name Running = ''running''"
| "status_name Waiting = ''waiting''"
| "status_name Paused = ''paused''"
| "status_name Complete = ''complete''"
| "status_name Failed = ''failed''"
| "status_name Blocked = ''blocked''"
| "status_name Cancelled = ''cancelled''"
| "status_name Expired = ''expired''"
| "status_name DeadLettered = ''dead-lettered''"
| "status_name PrOpen = ''pr-open''"

lemma status_of_name [simp]: "status_of (status_name s) = Some s"
  by (cases s) (simp_all add: status_of_def TASK_STATUSES_def)

lemma status_of_literal [simp]:
  "status_of ''pending'' = Some Pending" "status_of ''running'' = Some Running"
  "status_of ''waiting'' = Some Waiting" "status_of ''paused'' = Some Paused"
  "status_of ''complete'' = Some Complete" "status_of ''failed'' = Some Failed"
  "status_of ''blocked'' = Some Blocked" "status_of ''cancelled'' = Some Cancelled"
  "status_of ''expired'' = Some Expired" "status_of ''dead-lettered'' = Some DeadLettered"
  "status_of ''pr-open'' = Some PrOpen"
  by (simp_all add: status_of_def TASK_STATUSES_def)

datatype wait_reason = WBackoff | WDependency | WApproval | WBudget | WQuota | WPulseBudget | WProvider

definition WAIT_REASONS :: "(string \<times> wait_reason) list" where
  "WAIT_REASONS =
    [(''backoff'', WBackoff), (''dependency'', WDependency), (''approval'', WApproval),
     (''budget'', WBudget), (''quota'', WQuota), (''pulse-budget'', WPulseBudget),
     (''provider'', WProvider)]"

definition wait_reason_of :: "string option \<Rightarrow> wait_reason option" where
  "wait_reason_of r = (case r of None \<Rightarrow> None | Some s \<Rightarrow> map_of WAIT_REASONS s)"

fun wait_reason_name :: "wait_reason \<Rightarrow> string" where
  "wait_reason_name WBackoff = ''backoff''"
| "wait_reason_name WDependency = ''dependency''"
| "wait_reason_name WApproval = ''approval''"
| "wait_reason_name WBudget = ''budget''"
| "wait_reason_name WQuota = ''quota''"
| "wait_reason_name WPulseBudget = ''pulse-budget''"
| "wait_reason_name WProvider = ''provider''"

lemma wait_reason_of_name [simp]: "wait_reason_of (Some (wait_reason_name r)) = Some r"
  by (cases r) (simp_all add: wait_reason_of_def WAIT_REASONS_def)

lemma wait_reason_of_None [simp]: "wait_reason_of None = None"
  by (simp add: wait_reason_of_def)

definition TERMINAL_STATUSES :: "status list" where
  "TERMINAL_STATUSES = [Complete, Failed, Blocked, Cancelled, Expired, DeadLettered]"

fun TRANSITIONS :: "status \<Rightarrow> status list" where
  "TRANSITIONS Pending = [Running, Waiting, Paused, Cancelled, Expired, DeadLettered]"
| "TRANSITIONS Running =
     [Complete, Failed, Blocked, Cancelled, Waiting, PrOpen, DeadLettered, Expired, Pending]"
| "TRANSITIONS Waiting = [Pending, Paused, Cancelled, Expired, DeadLettered]"
| "TRANSITIONS Paused = [Pending, Cancelled, Expired]"
| "TRANSITIONS PrOpen = [Complete, Failed, Cancelled]"
| "TRANSITIONS Complete = [Pending]"
| "TRANSITIONS Failed = [Pending]"
| "TRANSITIONS Blocked = [Pending]"
| "TRANSITIONS Cancelled = [Pending]"
| "TRANSITIONS Expired = [Pending]"
| "TRANSITIONS DeadLettered = [Pending]"

definition MAX_HISTORY :: nat where
  "MAX_HISTORY = 40"

definition isTerminal :: "status \<Rightarrow> bool" where
  "isTerminal s = (s \<in> set TERMINAL_STATUSES)"

definition canTransition :: "status \<Rightarrow> status \<Rightarrow> bool" where
  "canTransition from to = (to \<in> set (TRANSITIONS from))"

lemma isTerminal_simps [simp]:
  "\<not> isTerminal Pending" "\<not> isTerminal Running" "\<not> isTerminal Waiting" "\<not> isTerminal Paused"
  "\<not> isTerminal PrOpen" "isTerminal Complete" "isTerminal Failed" "isTerminal Blocked"
  "isTerminal Cancelled" "isTerminal Expired" "isTerminal DeadLettered"
  by (simp_all add: isTerminal_def TERMINAL_STATUSES_def)

section \<open>Tasks\<close>

record lease =
  l_owner :: string
  l_acquiredAt :: stamp
  l_expiresAt :: stamp

record failure =
  f_class :: string
  f_code :: "string option"
  f_message :: string
  f_at :: stamp

record hist_entry =
  h_at :: stamp
  h_from :: status
  h_to :: status
  h_reason :: "string option"

record task =
  t_id :: string
  t_status :: status
  t_createdAt :: stamp
  t_priority :: "string option"
  t_waitReason :: "wait_reason option"
  t_wakeAt :: "stamp option"
  t_claimedAt :: "stamp option"
  t_startedAt :: "stamp option"
  t_completedAt :: "stamp option"
  t_runId :: "string option"
  t_error :: "string option"
  t_failure :: "failure option"
  t_attempts :: "nat option"
  t_maxAttempts :: "nat option"
  t_lease :: "lease option"
  t_dependsOn :: "string list"
  t_deadline :: "stamp option"
  t_expiresAt :: "stamp option"
  t_history :: "hist_entry list"
  t_wallMs :: "int option"

text \<open>
  The context argument. \<open>c_error\<close> and \<open>c_failure\<close> are absent (\<open>None\<close>: leave the task's
  field alone), or give the new value, which may be null (\<open>Some None\<close>).
\<close>

record ctx =
  c_now :: int
  c_reason :: "string option"
  c_by :: "string option"
  c_waitReason :: "string option"
  c_wakeAt :: "stamp option"
  c_error :: "string option option"
  c_failure :: "failure option option"

definition ctx_at :: "int \<Rightarrow> ctx" where
  "ctx_at n = \<lparr>c_now = n, c_reason = None, c_by = None, c_waitReason = None, c_wakeAt = None,
     c_error = None, c_failure = None\<rparr>"

record tevent =
  e_taskId :: string
  e_runId :: "string option"
  e_attempt :: nat
  e_from :: status
  e_to :: status
  e_reason :: "string option"
  e_by :: string
  e_waitReason :: "wait_reason option"
  e_wakeAt :: "stamp option"
  e_failureClass :: "string option"
  e_outcome :: "status option"
  e_activeMs :: "int option"

datatype lc_error =
    IllegalTransition string status string
  | BadWaitReason string

text \<open>The field updates of \<open>transition\<close>, one per \<open>if\<close> of the code, in its order.\<close>

definition set_wait :: "status \<Rightarrow> ctx \<Rightarrow> task \<Rightarrow> task" where
  "set_wait to c t =
    (if to = Waiting
     then t\<lparr>t_waitReason := wait_reason_of (c_waitReason c),
            t_wakeAt := Some (dflt (c_wakeAt c) (Iso (c_now c)))\<rparr>
     else t\<lparr>t_waitReason := None, t_wakeAt := None\<rparr>)"

definition set_running :: "status \<Rightarrow> ctx \<Rightarrow> task \<Rightarrow> task" where
  "set_running to c t =
    (if to = Running
     then t\<lparr>t_startedAt := Some (dflt (t_startedAt t) (Iso (c_now c))), t_completedAt := None\<rparr>
     else t)"

definition set_pending :: "status \<Rightarrow> status \<Rightarrow> task \<Rightarrow> task" where
  "set_pending from to t =
    (if to = Pending
     then (let t1 = t\<lparr>t_lease := None\<rparr> in
           if from \<noteq> Waiting \<and> from \<noteq> Paused \<and> from \<noteq> Running
           then t1\<lparr>t_claimedAt := None, t_startedAt := None, t_completedAt := None,
                   t_runId := None, t_error := None, t_failure := None\<rparr>
           else t1)
     else t)"

definition set_done :: "status \<Rightarrow> ctx \<Rightarrow> task \<Rightarrow> task" where
  "set_done to c t =
    (if isTerminal to \<or> to = PrOpen
     then t\<lparr>t_completedAt := Some (Iso (c_now c)), t_lease := None\<rparr>
     else t)"

definition set_error :: "ctx \<Rightarrow> task \<Rightarrow> task" where
  "set_error c t =
    (let t1 = (case c_error c of None \<Rightarrow> t | Some e \<Rightarrow> t\<lparr>t_error := e\<rparr>)
     in (case c_failure c of None \<Rightarrow> t1 | Some f \<Rightarrow> t1\<lparr>t_failure := f\<rparr>))"

definition push_history :: "status \<Rightarrow> status \<Rightarrow> ctx \<Rightarrow> task \<Rightarrow> task" where
  "push_history from to c t =
    t\<lparr>t_history := slice_last MAX_HISTORY
        (t_history t @ [\<lparr>h_at = Iso (c_now c), h_from = from, h_to = to, h_reason = c_reason c\<rparr>])\<rparr>"

definition transition_event :: "status \<Rightarrow> status \<Rightarrow> ctx \<Rightarrow> task \<Rightarrow> tevent" where
  "transition_event from to c t =
    \<lparr>e_taskId = t_id t, e_runId = t_runId t, e_attempt = dflt (t_attempts t) 0, e_from = from,
     e_to = to, e_reason = c_reason c, e_by = dflt (c_by c) ''engine'',
     e_waitReason = t_waitReason t, e_wakeAt = t_wakeAt t,
     e_failureClass = (case c_failure c of Some (Some f) \<Rightarrow> Some (f_class f) | _ \<Rightarrow> None),
     e_outcome = (if isTerminal to then Some to else None),
     e_activeMs = (if isTerminal to then t_wallMs t else None)\<rparr>"

definition transition_body :: "task \<Rightarrow> status \<Rightarrow> ctx \<Rightarrow> task" where
  "transition_body t to c =
    push_history (t_status t) to c
      (set_error c (set_done to c (set_pending (t_status t) to
        (set_running to c (set_wait to c (t\<lparr>t_status := to\<rparr>))))))"

definition transition :: "task \<Rightarrow> string \<Rightarrow> ctx \<Rightarrow> lc_error + (task \<times> tevent)" where
  "transition t to c =
    (case status_of to of
       None \<Rightarrow> Inl (IllegalTransition (t_id t) (t_status t) to)
     | Some s \<Rightarrow>
         if \<not> canTransition (t_status t) s then Inl (IllegalTransition (t_id t) (t_status t) to)
         else if s = Waiting \<and> wait_reason_of (c_waitReason c) = None then Inl (BadWaitReason (t_id t))
         else (let t' = transition_body t s c in Inr (t', transition_event (t_status t) s c t')))"

section \<open>Effective priority\<close>

definition priority_base :: "string option \<Rightarrow> rat" where
  "priority_base p =
    dflt (map_of [(''low'', 0), (''normal'', 10), (''high'', 20), (''urgent'', 40)]
      (dflt p ''normal'')) 10"

definition age_boost :: "int \<Rightarrow> int \<Rightarrow> rat" where
  "age_boost now created =
    min 10 (max 0 (of_int (now - created) / 3600000) / 6)"

definition deadline_boost :: "int \<Rightarrow> stamp option \<Rightarrow> rat" where
  "deadline_boost now d =
    (case d of None \<Rightarrow> 0
     | Some s \<Rightarrow>
        (case date_parse s of None \<Rightarrow> 0
         | Some m \<Rightarrow>
            (let hoursLeft = of_int (m - now) / 3600000 :: rat in
             if hoursLeft \<le> 1 then 25
             else if hoursLeft \<le> 24 then 10
             else if hoursLeft \<le> 72 then 3
             else 0)))"

definition dependents_boost :: "nat \<Rightarrow> rat" where
  "dependents_boost n = min 10 (of_nat n * 2)"

text \<open>\<open>None\<close> is NaN: a creation time that does not parse makes the whole sum NaN.\<close>

definition effectivePriority :: "task \<Rightarrow> int \<Rightarrow> nat \<Rightarrow> rat option" where
  "effectivePriority t now dependents =
    (case date_parse (t_createdAt t) of
       None \<Rightarrow> None
     | Some created \<Rightarrow>
         Some (priority_base (t_priority t) + age_boost now created
               + deadline_boost now (t_deadline t) + dependents_boost dependents))"

lemmas set_defs = set_wait_def set_running_def set_pending_def set_done_def set_error_def
  push_history_def Let_def

section \<open>What one transition does\<close>

lemma body_status [simp]: "t_status (transition_body t to c) = to"
  by (simp add: transition_body_def set_defs split: option.splits)

lemma body_id [simp]: "t_id (transition_body t to c) = t_id t"
  by (simp add: transition_body_def set_defs split: option.splits)

lemma body_attempts [simp]: "t_attempts (transition_body t to c) = t_attempts t"
  "t_maxAttempts (transition_body t to c) = t_maxAttempts t"
  by (simp_all add: transition_body_def set_defs split: option.splits)

lemma body_kept [simp]:
  "t_createdAt (transition_body t to c) = t_createdAt t"
  "t_dependsOn (transition_body t to c) = t_dependsOn t"
  "t_deadline (transition_body t to c) = t_deadline t"
  "t_expiresAt (transition_body t to c) = t_expiresAt t"
  "t_priority (transition_body t to c) = t_priority t"
  by (simp_all add: transition_body_def set_defs split: option.splits)

lemma body_wait [simp]:
  "t_waitReason (transition_body t to c) = (if to = Waiting then wait_reason_of (c_waitReason c) else None)"
  "t_wakeAt (transition_body t to c) =
     (if to = Waiting then Some (dflt (c_wakeAt c) (Iso (c_now c))) else None)"
  by (simp_all add: transition_body_def set_defs split: option.splits)

lemma body_lease [simp]:
  "t_lease (transition_body t to c) =
     (if to = Pending \<or> isTerminal to \<or> to = PrOpen then None else t_lease t)"
  by (cases to) (simp_all add: transition_body_def set_defs split: option.splits)

lemma body_completedAt:
  "t_completedAt (transition_body t to c) =
     (if isTerminal to \<or> to = PrOpen then Some (Iso (c_now c))
      else if to = Running then None
      else if to = Pending \<and> t_status t \<notin> {Waiting, Paused, Running} then None
      else t_completedAt t)"
  by (cases to) (simp_all add: transition_body_def set_defs split: option.splits)

lemma body_startedAt:
  "t_startedAt (transition_body t to c) =
     (if to = Running then Some (dflt (t_startedAt t) (Iso (c_now c)))
      else if to = Pending \<and> t_status t \<notin> {Waiting, Paused, Running} then None
      else t_startedAt t)"
  by (cases to) (simp_all add: transition_body_def set_defs split: option.splits)

lemma body_history [simp]:
  "t_history (transition_body t to c) =
     slice_last MAX_HISTORY (t_history t @
       [\<lparr>h_at = Iso (c_now c), h_from = t_status t, h_to = to, h_reason = c_reason c\<rparr>])"
  by (simp add: transition_body_def set_defs split: option.splits)

lemma body_error [simp]:
  "c_error c = Some e \<Longrightarrow> t_error (transition_body t to c) = e"
  "c_failure c = Some f \<Longrightarrow> t_failure (transition_body t to c) = f"
  by (simp_all add: transition_body_def set_defs split: option.splits)

lemma transition_InrD:
  assumes "transition t to c = Inr (t', e)"
  obtains s where "status_of to = Some s" "canTransition (t_status t) s"
    "s = Waiting \<Longrightarrow> wait_reason_of (c_waitReason c) \<noteq> None"
    "t' = transition_body t s c" "e = transition_event (t_status t) s c t'"
  using assms by (auto simp: transition_def Let_def split: option.splits if_splits)

lemma transition_named:
  "canTransition (t_status t) s \<Longrightarrow> (s = Waiting \<Longrightarrow> wait_reason_of (c_waitReason c) \<noteq> None) \<Longrightarrow>
   transition t (status_name s) c =
     Inr (transition_body t s c, transition_event (t_status t) s c (transition_body t s c))"
  by (simp add: transition_def Let_def)

text \<open>C5. \<open>transition\<close> succeeds exactly when the target is a known status that the table allows from
  the current one and, for \<open>waiting\<close>, the reason is a known one; on success the task has the
  target status, the event names both ends of the move, and the newest history entry records it
  at the current time.\<close>

theorem transition_succeeds_iff:
  "(is_ok (transition t to c) \<longleftrightarrow>
     (\<exists>s. status_of to = Some s \<and> s \<in> set (TRANSITIONS (t_status t)) \<and>
          (s = Waiting \<longrightarrow> (\<exists>r. wait_reason_of (c_waitReason c) = Some r)))) \<and>
   (\<forall>t' e. transition t to c = Inr (t', e) \<longrightarrow>
      status_of to = Some (t_status t') \<and> t_id t' = t_id t \<and>
      e_from e = t_status t \<and> e_to e = t_status t' \<and> e_taskId e = t_id t \<and>
      last (t_history t') = \<lparr>h_at = Iso (c_now c), h_from = t_status t, h_to = t_status t',
                             h_reason = c_reason c\<rparr>)"
proof (intro conjI allI impI)
  show "is_ok (transition t to c) \<longleftrightarrow>
     (\<exists>s. status_of to = Some s \<and> s \<in> set (TRANSITIONS (t_status t)) \<and>
          (s = Waiting \<longrightarrow> (\<exists>r. wait_reason_of (c_waitReason c) = Some r)))"
    by (auto simp: transition_def canTransition_def Let_def split: option.splits)
qed (auto elim!: transition_InrD simp: transition_event_def last_slice_last MAX_HISTORY_def)

section \<open>The record invariant\<close>

text \<open>The history is a path of legal moves: each entry is allowed and starts where the previous
  one ended.\<close>

fun legal_chain :: "hist_entry list \<Rightarrow> bool" where
  "legal_chain [] = True"
| "legal_chain [h] = canTransition (h_from h) (h_to h)"
| "legal_chain (h # k # hs) =
     (canTransition (h_from h) (h_to h) \<and> h_to h = h_from k \<and> legal_chain (k # hs))"

lemma legal_chain_Cons: "legal_chain (h # hs) \<Longrightarrow> legal_chain hs"
  by (cases hs) auto

lemma legal_chain_drop: "legal_chain hs \<Longrightarrow> legal_chain (drop n hs)"
proof (induction n arbitrary: hs)
  case 0
  then show ?case by simp
next
  case (Suc n)
  then show ?case by (cases hs) (auto dest: legal_chain_Cons)
qed

lemma legal_chain_snoc:
  "legal_chain hs \<Longrightarrow> canTransition (h_from h) (h_to h) \<Longrightarrow>
   (hs \<noteq> [] \<Longrightarrow> h_to (last hs) = h_from h) \<Longrightarrow> legal_chain (hs @ [h])"
  by (induction hs rule: legal_chain.induct) auto

lemma legal_chain_slice: "legal_chain hs \<Longrightarrow> legal_chain (slice_last n hs)"
  by (simp add: slice_last_def legal_chain_drop)

definition wf_task :: "task \<Rightarrow> bool" where
  "wf_task t \<longleftrightarrow>
     (t_status t = Waiting \<longleftrightarrow> t_waitReason t \<noteq> None) \<and>
     (t_status t = Waiting \<longleftrightarrow> t_wakeAt t \<noteq> None) \<and>
     (isTerminal (t_status t) \<or> t_status t = PrOpen \<longrightarrow> t_completedAt t \<noteq> None \<and> t_lease t = None) \<and>
     (t_status t = Pending \<longrightarrow> t_lease t = None) \<and>
     (t_status t = Running \<longrightarrow> t_startedAt t \<noteq> None \<and> t_completedAt t = None) \<and>
     length (t_history t) \<le> MAX_HISTORY \<and>
     legal_chain (t_history t) \<and>
     (t_history t \<noteq> [] \<longrightarrow> h_to (last (t_history t)) = t_status t)"

lemma wf_body:
  assumes wf: "wf_task t" and legal: "canTransition (t_status t) s"
    and wr: "s = Waiting \<Longrightarrow> wait_reason_of (c_waitReason c) \<noteq> None"
  shows "wf_task (transition_body t s c)"
proof -
  let ?h = "\<lparr>h_at = Iso (c_now c), h_from = t_status t, h_to = s, h_reason = c_reason c\<rparr>"
  have chain: "legal_chain (t_history t @ [?h])"
    using wf legal by (intro legal_chain_snoc) (auto simp: wf_task_def)
  show ?thesis
    using chain wr
    by (auto simp: wf_task_def body_completedAt body_startedAt legal_chain_slice last_slice_last
        MAX_HISTORY_def)
qed


definition sample_task :: task where
  "sample_task =
    \<lparr>t_id = ''issue-7'', t_status = Pending, t_createdAt = Iso 0, t_priority = Some ''normal'',
     t_waitReason = None, t_wakeAt = None, t_claimedAt = None, t_startedAt = None,
     t_completedAt = None, t_runId = None, t_error = None, t_failure = None,
     t_attempts = Some 0, t_maxAttempts = Some 3, t_lease = None, t_dependsOn = [],
     t_deadline = None, t_expiresAt = None, t_history = [], t_wallMs = None\<rparr>"

lemma wf_sample: "wf_task sample_task"
  by (simp add: wf_task_def sample_task_def MAX_HISTORY_def)


theorem transition_succeeds_iff_witness:
  "is_ok (transition sample_task ''waiting'' ((ctx_at 5)\<lparr>c_waitReason := Some ''approval''\<rparr>)) \<and>
   \<not> is_ok (transition sample_task ''waiting'' ((ctx_at 5)\<lparr>c_waitReason := Some ''bored''\<rparr>)) \<and>
   \<not> is_ok (transition sample_task ''complete'' (ctx_at 5))"
proof -
  have st: "status_of ''waiting'' = Some Waiting" "status_of ''complete'' = Some Complete"
    by (simp_all add: status_of_def TASK_STATUSES_def)
  have wr: "wait_reason_of (Some ''approval'') = Some WApproval" "wait_reason_of (Some ''bored'') = None"
    by (simp_all add: wait_reason_of_def WAIT_REASONS_def)
  show ?thesis
    unfolding transition_succeeds_iff [THEN conjunct1]
    by (simp add: st wr sample_task_def ctx_at_def)
qed

text \<open>Tasks under arbitrary sequences of transitions, with the pulse's lease grant in between.\<close>

inductive task_reach :: "task \<Rightarrow> task \<Rightarrow> bool" for t0 where
  start: "task_reach t0 t0"
| move: "task_reach t0 t \<Longrightarrow> transition t to c = Inr (t', e) \<Longrightarrow> task_reach t0 t'"
| grant: "task_reach t0 t \<Longrightarrow> t_status t = Running \<Longrightarrow> task_reach t0 (t\<lparr>t_lease := Some l\<rparr>)"

inductive_cases task_reachE: "task_reach t0 t"

lemma wf_grant: "wf_task t \<Longrightarrow> t_status t = Running \<Longrightarrow> wf_task (t\<lparr>t_lease := l\<rparr>)"
  by (simp add: wf_task_def)

lemma wf_body_transition: "wf_task t \<Longrightarrow> transition t to c = Inr (t', e) \<Longrightarrow> wf_task t'"
  by (auto elim!: transition_InrD intro: wf_body)

lemma task_reach_wf: "task_reach t0 t \<Longrightarrow> wf_task t0 \<Longrightarrow> wf_task t"
  by (induction rule: task_reach.induct) (auto intro: wf_body_transition wf_grant)

text \<open>The states: every status that is not terminal has a legal move to a terminal one, a
  terminal status can only be left for \<open>pending\<close> (a retry), no status moves to itself, and
  only \<open>pending\<close> can start running.\<close>

theorem status_graph:
  "(\<forall>s. isTerminal s \<or> (\<exists>s'. canTransition s s' \<and> isTerminal s')) \<and>
   (\<forall>s s'. canTransition s s' \<and> isTerminal s \<longrightarrow> s' = Pending) \<and>
   (\<forall>s. \<not> canTransition s s) \<and>
   (\<forall>s. canTransition s Running \<longleftrightarrow> s = Pending)"
proof (intro conjI allI impI)
  fix s
  show "isTerminal s \<or> (\<exists>s'. canTransition s s' \<and> isTerminal s')"
  proof (cases s)
    case Pending
    then have "canTransition s Expired" by (simp add: canTransition_def)
    then show ?thesis by (meson isTerminal_simps(10))
  next
    case Running
    then have "canTransition s Expired" by (simp add: canTransition_def)
    then show ?thesis by (meson isTerminal_simps(10))
  next
    case Waiting
    then have "canTransition s Expired" by (simp add: canTransition_def)
    then show ?thesis by (meson isTerminal_simps(10))
  next
    case Paused
    then have "canTransition s Expired" by (simp add: canTransition_def)
    then show ?thesis by (meson isTerminal_simps(10))
  next
    case PrOpen
    then have "canTransition s Cancelled" by (simp add: canTransition_def)
    then show ?thesis by (meson isTerminal_simps(9))
  qed simp_all
next
  fix s s' assume "canTransition s s' \<and> isTerminal s"
  then show "s' = Pending" by (cases s) (auto simp: canTransition_def)
next
  fix s show "\<not> canTransition s s" by (cases s) (simp_all add: canTransition_def)
next
  fix s show "canTransition s Running \<longleftrightarrow> s = Pending" by (cases s) (simp_all add: canTransition_def)
qed

theorem status_graph_witness:
  "canTransition Failed Pending \<and> isTerminal Failed \<and> \<not> canTransition Failed Running"
  using status_graph by (simp add: canTransition_def)

section \<open>Effective priority: bounds and ageing\<close>

lemma priority_base_range: "0 \<le> priority_base p \<and> priority_base p \<le> 40"
proof -
  have "priority_base p \<in> {0, 10, 20, 40}"
    by (auto simp: priority_base_def dflt_def split: option.splits if_splits)
  then show ?thesis by auto
qed

lemma age_boost_range: "0 \<le> age_boost now c \<and> age_boost now c \<le> 10"
  by (simp add: age_boost_def)

lemma deadline_boost_range: "0 \<le> deadline_boost now d \<and> deadline_boost now d \<le> 25"
  by (auto simp: deadline_boost_def Let_def split: option.splits)

lemma dependents_boost_range: "0 \<le> dependents_boost n \<and> dependents_boost n \<le> 10"
  by (simp add: dependents_boost_def)

lemma age_boost_mono: "n \<le> m \<Longrightarrow> age_boost n c \<le> age_boost m c"
proof -
  assume "n \<le> m"
  then have "(of_int (n - c) :: rat) \<le> of_int (m - c)" by simp
  then have "max 0 ((of_int (n - c) :: rat) / 3600000) / 6 \<le> max 0 (of_int (m - c) / 3600000) / 6"
    by (intro divide_right_mono max.mono) (simp_all add: divide_right_mono)
  then show ?thesis unfolding age_boost_def by (intro min.mono) simp_all
qed

lemma deadline_boost_mono: "n \<le> m \<Longrightarrow> deadline_boost n d \<le> deadline_boost m d"
proof (cases d)
  case None
  then show ?thesis by (simp add: deadline_boost_def)
next
  case (Some s)
  assume le: "n \<le> m"
  show ?thesis
  proof (cases "date_parse s")
    case None
    with Some show ?thesis by (simp add: deadline_boost_def)
  next
    case (Some k)
    have "(of_int (k - m) :: rat) / 3600000 \<le> of_int (k - n) / 3600000"
      using le by (intro divide_right_mono) simp_all
    with Some \<open>d = Some s\<close> show ?thesis
      by (simp add: deadline_boost_def Let_def)
  qed
qed

text \<open>A task's effective priority never falls as time passes: waiting and an approaching
  deadline only raise it, and it stays between its base and base plus 45, so within 0 and 85.\<close>

theorem priority_ages:
  assumes "n \<le> m" and "effectivePriority t n k = Some p"
  shows "\<exists>q. effectivePriority t m k = Some q \<and> p \<le> q \<and> 0 \<le> p \<and> q \<le> 85 \<and>
    priority_base (t_priority t) \<le> p \<and> q \<le> priority_base (t_priority t) + 45"
proof -
  from assms(2) obtain c where c: "date_parse (t_createdAt t) = Some c"
    and p: "p = priority_base (t_priority t) + age_boost n c + deadline_boost n (t_deadline t)
      + dependents_boost k"
    by (auto simp: effectivePriority_def split: option.splits)
  note mono = age_boost_mono [OF assms(1), of c] deadline_boost_mono [OF assms(1), of "t_deadline t"]
  note ranges = priority_base_range [of "t_priority t"] age_boost_range [of n c] age_boost_range [of m c]
    deadline_boost_range [of n "t_deadline t"] deadline_boost_range [of m "t_deadline t"]
    dependents_boost_range [of k]
  show ?thesis using c p mono ranges by (simp add: effectivePriority_def)
qed

theorem priority_ages_witness:
  "\<exists>q. effectivePriority sample_task 3600000 1 = Some q \<and> 12 \<le> q \<and> q \<le> 85"
proof -
  have e: "effectivePriority sample_task 0 1 = Some 12"
    by (simp add: effectivePriority_def sample_task_def priority_base_def age_boost_def
        deadline_boost_def dependents_boost_def)
  have le: "(0::int) \<le> 3600000" by simp
  show ?thesis using priority_ages [OF le e] by auto
qed

end
