(* ===== verification/Leases.thy ===== *)
theory Leases
  imports Lifecycle
begin

text \<open>
  Lease-based ownership of a task, \<open>src/task/leases.js\<close>. The lease directory is a map from
  file names to files: a file holds a lease, or is torn (it does not parse, or lacks a string
  owner or expiry). \<open>lm_now\<close> is the instant every clock read of one operation returns.
  The directory prefix is constant and left out of the paths; \<open>mkdirSync\<close> and the temporary
  file of an atomic replacement leave no trace in the map.

  \<open>acquire\<close> is modelled twice: as one operation, and as the file system sees it (exclusive
  create, read, replace), so that two processes can interleave.
\<close>

section \<open>State\<close>

datatype lfile = TornFile | LeaseFile lease

record lease_mgr =
  lm_owner :: string
  lm_ttlMs :: int
  lm_now :: int

definition DEFAULT_LEASE_TTL_MS :: int where
  "DEFAULT_LEASE_TTL_MS = 15 * 60000"

record lease_dir =
  ld_files :: "string \<Rightarrow> lfile option"
  ld_written :: "string set"

definition put_lease :: "string \<Rightarrow> lease \<Rightarrow> lease_dir \<Rightarrow> lease_dir" where
  "put_lease p l d = d\<lparr>ld_files := (ld_files d)(p \<mapsto> LeaseFile l), ld_written := insert p (ld_written d)\<rparr>"

lemma put_lease_simps [simp]:
  "ld_files (put_lease p l d) = (ld_files d)(p \<mapsto> LeaseFile l)"
  "ld_written (put_lease p l d) = insert p (ld_written d)"
  by (simp_all add: put_lease_def)

section \<open>Operations\<close>

definition file_char :: "char \<Rightarrow> bool" where
  "file_char c = (is_lower c \<or> is_upper c \<or> is_digit c \<or> c = CHR ''_'' \<or> c = CHR ''.'' \<or> c = CHR ''-'')"

definition pathFor :: "string \<Rightarrow> string" where
  "pathFor taskId = map (\<lambda>c. if file_char c then c else CHR ''_'') taskId @ ''.json''"

definition read_lease :: "string \<Rightarrow> lease_dir \<Rightarrow> lease option" where
  "read_lease taskId d =
    (case ld_files d (pathFor taskId) of
       None \<Rightarrow> None
     | Some TornFile \<Rightarrow> None
     | Some (LeaseFile l) \<Rightarrow> Some l)"

definition isExpired :: "int \<Rightarrow> lease option \<Rightarrow> bool" where
  "isExpired now lo =
    (case lo of
       None \<Rightarrow> True
     | Some l \<Rightarrow> (case date_parse (l_expiresAt l) of None \<Rightarrow> True | Some n \<Rightarrow> n \<le> now))"

definition fresh_lease :: "lease_mgr \<Rightarrow> lease" where
  "fresh_lease m = \<lparr>l_owner = lm_owner m, l_acquiredAt = Iso (lm_now m),
     l_expiresAt = Iso (lm_now m + lm_ttlMs m)\<rparr>"

datatype acquired = Acquired lease | HeldBy string stamp

definition held_elsewhere :: "lease_mgr \<Rightarrow> lease option \<Rightarrow> bool" where
  "held_elsewhere m lo =
    (case lo of None \<Rightarrow> False
     | Some l \<Rightarrow> \<not> isExpired (lm_now m) (Some l) \<and> l_owner l \<noteq> lm_owner m)"

definition acquire :: "lease_mgr \<Rightarrow> string \<Rightarrow> lease_dir \<Rightarrow> lease_dir \<times> acquired" where
  "acquire m taskId d =
    (let p = pathFor taskId; l = fresh_lease m in
     if ld_files d p = None then (put_lease p l d, Acquired l)
     else (case read_lease taskId d of
         Some x \<Rightarrow> if held_elsewhere m (Some x) then (d, HeldBy (l_owner x) (l_expiresAt x))
                   else (put_lease p l d, Acquired l)
       | None \<Rightarrow> (put_lease p l d, Acquired l)))"

definition renew :: "lease_mgr \<Rightarrow> string \<Rightarrow> lease_dir \<Rightarrow> lease_dir \<times> lease option" where
  "renew m taskId d =
    (let ex = read_lease taskId d in
     if held_elsewhere m ex then (d, None)
     else (let l = (fresh_lease m)\<lparr>l_acquiredAt :=
                 (case ex of Some x \<Rightarrow> if l_owner x = lm_owner m then l_acquiredAt x else Iso (lm_now m)
                           | None \<Rightarrow> Iso (lm_now m))\<rparr>
           in (put_lease (pathFor taskId) l d, Some l)))"

definition release :: "lease_mgr \<Rightarrow> string \<Rightarrow> lease_dir \<Rightarrow> lease_dir \<times> bool" where
  "release m taskId d =
    (let p = pathFor taskId in
     if held_elsewhere m (read_lease taskId d) then (d, False)
     else if ld_files d p \<noteq> None
       then (d\<lparr>ld_files := (ld_files d)(p := None), ld_written := insert p (ld_written d)\<rparr>, True)
       else (d, True))"

section \<open>Facts about one operation\<close>

lemma isExpired_simps [simp]:
  "isExpired n None"
  "isExpired n (Some l) = (case date_parse (l_expiresAt l) of None \<Rightarrow> True | Some k \<Rightarrow> k \<le> n)"
  by (simp_all add: isExpired_def)

lemma fresh_lease_simps [simp]:
  "l_owner (fresh_lease m) = lm_owner m"
  "l_acquiredAt (fresh_lease m) = Iso (lm_now m)"
  "l_expiresAt (fresh_lease m) = Iso (lm_now m + lm_ttlMs m)"
  by (simp_all add: fresh_lease_def)

lemma read_put [simp]:
  "read_lease i (put_lease p l d) = (if pathFor i = p then Some l else read_lease i d)"
  by (simp add: read_lease_def)

lemma read_SomeD: "read_lease i d = Some l \<Longrightarrow> ld_files d (pathFor i) = Some (LeaseFile l)"
  by (simp add: read_lease_def split: option.splits lfile.splits)

lemma read_None_if: "ld_files d (pathFor i) = None \<Longrightarrow> read_lease i d = None"
  by (simp add: read_lease_def)

text \<open>\<open>lease_held d i o n\<close>: the file of task \<open>i\<close> holds a lease of owner \<open>o\<close> not expired at \<open>n\<close>.\<close>

definition lease_held :: "lease_dir \<Rightarrow> string \<Rightarrow> string \<Rightarrow> int \<Rightarrow> bool" where
  "lease_held d i ow n =
    (case read_lease i d of None \<Rightarrow> False | Some l \<Rightarrow> l_owner l = ow \<and> \<not> isExpired n (Some l))"

lemma held_elsewhere_if: "lease_held d i ow (lm_now m) \<Longrightarrow> ow \<noteq> lm_owner m \<Longrightarrow> held_elsewhere m (read_lease i d)"
  by (auto simp: lease_held_def held_elsewhere_def split: option.splits)

lemma acquire_held: "acquire m i d = (d', Acquired l) \<Longrightarrow> 0 < lm_ttlMs m \<Longrightarrow>
    lease_held d' i (lm_owner m) n \<longleftrightarrow> n < lm_now m + lm_ttlMs m"
  by (auto simp: acquire_def lease_held_def Let_def split: if_splits option.splits)

lemma acquire_refused:
  assumes "lease_held d i ow (lm_now m)" and "ow \<noteq> lm_owner m"
  shows "\<exists>e. acquire m i d = (d, HeldBy ow e)"
proof -
  from assms(1) obtain l where l: "read_lease i d = Some l" and o: "l_owner l = ow"
    by (auto simp: lease_held_def split: option.splits)
  have "ld_files d (pathFor i) \<noteq> None" using read_SomeD [OF l] by simp
  with l o held_elsewhere_if [OF assms] show ?thesis by (simp add: acquire_def Let_def)
qed

lemma release_gone: "release m i d = (d', True) \<Longrightarrow> ld_files d' (pathFor i) = None"
  by (auto simp: release_def Let_def split: if_splits)

lemma release_frame: "p \<noteq> pathFor i \<Longrightarrow> ld_files (fst (release m i d)) p = ld_files d p"
  by (auto simp: release_def Let_def)

lemma acquire_frame: "p \<noteq> pathFor i \<Longrightarrow> ld_files (fst (acquire m i d)) p = ld_files d p"
  by (auto simp: acquire_def Let_def split: option.splits)

lemma renew_frame: "p \<noteq> pathFor i \<Longrightarrow> ld_files (fst (renew m i d)) p = ld_files d p"
  by (auto simp: renew_def Let_def)

lemma foreign_noop:
  assumes "lease_held d i ow (lm_now m)" and "ow \<noteq> lm_owner m" and "pathFor j = pathFor i"
  shows "fst (acquire m j d) = d" "fst (renew m j d) = d" "fst (release m j d) = d"
proof -
  have r: "read_lease j d = read_lease i d" using assms(3) by (simp add: read_lease_def)
  have h: "held_elsewhere m (read_lease j d)" using held_elsewhere_if [OF assms(1,2)] r by simp
  obtain l where l: "read_lease j d = Some l"
    using assms(1) r by (auto simp: lease_held_def split: option.splits)
  then have f: "ld_files d (pathFor j) = Some (LeaseFile l)" by (rule read_SomeD)
  show "fst (acquire m j d) = d" using f h l by (simp add: acquire_def Let_def)
  show "fst (renew m j d) = d" using h by (simp add: renew_def Let_def)
  show "fst (release m j d) = d" using h by (simp add: release_def Let_def)
qed

section \<open>The contract a client relies on\<close>

text \<open>
  What the pulse's claim loop needs of the leases, and nothing else: a successful acquire
  gives the lease up to its expiry, a held lease refuses every other owner without changing
  anything, and an acquire never takes a lease away. The lemmas are about any provider.
\<close>

text \<open>Claim a list of tasks at one instant: the tasks won, in order.\<close>

fun claim_all :: "('o \<Rightarrow> int \<Rightarrow> 'i \<Rightarrow> 'd \<Rightarrow> 'd \<times> bool) \<Rightarrow> 'o \<Rightarrow> int \<Rightarrow> 'i list \<Rightarrow> 'd \<Rightarrow> 'd \<times> 'i list" where
  "claim_all take_l ow n [] d = (d, [])"
| "claim_all take_l ow n (i # is) d =
     (let (d1, ok) = take_l ow n i d; (d2, won) = claim_all take_l ow n is d1
      in (d2, if ok then i # won else won))"

locale exclusive_leases =
  fixes held :: "'d \<Rightarrow> 'i \<Rightarrow> 'o \<Rightarrow> int \<Rightarrow> bool"
    and take_lease :: "'o \<Rightarrow> int \<Rightarrow> 'i \<Rightarrow> 'd \<Rightarrow> 'd \<times> bool"
    and ttl :: int
  assumes taken_held: "take_lease ow n i d = (d', True) \<Longrightarrow> n \<le> k \<Longrightarrow> k < n + ttl \<Longrightarrow> held d' i ow k"
    and held_refuses: "held d i ow n \<Longrightarrow> ow' \<noteq> ow \<Longrightarrow> take_lease ow' n i d = (d, False)"
    and held_kept: "held d i ow k \<Longrightarrow> n \<le> k \<Longrightarrow> take_lease ow' n j d = (d', b) \<Longrightarrow> ow' \<noteq> ow \<Longrightarrow>
      held d' i ow k"
    and held_kept_own: "held d i ow k \<Longrightarrow> k < n + ttl \<Longrightarrow> take_lease ow n j d = (d', b) \<Longrightarrow>
      held d' i ow k"
begin

lemma claim_all_keeps:
  "claim_all take_lease ow n is d = (d', won) \<Longrightarrow> held d i ow k \<Longrightarrow> k < n + ttl \<Longrightarrow> held d' i ow k"
proof (induction "is" arbitrary: d won)
  case Nil
  then show ?case by simp
next
  case (Cons j js)
  then show ?case by (auto simp: Let_def split: prod.splits intro: held_kept_own)
qed

lemma claim_all_holds:
  "claim_all take_lease ow n is d = (d', won) \<Longrightarrow> i \<in> set won \<Longrightarrow> n \<le> k \<Longrightarrow> k < n + ttl \<Longrightarrow> held d' i ow k"
proof (induction "is" arbitrary: d won)
  case Nil
  then show ?case by simp
next
  case (Cons j js)
  obtain d1 ok where t: "take_lease ow n j d = (d1, ok)" by fastforce
  obtain won1 where c: "claim_all take_lease ow n js d1 = (d', won1)" and w: "won = (if ok then j # won1 else won1)"
    using Cons.prems(1) t by (auto split: prod.splits)
  show ?case
  proof (cases "ok \<and> i = j")
    case True
    then have "held d1 i ow k" using t Cons.prems(3,4) taken_held by auto
    then show ?thesis using c Cons.prems(4) claim_all_keeps by blast
  next
    case False
    then have "i \<in> set won1" using w Cons.prems(2) by (auto split: if_splits)
    then show ?thesis using Cons.IH c Cons.prems(3,4) by blast
  qed
qed

lemma claim_all_foreign:
  "claim_all take_lease ow' n is d = (d', won) \<Longrightarrow> ow' \<noteq> ow \<Longrightarrow> (\<And>k. n \<le> k \<Longrightarrow> k < e \<Longrightarrow> held d i ow k) \<Longrightarrow>
   n < e \<Longrightarrow> i \<notin> set won \<and> (\<forall>k. n \<le> k \<and> k < e \<longrightarrow> held d' i ow k)"
proof (induction "is" arbitrary: d won)
  case Nil
  then show ?case by auto
next
  case (Cons j js)
  obtain d1 ok where t: "take_lease ow' n j d = (d1, ok)" by fastforce
  obtain won1 where c: "claim_all take_lease ow' n js d1 = (d', won1)" and w: "won = (if ok then j # won1 else won1)"
    using Cons.prems(1) t by (auto split: prod.splits)
  have h1: "held d1 i ow k" if "n \<le> k" "k < e" for k
    using held_kept [OF _ that(1) t Cons.prems(2)] Cons.prems(3) that by blast
  have "held d i ow n" using Cons.prems(3,4) by simp
  then have "\<not> (ok \<and> i = j)" using held_refuses Cons.prems(2) t by fastforce
  moreover have "i \<notin> set won1 \<and> (\<forall>k. n \<le> k \<and> k < e \<longrightarrow> held d' i ow k)"
    using Cons.IH [OF c Cons.prems(2) h1 Cons.prems(4)] by blast
  ultimately show ?case using w by auto
qed

lemma overlapping_claims_disjoint:
  assumes "claim_all take_lease a n is d = (d1, won_a)" and "claim_all take_lease b m js d1 = (d2, won_b)"
    and "a \<noteq> b" and "n \<le> m" and "m < n + ttl"
  shows "set won_a \<inter> set won_b = {}"
proof -
  have "i \<notin> set won_b" if "i \<in> set won_a" for i
  proof -
    have h: "held d1 i a k" if "m \<le> k" "k < n + ttl" for k
      using claim_all_holds [OF assms(1) \<open>i \<in> set won_a\<close>] that assms(4) by simp
    show ?thesis using claim_all_foreign [OF assms(2) _ h] assms(3,5) by auto
  qed
  then show ?thesis by blast
qed

end

section \<open>The lease manager keeps the contract\<close>

definition mgr :: "string \<Rightarrow> int \<Rightarrow> lease_mgr" where
  "mgr ow n = \<lparr>lm_owner = ow, lm_ttlMs = DEFAULT_LEASE_TTL_MS, lm_now = n\<rparr>"

lemma mgr_simps [simp]: "lm_owner (mgr ow n) = ow" "lm_now (mgr ow n) = n"
  "lm_ttlMs (mgr ow n) = 900000"
  by (simp_all add: mgr_def DEFAULT_LEASE_TTL_MS_def)

fun won_it :: "acquired \<Rightarrow> bool" where
  "won_it (Acquired _) = True"
| "won_it (HeldBy _ _) = False"

definition take_task :: "string \<Rightarrow> int \<Rightarrow> string \<Rightarrow> lease_dir \<Rightarrow> lease_dir \<times> bool" where
  "take_task ow n i d = (let (d', r) = acquire (mgr ow n) i d in (d', won_it r))"

lemma lease_held_cong: "read_lease i d = read_lease i d' \<Longrightarrow> lease_held d i ow n = lease_held d' i ow n"
  by (simp add: lease_held_def)

lemma lease_held_mono: "lease_held d i ow k \<Longrightarrow> n \<le> k \<Longrightarrow> lease_held d i ow n"
  by (auto simp: lease_held_def split: option.splits)

lemma take_task_held:
  assumes t: "take_task ow n i d = (d', True)" and k: "k < n + 900000"
  shows "lease_held d' i ow k"
proof -
  obtain l where "acquire (mgr ow n) i d = (d', Acquired l)"
    using t by (auto simp: take_task_def split: prod.splits elim: won_it.elims)
  then show ?thesis using acquire_held [of "mgr ow n" i d d' l k] k by simp
qed

lemma acquire_cases: "fst (acquire m j d) = d \<or> fst (acquire m j d) = put_lease (pathFor j) (fresh_lease m) d"
  by (auto simp: acquire_def Let_def split: option.splits)

lemma take_task_kept:
  assumes h: "lease_held d i ow k" and n: "n \<le> k \<or> ow' = ow" and t: "take_task ow' n j d = (d', b)"
    and own: "ow' = ow \<Longrightarrow> k < n + 900000"
  shows "lease_held d' i ow k"
proof (cases "pathFor j = pathFor i")
  case False
  have d': "d' = fst (acquire (mgr ow' n) j d)" using t by (auto simp: take_task_def split: prod.splits)
  from False have "pathFor i \<noteq> pathFor j" by simp
  then have "ld_files d' (pathFor i) = ld_files d (pathFor i)" unfolding d' by (rule acquire_frame)
  then have "read_lease i d' = read_lease i d" by (simp add: read_lease_def)
  with h show ?thesis using lease_held_cong by blast
next
  case True
  have d': "d' = fst (acquire (mgr ow' n) j d)" using t by (auto simp: take_task_def split: prod.splits)
  show ?thesis
  proof (cases "ow' = ow")
    case False
    then have "lease_held d i ow (lm_now (mgr ow' n))" using h n lease_held_mono by auto
    then have "d' = d" using foreign_noop(1) [of d i ow "mgr ow' n" j] False True d' by simp
    with h show ?thesis by simp
  next
    case own': True
    from acquire_cases [of "mgr ow' n" j d] show ?thesis
    proof
      assume "fst (acquire (mgr ow' n) j d) = d"
      with d' h show ?thesis by simp
    next
      assume "fst (acquire (mgr ow' n) j d) = put_lease (pathFor j) (fresh_lease (mgr ow' n)) d"
      then show ?thesis using d' True own own' by (simp add: lease_held_def)
    qed
  qed
qed

interpretation task_leases: exclusive_leases lease_held take_task DEFAULT_LEASE_TTL_MS
proof unfold_locales
  fix ow n i d d' k
  assume "take_task ow n i d = (d', True)" "k < n + DEFAULT_LEASE_TTL_MS"
  then show "lease_held d' i ow k" by (simp add: take_task_held DEFAULT_LEASE_TTL_MS_def)
next
  fix d i ow n ow'
  assume h: "lease_held d i ow n" and ne: "ow' \<noteq> ow"
  obtain e where "acquire (mgr ow' n) i d = (d, HeldBy ow e)"
    using acquire_refused [of d i ow "mgr ow' n"] h ne by auto
  then show "take_task ow' n i d = (d, False)" by (simp add: take_task_def)
next
  fix d i ow k n ow' j d' b
  assume "lease_held d i ow k" "n \<le> k" "take_task ow' n j d = (d', b)" "ow' \<noteq> ow"
  then show "lease_held d' i ow k" using take_task_kept by blast
next
  fix d i ow k n j d' b
  assume "lease_held d i ow k" "k < n + DEFAULT_LEASE_TTL_MS" "take_task ow n j d = (d', b)"
  then show "lease_held d' i ow k"
    using take_task_kept [of d i ow k n ow j d' b] by (simp add: DEFAULT_LEASE_TTL_MS_def)
qed


definition no_leases :: lease_dir where
  "no_leases = \<lparr>ld_files = (\<lambda>_. None), ld_written = {}\<rparr>"


section \<open>A held lease against every other operation\<close>

datatype lease_op = OpAcquire string | OpRenew string | OpRelease string

fun op_task :: "lease_op \<Rightarrow> string" where
  "op_task (OpAcquire i) = i"
| "op_task (OpRenew i) = i"
| "op_task (OpRelease i) = i"

fun run_op :: "lease_mgr \<times> lease_op \<Rightarrow> lease_dir \<Rightarrow> lease_dir" where
  "run_op (m, OpAcquire i) d = fst (acquire m i d)"
| "run_op (m, OpRenew i) d = fst (renew m i d)"
| "run_op (m, OpRelease i) d = fst (release m i d)"

lemma run_op_frame: "pathFor (op_task x) \<noteq> p \<Longrightarrow> ld_files (run_op (m, x) d) p = ld_files d p"
  by (cases x) (simp_all add: acquire_frame renew_frame release_frame)

lemma run_op_keeps_held:
  assumes "lease_held d i ow (lm_now m)" and "ow \<noteq> lm_owner m"
  shows "read_lease i (run_op (m, x) d) = read_lease i d"
proof (cases "pathFor (op_task x) = pathFor i")
  case True
  then have "run_op (m, x) d = d" using foreign_noop [OF assms] by (cases x) simp_all
  then show ?thesis by simp
next
  case False
  then show ?thesis by (simp add: read_lease_def run_op_frame)
qed

lemma foreign_ops_keep:
  assumes "read_lease i d = Some l" and "l_owner l = ow" and "l_expiresAt l = Iso e"
    and "\<forall>x\<in>set ops. lm_owner (fst x) \<noteq> ow \<and> lm_now (fst x) < e"
  shows "read_lease i (fold run_op ops d) = Some l"
  using assms
proof (induction ops arbitrary: d)
  case Nil
  then show ?case by simp
next
  case (Cons x xs)
  obtain m y where x: "x = (m, y)" by (cases x)
  have "lease_held d i ow (lm_now m)" using Cons.prems x by (simp add: lease_held_def)
  then have "read_lease i (run_op x d) = Some l"
    using run_op_keeps_held [of d i ow m y] Cons.prems x by auto
  then show ?case using Cons by simp
qed

text \<open>C21. A lease is exclusive until it expires: after an acquire by one owner, no sequence of
  acquires, renewals and releases by other owners, at any times before the expiry and on any
  tasks, removes or replaces it, and each acquire of that task by another owner in that time
  is refused with the holder's name and expiry.\<close>

theorem lease_exclusive_until_expiry:
  assumes "acquire m i d = (d1, Acquired l)"
    and "\<forall>x\<in>set ops. lm_owner (fst x) \<noteq> lm_owner m \<and> lm_now (fst x) < lm_now m + lm_ttlMs m"
    and "lm_owner m' \<noteq> lm_owner m" and "lm_now m' < lm_now m + lm_ttlMs m"
  shows "acquire m' i (fold run_op ops d1) =
    (fold run_op ops d1, HeldBy (lm_owner m) (Iso (lm_now m + lm_ttlMs m)))"
proof -
  have l: "l = fresh_lease m" and r: "read_lease i d1 = Some l"
    using assms(1) by (auto simp: acquire_def Let_def split: if_splits option.splits)
  let ?d = "fold run_op ops d1"
  have rd: "read_lease i ?d = Some l"
    using foreign_ops_keep [OF r, of "lm_owner m" "lm_now m + lm_ttlMs m" ops] assms(2) l by simp
  then show ?thesis
    using read_SomeD [OF rd] assms(3,4) l
    by (simp add: acquire_def Let_def held_elsewhere_def)
qed

theorem lease_exclusive_until_expiry_witness:
  "snd (acquire (mgr ''b'' 100) ''t''
     (fold run_op [(mgr ''b'' 50, OpRelease ''t''), (mgr ''c'' 60, OpRenew ''t'')]
       (fst (acquire (mgr ''a'' 0) ''t'' no_leases)))) = HeldBy ''a'' (Iso 900000)"
proof -
  have a: "acquire (mgr ''a'' 0) ''t'' no_leases =
      (put_lease (pathFor ''t'') (fresh_lease (mgr ''a'' 0)) no_leases, Acquired (fresh_lease (mgr ''a'' 0)))"
    by (simp add: acquire_def no_leases_def Let_def)
  show ?thesis
    using lease_exclusive_until_expiry [OF a, of "[(mgr ''b'' 50, OpRelease ''t''), (mgr ''c'' 60, OpRenew ''t'')]" "mgr ''b'' 100"]
    by (simp add: a del: fold_simps)
qed

section \<open>Two acquirers interleaved\<close>

text \<open>
  What \<open>acquire\<close> does to the disk, one call at a time: the exclusive create (\<open>wx\<close>), the
  read with the decision, the replacement by rename. Each is atomic; between them the other
  process may run.
\<close>

datatype acq_pc = AcqStart | AcqExists | AcqReplace | AcqWon | AcqLost

definition acq_micro :: "lease_mgr \<Rightarrow> string \<Rightarrow> acq_pc \<Rightarrow> lease_dir \<Rightarrow> acq_pc \<times> lease_dir" where
  "acq_micro m i pc d =
    (let p = pathFor i; l = fresh_lease m in
     (case pc of
        AcqStart \<Rightarrow> if ld_files d p = None then (AcqWon, put_lease p l d) else (AcqExists, d)
      | AcqExists \<Rightarrow> if held_elsewhere m (read_lease i d) then (AcqLost, d) else (AcqReplace, d)
      | AcqReplace \<Rightarrow> (AcqWon, put_lease p l d)
      | AcqWon \<Rightarrow> (AcqWon, d)
      | AcqLost \<Rightarrow> (AcqLost, d)))"

lemma acquire_is_three_steps:
  "acquire m i d =
    (let (pc1, d1) = acq_micro m i AcqStart d; (pc2, d2) = acq_micro m i pc1 d1;
         (pc3, d3) = acq_micro m i pc2 d2
     in (d3, if pc3 = AcqWon then Acquired (fresh_lease m)
             else (case read_lease i d of Some x \<Rightarrow> HeldBy (l_owner x) (l_expiresAt x)
                   | None \<Rightarrow> HeldBy [] (Iso 0))))"
  by (auto simp: acquire_def acq_micro_def Let_def held_elsewhere_def split: option.splits)

text \<open>A race of two managers over one task: the disk and both program counters. \<open>True\<close>
  schedules the first process.\<close>

inductive race_step :: "lease_mgr \<Rightarrow> lease_mgr \<Rightarrow> string \<Rightarrow>
    lease_dir \<times> acq_pc \<times> acq_pc \<Rightarrow> lease_dir \<times> acq_pc \<times> acq_pc \<Rightarrow> bool" for m1 m2 i where
  first_moves: "acq_micro m1 i p d = (p', d') \<Longrightarrow> race_step m1 m2 i (d, p, q) (d', p', q)"
| second_moves: "acq_micro m2 i q d = (q', d') \<Longrightarrow> race_step m1 m2 i (d, p, q) (d', p, q')"

inductive race_run :: "lease_mgr \<Rightarrow> lease_mgr \<Rightarrow> string \<Rightarrow>
    lease_dir \<times> acq_pc \<times> acq_pc \<Rightarrow> lease_dir \<times> acq_pc \<times> acq_pc \<Rightarrow> bool" for m1 m2 i where
  race_done: "race_run m1 m2 i s s"
| race_more: "race_run m1 m2 i s t \<Longrightarrow> race_step m1 m2 i t u \<Longrightarrow> race_run m1 m2 i s u"

inductive_cases race_stepE: "race_step m1 m2 i s t"

text \<open>Who can be where while the file holds a live lease of one of them.\<close>

definition race_inv :: "lease_mgr \<Rightarrow> lease_mgr \<Rightarrow> string \<Rightarrow> lease_dir \<times> acq_pc \<times> acq_pc \<Rightarrow> bool" where
  "race_inv m1 m2 i s =
    (case s of (d, p, q) \<Rightarrow>
      (ld_files d (pathFor i) = None \<and> p = AcqStart \<and> q = AcqStart) \<or>
      (ld_files d (pathFor i) = Some (LeaseFile (fresh_lease m1)) \<and> p = AcqWon \<and> q \<in> {AcqStart, AcqExists, AcqLost}) \<or>
      (ld_files d (pathFor i) = Some (LeaseFile (fresh_lease m2)) \<and> q = AcqWon \<and> p \<in> {AcqStart, AcqExists, AcqLost}))"

lemma race_step_inv:
  assumes "race_step m1 m2 i s t" and "race_inv m1 m2 i s"
    and ne: "lm_owner m1 \<noteq> lm_owner m2"
    and live: "lm_now m2 < lm_now m1 + lm_ttlMs m1" "lm_now m1 < lm_now m2 + lm_ttlMs m2"
  shows "race_inv m1 m2 i t"
  using assms(1,2)
proof (cases rule: race_step.cases)
  case (first_moves p d p' d' q)
  then show ?thesis using assms(2) ne live
    by (auto simp: race_inv_def acq_micro_def Let_def held_elsewhere_def read_lease_def split: if_splits)
next
  case (second_moves q d q' d' p)
  then show ?thesis using assms(2) ne live
    by (auto simp: race_inv_def acq_micro_def Let_def held_elsewhere_def read_lease_def split: if_splits)
qed

lemma race_run_inv:
  assumes "race_run m1 m2 i s t" and "race_inv m1 m2 i s"
    and "lm_owner m1 \<noteq> lm_owner m2"
    and "lm_now m2 < lm_now m1 + lm_ttlMs m1" "lm_now m1 < lm_now m2 + lm_ttlMs m2"
  shows "race_inv m1 m2 i t"
  using assms by (induction rule: race_run.induct) (auto intro: race_step_inv)

text \<open>The exclusive create is a lock: when a task has no lease file, two processes that acquire
  it within each other's lifetime never both win, however their file-system calls interleave.\<close>

theorem fresh_acquire_race_one_winner:
  assumes "race_run m1 m2 i (d, AcqStart, AcqStart) (d', p, q)"
    and "ld_files d (pathFor i) = None" and "lm_owner m1 \<noteq> lm_owner m2"
    and "lm_now m2 < lm_now m1 + lm_ttlMs m1" and "lm_now m1 < lm_now m2 + lm_ttlMs m2"
  shows "\<not> (p = AcqWon \<and> q = AcqWon)"
proof -
  have "race_inv m1 m2 i (d, AcqStart, AcqStart)" using assms(2) by (simp add: race_inv_def)
  then have "race_inv m1 m2 i (d', p, q)" using race_run_inv assms(1,3-5) by blast
  then show ?thesis by (auto simp: race_inv_def)
qed

lemma race_run_micro1:
  "race_run m1 m2 i s (d, p, q) \<Longrightarrow> acq_micro m1 i p d = (p', d') \<Longrightarrow> race_run m1 m2 i s (d', p', q)"
  by (blast intro: race_more first_moves)

lemma race_run_micro2:
  "race_run m1 m2 i s (d, p, q) \<Longrightarrow> acq_micro m2 i q d = (q', d') \<Longrightarrow> race_run m1 m2 i s (d', p, q')"
  by (blast intro: race_more second_moves)

theorem fresh_acquire_race_one_winner_witness:
  "\<exists>d' p q. race_run (mgr ''a'' 0) (mgr ''b'' 1) ''t'' (no_leases, AcqStart, AcqStart) (d', p, q) \<and>
     p = AcqWon \<and> q = AcqExists \<and> \<not> (p = AcqWon \<and> q = AcqWon)"
proof -
  let ?d = "put_lease (pathFor ''t'') (fresh_lease (mgr ''a'' 0)) no_leases"
  have "race_run (mgr ''a'' 0) (mgr ''b'' 1) ''t'' (no_leases, AcqStart, AcqStart) (?d, AcqWon, AcqStart)"
    by (rule race_run_micro1 [OF race_done]) (simp add: acq_micro_def no_leases_def)
  then have r: "race_run (mgr ''a'' 0) (mgr ''b'' 1) ''t'' (no_leases, AcqStart, AcqStart) (?d, AcqWon, AcqExists)"
    by (rule race_run_micro2) (simp add: acq_micro_def)
  have "\<not> (AcqWon = AcqWon \<and> AcqExists = AcqWon)"
    by (rule fresh_acquire_race_one_winner [OF r]) (simp_all add: no_leases_def)
  with r show ?thesis by blast
qed

text \<open>Replacing an expired lease is not a lock: from any expired lease file, two processes that
  both read it before either replaces it both come back as the owner, at the same instant.\<close>

theorem expired_lease_race_two_winners:
  assumes "read_lease i d = Some l" and "l_expiresAt l = Iso e"
    and "e \<le> lm_now m1" and "e \<le> lm_now m2"
  shows "\<exists>d'. race_run m1 m2 i (d, AcqStart, AcqStart) (d', AcqWon, AcqWon)"
proof -
  have f: "ld_files d (pathFor i) = Some (LeaseFile l)" using assms(1) by (rule read_SomeD)
  let ?s = "(d, AcqStart, AcqStart)"
  have "race_run m1 m2 i ?s (d, AcqExists, AcqStart)"
    by (rule race_run_micro1 [OF race_done]) (simp add: acq_micro_def f)
  then have "race_run m1 m2 i ?s (d, AcqExists, AcqExists)"
    by (rule race_run_micro2) (simp add: acq_micro_def f)
  then have "race_run m1 m2 i ?s (d, AcqReplace, AcqExists)"
    by (rule race_run_micro1) (simp add: acq_micro_def held_elsewhere_def assms)
  then have "race_run m1 m2 i ?s (d, AcqReplace, AcqReplace)"
    by (rule race_run_micro2) (simp add: acq_micro_def held_elsewhere_def assms)
  then have "race_run m1 m2 i ?s (put_lease (pathFor i) (fresh_lease m1) d, AcqWon, AcqReplace)"
    by (rule race_run_micro1) (simp add: acq_micro_def)
  then have "race_run m1 m2 i ?s
      (put_lease (pathFor i) (fresh_lease m2) (put_lease (pathFor i) (fresh_lease m1) d), AcqWon, AcqWon)"
    by (rule race_run_micro2) (simp add: acq_micro_def)
  then show ?thesis by blast
qed

definition stale_dir :: lease_dir where
  "stale_dir = put_lease (pathFor ''t'') (fresh_lease (mgr ''dead'' 0)) no_leases"

theorem expired_lease_race_two_winners_witness:
  "\<exists>d'. race_run (mgr ''a'' 900000) (mgr ''b'' 900001) ''t'' (stale_dir, AcqStart, AcqStart) (d', AcqWon, AcqWon)"
  by (rule expired_lease_race_two_winners [where l = "fresh_lease (mgr ''dead'' 0)" and e = 900000])
    (simp_all add: stale_dir_def)

end
