(* ===== verification/Reconcile.thy ===== *)
theory Reconcile
  imports Leases
begin

text \<open>
  The sweep that opens every pulse, \<open>src/task/reconcile.js\<close>, over the task list, the lease
  directory and the checkpoint files. The task objects are shared between the list and the
  \<open>byId\<close> map, so a decision on a later task sees what the sweep did to an earlier one: the
  model looks dependencies up in the current list. The sweep reads one instant.
\<close>

section \<open>State\<close>

record counts =
  n_reclaimed :: nat
  n_deadLettered :: nat
  n_woken :: nat
  n_expired :: nat
  n_orphansRemoved :: nat
  n_dependencyFailed :: nat

definition no_counts :: counts where
  "no_counts = \<lparr>n_reclaimed = 0, n_deadLettered = 0, n_woken = 0, n_expired = 0,
     n_orphansRemoved = 0, n_dependencyFailed = 0\<rparr>"

record sweep =
  sw_tasks :: "task list"
  sw_leases :: lease_dir
  sw_checkpoints :: "string list"
  sw_counts :: counts
  sw_events :: "tevent list"

record ttls =
  approvalTtlMs :: int
  pauseTtlMs :: int
  prOpenTtlMs :: int

definition DEFAULT_TTLS :: ttls where
  "DEFAULT_TTLS = \<lparr>approvalTtlMs = 7 * 86400000, pauseTtlMs = 7 * 86400000, prOpenTtlMs = 30 * 86400000\<rparr>"

text \<open>\<open>safeName\<close> of the state store, and the two checkpoint operations the sweep calls.\<close>

definition safeName :: "string \<Rightarrow> string" where
  "safeName i = take 100 (map (\<lambda>c. if file_char c then c else CHR ''_'') i)"

definition deleteCheckpoint :: "string \<Rightarrow> string list \<Rightarrow> string list" where
  "deleteCheckpoint i cps = filter (\<lambda>f. f \<noteq> safeName i) cps"

definition by_id :: "task list \<Rightarrow> string \<Rightarrow> task option" where
  "by_id ts i = List.find (\<lambda>t. t_id t = i) (rev ts)"

definition upd_counts :: "(counts \<Rightarrow> counts) \<Rightarrow> sweep \<Rightarrow> sweep" where
  "upd_counts f s = s\<lparr>sw_counts := f (sw_counts s)\<rparr>"

definition release_task :: "lease_mgr \<Rightarrow> string \<Rightarrow> sweep \<Rightarrow> sweep" where
  "release_task m i s = s\<lparr>sw_leases := fst (release m i (sw_leases s))\<rparr>"

definition drop_checkpoint :: "string \<Rightarrow> sweep \<Rightarrow> sweep" where
  "drop_checkpoint i s = s\<lparr>sw_checkpoints := deleteCheckpoint i (sw_checkpoints s)\<rparr>"

text \<open>\<open>transition(task, to, \<dots>)\<close> on the task at one position: the list holds the mutated object.\<close>

definition move_task :: "nat \<Rightarrow> task \<Rightarrow> string \<Rightarrow> ctx \<Rightarrow> sweep \<Rightarrow> lc_error + sweep" where
  "move_task k t to c s =
    res_bind (transition t to c)
      (\<lambda>(t', e). Inr (s\<lparr>sw_tasks := (sw_tasks s)[k := t'], sw_events := sw_events s @ [e]\<rparr>))"

section \<open>The decisions on one task\<close>

definition base_ctx :: "lease_mgr \<Rightarrow> string \<Rightarrow> ctx" where
  "base_ctx m reason = (ctx_at (lm_now m))\<lparr>c_by := Some ''reconcile'', c_reason := Some reason\<rparr>"

definition err_ctx :: "lease_mgr \<Rightarrow> string \<Rightarrow> string \<Rightarrow> ctx" where
  "err_ctx m reason err = (base_ctx m reason)\<lparr>c_error := Some (Some err)\<rparr>"

definition fail_ctx :: "lease_mgr \<Rightarrow> string \<Rightarrow> string \<Rightarrow> string \<Rightarrow> string \<Rightarrow> string \<Rightarrow> ctx" where
  "fail_ctx m reason err cls code msg = (err_ctx m reason err)\<lparr>c_failure :=
     Some (Some \<lparr>f_class = cls, f_code = Some code, f_message = msg, f_at = Iso (lm_now m)\<rparr>)\<rparr>"

definition past :: "lease_mgr \<Rightarrow> stamp option \<Rightarrow> bool" where
  "past m x = (case x of None \<Rightarrow> False | Some s \<Rightarrow> parsed_le s (lm_now m))"

text \<open>\<open>Number.isFinite(since) && nowMs() - since > ttl\<close>.\<close>

definition overdue :: "lease_mgr \<Rightarrow> stamp \<Rightarrow> int \<Rightarrow> bool" where
  "overdue m since ttl = (case date_parse since of None \<Rightarrow> False | Some n \<Rightarrow> ttl < lm_now m - n)"

definition expire_task :: "lease_mgr \<Rightarrow> nat \<Rightarrow> task \<Rightarrow> string \<Rightarrow> string \<Rightarrow> sweep \<Rightarrow> lc_error + sweep" where
  "expire_task m k t reason err s =
    res_bind (move_task k t ''expired'' (err_ctx m reason err) s)
      (\<lambda>s1. Inr (release_task m (t_id t) (upd_counts (\<lambda>c. c\<lparr>n_expired := Suc (n_expired c)\<rparr>) s1)))"

definition lease_live :: "lease_mgr \<Rightarrow> lease option \<Rightarrow> bool" where
  "lease_live m lo = (lo \<noteq> None \<and> \<not> isExpired (lm_now m) lo)"

definition reconcile_running :: "lease_mgr \<Rightarrow> nat \<Rightarrow> task \<Rightarrow> sweep \<Rightarrow> lc_error + sweep" where
  "reconcile_running m k t s =
    (if lease_live m (read_lease (t_id t) (sw_leases s)) \<or> lease_live m (t_lease t) then Inr s
     else
       (let n = dflt (t_attempts t) 0 + 1; mx = dflt (t_maxAttempts t) 3;
            t1 = t\<lparr>t_attempts := Some n\<rparr>
        in res_bind
          (if mx \<le> n
           then res_bind (move_task k t1 ''dead-lettered''
                  (fail_ctx m (''lease expired '' @ show_nat n @ '' times'')
                     (''Dead-lettered: the pulse running this task died '' @ show_nat n
                        @ '' times (attempt ceiling '' @ show_nat mx @ '').'')
                     ''poisoned'' ''LEASE_CHURN'' ''repeated pulse deaths while running this task'') s)
                  (\<lambda>s1. Inr (drop_checkpoint (t_id t)
                     (upd_counts (\<lambda>c. c\<lparr>n_deadLettered := Suc (n_deadLettered c)\<rparr>) s1)))
           else res_bind (move_task k t1 ''pending''
                  (base_ctx m (''lease expired (attempt '' @ show_nat n @ ''); checkpoint retained'')) s)
                  (\<lambda>s1. Inr (upd_counts (\<lambda>c. c\<lparr>n_reclaimed := Suc (n_reclaimed c)\<rparr>) s1)))
          (\<lambda>s2. Inr (release_task m (t_id t) s2))))"

definition failed_dep :: "task \<Rightarrow> bool" where
  "failed_dep d = (isTerminal (t_status d) \<and> t_status d \<noteq> Complete)"

definition reconcile_dependency :: "lease_mgr \<Rightarrow> nat \<Rightarrow> task \<Rightarrow> sweep \<Rightarrow> lc_error + sweep" where
  "reconcile_dependency m k t s =
    (let deps = List.map_filter (by_id (sw_tasks s)) (t_dependsOn t) in
     (case List.find failed_dep deps of
        Some d \<Rightarrow>
          (let why = t_id d @ '' ended '' @ status_name (t_status d) in
           res_bind (move_task k t ''dead-lettered''
             (fail_ctx m (''dependency '' @ why)
               (''Dead-lettered: depends on '' @ t_id d @ '', which ended '' @ status_name (t_status d) @ ''.'')
               ''permanent'' ''DEPENDENCY_FAILED'' (''dependency '' @ why)) s)
             (\<lambda>s1. Inr (upd_counts (\<lambda>c. c\<lparr>n_dependencyFailed := Suc (n_dependencyFailed c)\<rparr>) s1)))
      | None \<Rightarrow>
          if list_all (\<lambda>i. case by_id (sw_tasks s) i of None \<Rightarrow> False | Some d \<Rightarrow> t_status d = Complete)
               (t_dependsOn t)
          then res_bind (move_task k t ''pending'' (base_ctx m ''dependencies complete'') s)
             (\<lambda>s1. Inr (upd_counts (\<lambda>c. c\<lparr>n_woken := Suc (n_woken c)\<rparr>) s1))
          else Inr s))"

definition reconcile_waiting :: "ttls \<Rightarrow> lease_mgr \<Rightarrow> nat \<Rightarrow> task \<Rightarrow> sweep \<Rightarrow> lc_error + sweep" where
  "reconcile_waiting ttl m k t s =
    (if t_waitReason t = Some WDependency then reconcile_dependency m k t s
     else if t_waitReason t = Some WApproval then
       (if overdue m (dflt (t_wakeAt t) (t_createdAt t)) (approvalTtlMs ttl)
        then res_bind (move_task k t ''expired''
               (err_ctx m ''approval never arrived'' ''Expired: waited for approval past the approval TTL.'') s)
               (\<lambda>s1. Inr (upd_counts (\<lambda>c. c\<lparr>n_expired := Suc (n_expired c)\<rparr>) s1))
        else Inr s)
     else if past m (t_wakeAt t)
       then res_bind (move_task k t ''pending''
              (base_ctx m (''woke from '' @ (case t_waitReason t of None \<Rightarrow> ''null'' | Some r \<Rightarrow> wait_reason_name r))) s)
              (\<lambda>s1. Inr (upd_counts (\<lambda>c. c\<lparr>n_woken := Suc (n_woken c)\<rparr>) s1))
     else Inr s)"

definition reconcile_paused :: "ttls \<Rightarrow> lease_mgr \<Rightarrow> nat \<Rightarrow> task \<Rightarrow> sweep \<Rightarrow> lc_error + sweep" where
  "reconcile_paused ttl m k t s =
    (let since = (if t_history t = [] then t_createdAt t else h_at (last (t_history t))) in
     if overdue m since (pauseTtlMs ttl)
     then res_bind (move_task k t ''expired''
            (err_ctx m ''paused past the pause TTL'' ''Expired: paused for longer than the pause TTL.'') s)
            (\<lambda>s1. Inr (upd_counts (\<lambda>c. c\<lparr>n_expired := Suc (n_expired c)\<rparr>) s1))
     else Inr s)"

definition reconcile_pr_open :: "ttls \<Rightarrow> lease_mgr \<Rightarrow> nat \<Rightarrow> task \<Rightarrow> sweep \<Rightarrow> lc_error + sweep" where
  "reconcile_pr_open ttl m k t s =
    (if overdue m (dflt (t_completedAt t) (t_createdAt t)) (prOpenTtlMs ttl)
     then res_bind (move_task k t ''cancelled''
            (err_ctx m ''self-improve PR abandoned past its TTL''
               ''Cancelled: the pull request stayed open past the PR TTL without a decision.'') s)
            (\<lambda>s1. Inr (upd_counts (\<lambda>c. c\<lparr>n_expired := Suc (n_expired c)\<rparr>) s1))
     else Inr s)"

definition reconcile_task :: "ttls \<Rightarrow> lease_mgr \<Rightarrow> nat \<Rightarrow> sweep \<Rightarrow> lc_error + sweep" where
  "reconcile_task ttl m k s =
    (let t = sw_tasks s ! k in
     if isTerminal (t_status t) then Inr s
     else if past m (t_expiresAt t) \<and> t_status t \<noteq> PrOpen
       then expire_task m k t ''ttl expired before completion''
              ''Expired: the task passed its TTL before it could finish.'' s
     else if past m (t_deadline t) \<and> t_status t \<noteq> PrOpen
       then expire_task m k t ''deadline passed''
              ''Expired: the deadline passed before the task could finish.'' s
     else (case t_status t of
         Running \<Rightarrow> reconcile_running m k t s
       | Waiting \<Rightarrow> reconcile_waiting ttl m k t s
       | Paused \<Rightarrow> reconcile_paused ttl m k t s
       | PrOpen \<Rightarrow> reconcile_pr_open ttl m k t s
       | _ \<Rightarrow> Inr s))"

section \<open>The whole sweep\<close>

fun sweep_from :: "ttls \<Rightarrow> lease_mgr \<Rightarrow> nat list \<Rightarrow> sweep \<Rightarrow> lc_error + sweep" where
  "sweep_from ttl m [] s = Inr s"
| "sweep_from ttl m (k # ks) s = res_bind (reconcile_task ttl m k s) (sweep_from ttl m ks)"

definition live_ids :: "task list \<Rightarrow> string list" where
  "live_ids ts = map t_id (filter (\<lambda>t. \<not> isTerminal (t_status t)) ts)"

definition orphan_count :: "sweep \<Rightarrow> sweep" where
  "orphan_count = upd_counts (\<lambda>c. c\<lparr>n_orphansRemoved := Suc (n_orphansRemoved c)\<rparr>)"

fun drop_orphan_checkpoints :: "string list \<Rightarrow> string list \<Rightarrow> sweep \<Rightarrow> sweep" where
  "drop_orphan_checkpoints live [] s = s"
| "drop_orphan_checkpoints live (i # is) s =
     drop_orphan_checkpoints live is
       (if i \<in> set live then s else orphan_count (drop_checkpoint i s))"

fun drop_orphan_leases :: "lease_mgr \<Rightarrow> task list \<Rightarrow> sweep \<Rightarrow> sweep" where
  "drop_orphan_leases m [] s = s"
| "drop_orphan_leases m (t # ts) s =
     drop_orphan_leases m ts
       (if isTerminal (t_status t) \<and> read_lease (t_id t) (sw_leases s) \<noteq> None
        then orphan_count (release_task m (t_id t) s) else s)"

definition reconcile :: "ttls \<Rightarrow> lease_mgr \<Rightarrow> sweep \<Rightarrow> lc_error + sweep" where
  "reconcile ttl m s =
    res_bind (sweep_from ttl m [0..<length (sw_tasks s)] (s\<lparr>sw_counts := no_counts\<rparr>))
      (\<lambda>s1. Inr (drop_orphan_leases m (sw_tasks s1)
         (drop_orphan_checkpoints (live_ids (sw_tasks s1)) (sw_checkpoints s1) s1)))"

section \<open>Each decision is a legal move\<close>

lemma upd_counts_simps [simp]:
  "sw_tasks (upd_counts f s) = sw_tasks s" "sw_leases (upd_counts f s) = sw_leases s"
  "sw_checkpoints (upd_counts f s) = sw_checkpoints s" "sw_events (upd_counts f s) = sw_events s"
  by (simp_all add: upd_counts_def)

lemma release_task_simps [simp]:
  "sw_tasks (release_task m i s) = sw_tasks s"
  "sw_leases (release_task m i s) = fst (release m i (sw_leases s))"
  "sw_checkpoints (release_task m i s) = sw_checkpoints s"
  by (simp_all add: release_task_def)

lemma drop_checkpoint_simps [simp]:
  "sw_tasks (drop_checkpoint i s) = sw_tasks s" "sw_leases (drop_checkpoint i s) = sw_leases s"
  "sw_checkpoints (drop_checkpoint i s) = deleteCheckpoint i (sw_checkpoints s)"
  by (simp_all add: drop_checkpoint_def)

lemma ctx_simps [simp]:
  "c_now (base_ctx m r) = lm_now m" "c_now (err_ctx m r e) = lm_now m"
  "c_now (fail_ctx m r e cl co ms) = lm_now m"
  by (simp_all add: base_ctx_def err_ctx_def fail_ctx_def ctx_at_def)

definition moved :: "nat \<Rightarrow> task \<Rightarrow> status \<Rightarrow> ctx \<Rightarrow> sweep \<Rightarrow> sweep" where
  "moved k t st c s = s\<lparr>sw_tasks := (sw_tasks s)[k := transition_body t st c],
     sw_events := sw_events s @ [transition_event (t_status t) st c (transition_body t st c)]\<rparr>"

lemma moved_simps [simp]:
  "sw_tasks (moved k t st c s) = (sw_tasks s)[k := transition_body t st c]"
  "sw_leases (moved k t st c s) = sw_leases s"
  "sw_checkpoints (moved k t st c s) = sw_checkpoints s"
  by (simp_all add: moved_def)

lemma move_ok:
  "status_of to = Some st \<Longrightarrow> canTransition (t_status t) st \<Longrightarrow> st \<noteq> Waiting \<Longrightarrow>
   move_task k t to c s = Inr (moved k t st c s)"
  by (simp add: move_task_def transition_def Let_def moved_def)

lemmas move_oks =
  move_ok [where to = "''expired''" and st = Expired]
  move_ok [where to = "''dead-lettered''" and st = DeadLettered]
  move_ok [where to = "''pending''" and st = Pending]
  move_ok [where to = "''cancelled''" and st = Cancelled]

text \<open>What the sweep may do to one task: leave it, or move it legally, having counted an attempt.\<close>

definition sweep_move :: "lease_mgr \<Rightarrow> task \<Rightarrow> task \<Rightarrow> bool" where
  "sweep_move m t t' \<longleftrightarrow> t' = t \<or>
     (\<exists>n st c. canTransition (t_status t) st \<and> st \<noteq> Waiting \<and> c_now c = lm_now m \<and>
        (n = t_attempts t \<or> t_status t = Running) \<and> t' = transition_body (t\<lparr>t_attempts := n\<rparr>) st c)"

lemma sweep_move_refl [simp]: "sweep_move m t t"
  by (simp add: sweep_move_def)

lemma sweep_move_body:
  "canTransition (t_status t) st \<Longrightarrow> st \<noteq> Waiting \<Longrightarrow> c_now c = lm_now m \<Longrightarrow>
   sweep_move m t (transition_body t st c)"
proof -
  assume a: "canTransition (t_status t) st" "st \<noteq> Waiting" "c_now c = lm_now m"
  have "t\<lparr>t_attempts := t_attempts t\<rparr> = t" by simp
  with a show ?thesis unfolding sweep_move_def by metis
qed

lemma sweep_move_attempt:
  "canTransition (t_status t) st \<Longrightarrow> st \<noteq> Waiting \<Longrightarrow> c_now c = lm_now m \<Longrightarrow> t_status t = Running \<Longrightarrow>
   sweep_move m t (transition_body (t\<lparr>t_attempts := n\<rparr>) st c)"
  by (auto simp: sweep_move_def)

definition step_ok :: "lease_mgr \<Rightarrow> nat \<Rightarrow> sweep \<Rightarrow> lc_error + sweep \<Rightarrow> bool" where
  "step_ok m k s r \<longleftrightarrow> (\<exists>s' t'. r = Inr s' \<and> sw_tasks s' = (sw_tasks s)[k := t'] \<and>
     sweep_move m (sw_tasks s ! k) t')"

lemma step_okI:
  "sw_tasks s' = (sw_tasks s)[k := t'] \<Longrightarrow> sweep_move m (sw_tasks s ! k) t' \<Longrightarrow> step_ok m k s (Inr s')"
  by (auto simp: step_ok_def)

lemma step_ok_same: "step_ok m k s (Inr s)"
  by (rule step_okI [where t' = "sw_tasks s ! k"]) simp_all

lemma running_ok:
  "t = sw_tasks s ! k \<Longrightarrow> t_status t = Running \<Longrightarrow> step_ok m k s (reconcile_running m k t s)"
  by (auto simp: reconcile_running_def Let_def move_oks canTransition_def step_ok_same
      intro!: step_okI sweep_move_attempt)

lemma waiting_ok:
  "t = sw_tasks s ! k \<Longrightarrow> t_status t = Waiting \<Longrightarrow> step_ok m k s (reconcile_waiting ttl m k t s)"
  by (auto simp: reconcile_waiting_def reconcile_dependency_def Let_def move_oks canTransition_def
      step_ok_same split: option.splits intro!: step_okI sweep_move_body)

lemma paused_ok:
  "t = sw_tasks s ! k \<Longrightarrow> t_status t = Paused \<Longrightarrow> step_ok m k s (reconcile_paused ttl m k t s)"
  by (auto simp: reconcile_paused_def Let_def move_oks canTransition_def step_ok_same
      intro!: step_okI sweep_move_body)

lemma pr_open_ok:
  "t = sw_tasks s ! k \<Longrightarrow> t_status t = PrOpen \<Longrightarrow> step_ok m k s (reconcile_pr_open ttl m k t s)"
  by (auto simp: reconcile_pr_open_def move_oks canTransition_def step_ok_same
      intro!: step_okI sweep_move_body)

lemma can_expire: "\<not> isTerminal st \<Longrightarrow> st \<noteq> PrOpen \<Longrightarrow> canTransition st Expired"
  by (cases st) (simp_all add: canTransition_def)

lemma expire_ok:
  "t = sw_tasks s ! k \<Longrightarrow> \<not> isTerminal (t_status t) \<Longrightarrow> t_status t \<noteq> PrOpen \<Longrightarrow>
   step_ok m k s (expire_task m k t r e s)"
  by (auto simp: expire_task_def move_oks can_expire intro!: step_okI sweep_move_body)

lemma reconcile_task_ok: "step_ok m k s (reconcile_task ttl m k s)"
proof -
  let ?t = "sw_tasks s ! k"
  show ?thesis
  proof (cases "isTerminal (t_status ?t)")
    case True
    then show ?thesis by (simp add: reconcile_task_def Let_def step_ok_same)
  next
    case False
    then show ?thesis
      by (cases "t_status ?t")
        (simp_all add: reconcile_task_def Let_def expire_ok running_ok waiting_ok paused_ok pr_open_ok step_ok_same)
  qed
qed

lemma reconcile_taskE:
  obtains s' t' where "reconcile_task ttl m k s = Inr s'" "sw_tasks s' = (sw_tasks s)[k := t']"
    "sweep_move m (sw_tasks s ! k) t'"
  using reconcile_task_ok [of m k s ttl] by (auto simp: step_ok_def)

lemma sweep_from_total: "\<exists>s'. sweep_from ttl m ks s = Inr s' \<and> length (sw_tasks s') = length (sw_tasks s)"
proof (induction ks arbitrary: s)
  case Nil
  then show ?case by simp
next
  case (Cons k ks)
  obtain s1 t' where "reconcile_task ttl m k s = Inr s1" "sw_tasks s1 = (sw_tasks s)[k := t']"
    by (rule reconcile_taskE)
  with Cons [of s1] show ?case by simp
qed

lemma sweep_from_other: "j \<notin> set ks \<Longrightarrow> sweep_from ttl m ks s = Inr s' \<Longrightarrow> sw_tasks s' ! j = sw_tasks s ! j"
proof (induction ks arbitrary: s)
  case Nil
  then show ?case by simp
next
  case (Cons k ks)
  obtain s1 t' where "reconcile_task ttl m k s = Inr s1" "sw_tasks s1 = (sw_tasks s)[k := t']"
    by (rule reconcile_taskE)
  with Cons show ?case by simp
qed

text \<open>The state in which task \<open>k\<close> is looked at, and the task the sweep leaves there.\<close>

lemma sweep_from_visit:
  "distinct ks \<Longrightarrow> k \<in> set ks \<Longrightarrow> sweep_from ttl m ks s = Inr s' \<Longrightarrow>
   \<exists>s1 s2 ks1. sweep_from ttl m ks1 s = Inr s1 \<and>
     sw_tasks s1 ! k = sw_tasks s ! k \<and> reconcile_task ttl m k s1 = Inr s2 \<and>
     sw_tasks s' ! k = sw_tasks s2 ! k"
proof (induction ks arbitrary: s)
  case Nil
  then show ?case by simp
next
  case (Cons j ks)
  obtain s1 t' where r: "reconcile_task ttl m j s = Inr s1" and ts: "sw_tasks s1 = (sw_tasks s)[j := t']"
    by (rule reconcile_taskE)
  show ?case
  proof (cases "j = k")
    case True
    have "sw_tasks s' ! k = sw_tasks s1 ! k"
      using sweep_from_other [of k ks ttl m s1 s'] Cons.prems True r by simp
    moreover have "sweep_from ttl m [] s = Inr s" by simp
    ultimately show ?thesis using True r by blast
  next
    case False
    then obtain ks1 s2 s3 where v: "sweep_from ttl m ks1 s1 = Inr s2"
      "sw_tasks s2 ! k = sw_tasks s1 ! k" "reconcile_task ttl m k s2 = Inr s3"
      "sw_tasks s' ! k = sw_tasks s3 ! k"
      using Cons.IH [of s1] Cons.prems r by auto
    moreover have "sweep_from ttl m (j # ks1) s = Inr s2" using r v(1) by simp
    ultimately show ?thesis using ts False by fastforce
  qed
qed

lemma drop_orphan_checkpoints_tasks [simp]:
  "sw_tasks (drop_orphan_checkpoints live is s) = sw_tasks s"
  "sw_leases (drop_orphan_checkpoints live is s) = sw_leases s"
  by (induction "is" arbitrary: s) (simp_all add: orphan_count_def)

lemma drop_orphan_leases_tasks [simp]:
  "sw_tasks (drop_orphan_leases m ts s) = sw_tasks s"
  "sw_checkpoints (drop_orphan_leases m ts s) = sw_checkpoints s"
  by (induction ts arbitrary: s) (simp_all add: orphan_count_def)

lemma reconcile_total: "\<exists>s'. reconcile ttl m s = Inr s' \<and> length (sw_tasks s') = length (sw_tasks s)"
  using sweep_from_total [of ttl m "[0..<length (sw_tasks s)]" "s\<lparr>sw_counts := no_counts\<rparr>"]
  by (auto simp: reconcile_def)

lemma reconcile_tasks_eq:
  assumes "reconcile ttl m s = Inr s'"
  obtains s1 where "sweep_from ttl m [0..<length (sw_tasks s)] (s\<lparr>sw_counts := no_counts\<rparr>) = Inr s1"
    "sw_tasks s' = sw_tasks s1"
    "s' = drop_orphan_leases m (sw_tasks s1)
       (drop_orphan_checkpoints (live_ids (sw_tasks s1)) (sw_checkpoints s1) s1)"
  using assms by (auto simp: reconcile_def res_bind_eq_Inr)

lemma reconcile_visit:
  assumes "reconcile ttl m s = Inr s'" and "k < length (sw_tasks s)"
  obtains s1 s2 where "sw_tasks s1 ! k = sw_tasks s ! k" "reconcile_task ttl m k s1 = Inr s2"
    "sw_tasks s' ! k = sw_tasks s2 ! k" "length (sw_tasks s1) = length (sw_tasks s)"
    "\<exists>ks1. sweep_from ttl m ks1 (s\<lparr>sw_counts := no_counts\<rparr>) = Inr s1"
proof -
  obtain s0 where s0: "sweep_from ttl m [0..<length (sw_tasks s)] (s\<lparr>sw_counts := no_counts\<rparr>) = Inr s0"
    and t: "sw_tasks s' = sw_tasks s0"
    using assms(1) by (rule reconcile_tasks_eq)
  obtain ks1 s1 s2 where v: "sweep_from ttl m ks1 (s\<lparr>sw_counts := no_counts\<rparr>) = Inr s1"
    "sw_tasks s1 ! k = sw_tasks (s\<lparr>sw_counts := no_counts\<rparr>) ! k" "reconcile_task ttl m k s1 = Inr s2"
    "sw_tasks s0 ! k = sw_tasks s2 ! k"
    using sweep_from_visit [OF distinct_upt _ s0, of k] assms(2) by auto
  have "length (sw_tasks s1) = length (sw_tasks s)"
    using sweep_from_total [of ttl m ks1 "s\<lparr>sw_counts := no_counts\<rparr>"] v(1) by auto
  then show ?thesis using that [of s1 s2] v t by auto
qed

section \<open>Invariants of the sweep\<close>

lemma wf_attempts [simp]: "wf_task (t\<lparr>t_attempts := n\<rparr>) = wf_task t"
  by (simp add: wf_task_def)

lemma wf_sweep_move: "sweep_move m t t' \<Longrightarrow> wf_task t \<Longrightarrow> wf_task t'"
proof -
  assume a: "sweep_move m t t'" "wf_task t"
  then consider "t' = t" | n st c where "canTransition (t_status t) st" "st \<noteq> Waiting"
      "t' = transition_body (t\<lparr>t_attempts := n\<rparr>) st c"
    by (auto simp: sweep_move_def)
  then show "wf_task t'"
  proof cases
    case 1
    with a show ?thesis by simp
  next
    case 2
    with a(2) show ?thesis by (auto intro!: wf_body)
  qed
qed

lemma sweep_move_kept:
  "sweep_move m t t' \<Longrightarrow> t_id t' = t_id t \<and> t_expiresAt t' = t_expiresAt t \<and> t_deadline t' = t_deadline t \<and>
     t_dependsOn t' = t_dependsOn t"
  by (auto simp: sweep_move_def)

lemma reconcile_task_kept:
  "reconcile_task ttl m k s = Inr s' \<Longrightarrow>
     map t_id (sw_tasks s') = map t_id (sw_tasks s)"
proof -
  assume r: "reconcile_task ttl m k s = Inr s'"
  obtain t' where t: "sw_tasks s' = (sw_tasks s)[k := t']" "sweep_move m (sw_tasks s ! k) t'"
    using r reconcile_task_ok [of m k s ttl] by (auto simp: step_ok_def)
  then have "t_id t' = t_id (sw_tasks s ! k)" using sweep_move_kept by blast
  with t(1) show ?thesis
    by (cases "k < length (sw_tasks s)") (simp_all add: map_update list_update_same_conv list_update_beyond)
qed

lemma sweep_from_ids: "sweep_from ttl m ks s = Inr s' \<Longrightarrow> map t_id (sw_tasks s') = map t_id (sw_tasks s)"
proof (induction ks arbitrary: s)
  case Nil
  then show ?case by simp
next
  case (Cons k ks)
  then show ?case by (auto simp: res_bind_eq_Inr dest: reconcile_task_kept)
qed

lemma reconcile_terminal_task:
  "isTerminal (t_status (sw_tasks s ! k)) \<Longrightarrow> reconcile_task ttl m k s = Inr s"
  by (simp add: reconcile_task_def Let_def)

lemma reconcile_at:
  assumes "reconcile ttl m s = Inr s'" and "k < length (sw_tasks s)"
  shows "sweep_move m (sw_tasks s ! k) (sw_tasks s' ! k)"
proof -
  obtain s1 s2 where v: "sw_tasks s1 ! k = sw_tasks s ! k" "reconcile_task ttl m k s1 = Inr s2"
    "sw_tasks s' ! k = sw_tasks s2 ! k" "length (sw_tasks s1) = length (sw_tasks s)"
    using assms by (rule reconcile_visit)
  obtain t' where "sw_tasks s2 = (sw_tasks s1)[k := t']" "sweep_move m (sw_tasks s1 ! k) t'"
    using v(2) reconcile_task_ok [of m k s1 ttl] by (auto simp: step_ok_def)
  with v assms(2) show ?thesis by simp
qed


lemma past_expires:
  assumes "reconcile_task ttl m k s = Inr s'" and "k < length (sw_tasks s)"
    and "past m (t_expiresAt (sw_tasks s ! k)) \<or> past m (t_deadline (sw_tasks s ! k))"
  shows "isTerminal (t_status (sw_tasks s' ! k)) \<or> t_status (sw_tasks s' ! k) = PrOpen \<or>
    t_status (sw_tasks s ! k) = PrOpen"
  using assms
  by (auto simp: reconcile_task_def Let_def expire_task_def move_oks can_expire split: if_splits)

lemma pr_open_stays:
  assumes "reconcile_task ttl m k s = Inr s'" and "k < length (sw_tasks s)"
    and "t_status (sw_tasks s ! k) = PrOpen"
  shows "isTerminal (t_status (sw_tasks s' ! k)) \<or> t_status (sw_tasks s' ! k) = PrOpen"
  using assms
  by (auto simp: reconcile_task_def reconcile_pr_open_def Let_def move_oks canTransition_def split: if_splits)

text \<open>C29. After a sweep no unfinished task is past its TTL or its deadline, except one whose pull
  request is open.\<close>

theorem no_overdue_task_survives:
  assumes "reconcile ttl m s = Inr s'" and "k < length (sw_tasks s')"
  shows "isTerminal (t_status (sw_tasks s' ! k)) \<or> t_status (sw_tasks s' ! k) = PrOpen \<or>
    (\<not> past m (t_expiresAt (sw_tasks s' ! k)) \<and> \<not> past m (t_deadline (sw_tasks s' ! k)))"
proof -
  have k: "k < length (sw_tasks s)" using assms reconcile_total [of ttl m s] by auto
  obtain s1 s2 where v: "sw_tasks s1 ! k = sw_tasks s ! k" "reconcile_task ttl m k s1 = Inr s2"
    "sw_tasks s' ! k = sw_tasks s2 ! k" "length (sw_tasks s1) = length (sw_tasks s)"
    using assms(1) k by (rule reconcile_visit)
  have kept: "t_expiresAt (sw_tasks s' ! k) = t_expiresAt (sw_tasks s ! k)"
    "t_deadline (sw_tasks s' ! k) = t_deadline (sw_tasks s ! k)"
    using sweep_move_kept [OF reconcile_at [OF assms(1) k]] by simp_all
  show ?thesis
    using past_expires [OF v(2)] pr_open_stays [OF v(2)] v k kept by auto
qed

definition queue_of :: "task list \<Rightarrow> sweep" where
  "queue_of ts = \<lparr>sw_tasks = ts, sw_leases = no_leases, sw_checkpoints = [], sw_counts = no_counts, sw_events = []\<rparr>"


theorem no_overdue_task_survives_witness:
  "\<exists>s'. reconcile DEFAULT_TTLS (mgr ''p'' 50) (queue_of [sample_task\<lparr>t_deadline := Some (Iso 50)\<rparr>]) = Inr s' \<and>
     isTerminal (t_status (sw_tasks s' ! 0))"
proof -
  let ?s = "queue_of [sample_task\<lparr>t_deadline := Some (Iso 50)\<rparr>]"
  obtain s' where r: "reconcile DEFAULT_TTLS (mgr ''p'' 50) ?s = Inr s'" and l: "length (sw_tasks s') = 1"
    using reconcile_total [of DEFAULT_TTLS "mgr ''p'' 50" ?s] by (auto simp: queue_of_def)
  have k: "0 < length (sw_tasks s')" using l by simp
  have sm: "sweep_move (mgr ''p'' 50) (sw_tasks ?s ! 0) (sw_tasks s' ! 0)"
    by (rule reconcile_at [OF r]) (simp add: queue_of_def)
  have d: "past (mgr ''p'' 50) (t_deadline (sw_tasks s' ! 0))"
    using sweep_move_kept [OF sm] by (simp add: queue_of_def past_def)
  have st: "t_status (sw_tasks s' ! 0) \<noteq> PrOpen"
    using sm by (auto simp: sweep_move_def queue_of_def sample_task_def canTransition_def)
  show ?thesis using no_overdue_task_survives [OF r k] d st r by auto
qed

section \<open>Leases during the sweep\<close>

definition only_released :: "lease_dir \<Rightarrow> lease_dir \<Rightarrow> bool" where
  "only_released d d' \<longleftrightarrow> (\<forall>p. ld_files d' p = ld_files d p \<or> ld_files d' p = None)"

lemma only_released_refl [simp]: "only_released d d"
  by (simp add: only_released_def)

lemma only_released_trans: "only_released a b \<Longrightarrow> only_released b c \<Longrightarrow> only_released a c"
  unfolding only_released_def by metis

lemma only_released_release [simp]: "only_released d (fst (release m i d))"
  by (auto simp: only_released_def release_def Let_def)

lemma only_released_dead:
  "only_released d d' \<Longrightarrow> \<not> lease_live m (read_lease i d) \<Longrightarrow> \<not> lease_live m (read_lease i d')"
  unfolding only_released_def read_lease_def lease_live_def by (metis option.case(1))

lemma reconcile_task_leases:
  "reconcile_task ttl m k s = Inr s' \<Longrightarrow> only_released (sw_leases s) (sw_leases s')"
  by (auto simp: reconcile_task_def reconcile_running_def reconcile_waiting_def reconcile_dependency_def
      reconcile_paused_def reconcile_pr_open_def expire_task_def Let_def res_bind_eq_Inr move_task_def
      split: if_splits status.splits option.splits)

lemma sweep_from_leases: "sweep_from ttl m ks s = Inr s' \<Longrightarrow> only_released (sw_leases s) (sw_leases s')"
proof (induction ks arbitrary: s)
  case Nil
  then show ?case by simp
next
  case (Cons k ks)
  then show ?case
    by (auto simp: res_bind_eq_Inr intro: only_released_trans dest: reconcile_task_leases)
qed

text \<open>A dead pulse is detected: a running task with no live lease, on file or on the record,
  has one more attempt counted and goes back to pending below its ceiling and to dead-lettered
  at it; either way the mirrored lease is cleared.\<close>

theorem zombie_is_reclaimed:
  assumes "reconcile ttl m s = Inr s'" and "k < length (sw_tasks s)"
    and "t_status (sw_tasks s ! k) = Running"
    and "\<not> lease_live m (read_lease (t_id (sw_tasks s ! k)) (sw_leases s))"
    and "\<not> lease_live m (t_lease (sw_tasks s ! k))"
    and "\<not> past m (t_expiresAt (sw_tasks s ! k))" and "\<not> past m (t_deadline (sw_tasks s ! k))"
  shows "t_attempts (sw_tasks s' ! k) = Some (dflt (t_attempts (sw_tasks s ! k)) 0 + 1) \<and>
    t_status (sw_tasks s' ! k) =
      (if dflt (t_maxAttempts (sw_tasks s ! k)) 3 \<le> dflt (t_attempts (sw_tasks s ! k)) 0 + 1
       then DeadLettered else Pending) \<and>
    t_lease (sw_tasks s' ! k) = None"
proof -
  obtain s1 s2 where v: "sw_tasks s1 ! k = sw_tasks s ! k" "reconcile_task ttl m k s1 = Inr s2"
    "sw_tasks s' ! k = sw_tasks s2 ! k" "length (sw_tasks s1) = length (sw_tasks s)"
    "\<exists>ks1. sweep_from ttl m ks1 (s\<lparr>sw_counts := no_counts\<rparr>) = Inr s1"
    using assms(1,2) by (rule reconcile_visit)
  have "only_released (sw_leases s) (sw_leases s1)" using v(5) sweep_from_leases by fastforce
  then have "\<not> lease_live m (read_lease (t_id (sw_tasks s ! k)) (sw_leases s1))"
    using assms(4) by (rule only_released_dead)
  then show ?thesis
    using v assms
    by (auto simp: reconcile_task_def reconcile_running_def Let_def move_oks canTransition_def)
qed

theorem zombie_is_reclaimed_witness:
  "\<exists>s'. reconcile DEFAULT_TTLS (mgr ''p'' 50)
     (queue_of [sample_task\<lparr>t_status := Running, t_attempts := Some 2\<rparr>]) = Inr s' \<and>
     t_status (sw_tasks s' ! 0) = DeadLettered \<and> t_attempts (sw_tasks s' ! 0) = Some 3"
proof -
  let ?s = "queue_of [sample_task\<lparr>t_status := Running, t_attempts := Some 2\<rparr>]"
  obtain s' where r: "reconcile DEFAULT_TTLS (mgr ''p'' 50) ?s = Inr s'"
    using reconcile_total by blast
  have "t_attempts (sw_tasks s' ! 0) = Some (dflt (t_attempts (sw_tasks ?s ! 0)) 0 + 1) \<and>
    t_status (sw_tasks s' ! 0) =
      (if dflt (t_maxAttempts (sw_tasks ?s ! 0)) 3 \<le> dflt (t_attempts (sw_tasks ?s ! 0)) 0 + 1
       then DeadLettered else Pending) \<and>
    t_lease (sw_tasks s' ! 0) = None"
    by (rule zombie_is_reclaimed [OF r])
      (simp_all add: queue_of_def sample_task_def lease_live_def read_lease_def no_leases_def past_def)
  then show ?thesis using r by (simp add: queue_of_def sample_task_def)
qed

section \<open>Dependencies\<close>

lemma by_id_None: "i \<notin> t_id ` set ts \<Longrightarrow> by_id ts i = None"
  by (auto simp: by_id_def find_None_iff)

text \<open>A task that waits on a dependency which is no longer in the queue is left exactly as it
  is by every sweep, at any time and with any TTLs, when it has no TTL or deadline of its own:
  no timeout takes it out of \<open>waiting\<close>.\<close>

theorem missing_dependency_waits_forever:
  assumes "reconcile ttl m s = Inr s'" and "k < length (sw_tasks s)"
    and "t_status (sw_tasks s ! k) = Waiting" and "t_waitReason (sw_tasks s ! k) = Some WDependency"
    and "t_dependsOn (sw_tasks s ! k) = [i]" and "i \<notin> t_id ` set (sw_tasks s)"
    and "t_expiresAt (sw_tasks s ! k) = None" and "t_deadline (sw_tasks s ! k) = None"
  shows "sw_tasks s' ! k = sw_tasks s ! k"
proof -
  obtain s1 s2 where v: "sw_tasks s1 ! k = sw_tasks s ! k" "reconcile_task ttl m k s1 = Inr s2"
    "sw_tasks s' ! k = sw_tasks s2 ! k" "length (sw_tasks s1) = length (sw_tasks s)"
    "\<exists>ks1. sweep_from ttl m ks1 (s\<lparr>sw_counts := no_counts\<rparr>) = Inr s1"
    using assms(1,2) by (rule reconcile_visit)
  have "map t_id (sw_tasks s1) = map t_id (sw_tasks s)" using v(5) sweep_from_ids by fastforce
  then have "t_id ` set (sw_tasks s1) = t_id ` set (sw_tasks s)" by (metis set_map)
  then have "by_id (sw_tasks s1) i = None" using assms(6) by_id_None by metis
  then show ?thesis
    using v assms
    by (auto simp: reconcile_task_def past_def reconcile_waiting_def reconcile_dependency_def Let_def
        List.map_filter_def)
qed

theorem missing_dependency_waits_forever_witness:
  "\<exists>s'. reconcile DEFAULT_TTLS (mgr ''p'' 31536000000)
      (queue_of [sample_task\<lparr>t_status := Waiting, t_waitReason := Some WDependency,
         t_wakeAt := Some (Iso 0), t_dependsOn := [''issue-1'']\<rparr>]) = Inr s' \<and>
    t_status (sw_tasks s' ! 0) = Waiting"
proof -
  let ?t = "sample_task\<lparr>t_status := Waiting, t_waitReason := Some WDependency,
         t_wakeAt := Some (Iso 0), t_dependsOn := [''issue-1'']\<rparr>"
  obtain s' where r: "reconcile DEFAULT_TTLS (mgr ''p'' 31536000000) (queue_of [?t]) = Inr s'"
    using reconcile_total by blast
  have "sw_tasks s' ! 0 = sw_tasks (queue_of [?t]) ! 0"
    by (rule missing_dependency_waits_forever [OF r, where i = "''issue-1''"])
      (simp_all add: queue_of_def sample_task_def)
  then show ?thesis using r by (simp add: queue_of_def)
qed

end
