(* ===== verification/Quota.thy ===== *)
theory Quota
  imports Prelude
begin

text \<open>
  The quota ledger, \<open>src/reliability/quota.js\<close>, and the engine's clock offset,
  \<open>src/lib/clock.js\<close>. A ledger is a value: every method takes the clock reading of its call
  and returns the updated ledger. The UTC minute and the UTC day of an instant are its quotient
  by the length of the window, which is what \<open>Math.floor\<close> and the date part of the ISO text
  compute for every year of four digits.
\<close>

section \<open>The ledger\<close>

record qwindow =
  w_start :: stamp
  w_count :: int

record qrec =
  q_minute :: qwindow
  q_day :: qwindow
  q_tokens :: rat
  q_last429At :: "stamp option"

record qlimit =
  perMinute :: int
  perDay :: int

record ledger =
  lg_path :: "string option"
  lg_writer :: bool
  lg_reserveFraction :: rat
  lg_limits :: "(string \<times> qlimit) list"
  lg_providers :: "(string \<times> qrec) list"
  lg_dirty :: bool

definition mk_limit :: "int \<Rightarrow> int \<Rightarrow> qlimit" where
  "mk_limit m d = \<lparr>perMinute = m, perDay = d\<rparr>"

definition DEFAULT_LIMITS :: "(string \<times> qlimit) list" where
  "DEFAULT_LIMITS =
    [(''groq'', mk_limit 25 12000),
     (''together'', mk_limit 50 4000),
     (''openrouter'', mk_limit 15 180),
     (''gemini'', mk_limit 12 1200),
     (''huggingface'', mk_limit 25 800),
     (''opencode'', mk_limit 20 500),
     (''omniroute'', mk_limit 60 10000)]"

definition FALLBACK_LIMIT :: qlimit where
  "FALLBACK_LIMIT = mk_limit 20 500"

definition DEFAULT_RESERVE_FRACTION :: rat where
  "DEFAULT_RESERVE_FRACTION = 15 / 100"

text \<open>One variable of \<open>limitsFromEnv\<close>: the provider id and which ceiling it sets.\<close>

definition quota_var :: "string \<Rightarrow> (string \<times> bool) option" where
  "quota_var key =
    (case split_on (\<lambda>c. c = CHR ''_'') key of
       [a, b, p, c, w] \<Rightarrow>
         if a = ''TITAN'' \<and> b = ''QUOTA'' \<and> c = ''PER'' \<and> (w = ''MINUTE'' \<or> w = ''DAY'') \<and>
            p \<noteq> [] \<and> list_all (\<lambda>x. is_upper x \<or> is_digit x) p
         then Some (toLowerCase p, w = ''MINUTE'') else None
     | _ \<Rightarrow> None)"

definition env_entry :: "string \<times> string \<Rightarrow> (string \<times> qlimit) list \<Rightarrow> (string \<times> qlimit) list" where
  "env_entry kv out =
    (case quota_var (fst kv) of
       None \<Rightarrow> out
     | Some (i, minute) \<Rightarrow>
         (case js_parseInt (snd kv) of
            None \<Rightarrow> out
          | Some n \<Rightarrow>
              if n \<le> 0 then out
              else (let base = dflt (map_of out i) (dflt (map_of DEFAULT_LIMITS i) FALLBACK_LIMIT)
                    in assoc_put i (if minute then base\<lparr>perMinute := n\<rparr> else base\<lparr>perDay := n\<rparr>) out)))"

definition limitsFromEnv :: "(string \<times> string) list \<Rightarrow> (string \<times> qlimit) list" where
  "limitsFromEnv env = fold env_entry env []"

text \<open>The constructor: the file's providers, when it exists and parses, are an argument.\<close>

definition new_ledger ::
  "string option \<Rightarrow> bool \<Rightarrow> rat option \<Rightarrow> (string \<times> qlimit) list \<Rightarrow> (string \<times> string) list \<Rightarrow>
   (string \<times> qrec) list option \<Rightarrow> ledger" where
  "new_ledger path writer reserve limits env stored =
    \<lparr>lg_path = path, lg_writer = writer,
     lg_reserveFraction = dflt reserve DEFAULT_RESERVE_FRACTION,
     lg_limits = spread (spread DEFAULT_LIMITS limits) (limitsFromEnv env),
     lg_providers = (if path = None \<or> path = Some [] then [] else dflt stored []),
     lg_dirty = False\<rparr>"

definition limitFor :: "ledger \<Rightarrow> string \<Rightarrow> qlimit" where
  "limitFor l i = dflt (map_of (lg_limits l) i) FALLBACK_LIMIT"

definition MINUTE :: int where "MINUTE = 60000"
definition DAY :: int where "DAY = 86400000"

definition window_start :: "int \<Rightarrow> int \<Rightarrow> stamp" where
  "window_start unit now = Iso (now div unit * unit)"

definition roll :: "int \<Rightarrow> int \<Rightarrow> qwindow \<Rightarrow> qwindow" where
  "roll unit now w =
    (if w_start w \<noteq> window_start unit now
     then \<lparr>w_start = window_start unit now, w_count = 0\<rparr> else w)"

definition fresh_rec :: "int \<Rightarrow> qrec" where
  "fresh_rec now =
    \<lparr>q_minute = \<lparr>w_start = window_start MINUTE now, w_count = 0\<rparr>,
     q_day = \<lparr>w_start = window_start DAY now, w_count = 0\<rparr>,
     q_tokens = 0, q_last429At = None\<rparr>"

definition windows :: "string \<Rightarrow> int \<Rightarrow> ledger \<Rightarrow> ledger \<times> qrec" where
  "windows i now l =
    (let rec = dflt (map_of (lg_providers l) i) (fresh_rec now);
         rec1 = rec\<lparr>q_minute := roll MINUTE now (q_minute rec)\<rparr>;
         rec2 = (if w_start (q_day rec1) \<noteq> window_start DAY now
                 then rec1\<lparr>q_day := roll DAY now (q_day rec1), q_tokens := 0\<rparr> else rec1)
     in (l\<lparr>lg_providers := assoc_put i rec2 (lg_providers l)\<rparr>, rec2))"

datatype spend_reason = MinuteSpent | DaySpent | DayReserve

record spend_answer =
  sp_ok :: bool
  sp_reason :: "spend_reason option"
  sp_minuteLeft :: int
  sp_dayLeft :: int

definition high_priority :: "string option \<Rightarrow> bool" where
  "high_priority p = (p = Some ''high'' \<or> p = Some ''urgent'')"

definition reserve_for :: "ledger \<Rightarrow> string \<Rightarrow> string option \<Rightarrow> int" where
  "reserve_for l i p =
    (if high_priority p then 0 else \<lceil>of_int (perDay (limitFor l i)) * lg_reserveFraction l\<rceil>)"

definition canSpend :: "string \<Rightarrow> string option \<Rightarrow> int \<Rightarrow> ledger \<Rightarrow> ledger \<times> spend_answer" where
  "canSpend i p now l =
    (let limit = limitFor l i;
         (l1, rec) = windows i now l;
         minuteLeft = max 0 (perMinute limit - w_count (q_minute rec));
         dayLeft = max 0 (perDay limit - w_count (q_day rec));
         reserve = reserve_for l i p in
     (l1,
      if minuteLeft \<le> 0
        then \<lparr>sp_ok = False, sp_reason = Some MinuteSpent, sp_minuteLeft = minuteLeft, sp_dayLeft = dayLeft\<rparr>
      else if dayLeft \<le> reserve
        then \<lparr>sp_ok = False, sp_reason = Some (if high_priority p then DaySpent else DayReserve),
              sp_minuteLeft = minuteLeft, sp_dayLeft = dayLeft\<rparr>
      else \<lparr>sp_ok = True, sp_reason = None, sp_minuteLeft = minuteLeft, sp_dayLeft = dayLeft\<rparr>))"

definition counted :: "rat option \<Rightarrow> nat option \<Rightarrow> int \<Rightarrow> qrec \<Rightarrow> qrec" where
  "counted tokens status now rec =
    rec\<lparr>q_minute := (q_minute rec)\<lparr>w_count := w_count (q_minute rec) + 1\<rparr>,
        q_day := (q_day rec)\<lparr>w_count := w_count (q_day rec) + 1\<rparr>,
        q_tokens := (case tokens of None \<Rightarrow> q_tokens rec | Some k \<Rightarrow> q_tokens rec + k),
        q_last429At := (if status = Some 429 then Some (Iso now) else q_last429At rec)\<rparr>"

definition record_call :: "string \<Rightarrow> rat option \<Rightarrow> nat option \<Rightarrow> int \<Rightarrow> ledger \<Rightarrow> ledger" where
  "record_call i tokens status now l =
    (let (l1, rec) = windows i now l
     in l1\<lparr>lg_providers := assoc_put i (counted tokens status now rec) (lg_providers l1), lg_dirty := True\<rparr>)"

definition nextMinuteResetMs :: "int \<Rightarrow> int" where
  "nextMinuteResetMs now = now div 60000 * 60000 + 60000 - now"

record snap =
  sn_perMinute :: int
  sn_perDay :: int
  sn_usedMinute :: int
  sn_usedDay :: int
  sn_tokensToday :: rat
  sn_dayLeft :: int
  sn_last429At :: "stamp option"

definition snap_of :: "qlimit \<Rightarrow> qrec \<Rightarrow> snap" where
  "snap_of limit rec =
    \<lparr>sn_perMinute = perMinute limit, sn_perDay = perDay limit, sn_usedMinute = w_count (q_minute rec),
     sn_usedDay = w_count (q_day rec), sn_tokensToday = q_tokens rec,
     sn_dayLeft = max 0 (perDay limit - w_count (q_day rec)), sn_last429At = q_last429At rec\<rparr>"

fun snapshot_ids :: "string list \<Rightarrow> int \<Rightarrow> ledger \<Rightarrow> (string \<times> snap) list \<Rightarrow> ledger \<times> (string \<times> snap) list" where
  "snapshot_ids [] now l out = (l, out)"
| "snapshot_ids (i # is) now l out =
    (let (l1, rec) = windows i now l
     in snapshot_ids is now l1 (assoc_put i (snap_of (limitFor l i) rec) out))"

definition quota_snapshot :: "int \<Rightarrow> ledger \<Rightarrow> ledger \<times> (string \<times> snap) list" where
  "quota_snapshot now l =
    snapshot_ids (rev (remdups (rev (map fst (lg_limits l) @ map fst (lg_providers l))))) now l []"

text \<open>What \<open>save\<close> hands to the writer: the path, the time and the providers.\<close>

definition save :: "int \<Rightarrow> ledger \<Rightarrow> ledger \<times> (string \<times> stamp \<times> rat \<times> (string \<times> qrec) list) option" where
  "save now l =
    (case lg_path l of
       None \<Rightarrow> (l, None)
     | Some p \<Rightarrow>
         if p = [] \<or> \<not> lg_writer l \<or> \<not> lg_dirty l then (l, None)
         else (l\<lparr>lg_dirty := False\<rparr>, Some (p, Iso now, lg_reserveFraction l, lg_providers l)))"

section \<open>The engine's clock\<close>

definition clockOffsetMs :: "(string \<times> string) list \<Rightarrow> int" where
  "clockOffsetMs env =
    (let wired = (\<lambda>k. case map_of env k of None \<Rightarrow> False | Some v \<Rightarrow> v \<noteq> []) in
     if \<not> wired ''TITAN_FAKE_PROVIDER'' \<and> \<not> wired ''TITAN_FAKE_GITHUB'' then 0
     else dflt (js_parseInt (dflt (map_of env ''TITAN_CLOCK_OFFSET_MS'') ''0'')) 0)"

definition nowMs :: "int \<Rightarrow> (string \<times> string) list \<Rightarrow> int" where
  "nowMs dateNow env = dateNow + clockOffsetMs env"

text \<open>A production process, with no fake wired, stays on the wall clock whatever the offset
  variable holds.\<close>

lemma production_clock:
  "map_of env ''TITAN_FAKE_PROVIDER'' = None \<Longrightarrow> map_of env ''TITAN_FAKE_GITHUB'' = None \<Longrightarrow>
   nowMs n env = n"
  by (simp add: nowMs_def clockOffsetMs_def Let_def)

section \<open>A fixed window counts the calls of its window\<close>

text \<open>The contract of one window: with a clock that does not step back, the counter of the window
  that is open now is the number of logged instants that fall in it.\<close>

locale fixed_window =
  fixes unit :: int
    and advance :: "int \<Rightarrow> qwindow \<Rightarrow> qwindow"
  assumes unit_pos: "0 < unit"
    and advance_same: "w_start w = Iso (now div unit * unit) \<Longrightarrow> advance now w = w"
    and advance_new: "w_start w \<noteq> Iso (now div unit * unit) \<Longrightarrow>
      w_start (advance now w) = Iso (now div unit * unit) \<and> w_count (advance now w) = 0"
begin

definition in_window :: "int \<Rightarrow> int list \<Rightarrow> int" where
  "in_window k lg = int (length (filter (\<lambda>t. t div unit = k) lg))"

definition tracks :: "int \<Rightarrow> qwindow \<Rightarrow> int list \<Rightarrow> bool" where
  "tracks now w lg =
    (\<exists>k. w_start w = Iso (k * unit) \<and> k \<le> now div unit \<and> w_count w = in_window k lg \<and>
         (\<forall>t\<in>set lg. t div unit \<le> k))"

lemma in_window_Nil [simp]: "in_window k [] = 0"
  by (simp add: in_window_def)

lemma in_window_Cons:
  "in_window k (t # lg) = in_window k lg + (if t div unit = k then 1 else 0)"
  by (simp add: in_window_def)

lemma tracks_fresh: "w_start w = Iso (now div unit * unit) \<Longrightarrow> w_count w = 0 \<Longrightarrow> tracks now w []"
  by (auto simp: tracks_def)

lemma tracks_later: "tracks now w lg \<Longrightarrow> now \<le> now' \<Longrightarrow> tracks now' w lg"
  using unit_pos by (fastforce simp: tracks_def dest: zdiv_mono1)

lemma advance_tracks:
  assumes "tracks now w lg" and "now \<le> now'"
  shows "tracks now' (advance now' w) lg"
    and "w_start (advance now' w) = Iso (now' div unit * unit)"
    and "w_count (advance now' w) = in_window (now' div unit) lg"
proof -
  obtain k where k: "w_start w = Iso (k * unit)" "k \<le> now' div unit" "w_count w = in_window k lg"
    "\<forall>t\<in>set lg. t div unit \<le> k"
    using tracks_later [OF assms] by (auto simp: tracks_def)
  have start: "w_start (advance now' w) = Iso (now' div unit * unit)"
    using advance_same [of w now'] advance_new [of w now'] by (cases "w_start w = Iso (now' div unit * unit)") auto
  have count: "w_count (advance now' w) = in_window (now' div unit) lg"
  proof (cases "k = now' div unit")
    case True
    then show ?thesis using k advance_same [of w now'] by simp
  next
    case False
    then have "w_start w \<noteq> Iso (now' div unit * unit)" using k unit_pos by simp
    moreover have "in_window (now' div unit) lg = 0"
      using k False by (force simp: in_window_def filter_empty_conv)
    ultimately show ?thesis using advance_new [of w now'] by simp
  qed
  have "\<forall>t\<in>set lg. t div unit \<le> now' div unit" using k by force
  with start count show "tracks now' (advance now' w) lg" by (auto simp: tracks_def)
  show "w_start (advance now' w) = Iso (now' div unit * unit)" by (rule start)
  show "w_count (advance now' w) = in_window (now' div unit) lg" by (rule count)
qed

lemma count_tracks:
  assumes "tracks now w lg" and "w_start w = Iso (now div unit * unit)"
  shows "tracks now (w\<lparr>w_count := w_count w + 1\<rparr>) (now # lg)"
proof -
  obtain k where k: "w_start w = Iso (k * unit)" "w_count w = in_window k lg"
    "\<forall>t\<in>set lg. t div unit \<le> k"
    using assms(1) by (auto simp: tracks_def)
  then have "k = now div unit" using assms(2) unit_pos by simp
  then show ?thesis using k by (auto simp: tracks_def in_window_Cons)
qed

end

lemma unit_pos: "0 < MINUTE" "0 < DAY"
  by (simp_all add: MINUTE_def DAY_def)

interpretation minute: fixed_window MINUTE "roll MINUTE"
  by unfold_locales (auto simp: roll_def window_start_def unit_pos)

interpretation day: fixed_window DAY "roll DAY"
  by unfold_locales (auto simp: roll_def window_start_def unit_pos)

section \<open>Guarded spending\<close>

text \<open>The registry's discipline: ask, and record the call only when the ledger says yes. A call is
  its provider, its task's priority, its time and its outcome.\<close>

record qcall =
  k_id :: string
  k_priority :: "string option"
  k_time :: int
  k_tokens :: "rat option"
  k_status :: "nat option"

definition spend :: "qcall \<Rightarrow> ledger \<times> qcall list \<Rightarrow> ledger \<times> qcall list" where
  "spend c st =
    (let (l1, a) = canSpend (k_id c) (k_priority c) (k_time c) (fst st) in
     if sp_ok a then (record_call (k_id c) (k_tokens c) (k_status c) (k_time c) l1, c # snd st)
     else (l1, snd st))"

definition times_of :: "string \<Rightarrow> qcall list \<Rightarrow> int list" where
  "times_of i lg = map k_time (filter (\<lambda>c. k_id c = i) lg)"

definition low_times :: "string \<Rightarrow> qcall list \<Rightarrow> int list" where
  "low_times i lg = map k_time (filter (\<lambda>c. k_id c = i \<and> \<not> high_priority (k_priority c)) lg)"

lemma times_of_Cons [simp]:
  "times_of i (c # lg) = (if k_id c = i then k_time c # times_of i lg else times_of i lg)"
  by (simp add: times_of_def)

lemma low_times_Cons [simp]:
  "low_times i (c # lg) =
     (if k_id c = i \<and> \<not> high_priority (k_priority c) then k_time c # low_times i lg else low_times i lg)"
  by (simp add: low_times_def)

text \<open>The abstraction: a provider's record tracks the lg of its calls in both windows.\<close>

definition rec_tracks :: "int \<Rightarrow> qrec \<Rightarrow> int list \<Rightarrow> bool" where
  "rec_tracks now r ts = (minute.tracks now (q_minute r) ts \<and> day.tracks now (q_day r) ts)"

definition provider_tracks :: "int \<Rightarrow> (string \<times> qrec) list \<Rightarrow> qcall list \<Rightarrow> string \<Rightarrow> bool" where
  "provider_tracks now ps lg i =
    (case map_of ps i of None \<Rightarrow> times_of i lg = [] | Some r \<Rightarrow> rec_tracks now r (times_of i lg))"

definition ledger_tracks :: "int \<Rightarrow> ledger \<Rightarrow> qcall list \<Rightarrow> bool" where
  "ledger_tracks now l lg = (\<forall>i. provider_tracks now (lg_providers l) lg i)"

lemma rec_tracks_later: "rec_tracks now r ts \<Longrightarrow> now \<le> now' \<Longrightarrow> rec_tracks now' r ts"
  by (auto simp: rec_tracks_def minute.tracks_later day.tracks_later)

lemma provider_tracks_put:
  assumes "rec_tracks now' r (times_of i lg')" and "now \<le> now'"
    and "\<And>j. j \<noteq> i \<Longrightarrow> times_of j lg' = times_of j lg" and "\<And>j. provider_tracks now ps lg j"
  shows "provider_tracks now' (assoc_put i r ps) lg' j"
proof (cases "j = i")
  case True
  then show ?thesis using assms(1) by (simp add: provider_tracks_def)
next
  case False
  then show ?thesis using assms(2,3) assms(4) [of j]
    by (simp add: provider_tracks_def rec_tracks_later split: option.splits)
qed

definition rolled :: "int \<Rightarrow> qrec \<Rightarrow> bool" where
  "rolled now r = (w_start (q_minute r) = Iso (now div MINUTE * MINUTE) \<and>
     w_start (q_day r) = Iso (now div DAY * DAY))"

lemma fresh_rec_tracks: "rec_tracks now (fresh_rec now) []"
  by (simp add: rec_tracks_def fresh_rec_def window_start_def minute.tracks_fresh day.tracks_fresh)

lemma windows_minute_day:
  "q_minute (snd (windows i now l)) = roll MINUTE now (q_minute (dflt (map_of (lg_providers l) i) (fresh_rec now)))"
  "q_day (snd (windows i now l)) = roll DAY now (q_day (dflt (map_of (lg_providers l) i) (fresh_rec now)))"
  by (simp_all add: windows_def Let_def roll_def)

lemma windows_fst:
  "fst (windows i now l) = l\<lparr>lg_providers := assoc_put i (snd (windows i now l)) (lg_providers l)\<rparr>"
  by (simp add: windows_def Let_def)

lemma limitFor_kept [simp]:
  "limitFor (l\<lparr>lg_providers := ps\<rparr>) i = limitFor l i" "limitFor (l\<lparr>lg_dirty := b\<rparr>) i = limitFor l i"
  by (simp_all add: limitFor_def)

lemma reserve_kept [simp]:
  "reserve_for (l\<lparr>lg_providers := ps\<rparr>) i p = reserve_for l i p"
  "reserve_for (l\<lparr>lg_dirty := b\<rparr>) i p = reserve_for l i p"
  by (simp_all add: reserve_for_def)

lemma windows_track:
  assumes "ledger_tracks now l lg" and "now \<le> now'"
  shows "rec_tracks now' (snd (windows i now' l)) (times_of i lg)"
    and "rolled now' (snd (windows i now' l))"
    and "w_count (q_minute (snd (windows i now' l))) = minute.in_window (now' div MINUTE) (times_of i lg)"
    and "w_count (q_day (snd (windows i now' l))) = day.in_window (now' div DAY) (times_of i lg)"
    and "ledger_tracks now' (fst (windows i now' l)) lg"
proof -
  let ?r = "dflt (map_of (lg_providers l) i) (fresh_rec now')"
  have r: "\<exists>n\<le>now'. rec_tracks n ?r (times_of i lg)"
    using assms fresh_rec_tracks [of now'] spec [of _ i, OF assms(1) [unfolded ledger_tracks_def]]
    by (cases "map_of (lg_providers l) i") (auto simp: provider_tracks_def)
  then obtain n where n: "n \<le> now'" "minute.tracks n (q_minute ?r) (times_of i lg)"
    "day.tracks n (q_day ?r) (times_of i lg)"
    by (auto simp: rec_tracks_def)
  show t: "rec_tracks now' (snd (windows i now' l)) (times_of i lg)"
    using minute.advance_tracks [OF n(2) n(1)] day.advance_tracks [OF n(3) n(1)]
    by (simp add: rec_tracks_def windows_minute_day)
  show "rolled now' (snd (windows i now' l))"
    using minute.advance_tracks [OF n(2) n(1)] day.advance_tracks [OF n(3) n(1)]
    by (simp add: rolled_def windows_minute_day)
  show "w_count (q_minute (snd (windows i now' l))) = minute.in_window (now' div MINUTE) (times_of i lg)"
    using minute.advance_tracks [OF n(2) n(1)] by (simp add: windows_minute_day)
  show "w_count (q_day (snd (windows i now' l))) = day.in_window (now' div DAY) (times_of i lg)"
    using day.advance_tracks [OF n(3) n(1)] by (simp add: windows_minute_day)
  show "ledger_tracks now' (fst (windows i now' l)) lg"
    using assms t by (simp add: ledger_tracks_def windows_fst provider_tracks_put [of now' _ i lg now lg])
qed

lemma counted_tracks:
  assumes "rec_tracks now r ts" and "rolled now r"
  shows "rec_tracks now (counted tk st now r) (now # ts)"
  using assms minute.count_tracks day.count_tracks by (simp add: rec_tracks_def rolled_def counted_def)

lemma record_call_tracks:
  assumes "ledger_tracks (k_time c) l lg"
  shows "ledger_tracks (k_time c) (record_call (k_id c) tk st (k_time c) l) (c # lg)"
proof -
  note w = windows_track [OF assms order_refl, of "k_id c"]
  have "rec_tracks (k_time c) (counted tk st (k_time c) (snd (windows (k_id c) (k_time c) l)))
      (times_of (k_id c) (c # lg))"
    using counted_tracks [OF w(1,2)] by simp
  then show ?thesis
    using w(5) provider_tracks_put [of "k_time c" _ "k_id c" "c # lg" "k_time c" lg]
    by (simp add: ledger_tracks_def record_call_def split_beta Let_def)
qed

text \<open>What a yes means, in terms of the log.\<close>

lemma canSpend_ok:
  assumes "ledger_tracks now l lg" and "now \<le> now'" and "sp_ok (snd (canSpend i p now' l))"
  shows "minute.in_window (now' div MINUTE) (times_of i lg) < perMinute (limitFor l i)"
    and "reserve_for l i p < max 0 (perDay (limitFor l i) - day.in_window (now' div DAY) (times_of i lg))"
  using assms(3) windows_track(3,4) [OF assms(1,2), of i]
  by (auto simp: canSpend_def Let_def split_beta split: if_splits)

lemma canSpend_fst: "fst (canSpend i p now l) = fst (windows i now l)"
  by (simp add: canSpend_def Let_def split_beta)

lemma limitFor_windows [simp]:
  "limitFor (fst (windows i now l)) j = limitFor l j" "reserve_for (fst (windows i now l)) j p = reserve_for l j p"
  by (simp_all add: windows_fst)

lemma limitFor_record [simp]:
  "limitFor (record_call i tk st now l) j = limitFor l j" "reserve_for (record_call i tk st now l) j p = reserve_for l j p"
  by (simp_all add: record_call_def Let_def split_beta limitFor_def reserve_for_def windows_fst)

text \<open>How many calls of a log one provider got in one window, and how many of them were for work
  without priority.\<close>

definition calls_in :: "int \<Rightarrow> int \<Rightarrow> string \<Rightarrow> qcall list \<Rightarrow> int" where
  "calls_in unit k i lg = int (length (filter (\<lambda>c. k_id c = i \<and> k_time c div unit = k) lg))"

definition low_calls_in :: "int \<Rightarrow> int \<Rightarrow> string \<Rightarrow> qcall list \<Rightarrow> int" where
  "low_calls_in unit k i lg =
    int (length (filter (\<lambda>c. k_id c = i \<and> \<not> high_priority (k_priority c) \<and> k_time c div unit = k) lg))"

lemma calls_in_Nil [simp]: "calls_in u k i [] = 0" "low_calls_in u k i [] = 0"
  by (simp_all add: calls_in_def low_calls_in_def)

lemma calls_in_Cons [simp]:
  "calls_in u k i (c # lg) = calls_in u k i lg + (if k_id c = i \<and> k_time c div u = k then 1 else 0)"
  "low_calls_in u k i (c # lg) = low_calls_in u k i lg +
     (if k_id c = i \<and> \<not> high_priority (k_priority c) \<and> k_time c div u = k then 1 else 0)"
  by (simp_all add: calls_in_def low_calls_in_def)

lemma in_window_calls:
  "minute.in_window k (times_of i lg) = calls_in MINUTE k i lg"
  "day.in_window k (times_of i lg) = calls_in DAY k i lg"
  by (induction lg) (simp_all add: times_of_def minute.in_window_Cons day.in_window_Cons)

lemma low_le_all: "low_calls_in u k i lg \<le> calls_in u k i lg"
  by (induction lg) auto

definition within_limits :: "ledger \<Rightarrow> qcall list \<Rightarrow> string \<Rightarrow> bool" where
  "within_limits l lg i =
    (\<forall>k. calls_in MINUTE k i lg \<le> max 0 (perMinute (limitFor l i)) \<and>
         calls_in DAY k i lg \<le> max 0 (perDay (limitFor l i)) \<and>
         low_calls_in DAY k i lg \<le> max 0 (perDay (limitFor l i) - reserve_for l i None))"

definition fair_reserve :: "ledger \<Rightarrow> string \<Rightarrow> bool" where
  "fair_reserve l i = (0 \<le> reserve_for l i None)"

lemma reserve_low: "\<not> high_priority p \<Longrightarrow> reserve_for l i p = reserve_for l i None"
  "high_priority p \<Longrightarrow> reserve_for l i p = 0"
  by (simp_all add: reserve_for_def high_priority_def)

lemma spend_cases:
  assumes "ledger_tracks T l lg" and "T \<le> k_time c"
  obtains
    (yes) "spend c (l, lg) = (record_call (k_id c) (k_tokens c) (k_status c) (k_time c) (fst (windows (k_id c) (k_time c) l)), c # lg)"
      "calls_in MINUTE (k_time c div MINUTE) (k_id c) lg < perMinute (limitFor l (k_id c))"
      "reserve_for l (k_id c) (k_priority c) <
         max 0 (perDay (limitFor l (k_id c)) - calls_in DAY (k_time c div DAY) (k_id c) lg)"
  | (no) "spend c (l, lg) = (fst (windows (k_id c) (k_time c) l), lg)"
proof (cases "sp_ok (snd (canSpend (k_id c) (k_priority c) (k_time c) l))")
  case True
  show ?thesis
    using True canSpend_ok [OF assms True]
    by (intro yes) (simp_all add: spend_def split_beta Let_def canSpend_fst in_window_calls)
next
  case False
  then show ?thesis by (intro no) (simp add: spend_def split_beta Let_def canSpend_fst)
qed

lemma spend_step:
  assumes "ledger_tracks T l lg" and "T \<le> k_time c" and "spend c (l, lg) = (l', lg')"
  shows "ledger_tracks (k_time c) l' lg'" and "limitFor l' i = limitFor l i"
    and "reserve_for l' i p = reserve_for l i p"
    and "fair_reserve l i \<Longrightarrow> within_limits l lg i \<Longrightarrow> within_limits l lg' i"
proof -
  note w = windows_track(5) [OF assms(1,2), of "k_id c"]
  show "ledger_tracks (k_time c) l' lg'"
    by (rule spend_cases [OF assms(1,2)]) (use assms(3) w record_call_tracks [OF w] in auto)
  show "limitFor l' i = limitFor l i" "reserve_for l' i p = reserve_for l i p"
    by (rule spend_cases [OF assms(1,2)]; use assms(3) in force)+
  assume f: "fair_reserve l i" and b: "within_limits l lg i"
  show "within_limits l lg' i"
  proof (rule spend_cases [OF assms(1,2)])
    assume "spend c (l, lg) = (fst (windows (k_id c) (k_time c) l), lg)"
    then show ?thesis using assms(3) b by simp
  next
    assume y: "spend c (l, lg) = (record_call (k_id c) (k_tokens c) (k_status c) (k_time c) (fst (windows (k_id c) (k_time c) l)), c # lg)"
      and m: "calls_in MINUTE (k_time c div MINUTE) (k_id c) lg < perMinute (limitFor l (k_id c))"
      and d: "reserve_for l (k_id c) (k_priority c) <
         max 0 (perDay (limitFor l (k_id c)) - calls_in DAY (k_time c div DAY) (k_id c) lg)"
    have lg': "lg' = c # lg" using y assms(3) by simp
    show ?thesis
    proof (cases "k_id c = i")
      case False
      then show ?thesis using b by (simp add: within_limits_def lg')
    next
      case True
      have r0: "0 \<le> reserve_for l i (k_priority c)"
        using f reserve_low by (cases "high_priority (k_priority c)") (simp_all add: fair_reserve_def)
      have D: "reserve_for l i (k_priority c) + calls_in DAY (k_time c div DAY) i lg < perDay (limitFor l i)"
        using d r0 True by (auto simp: max_def split: if_splits)
      have L: "low_calls_in DAY (k_time c div DAY) i lg < perDay (limitFor l i) - reserve_for l i None"
        if "\<not> high_priority (k_priority c)"
        using D low_le_all [of DAY "k_time c div DAY" i lg] reserve_low(1) [OF that, of l i] by simp
      show ?thesis
        using b m D L r0 True unfolding within_limits_def lg'
        by (intro allI conjI) (auto dest!: spec simp: max_def split: if_splits)
    qed
  qed
qed

lemma spend_all:
  assumes "ledger_tracks T l lg" and "sorted (map k_time cs)" and "\<forall>c\<in>set cs. T \<le> k_time c"
    and "fair_reserve l i" and "within_limits l lg i"
  shows "within_limits l (snd (fold spend cs (l, lg))) i"
  using assms
proof (induction cs arbitrary: T l lg)
  case Nil
  then show ?case by simp
next
  case (Cons c cs)
  obtain l' lg' where s: "spend c (l, lg) = (l', lg')" by fastforce
  have T: "T \<le> k_time c" using Cons.prems by simp
  note st = spend_step [OF Cons.prems(1) T s]
  have "within_limits l' (snd (fold spend cs (l', lg'))) i"
  proof (rule Cons.IH)
    show "ledger_tracks (k_time c) l' lg'" by (rule st(1))
    show "sorted (map k_time cs)" "\<forall>c'\<in>set cs. k_time c \<le> k_time c'" using Cons.prems(2) by auto
    show "fair_reserve l' i" using Cons.prems(4) by (simp add: fair_reserve_def st(3))
    show "within_limits l' lg' i"
      using st(4) [OF Cons.prems(4,5)] by (simp add: within_limits_def st(2,3))
  qed
  then show ?case by (simp add: s within_limits_def st(2,3))
qed


definition busy_calls :: "qcall list" where
  "busy_calls = map (\<lambda>n. \<lparr>k_id = ''groq'', k_priority = None, k_time = int n, k_tokens = None, k_status = None\<rparr>) [0, 1, 2]"


section \<open>Ceilings from the environment\<close>

definition positive :: "qlimit \<Rightarrow> bool" where
  "positive q = (0 < perMinute q \<and> 0 < perDay q)"

lemma positive_put:
  "positive v \<Longrightarrow> list_all (\<lambda>x. positive (snd x)) ps \<Longrightarrow> list_all (\<lambda>x. positive (snd x)) (assoc_put k v ps)"
  by (induction k v ps rule: assoc_put.induct) auto

lemma positive_lookup:
  "list_all (\<lambda>x. positive (snd x)) ps \<Longrightarrow> positive d \<Longrightarrow> positive (dflt (map_of ps i) d)"
  by (cases "map_of ps i") (auto simp: list_all_iff dest!: map_of_SomeD)

lemma positive_defaults: "list_all (\<lambda>x. positive (snd x)) DEFAULT_LIMITS" "positive FALLBACK_LIMIT"
  by (simp_all add: DEFAULT_LIMITS_def FALLBACK_LIMIT_def mk_limit_def positive_def)

lemma positive_env_entry:
  assumes "list_all (\<lambda>x. positive (snd x)) out"
  shows "list_all (\<lambda>x. positive (snd x)) (env_entry kv out)"
proof -
  have base: "positive (dflt (map_of out i) (dflt (map_of DEFAULT_LIMITS i) FALLBACK_LIMIT))" for i
    using assms positive_defaults by (intro positive_lookup)
  have upd: "positive (q\<lparr>perMinute := n\<rparr>)" "positive (q\<lparr>perDay := n\<rparr>)" if "positive q" "\<not> n \<le> 0" for q n
    using that by (simp_all add: positive_def)
  show ?thesis
    unfolding env_entry_def Let_def
    using assms positive_put [OF upd(1) [OF base]] positive_put [OF upd(2) [OF base]]
    by (auto split: option.split)
qed

lemma limitsFromEnv_positive: "list_all (\<lambda>x. positive (snd x)) (limitsFromEnv env)"
proof -
  have "list_all (\<lambda>x. positive (snd x)) (fold env_entry env out)"
    if "list_all (\<lambda>x. positive (snd x)) out" for out
    using that by (induction env arbitrary: out) (simp_all add: positive_env_entry)
  then show ?thesis by (simp add: limitsFromEnv_def)
qed

end
