(* ===== verification/Side_Effects.thy ===== *)
theory Side_Effects
  imports Prelude
begin

text \<open>
  Idempotent side effects, \<open>src/engine/sideEffects.js\<close>, over the listing and posting calls of
  \<open>src/github.js\<close> for a client that has a token. GitHub is the list of comments, oldest first, and
  of the closing calls it received. What the network does to a call is an argument: a listing may
  fail, and a write may land, be refused, or land without its answer coming back, which is also
  what a process killed between the write and the record leaves behind.
\<close>

section \<open>GitHub\<close>

record hub =
  hub_comments :: "(nat \<times> string) list"
  hub_closed :: "nat list"

datatype fate = Landed | LandedUnseen | Refused

definition bodies_on :: "nat \<Rightarrow> hub \<Rightarrow> string list" where
  "bodies_on issue h = map snd (filter (\<lambda>c. fst c = issue) (hub_comments h))"

text \<open>One page of a hundred, oldest first; an error is logged and answers no comments.\<close>

definition listIssueComments :: "bool \<Rightarrow> nat \<Rightarrow> hub \<Rightarrow> string list" where
  "listIssueComments fails issue h = (if fails then [] else take 100 (bodies_on issue h))"

definition commentOnIssue :: "fate \<Rightarrow> nat \<Rightarrow> string \<Rightarrow> hub \<Rightarrow> hub \<times> bool" where
  "commentOnIssue f issue body h =
    (case f of
       Landed \<Rightarrow> (h\<lparr>hub_comments := hub_comments h @ [(issue, body)]\<rparr>, True)
     | LandedUnseen \<Rightarrow> (h\<lparr>hub_comments := hub_comments h @ [(issue, body)]\<rparr>, False)
     | Refused \<Rightarrow> (h, False))"

definition hub_closeIssue :: "fate \<Rightarrow> nat \<Rightarrow> hub \<Rightarrow> hub \<times> bool" where
  "hub_closeIssue f issue h =
    (case f of
       Landed \<Rightarrow> (h\<lparr>hub_closed := hub_closed h @ [issue]\<rparr>, True)
     | LandedUnseen \<Rightarrow> (h\<lparr>hub_closed := hub_closed h @ [issue]\<rparr>, False)
     | Refused \<Rightarrow> (h, False))"

section \<open>The ledger\<close>

definition MARKER_PREFIX :: string where
  "MARKER_PREFIX = ''titan:''"

definition markerFor :: "string \<Rightarrow> string" where
  "markerFor key = ''<!-- '' @ MARKER_PREFIX @ key @ '' -->''"

datatype se_event =
    SeSuppressed string string string
  | SeSkipped string
  | SeFired string string

record effects =
  se_ledger :: "(string \<times> stamp) list"
  se_skipped :: nat
  se_fired :: nat
  se_suppressed :: "string option"
  se_forceRemoteCheck :: bool
  se_events :: "se_event list"

definition new_effects :: "(string \<times> stamp) list \<Rightarrow> bool \<Rightarrow> string option \<Rightarrow> effects" where
  "new_effects ledger force suppressed =
    \<lparr>se_ledger = ledger, se_skipped = 0, se_fired = 0, se_suppressed = suppressed,
     se_forceRemoteCheck = force, se_events = []\<rparr>"

definition has_key :: "string \<Rightarrow> effects \<Rightarrow> bool" where
  "has_key key s = (key \<in> fst ` set (se_ledger s))"

definition log_event :: "se_event \<Rightarrow> effects \<Rightarrow> effects" where
  "log_event e s = s\<lparr>se_events := se_events s @ [e]\<rparr>"

definition skip_one :: "effects \<Rightarrow> effects" where
  "skip_one s = s\<lparr>se_skipped := se_skipped s + 1\<rparr>"

definition suppress :: "string \<Rightarrow> string \<Rightarrow> string \<Rightarrow> effects \<Rightarrow> effects" where
  "suppress reason key kind s = log_event (SeSuppressed key kind reason) (skip_one s)"

definition record_key :: "stamp \<Rightarrow> string \<Rightarrow> effects \<Rightarrow> effects" where
  "record_key now key s = s\<lparr>se_ledger := assoc_put key now (se_ledger s)\<rparr>"

definition fired_one :: "stamp \<Rightarrow> string \<Rightarrow> string \<Rightarrow> effects \<Rightarrow> effects" where
  "fired_one now key kind s =
    log_event (SeFired key kind) (record_key now key (s\<lparr>se_fired := se_fired s + 1\<rparr>))"

datatype outcome = Posted | Closed | SkippedLedger | SkippedRemote | Suppressed | Noop

definition remoteHas :: "bool \<Rightarrow> nat \<Rightarrow> string \<Rightarrow> hub \<Rightarrow> bool" where
  "remoteHas fails issue key h = list_ex (\<lambda>b. str_includes b (markerFor key)) (listIssueComments fails issue h)"

text \<open>The answer \<open>None\<close> is an exception; issue 0 stands for a task without an issue.\<close>

definition comment ::
  "stamp \<Rightarrow> bool \<Rightarrow> fate \<Rightarrow> nat \<Rightarrow> string \<Rightarrow> string \<Rightarrow> effects \<times> hub \<Rightarrow> outcome option \<times> effects \<times> hub" where
  "comment now list_fails f issue key body sh =
    (let (s, h) = sh in
     if issue = 0 then (Some Noop, s, h)
     else if has_key key s then (Some SkippedLedger, skip_one s, h)
     else
       (case se_suppressed s of
          Some reason \<Rightarrow> (Some Suppressed, suppress reason key ''comment'' s, h)
        | None \<Rightarrow>
            if (se_ledger s \<noteq> [] \<or> se_forceRemoteCheck s) \<and> remoteHas list_fails issue key h
            then (Some SkippedRemote, log_event (SeSkipped key) (record_key now key (skip_one s)), h)
            else
              (let (h', ok) = commentOnIssue f issue (body @ [CHR 0x0A] @ markerFor key) h in
               if ok then (Some Posted, fired_one now key ''comment'' s, h') else (None, s, h'))))"

definition closeIssue ::
  "stamp \<Rightarrow> fate \<Rightarrow> nat \<Rightarrow> string \<Rightarrow> effects \<times> hub \<Rightarrow> outcome option \<times> effects \<times> hub" where
  "closeIssue now f issue key sh =
    (let (s, h) = sh in
     if issue = 0 then (Some Noop, s, h)
     else if has_key key s then (Some SkippedLedger, skip_one s, h)
     else
       (case se_suppressed s of
          Some reason \<Rightarrow> (Some Suppressed, suppress reason key ''close-issue'' s, h)
        | None \<Rightarrow>
            (let (h', ok) = hub_closeIssue f issue h in
             if ok then (Some Closed, fired_one now key ''close-issue'' s, h') else (None, s, h'))))"

text \<open>\<open>fn\<close> acts on a world of its own; \<open>None\<close> from it is an exception.\<close>

definition once ::
  "stamp \<Rightarrow> string \<Rightarrow> ('w \<Rightarrow> 'r option \<times> 'w) \<Rightarrow> effects \<times> 'w \<Rightarrow> (bool \<times> 'r option) option \<times> effects \<times> 'w" where
  "once now key fn sw =
    (let (s, w) = sw in
     if has_key key s then (Some (False, None), skip_one s, w)
     else
       (case se_suppressed s of
          Some reason \<Rightarrow> (Some (False, None), suppress reason key ''custom'' s, w)
        | None \<Rightarrow>
            (case fn w of
               (None, w') \<Rightarrow> (None, s, w')
             | (Some r, w') \<Rightarrow> (Some (True, Some r), fired_one now key ''custom'' s, w'))))"

section \<open>Runs of one task over several pulses\<close>

text \<open>In a pulse the engine comments and humans comment; the first exception ends the engine's work
  on the task. A pulse starts from the ledger of the checkpoint it found, which may be any older
  one: the durable copy is written at intervals.\<close>

datatype act = Engine nat string string fate | Human nat string

fun run_acts :: "stamp \<Rightarrow> act list \<Rightarrow> effects \<times> hub \<Rightarrow> hub \<times> (nat \<times> string) list" where
  "run_acts now [] sh = (snd sh, [])"
| "run_acts now (Human i b # as) sh = run_acts now as (fst sh, (snd sh)\<lparr>hub_comments := hub_comments (snd sh) @ [(i, b)]\<rparr>)"
| "run_acts now (Engine i k b f # as) sh =
     (let (r, s, h) = comment now False f i k b sh;
          landed = (if length (hub_comments h) = length (hub_comments (snd sh)) then [] else [(i, k)]) in
      case r of
        None \<Rightarrow> (h, landed)
      | Some _ \<Rightarrow> (let (h', ps) = run_acts now as (s, h) in (h', landed @ ps)))"

fun run_pulses :: "stamp \<Rightarrow> (effects \<times> act list) list \<Rightarrow> hub \<Rightarrow> hub \<times> (nat \<times> string) list" where
  "run_pulses now [] h = (h, [])"
| "run_pulses now ((s, as) # ps) h =
     (let (h1, p1) = run_acts now as (s, h); (h2, p2) = run_pulses now ps h1 in (h2, p1 @ p2))"

section \<open>At most one comment per key\<close>

lemma startsWith_append [simp]: "startsWith (p @ s) p"
  by (simp add: startsWith_def)

lemma str_includes_suffix: "str_includes (s @ p) p"
proof (induction s)
  case Nil
  have "startsWith p p" by (simp add: startsWith_def)
  then show ?case by (cases p) simp_all
next
  case (Cons c s)
  then show ?case by simp
qed

definition grows :: "hub \<Rightarrow> hub \<Rightarrow> bool" where
  "grows h h' = (\<exists>cs. hub_comments h' = hub_comments h @ cs)"

lemma grows_refl [simp]: "grows h h"
  by (simp add: grows_def)

lemma grows_trans: "grows a b \<Longrightarrow> grows b c \<Longrightarrow> grows a c"
  by (auto simp: grows_def)

lemma grows_bodies: "grows h h' \<Longrightarrow> \<exists>bs. bodies_on i h' = bodies_on i h @ bs"
  by (auto simp: grows_def bodies_on_def)

definition marked :: "hub \<Rightarrow> nat \<times> string \<Rightarrow> bool" where
  "marked h p = (\<exists>b\<in>set (bodies_on (fst p) h). str_includes b (markerFor (snd p)))"

lemma marked_grows: "marked h p \<Longrightarrow> grows h h' \<Longrightarrow> marked h' p"
  by (auto simp: marked_def dest!: grows_bodies [where i = "fst p"])

definition small :: "hub \<Rightarrow> bool" where
  "small h = (\<forall>i. length (bodies_on i h) \<le> 100)"

lemma small_grows: "small h' \<Longrightarrow> grows h h' \<Longrightarrow> small h"
  unfolding small_def by (metis grows_bodies le_add1 length_append order_trans)

lemma remoteHas_small: "small h \<Longrightarrow> remoteHas False i k h = marked h (i, k)"
  by (simp add: remoteHas_def listIssueComments_def small_def marked_def list_ex_iff)

text \<open>What one comment call does to GitHub.\<close>

lemma comment_effect:
  assumes "comment now False f i k b (s, h) = (r, s', h')"
  shows "grows h h'"
    and "length (hub_comments h') \<noteq> length (hub_comments h) \<Longrightarrow> marked h' (i, k)"
    and "length (hub_comments h') \<noteq> length (hub_comments h) \<Longrightarrow> small h \<Longrightarrow>
      se_ledger s \<noteq> [] \<or> se_forceRemoteCheck s \<Longrightarrow> \<not> marked h (i, k)"
    and "length (hub_comments h') \<noteq> length (hub_comments h) \<Longrightarrow> r \<noteq> None \<Longrightarrow> se_ledger s' \<noteq> []"
    and "se_ledger s \<noteq> [] \<or> se_forceRemoteCheck s \<Longrightarrow> se_ledger s' \<noteq> [] \<or> se_forceRemoteCheck s'"
proof -
  show "grows h h'"
    using assms by (auto simp: comment_def commentOnIssue_def grows_def split: if_splits option.splits fate.splits)
  show "length (hub_comments h') \<noteq> length (hub_comments h) \<Longrightarrow> marked h' (i, k)"
    using assms str_includes_suffix [of "b @ [CHR 0x0A]" "markerFor k"]
    by (auto simp: comment_def commentOnIssue_def marked_def bodies_on_def split: if_splits option.splits fate.splits)
  show "length (hub_comments h') \<noteq> length (hub_comments h) \<Longrightarrow> small h \<Longrightarrow>
      se_ledger s \<noteq> [] \<or> se_forceRemoteCheck s \<Longrightarrow> \<not> marked h (i, k)"
    using assms by (auto simp: comment_def remoteHas_small split: if_splits option.splits)
  show "length (hub_comments h') \<noteq> length (hub_comments h) \<Longrightarrow> r \<noteq> None \<Longrightarrow> se_ledger s' \<noteq> []"
    using assms by (auto simp: comment_def commentOnIssue_def fired_one_def log_event_def record_key_def
        split: if_splits option.splits fate.splits)
  show "se_ledger s \<noteq> [] \<or> se_forceRemoteCheck s \<Longrightarrow> se_ledger s' \<noteq> [] \<or> se_forceRemoteCheck s'"
    using assms by (auto simp: comment_def commentOnIssue_def fired_one_def log_event_def record_key_def
        skip_one_def suppress_def split: if_splits option.splits fate.splits)
qed

text \<open>The invariant of a run: what was posted is marked on GitHub, once, and once anything was posted
  the ledger will look before it posts again.\<close>

definition guarded :: "effects \<Rightarrow> (nat \<times> string) list \<Rightarrow> bool" where
  "guarded s done = (done = [] \<or> se_ledger s \<noteq> [] \<or> se_forceRemoteCheck s)"

lemma run_acts_grows: "grows (snd sh) (fst (run_acts now as sh))"
proof (induction now as sh rule: run_acts.induct)
  case (1 now sh)
  then show ?case by simp
next
  case (2 now i b as sh)
  have "grows (snd sh) ((snd sh)\<lparr>hub_comments := hub_comments (snd sh) @ [(i, b)]\<rparr>)" by (simp add: grows_def)
  with 2 show ?case by (auto intro: grows_trans)
next
  case (3 now i k b f as sh)
  obtain s h where sh: "sh = (s, h)" by (cases sh)
  obtain r s' h' where c: "comment now False f i k b (s, h) = (r, s', h')" by (cases "comment now False f i k b (s, h)")
  have g: "grows h h'" using comment_effect(1) [OF c] .
  show ?case
  proof (cases r)
    case None
    then show ?thesis using g by (simp add: sh c)
  next
    case (Some x)
    have "grows h' (fst (run_acts now as (s', h')))"
      using 3 [of "(r, s', h')" r "(s', h')" s' h'] Some by (simp add: sh c)
    then show ?thesis using g Some grows_trans by (simp add: sh c Let_def split_beta)
  qed
qed

lemma run_acts_once:
  assumes "small (fst (run_acts now as (s, h)))" and "guarded s done"
    and "\<forall>p\<in>set done. marked h p" and "distinct done"
  shows "distinct (done @ snd (run_acts now as (s, h))) \<and>
    (\<forall>p\<in>set (snd (run_acts now as (s, h))). marked (fst (run_acts now as (s, h))) p)"
  using assms
proof (induction as arbitrary: s h "done")
  case Nil
  then show ?case by simp
next
  case (Cons a as)
  show ?case
  proof (cases a)
    case (Human i b)
    let ?h = "h\<lparr>hub_comments := hub_comments h @ [(i, b)]\<rparr>"
    have "grows h ?h" by (simp add: grows_def)
    then have "\<forall>p\<in>set done. marked ?h p" using Cons.prems(3) marked_grows by blast
    then show ?thesis using Cons.IH [of s ?h "done"] Cons.prems by (simp add: Human)
  next
    case (Engine i k b f)
    obtain r s' h' where c: "comment now False f i k b (s, h) = (r, s', h')"
      by (cases "comment now False f i k b (s, h)")
    let ?new = "length (hub_comments h') \<noteq> length (hub_comments h)"
    let ?landed = "if ?new then [(i, k)] else []"
    have fst_eq: "fst (run_acts now (a # as) (s, h)) = (if r = None then h' else fst (run_acts now as (s', h')))"
      and snd_eq: "snd (run_acts now (a # as) (s, h)) = (if r = None then ?landed else ?landed @ snd (run_acts now as (s', h')))"
      by (auto simp: Engine c Let_def split_beta split: option.splits)
    have g: "grows h h'" using comment_effect(1) [OF c] .
    have g2: "grows h' (fst (run_acts now (a # as) (s, h)))"
      using run_acts_grows [of "(s', h')" now as] by (simp add: fst_eq)
    have sm': "small h'" using Cons.prems(1) g2 by (rule small_grows)
    then have sm: "small h" using g by (rule small_grows)
    have fresh: "(i, k) \<notin> set done" if ?new
    proof
      assume "(i, k) \<in> set done"
      moreover from this have "se_ledger s \<noteq> [] \<or> se_forceRemoteCheck s"
        using Cons.prems(2) by (auto simp: guarded_def)
      ultimately show False using comment_effect(3) [OF c that sm] Cons.prems(3) by blast
    qed
    let ?done = "done @ ?landed"
    have d: "distinct ?done" using Cons.prems(4) fresh by simp
    have mk: "\<forall>p\<in>set ?done. marked h' p"
      using comment_effect(2) [OF c] Cons.prems(3) marked_grows [OF _ g] by auto
    show ?thesis
    proof (cases "r = None")
      case True
      then show ?thesis using d mk by (simp add: fst_eq snd_eq)
    next
      case False
      have "guarded s' ?done"
        using Cons.prems(2) comment_effect(4) [OF c] comment_effect(5) [OF c] False by (auto simp: guarded_def)
      moreover have "small (fst (run_acts now as (s', h')))" using Cons.prems(1) fst_eq False by simp
      ultimately have IH: "distinct (?done @ snd (run_acts now as (s', h'))) \<and>
          (\<forall>p\<in>set (snd (run_acts now as (s', h'))). marked (fst (run_acts now as (s', h'))) p)"
        using Cons.IH mk d by blast
      moreover have "\<forall>p\<in>set ?landed. marked (fst (run_acts now as (s', h'))) p"
        using mk marked_grows run_acts_grows [of "(s', h')" now as] by auto
      ultimately show ?thesis using False by (auto simp: fst_eq snd_eq)
    qed
  qed
qed

lemma run_pulses_grows: "grows h (fst (run_pulses now ps h))"
proof (induction ps arbitrary: h)
  case Nil
  then show ?case by simp
next
  case (Cons p ps)
  obtain s as where p: "p = (s, as)" by (cases p)
  show ?case
    using run_acts_grows [of "(s, h)" now as] Cons.IH [of "fst (run_acts now as (s, h))"] grows_trans
    by (simp add: p Let_def split_beta)
qed

lemma run_pulses_once:
  assumes "small (fst (run_pulses now ps h))"
    and "\<forall>p\<in>set ps. se_forceRemoteCheck (fst p)"
    and "\<forall>p\<in>set done. marked h p" and "distinct done"
  shows "distinct (done @ snd (run_pulses now ps h))"
  using assms
proof (induction ps arbitrary: h "done")
  case Nil
  then show ?case by simp
next
  case (Cons p ps)
  obtain s as where p: "p = (s, as)" by (cases p)
  let ?h = "fst (run_acts now as (s, h))"
  have sm: "small ?h"
    using Cons.prems(1) run_pulses_grows [of ?h now ps] small_grows by (simp add: p Let_def split_beta)
  have "guarded s done" using Cons.prems(2) by (simp add: p guarded_def)
  note r = run_acts_once [OF sm this Cons.prems(3,4)]
  have "\<forall>q\<in>set (done @ snd (run_acts now as (s, h))). marked ?h q"
    using r Cons.prems(3) marked_grows [OF _ run_acts_grows [of "(s, h)" now as]] by auto
  then have "distinct ((done @ snd (run_acts now as (s, h))) @ snd (run_pulses now ps ?h))"
    using Cons.IH [of ?h "done @ snd (run_acts now as (s, h))"] Cons.prems(1,2) r
    by (simp add: p Let_def split_beta)
  then show ?case by (simp add: p Let_def split_beta)
qed


definition crash_then_resume :: "(effects \<times> act list) list" where
  "crash_then_resume =
    [(new_effects [] False None, [Engine 7 ''done:1'' ''hello'' LandedUnseen]),
     (new_effects [] True None, [Engine 7 ''done:1'' ''hello'' Landed])]"

definition quiet_hub :: hub where
  "quiet_hub = \<lparr>hub_comments = [], hub_closed = []\<rparr>"

lemma crash_then_resume_run:
  "run_pulses (Iso 0) crash_then_resume quiet_hub =
    (\<lparr>hub_comments = [(7, ''hello'' @ [CHR 0x0A] @ markerFor ''done:1'')], hub_closed = []\<rparr>, [(7, ''done:1'')])"
proof -
  have inc: "str_includes (''hello'' @ [CHR 0x0A] @ markerFor ''done:1'') (markerFor ''done:1'')"
    using str_includes_suffix [of "''hello'' @ [CHR 0x0A]" "markerFor ''done:1''"] by simp
  show ?thesis
    using inc by (simp add: crash_then_resume_def quiet_hub_def comment_def new_effects_def has_key_def
        commentOnIssue_def remoteHas_def listIssueComments_def bodies_on_def)
qed


text \<open>The page limit matters: on an issue that already has a hundred comments, none of which
  carries the marker, a comment whose write landed unseen is posted again by the resumed pulse.\<close>

theorem busy_issue_posts_twice:
  assumes "issue \<noteq> 0" and "100 \<le> length (bodies_on issue h)"
    and "\<forall>b\<in>set (bodies_on issue h). \<not> str_includes b (markerFor key)"
  shows "snd (run_pulses now [(new_effects [] True None, [Engine issue key body LandedUnseen]),
      (new_effects [] True None, [Engine issue key body Landed])] h) = [(issue, key), (issue, key)]"
proof -
  let ?b = "body @ [CHR 0x0A] @ markerFor key"
  have no: "\<not> remoteHas False issue key h'" if gr: "grows h h'" for h'
  proof -
    obtain bs where bs: "bodies_on issue h' = bodies_on issue h @ bs"
      using grows_bodies [where i = issue, OF gr] by blast
    show ?thesis
      using bs assms(2,3) by (auto simp: remoteHas_def listIssueComments_def list_ex_iff dest: in_set_takeD)
  qed
  have g: "grows h (h\<lparr>hub_comments := hub_comments h @ [(issue, ?b)]\<rparr>)" by (simp add: grows_def)
  show ?thesis
    using assms(1) no [OF grows_refl] no [OF g]
    by (simp add: comment_def new_effects_def has_key_def commentOnIssue_def)
qed

definition busy_hub :: hub where
  "busy_hub = \<lparr>hub_comments = replicate 100 (7, ''+1''), hub_closed = []\<rparr>"

theorem busy_issue_posts_twice_witness:
  "snd (run_pulses (Iso 0) [(new_effects [] True None, [Engine 7 ''done:1'' ''hello'' LandedUnseen]),
      (new_effects [] True None, [Engine 7 ''done:1'' ''hello'' Landed])] busy_hub) = [(7, ''done:1''), (7, ''done:1'')]"
proof (rule busy_issue_posts_twice)
  show "(7::nat) \<noteq> 0" by simp
  show "100 \<le> length (bodies_on 7 busy_hub)" by (simp add: busy_hub_def bodies_on_def)
  show "\<forall>b\<in>set (bodies_on 7 busy_hub). \<not> str_includes b (markerFor ''done:1'')"
    by (auto simp: busy_hub_def bodies_on_def startsWith_def markerFor_def)
qed

text \<open>A suppressed effect leaves no key behind: whatever dry-run or safe mode kept inside the process,
  the ledger is the one there was, so the same effect fires once the suppression is lifted.\<close>

theorem suppressed_leaves_no_record:
  assumes "issue \<noteq> 0" and "\<not> has_key key s" and "se_suppressed s = Some reason"
    and "\<not> remoteHas fails issue key h"
  shows "\<exists>s'. comment now fails f issue key body (s, h) = (Some Suppressed, s', h) \<and>
    se_ledger s' = se_ledger s \<and>
    fst (comment now fails Landed issue key body (s'\<lparr>se_suppressed := None\<rparr>, h)) = Some Posted"
  using assms
  by (simp add: comment_def suppress_def skip_one_def log_event_def has_key_def commentOnIssue_def)

theorem suppressed_leaves_no_record_witness:
  "\<exists>s'. comment (Iso 0) False Landed 7 ''done:1'' ''hello'' (new_effects [] False (Some ''safe mode is on''), quiet_hub) =
      (Some Suppressed, s', quiet_hub) \<and> se_ledger s' = []"
proof -
  have "\<not> has_key ''done:1'' (new_effects [] False (Some ''safe mode is on''))"
    "se_suppressed (new_effects [] False (Some ''safe mode is on'')) = Some ''safe mode is on''"
    "\<not> remoteHas False 7 ''done:1'' quiet_hub"
    by (simp_all add: has_key_def new_effects_def remoteHas_def listIssueComments_def bodies_on_def quiet_hub_def)
  then show ?thesis
    using suppressed_leaves_no_record [of 7 "''done:1''" "new_effects [] False (Some ''safe mode is on'')"
        "''safe mode is on''" False quiet_hub "Iso 0" Landed "''hello''"]
    by (auto simp: new_effects_def)
qed

text \<open>Any other effect: a recorded key never runs its function again.\<close>

lemma once_recorded:
  assumes "once now key fn (s, w) = (Some (True, x), s', w')"
  shows "has_key key s' \<and> once later key fn' (s', w'') = (Some (False, None), skip_one s', w'')"
proof -
  have "has_key key s'"
    using assms by (auto simp: once_def fired_one_def log_event_def record_key_def has_key_def keys_assoc_put
        split: if_splits option.splits prod.splits)
  then show ?thesis by (simp add: once_def)
qed

end
