(* ===== verification/Pulse_Control.thy ===== *)
theory Pulse_Control
  imports Prelude "HOL-Library.Multiset"
begin

text \<open>
  What keeps one pulse inside its means: the counting semaphore of \<open>src/lib/semaphore.js\<close>, the time
  budget of \<open>src/engine/pulseBudget.js\<close>, and the median of \<open>src/lib/median.js\<close>. Every clock
  reading is an argument.
\<close>

section \<open>The semaphore\<close>

text \<open>A queued caller is known by a number; resolving its promise is admitting it.\<close>

record semaphore =
  sem_max :: int
  sem_inFlight :: int
  sem_queue :: "nat list"

definition new_semaphore :: "rat option \<Rightarrow> semaphore" where
  "new_semaphore m =
    \<lparr>sem_max = max 1 (case m of None \<Rightarrow> 1 | Some r \<Rightarrow> if r = 0 then 1 else \<lfloor>r\<rfloor>),
     sem_inFlight = 0, sem_queue = []\<rparr>"

definition sem_acquire :: "nat \<Rightarrow> semaphore \<Rightarrow> semaphore \<times> bool" where
  "sem_acquire who s =
    (if sem_inFlight s < sem_max s then (s\<lparr>sem_inFlight := sem_inFlight s + 1\<rparr>, True)
     else (s\<lparr>sem_queue := sem_queue s @ [who]\<rparr>, False))"

definition sem_release :: "semaphore \<Rightarrow> semaphore \<times> nat option" where
  "sem_release s =
    (case sem_queue s of
       [] \<Rightarrow> (s\<lparr>sem_inFlight := max 0 (sem_inFlight s - 1)\<rparr>, None)
     | n # q \<Rightarrow> (s\<lparr>sem_queue := q\<rparr>, Some n))"

text \<open>Runs: who arrives and who leaves, with the holders and the admissions so far. A caller leaves
  only while it holds a permit; any other departure is no step.\<close>

datatype sem_op = Arrive nat | Leave nat

record sem_run =
  sr_sem :: semaphore
  sr_holders :: "nat list"
  sr_arrived :: "nat list"
  sr_admitted :: "nat list"

definition start_run :: "rat option \<Rightarrow> sem_run" where
  "start_run m = \<lparr>sr_sem = new_semaphore m, sr_holders = [], sr_arrived = [], sr_admitted = []\<rparr>"

fun sem_step :: "sem_op \<Rightarrow> sem_run \<Rightarrow> sem_run" where
  "sem_step (Arrive w) r =
     (let (s, now) = sem_acquire w (sr_sem r)
      in r\<lparr>sr_sem := s, sr_arrived := sr_arrived r @ [w],
           sr_holders := (if now then sr_holders r @ [w] else sr_holders r),
           sr_admitted := (if now then sr_admitted r @ [w] else sr_admitted r)\<rparr>)"
| "sem_step (Leave w) r =
     (if w \<notin> set (sr_holders r) then r
      else (let (s, n) = sem_release (sr_sem r); hs = remove1 w (sr_holders r)
            in case n of None \<Rightarrow> r\<lparr>sr_sem := s, sr_holders := hs\<rparr>
               | Some k \<Rightarrow> r\<lparr>sr_sem := s, sr_holders := hs @ [k], sr_admitted := sr_admitted r @ [k]\<rparr>))"

definition sem_inv :: "sem_run \<Rightarrow> bool" where
  "sem_inv r =
    (sem_inFlight (sr_sem r) = int (length (sr_holders r)) \<and>
     sem_inFlight (sr_sem r) \<le> sem_max (sr_sem r) \<and>
     (sem_queue (sr_sem r) \<noteq> [] \<longrightarrow> sem_inFlight (sr_sem r) = sem_max (sr_sem r)) \<and>
     sr_arrived r = sr_admitted r @ sem_queue (sr_sem r))"

lemma sem_inv_start: "sem_inv (start_run m)"
  by (auto simp: sem_inv_def start_run_def new_semaphore_def)

lemma sem_inv_step:
  assumes "sem_inv r"
  shows "sem_inv (sem_step a r)" and "sem_max (sr_sem (sem_step a r)) = sem_max (sr_sem r)"
proof -
  show "sem_inv (sem_step a r)"
  proof (cases a)
    case (Arrive w)
    then show ?thesis using assms by (auto simp: sem_inv_def sem_acquire_def Let_def)
  next
    case (Leave w)
    show ?thesis
    proof (cases "w \<in> set (sr_holders r)")
      case True
      then have "0 < length (sr_holders r)" by (auto intro: length_pos_if_in_set)
      then show ?thesis using assms True
        by (cases "sem_queue (sr_sem r)") (auto simp: Leave sem_inv_def sem_release_def Let_def length_remove1 of_nat_diff Suc_le_eq)
    qed (use assms in \<open>simp add: Leave\<close>)
  qed
  show "sem_max (sr_sem (sem_step a r)) = sem_max (sr_sem r)"
    by (cases a) (auto simp: sem_acquire_def sem_release_def Let_def split: list.splits)
qed

lemma sem_inv_run:
  "sem_inv r \<Longrightarrow> sem_inv (fold sem_step as r) \<and> sem_max (sr_sem (fold sem_step as r)) = sem_max (sr_sem r)"
  by (induction as arbitrary: r) (simp_all add: sem_inv_step)

text \<open>The semaphore never admits more than its limit, counts its holders exactly, keeps nobody
  waiting while a permit is free, and admits callers in the order in which they arrived.\<close>

theorem semaphore_exact:
  "let r = fold sem_step as (start_run m) in
     int (length (sr_holders r)) \<le> sem_max (new_semaphore m) \<and>
     sem_inFlight (sr_sem r) = int (length (sr_holders r)) \<and>
     (sem_queue (sr_sem r) = [] \<or> int (length (sr_holders r)) = sem_max (new_semaphore m)) \<and>
     sr_arrived r = sr_admitted r @ sem_queue (sr_sem r)"
  using sem_inv_run [OF sem_inv_start, of as m]
  by (auto simp: sem_inv_def Let_def start_run_def)

section \<open>The time budget\<close>

record budget =
  bg_budgetMs :: rat
  bg_claimReserveMs :: rat
  bg_drainReserveMs :: rat
  bg_startedAt :: rat
  bg_drainRequested :: bool

definition DEFAULT_BUDGET_MS :: rat where "DEFAULT_BUDGET_MS = 7 * 60000"
definition DEFAULT_CLAIM_RESERVE_MS :: rat where "DEFAULT_CLAIM_RESERVE_MS = 90000"
definition DEFAULT_DRAIN_RESERVE_MS :: rat where "DEFAULT_DRAIN_RESERVE_MS = 45000"

definition new_budget :: "rat option \<Rightarrow> rat option \<Rightarrow> rat option \<Rightarrow> rat \<Rightarrow> budget" where
  "new_budget b claim drain now =
    (let budgetMs = dflt b DEFAULT_BUDGET_MS in
     \<lparr>bg_budgetMs = budgetMs,
      bg_claimReserveMs = min (dflt claim DEFAULT_CLAIM_RESERVE_MS) (budgetMs / 2),
      bg_drainReserveMs = min (dflt drain DEFAULT_DRAIN_RESERVE_MS) (budgetMs / 3),
      bg_startedAt = now, bg_drainRequested = False\<rparr>)"

definition elapsedMs :: "budget \<Rightarrow> rat \<Rightarrow> rat" where
  "elapsedMs b now = now - bg_startedAt b"

definition remainingMs :: "budget \<Rightarrow> rat \<Rightarrow> rat" where
  "remainingMs b now = max 0 (bg_budgetMs b - elapsedMs b now)"

definition canClaim :: "budget \<Rightarrow> rat \<Rightarrow> bool" where
  "canClaim b now = (\<not> bg_drainRequested b \<and> bg_claimReserveMs b < remainingMs b now)"

definition shouldDrain :: "budget \<Rightarrow> rat \<Rightarrow> bool" where
  "shouldDrain b now = (bg_drainRequested b \<or> remainingMs b now \<le> bg_drainReserveMs b)"

definition requestDrain :: "budget \<Rightarrow> budget" where
  "requestDrain b = b\<lparr>bg_drainRequested := True\<rparr>"

definition budget_snapshot :: "budget \<Rightarrow> rat \<Rightarrow> rat \<times> rat \<times> rat \<times> bool" where
  "budget_snapshot b now = (bg_budgetMs b, elapsedMs b now, remainingMs b now, shouldDrain b now)"

lemma remaining_antimono: "now \<le> later \<Longrightarrow> remainingMs b later \<le> remainingMs b now"
  by (simp add: remainingMs_def elapsedMs_def)

text \<open>With the default reserves, whatever the length of the budget: a new task is only claimed
  while the pulse is not draining; once the pulse drains, by time or by request, it drains for
  good and claims nothing; and it drains no later than the end of the budget.\<close>

theorem budget_phases:
  fixes b0 start :: rat
  assumes "0 \<le> b0" and "now \<le> later"
  defines "b \<equiv> new_budget (Some b0) None None start"
  shows "(canClaim b now \<longrightarrow> \<not> shouldDrain b now) \<and>
    (shouldDrain b now \<longrightarrow> shouldDrain b later \<and> \<not> canClaim b later) \<and>
    (start + b0 \<le> now \<longrightarrow> shouldDrain b now) \<and>
    shouldDrain (requestDrain b) now \<and> \<not> canClaim (requestDrain b) now"
proof -
  have res: "bg_drainReserveMs b \<le> bg_claimReserveMs b" "0 \<le> bg_drainReserveMs b" "\<not> bg_drainRequested b"
    using assms(1) by (auto simp: b_def new_budget_def Let_def DEFAULT_CLAIM_RESERVE_MS_def DEFAULT_DRAIN_RESERVE_MS_def)
  have mono: "remainingMs b later \<le> remainingMs b now" using assms(2) by (rule remaining_antimono)
  have fin: "remainingMs b now = 0" if "start + b0 \<le> now"
    using that by (simp add: remainingMs_def elapsedMs_def b_def new_budget_def Let_def)
  show ?thesis
    using res mono fin by (auto simp: canClaim_def shouldDrain_def requestDrain_def)
qed

theorem budget_phases_witness:
  "shouldDrain (new_budget (Some 420000) None None 0) 400000 \<and>
   \<not> canClaim (new_budget (Some 420000) None None 0) 410000"
proof -
  have "shouldDrain (new_budget (Some 420000) None None 0) 400000"
    by (simp add: shouldDrain_def new_budget_def Let_def remainingMs_def elapsedMs_def DEFAULT_DRAIN_RESERVE_MS_def)
  then show ?thesis using budget_phases [of 420000 400000 410000 0] by simp
qed

section \<open>The median\<close>

definition js_round_rat :: "rat \<Rightarrow> rat" where
  "js_round_rat x = of_int \<lfloor>x + 1 / 2\<rfloor>"

definition median :: "rat list \<Rightarrow> rat option" where
  "median xs =
    (if xs = [] then None
     else (let s = sort xs; mid = length s div 2 in
       Some (if even (length s) then js_round_rat ((s ! (mid - 1) + s ! mid) / 2) else s ! mid)))"

lemma median_order_irrelevant: "mset xs = mset ys \<Longrightarrow> median xs = median ys"
proof -
  assume m: "mset xs = mset ys"
  then have "sort xs = sort ys" by (metis mset_sort properties_for_sort sorted_sort)
  moreover have "xs = [] \<longleftrightarrow> ys = []" using m by (metis mset_zero_iff)
  ultimately show ?thesis by (simp add: median_def Let_def)
qed

lemma median_odd:
  assumes "odd (length xs)" and "median xs = Some m"
  shows "m \<in> set xs \<and> length (filter (\<lambda>x. x < m) xs) \<le> length xs div 2 \<and>
    length (filter (\<lambda>x. m < x) xs) \<le> length xs div 2"
proof -
  let ?s = "sort xs" let ?k = "length xs div 2"
  have k: "?k < length ?s" using assms(1) by (cases xs) auto
  have m: "m = ?s ! ?k" using assms by (auto simp: median_def Let_def split: if_splits)
  have "m \<in> set ?s" using k m nth_mem by metis
  moreover have "length (filter (\<lambda>x. x < m) ?s) \<le> ?k"
  proof -
    have "filter (\<lambda>x. x < m) (drop ?k ?s) = []"
      using m k by (auto simp: filter_empty_conv in_set_conv_nth not_less intro!: sorted_nth_mono)
    then have "filter (\<lambda>x. x < m) ?s = filter (\<lambda>x. x < m) (take ?k ?s)"
      by (metis append_take_drop_id filter_append append_Nil2)
    also have "length \<dots> \<le> ?k" using length_filter_le [of _ "take ?k ?s"] by simp
    finally show ?thesis .
  qed
  moreover have "length (filter (\<lambda>x. m < x) ?s) \<le> ?k"
  proof -
    have "filter (\<lambda>x. m < x) (take (Suc ?k) ?s) = []"
      using m k by (auto simp: filter_empty_conv in_set_conv_nth not_less intro!: sorted_nth_mono)
    then have "filter (\<lambda>x. m < x) ?s = filter (\<lambda>x. m < x) (drop (Suc ?k) ?s)"
      by (metis append_take_drop_id filter_append append_Nil)
    also have "length \<dots> \<le> length ?s - Suc ?k" using length_filter_le [of _ "drop (Suc ?k) ?s"] by simp
    also have "\<dots> \<le> ?k" using assms(1) by (simp add: odd_iff_mod_2_eq_one)
    finally show ?thesis .
  qed
  moreover have "length (filter P ?s) = length (filter P xs)" for P
    by (metis mset_filter mset_sort size_mset)
  ultimately show ?thesis by simp
qed

end
