(* ===== verification/Regex.thy ===== *)
theory Regex
  imports Prelude
begin

text \<open>
  The regular expressions the code uses, as data, with an executable matcher. A match state
  is the character before the position and the rest of the text, which is what the anchors
  and the word boundary look at. \<open>rx_match r s\<close> lists the states after a match of \<open>r\<close> at
  \<open>s\<close>, in the order in which JavaScript's backtracking finds them (the left alternative first,
  the longest repetition first), so that its head is the match \<open>replace\<close> takes;
  \<open>RegExp.prototype.test\<close> asks for a match at some position.
\<close>

datatype rx = Eps | Cls "char \<Rightarrow> bool" | Seq rx rx | Alt rx rx | Star rx | Bol | Eol | WordB

type_synonym mstate = "char option \<times> string"

definition is_word :: "char \<Rightarrow> bool" where
  "is_word c = (is_lower c \<or> is_upper c \<or> is_digit c \<or> c = CHR ''_'')"

definition word_edge :: "mstate \<Rightarrow> bool" where
  "word_edge s =
    ((case fst s of None \<Rightarrow> False | Some c \<Rightarrow> is_word c) \<noteq>
     (case snd s of [] \<Rightarrow> False | c # _ \<Rightarrow> is_word c))"

text \<open>Repetition: at most as many rounds as characters are left, each consuming some.\<close>

primrec star_match :: "(mstate \<Rightarrow> mstate list) \<Rightarrow> nat \<Rightarrow> mstate \<Rightarrow> mstate list" where
  "star_match f 0 s = [s]"
| "star_match f (Suc n) s =
     concat (map (star_match f n) (filter (\<lambda>t. length (snd t) < length (snd s)) (f s))) @ [s]"

primrec rx_match :: "rx \<Rightarrow> mstate \<Rightarrow> mstate list" where
  "rx_match Eps s = [s]"
| "rx_match (Cls P) s = (case snd s of [] \<Rightarrow> [] | c # cs \<Rightarrow> if P c then [(Some c, cs)] else [])"
| "rx_match (Seq r q) s = concat (map (rx_match q) (rx_match r s))"
| "rx_match (Alt r q) s = rx_match r s @ rx_match q s"
| "rx_match (Star r) s = star_match (rx_match r) (length (snd s)) s"
| "rx_match Bol s = (if fst s = None then [s] else [])"
| "rx_match Eol s = (if snd s = [] then [s] else [])"
| "rx_match WordB s = (if word_edge s then [s] else [])"

fun rx_test_from :: "rx \<Rightarrow> char option \<Rightarrow> string \<Rightarrow> bool" where
  "rx_test_from r p [] = (rx_match r (p, []) \<noteq> [])"
| "rx_test_from r p (c # cs) = (rx_match r (p, c # cs) \<noteq> [] \<or> rx_test_from r (Some c) cs)"

definition rx_test :: "rx \<Rightarrow> string \<Rightarrow> bool" where
  "rx_test r s = rx_test_from r None s"

section \<open>Abbreviations for patterns\<close>

definition chr :: "char \<Rightarrow> rx" where
  "chr c = Cls (\<lambda>x. x = c)"

definition any_of :: "string \<Rightarrow> rx" where
  "any_of s = Cls (\<lambda>x. x \<in> set s)"

definition none_of :: "string \<Rightarrow> rx" where
  "none_of s = Cls (\<lambda>x. x \<notin> set s)"

definition opt :: "rx \<Rightarrow> rx" where
  "opt r = Alt r Eps"

definition plus :: "rx \<Rightarrow> rx" where
  "plus r = Seq r (Star r)"

fun seqs :: "rx list \<Rightarrow> rx" where
  "seqs [] = Eps"
| "seqs [r] = r"
| "seqs (r # q # rs) = Seq r (seqs (q # rs))"

fun alts :: "rx list \<Rightarrow> rx" where
  "alts [] = Cls (\<lambda>_. False)"
| "alts [r] = r"
| "alts (r # q # rs) = Alt r (alts (q # rs))"

text \<open>Literal text, and literal text under the flag \<open>i\<close> (written in lower case).\<close>

definition lit :: "string \<Rightarrow> rx" where
  "lit s = seqs (map chr s)"

definition ichr :: "char \<Rightarrow> rx" where
  "ichr c = Cls (\<lambda>x. lower_char x = c)"

definition ilit :: "string \<Rightarrow> rx" where
  "ilit s = seqs (map ichr s)"

definition digit :: rx where "digit = Cls is_digit"
definition space :: rx where "space = Cls is_space"
definition nonspace :: rx where "nonspace = Cls (\<lambda>c. \<not> is_space c)"
definition wordc :: rx where "wordc = Cls is_word"

text \<open>\<open>.\<close> matches anything but a line end.\<close>

definition dot :: rx where "dot = Cls (\<lambda>c. code_of c \<noteq> 10 \<and> code_of c \<noteq> 13)"

text \<open>\<open>r{m,n}\<close>.\<close>

fun rep :: "nat \<Rightarrow> rx \<Rightarrow> rx" where
  "rep 0 r = Eps"
| "rep (Suc n) r = Seq r (rep n r)"

fun rep_upto :: "nat \<Rightarrow> rx \<Rightarrow> rx" where
  "rep_upto 0 r = Eps"
| "rep_upto (Suc n) r = opt (Seq r (rep_upto n r))"

definition rep_between :: "nat \<Rightarrow> nat \<Rightarrow> rx \<Rightarrow> rx" where
  "rep_between m n r = Seq (rep m r) (rep_upto (n - m) r)"

definition at_least :: "nat \<Rightarrow> rx \<Rightarrow> rx" where
  "at_least n r = Seq (rep n r) (Star r)"

text \<open>\<open>String.prototype.replace\<close> with a global pattern: the matches from left to right, each given to
  \<open>f\<close>; after an empty match the search goes on one character further.\<close>

function rx_replace_from :: "rx \<Rightarrow> (string \<Rightarrow> string) \<Rightarrow> char option \<Rightarrow> string \<Rightarrow> string" where
  "rx_replace_from r f p s =
     (let step = (case s of [] \<Rightarrow> [] | c # cs \<Rightarrow> c # rx_replace_from r f (Some c) cs) in
      case rx_match r (p, s) of
        [] \<Rightarrow> step
      | t # _ \<Rightarrow>
          if length (snd t) < length s
          then f (take (length s - length (snd t)) s) @ rx_replace_from r f (fst t) (snd t)
          else f [] @ step)"
  by pat_completeness auto
termination
  by (relation "measure (\<lambda>(_, _, _, s). length s)") auto

declare rx_replace_from.simps [simp del]

definition rx_replace :: "rx \<Rightarrow> (string \<Rightarrow> string) \<Rightarrow> string \<Rightarrow> string" where
  "rx_replace r f s = rx_replace_from r f None s"

lemma rx_replace_from_no_match: "\<not> rx_test_from r p s \<Longrightarrow> rx_replace_from r f p s = s"
  by (induction r p s rule: rx_test_from.induct) (simp_all add: rx_replace_from.simps)

text \<open>A text without a match is left alone.\<close>

lemma rx_replace_no_match: "\<not> rx_test r s \<Longrightarrow> rx_replace r f s = s"
  by (simp add: rx_test_def rx_replace_def rx_replace_from_no_match)

section \<open>The matcher against the declarative meaning\<close>

lemma rx_match_opt [simp]: "rx_match (opt r) s = rx_match r s @ [s]"
  by (simp add: opt_def)

inductive rx_rel :: "rx \<Rightarrow> mstate \<Rightarrow> mstate \<Rightarrow> bool" where
  rel_eps: "rx_rel Eps s s"
| rel_cls: "P c \<Longrightarrow> rx_rel (Cls P) (p, c # cs) (Some c, cs)"
| rel_seq: "rx_rel r s t \<Longrightarrow> rx_rel q t u \<Longrightarrow> rx_rel (Seq r q) s u"
| rel_left: "rx_rel r s t \<Longrightarrow> rx_rel (Alt r q) s t"
| rel_right: "rx_rel q s t \<Longrightarrow> rx_rel (Alt r q) s t"
| rel_star0: "rx_rel (Star r) s s"
| rel_star1: "rx_rel r s t \<Longrightarrow> rx_rel (Star r) t u \<Longrightarrow> rx_rel (Star r) s u"
| rel_bol: "fst s = None \<Longrightarrow> rx_rel Bol s s"
| rel_eol: "snd s = [] \<Longrightarrow> rx_rel Eol s s"
| rel_word: "word_edge s \<Longrightarrow> rx_rel WordB s s"

lemma rx_rel_progress: "rx_rel r s t \<Longrightarrow> t = s \<or> length (snd t) < length (snd s)"
  by (induction rule: rx_rel.induct) auto

lemma star_match_sound:
  assumes "\<And>s t. t \<in> set (rx_match r s) \<Longrightarrow> rx_rel r s t"
  shows "t \<in> set (star_match (rx_match r) n s) \<Longrightarrow> rx_rel (Star r) s t"
proof (induction n arbitrary: s)
  case 0
  then show ?case by (simp add: rel_star0)
next
  case (Suc n)
  then consider "t = s" | u where "u \<in> set (rx_match r s)" "t \<in> set (star_match (rx_match r) n u)"
    by auto
  then show ?case
  proof cases
    case 1
    then show ?thesis by (simp add: rel_star0)
  next
    case 2
    from assms [OF 2(1)] Suc.IH [OF 2(2)] show ?thesis by (rule rel_star1)
  qed
qed

lemma rx_match_sound: "t \<in> set (rx_match r s) \<Longrightarrow> rx_rel r s t"
proof (induction r arbitrary: s t)
  case (Cls P)
  then obtain c cs where "snd s = c # cs" "P c" "t = (Some c, cs)"
    by (cases "snd s") (auto split: if_splits)
  then show ?case by (cases s) (simp add: rel_cls)
next
  case (Seq r1 r2)
  then obtain u where "u \<in> set (rx_match r1 s)" "t \<in> set (rx_match r2 u)" by auto
  with Seq.IH show ?case by (blast intro: rel_seq)
next
  case (Star r)
  then show ?case by (auto intro: star_match_sound)
qed (auto intro: rx_rel.intros split: if_splits)

lemma star_match_step:
  "u \<in> set (f s) \<Longrightarrow> length (snd u) < length (snd s) \<Longrightarrow> t \<in> set (star_match f n u) \<Longrightarrow>
   t \<in> set (star_match f (Suc n) s)"
  by (simp only: star_match.simps set_append list.set set_concat set_map set_filter) blast

lemma star_match_fuel: "set (star_match f n s) \<subseteq> set (star_match f (Suc n) s)"
proof (induction n arbitrary: s)
  case 0
  then show ?case by simp
next
  case (Suc n)
  show ?case
  proof
    fix t assume "t \<in> set (star_match f (Suc n) s)"
    then consider "t = s" | u where "u \<in> set (f s)" "length (snd u) < length (snd s)" "t \<in> set (star_match f n u)"
      by auto
    then show "t \<in> set (star_match f (Suc (Suc n)) s)"
    proof cases
      case 1
      then show ?thesis by simp
    next
      case 2
      with Suc [of u] have "t \<in> set (star_match f (Suc n) u)" by blast
      with 2(1,2) show ?thesis by (rule star_match_step)
    qed
  qed
qed

lemma star_match_more: "n \<le> k \<Longrightarrow> set (star_match f n s) \<subseteq> set (star_match f k s)"
proof (induction k)
  case 0
  then show ?case by simp
next
  case (Suc k)
  then show ?case using star_match_fuel [of f k s] by (cases "n = Suc k") auto
qed

lemma rx_match_complete: "rx_rel r s t \<Longrightarrow> t \<in> set (rx_match r s)"
proof (induction rule: rx_rel.induct)
  case (rel_seq r s t q u)
  then show ?case by force
next
  case (rel_star0 r s)
  then show ?case by (cases "length (snd s)") simp_all
next
  case (rel_star1 r s t u)
  show ?case
  proof (cases "t = s")
    case True
    with rel_star1 show ?thesis by simp
  next
    case False
    then have shorter: "length (snd t) < length (snd s)"
      using rx_rel_progress [OF rel_star1.hyps(1)] by blast
    then obtain n where n: "length (snd s) = Suc n" by (cases "length (snd s)") auto
    have "u \<in> set (star_match (rx_match r) n t)"
      using rel_star1.IH(2) star_match_more [of "length (snd t)" n "rx_match r" t] shorter n by auto
    then have "u \<in> set (star_match (rx_match r) (Suc n) s)"
      using star_match_step [of t "rx_match r" s u n] rel_star1.IH(1) shorter by blast
    then show ?thesis using n by simp
  qed
qed auto

theorem rx_match_iff: "t \<in> set (rx_match r s) \<longleftrightarrow> rx_rel r s t"
  using rx_match_sound rx_match_complete by blast

section \<open>A text shorter than every match\<close>

primrec minlen :: "rx \<Rightarrow> nat" where
  "minlen Eps = 0"
| "minlen (Cls P) = 1"
| "minlen (Seq r q) = minlen r + minlen q"
| "minlen (Alt r q) = min (minlen r) (minlen q)"
| "minlen (Star r) = 0"
| "minlen Bol = 0"
| "minlen Eol = 0"
| "minlen WordB = 0"

lemma rx_rel_minlen: "rx_rel r s t \<Longrightarrow> minlen r + length (snd t) \<le> length (snd s)"
  by (induction rule: rx_rel.induct) auto

lemma short_no_match: "length s < minlen r \<Longrightarrow> \<not> rx_test r s"
proof -
  have "rx_test_from r p s \<Longrightarrow> minlen r \<le> length s" for p
  proof (induction s arbitrary: p)
    case Nil
    then obtain t where "t \<in> set (rx_match r (p, []))" by (cases "rx_match r (p, [])") auto
    then show ?case using rx_rel_minlen [OF rx_match_sound] by fastforce
  next
    case (Cons c cs)
    show ?case
    proof (cases "rx_match r (p, c # cs) = []")
      case True
      then show ?thesis using Cons by fastforce
    next
      case False
      then obtain t where "t \<in> set (rx_match r (p, c # cs))" by (cases "rx_match r (p, c # cs)") auto
      then show ?thesis using rx_rel_minlen [OF rx_match_sound] by fastforce
    qed
  qed
  then show "length s < minlen r \<Longrightarrow> \<not> rx_test r s" unfolding rx_test_def by fastforce
qed

end
