(* ===== verification/Failures.thy ===== *)
theory Failures
  imports Regex
begin

text \<open>
  The failure taxonomy, \<open>src/reliability/failures.js\<close>. A failure class is text, as in the
  code: the class of a nested \<open>ALL_PROVIDERS_FAILED\<close> error is taken over unchecked. An error
  is a record of the fields the classifier looks at; each of the three status candidates is
  \<open>None\<close> when \<open>Number(c)\<close> is not finite.
\<close>

definition FAILURE_CLASSES :: "string list" where
  "FAILURE_CLASSES = [''transient'', ''rate_limited'', ''provider_down'', ''timeout'',
     ''malformed_output'', ''tool_error'', ''policy_blocked'', ''budget_exhausted'', ''permanent'',
     ''poisoned'', ''cancelled'']"

definition NETWORK_CODES :: "string list" where
  "NETWORK_CODES = [''ECONNRESET'', ''ECONNREFUSED'', ''ECONNABORTED'', ''ETIMEDOUT'', ''EPIPE'',
     ''EHOSTUNREACH'', ''ENETUNREACH'', ''ENOTFOUND'', ''EAI_AGAIN'', ''UND_ERR_CONNECT_TIMEOUT'',
     ''UND_ERR_HEADERS_TIMEOUT'', ''UND_ERR_BODY_TIMEOUT'', ''UND_ERR_SOCKET'']"

record err =
  er_code :: "string option"
  er_status :: "rat option"
  er_statusCode :: "rat option"
  er_responseStatus :: "rat option"
  er_message :: string
  er_name :: "string option"
  er_class :: "string option"
  er_retryAfterMs :: "rat option"
  er_failureClass :: "string option"

text \<open>\<open>err\<close> as a plain string: an object with only a message.\<close>

definition message_err :: "string \<Rightarrow> err" where
  "message_err msg = \<lparr>er_code = None, er_status = None, er_statusCode = None, er_responseStatus = None,
     er_message = msg, er_name = None, er_class = None, er_retryAfterMs = None, er_failureClass = None\<rparr>"

definition statusOf :: "err \<Rightarrow> rat option" where
  "statusOf e =
    List.find (\<lambda>n. 100 \<le> n \<and> n \<le> 599)
      (List.map_filter id [er_status e, er_statusCode e, er_responseStatus e])"

definition deadline_re :: rx where
  "deadline_re = ilit ''deadline''"

definition deadline_exceeded_re :: rx where
  "deadline_exceeded_re = seqs [ilit ''deadline of '', plus digit, ilit ''ms exceeded'']"

definition quota_re :: rx where
  "quota_re = alts [ilit ''quota'',
     seqs [ilit ''insufficient'', opt (any_of ''_ -''), alts [ilit ''balance'', ilit ''credit'']],
     ilit ''out of credits'', ilit ''credit balance'']"

definition no_model_re :: rx where
  "no_model_re = alts [
     seqs [ilit ''model'', opt (any_of ''_ -''), ilit ''not'', opt (any_of ''_ -''), ilit ''found''],
     ilit ''does not exist'', ilit ''unknown model'', ilit ''invalid model'']"

definition unreachable_re :: rx where
  "unreachable_re = alts [ilit ''unreachable'', ilit ''socket hang up'', ilit ''network failure'', ilit ''fetch failed'']"

definition code_in :: "string option \<Rightarrow> string list \<Rightarrow> bool" where
  "code_in c cs = (case c of None \<Rightarrow> False | Some x \<Rightarrow> x \<in> set cs)"

definition status_ge :: "rat option \<Rightarrow> rat \<Rightarrow> bool" where
  "status_ge s n = (case s of None \<Rightarrow> False | Some k \<Rightarrow> n \<le> k)"

definition classify :: "string option \<Rightarrow> rat option \<Rightarrow> string \<Rightarrow> err \<Rightarrow> string" where
  "classify code status message e =
    (let msg = toLowerCase message in
     if code = Some ''CANCELLED'' \<or> (er_name e = Some ''AbortError'' \<and> \<not> rx_test deadline_re message)
       then ''cancelled''
     else if code_in code [''POLICY_BLOCKED'', ''GATE_BLOCK''] then ''policy_blocked''
     else if code_in code [''LOOP_DETECTED'', ''NO_PROGRESS''] then ''poisoned''
     else if code = Some ''TASK_TIMEOUT'' \<or> rx_test deadline_exceeded_re message
             \<or> er_name e = Some ''TimeoutError'' then ''timeout''
     else if code_in code [''MALFORMED_OUTPUT'', ''EMPTY_OUTPUT'', ''REFUSAL''] then ''malformed_output''
     else if code = Some ''TOOL_ERROR'' \<or> (case code of None \<Rightarrow> False | Some c \<Rightarrow> startsWith c ''TOOL_'')
       then ''tool_error''
     else if code_in code [''TASK_BUDGET'', ''PULSE_BUDGET''] then ''budget_exhausted''
     else if status = Some 429 \<or> code = Some ''RATE_LIMITED'' then ''rate_limited''
     else if status = Some 402 \<or> rx_test quota_re msg then ''budget_exhausted''
     else if status = Some 401 \<or> status = Some 403 \<or> code = Some ''UNAUTHORIZED'' then ''permanent''
     else if status = Some 404 \<or> rx_test no_model_re msg then ''permanent''
     else if code_in code [''NOT_CONFIGURED'', ''NO_PUBLIC_API'', ''NO_CANDIDATE''] then ''permanent''
     else if status_ge status 500 then ''provider_down''
     else if code_in code NETWORK_CODES then ''provider_down''
     else if rx_test unreachable_re msg then ''provider_down''
     else if status_ge status 400 then ''permanent''
     else if code = Some ''ALL_PROVIDERS_FAILED'' then dflt (er_failureClass e) ''provider_down''
     else ''transient'')"

record classified =
  cf_class :: string
  cf_code :: "string option"
  cf_status :: "rat option"
  cf_message :: string
  cf_retryAfterMs :: "rat option"

definition classifyFailure :: "err \<Rightarrow> classified" where
  "classifyFailure e =
    (let code = er_code e; status = statusOf e; message = er_message e;
         explicit = (case er_class e of None \<Rightarrow> None
                     | Some c \<Rightarrow> if c \<in> set FAILURE_CLASSES then Some c else None);
         cls = dflt explicit (classify code status message e)
     in \<lparr>cf_class = cls, cf_code = code, cf_status = status, cf_message = take 500 message,
         cf_retryAfterMs = er_retryAfterMs e\<rparr>)"

definition aggregateClass :: "string list \<Rightarrow> nat \<Rightarrow> string" where
  "aggregateClass classes skipped =
    (if classes = [] then (if skipped \<noteq> 0 then ''provider_down'' else ''permanent'')
     else if list_all (\<lambda>c. c = ''permanent'' \<or> c = ''policy_blocked'') classes then ''permanent''
     else if list_all (\<lambda>c. c = ''budget_exhausted'' \<or> c = ''permanent'') classes then ''budget_exhausted''
     else if ''rate_limited'' \<in> set classes then ''rate_limited''
     else if ''provider_down'' \<in> set classes \<or> ''timeout'' \<in> set classes then ''provider_down''
     else if list_all (\<lambda>c. c = ''malformed_output'') classes then ''malformed_output''
     else ''transient'')"

definition PARKABLE :: "string \<Rightarrow> string option" where
  "PARKABLE = map_of [(''rate_limited'', ''provider''), (''provider_down'', ''provider''),
     (''budget_exhausted'', ''quota'')]"

section \<open>The classifier answers in the taxonomy\<close>

text \<open>What a class may be: one of the taxonomy, or the one an aggregate error carries.\<close>

definition class_ok :: "string option \<Rightarrow> err \<Rightarrow> string \<Rightarrow> bool" where
  "class_ok code e v = (v \<in> set FAILURE_CLASSES \<or>
     (code = Some ''ALL_PROVIDERS_FAILED'' \<and> er_failureClass e = Some v))"

lemma class_ok_if: "class_ok k e a \<Longrightarrow> (\<not> c \<Longrightarrow> class_ok k e b) \<Longrightarrow> class_ok k e (if c then a else b)"
  by simp

lemma class_ok_taxonomy:
  "v \<in> set FAILURE_CLASSES \<Longrightarrow> class_ok k e v"
  by (simp add: class_ok_def)

lemma class_ok_last:
  "class_ok k e (if k = Some ''ALL_PROVIDERS_FAILED'' then dflt (er_failureClass e) ''provider_down'' else ''transient'')"
  by (cases "er_failureClass e") (simp_all add: class_ok_def FAILURE_CLASSES_def)

lemma classify_range: "class_ok code e (classify code status msg e)"
  unfolding classify_def Let_def
  by (rule class_ok_last class_ok_if | rule class_ok_taxonomy, simp add: FAILURE_CLASSES_def)+

lemma classifyFailure_class_ok: "class_ok (er_code e) e (cf_class (classifyFailure e))"
proof (cases "\<exists>c. er_class e = Some c \<and> c \<in> set FAILURE_CLASSES")
  case True
  then show ?thesis by (auto simp: classifyFailure_def Let_def class_ok_taxonomy)
next
  case False
  then have "cf_class (classifyFailure e) = classify (er_code e) (statusOf e) (er_message e) e"
    by (auto simp: classifyFailure_def Let_def split: option.splits)
  then show ?thesis by (simp add: classify_range)
qed

lemma classifyFailure_implicit:
  "er_class e = None \<Longrightarrow> cf_class (classifyFailure e) = classify (er_code e) (statusOf e) (er_message e) e"
  by (simp add: classifyFailure_def Let_def)

lemma classify_decisive:
  "classify (Some ''CANCELLED'') st msg e = ''cancelled''"
  "er_name e = None \<Longrightarrow> classify (Some ''GATE_BLOCK'') st msg e = ''policy_blocked''"
  "er_name e = None \<Longrightarrow> classify (Some ''LOOP_DETECTED'') st msg e = ''poisoned''"
  unfolding classify_def Let_def by (simp_all only: code_in_def) simp_all

text \<open>Every error gets a class of the taxonomy, or, for an \<open>ALL_PROVIDERS_FAILED\<close> error, the
  class its own record names; an explicit class of the taxonomy is kept; and a cancelled,
  policy-blocked or looping error keeps its class whatever status or message it carries.\<close>

theorem classifyFailure_taxonomy:
  "(cf_class (classifyFailure e) \<in> set FAILURE_CLASSES \<or>
      (er_code e = Some ''ALL_PROVIDERS_FAILED'' \<and> er_failureClass e = Some (cf_class (classifyFailure e)))) \<and>
   (\<forall>c. er_class e = Some c \<and> c \<in> set FAILURE_CLASSES \<longrightarrow> cf_class (classifyFailure e) = c) \<and>
   (er_class e = None \<and> er_code e = Some ''CANCELLED'' \<longrightarrow> cf_class (classifyFailure e) = ''cancelled'') \<and>
   (er_class e = None \<and> er_code e = Some ''GATE_BLOCK'' \<and> er_name e = None \<longrightarrow>
      cf_class (classifyFailure e) = ''policy_blocked'') \<and>
   (er_class e = None \<and> er_code e = Some ''LOOP_DETECTED'' \<and> er_name e = None \<longrightarrow>
      cf_class (classifyFailure e) = ''poisoned'')"
proof (intro conjI allI impI)
  show "cf_class (classifyFailure e) \<in> set FAILURE_CLASSES \<or>
      (er_code e = Some ''ALL_PROVIDERS_FAILED'' \<and> er_failureClass e = Some (cf_class (classifyFailure e)))"
    using classifyFailure_class_ok [of e] by (simp add: class_ok_def)
next
  fix c
  assume "er_class e = Some c \<and> c \<in> set FAILURE_CLASSES"
  then show "cf_class (classifyFailure e) = c" by (simp add: classifyFailure_def Let_def)
next
  assume "er_class e = None \<and> er_code e = Some ''CANCELLED''"
  then show "cf_class (classifyFailure e) = ''cancelled''"
    by (simp only: classifyFailure_implicit classify_decisive)
next
  assume "er_class e = None \<and> er_code e = Some ''GATE_BLOCK'' \<and> er_name e = None"
  then show "cf_class (classifyFailure e) = ''policy_blocked''"
    by (simp only: classifyFailure_implicit classify_decisive)
next
  assume "er_class e = None \<and> er_code e = Some ''LOOP_DETECTED'' \<and> er_name e = None"
  then show "cf_class (classifyFailure e) = ''poisoned''"
    by (simp only: classifyFailure_implicit classify_decisive)
qed

theorem classifyFailure_taxonomy_witness:
  "cf_class (classifyFailure ((message_err ''status 429'')\<lparr>er_code := Some ''CANCELLED'', er_status := Some 429\<rparr>)) = ''cancelled''"
proof -
  let ?e = "(message_err ''status 429'')\<lparr>er_code := Some ''CANCELLED'', er_status := Some 429\<rparr>"
  have "er_class ?e = None \<and> er_code ?e = Some ''CANCELLED''" by (simp add: message_err_def)
  then show ?thesis by (rule classifyFailure_taxonomy [of ?e, THEN conjunct2, THEN conjunct2, THEN conjunct1, THEN mp])
qed

lemma list_all_except: "x \<in> set cs \<Longrightarrow> \<not> P x \<Longrightarrow> list_all P cs = False"
  by (auto simp only: list_all_iff)

lemma aggregate_rate_limited:
  assumes "''rate_limited'' \<in> set cs"
  shows "aggregateClass cs n = ''rate_limited''"
proof -
  have "cs \<noteq> []" using assms by force
  then show ?thesis using assms by (simp add: aggregateClass_def list_all_except [OF assms])
qed

end
