(* ===== verification/Retry_Policy.thy ===== *)
theory Retry_Policy
  imports Failures
begin

text \<open>
  One retry policy per failure class, \<open>src/reliability/retryPolicy.js\<close>. Delays are rational
  milliseconds; the random number of a jittered delay is an argument. The \<open>why\<close> text of a
  decision is a datatype with one constructor per sentence of the code.
\<close>

record retry_policy =
  p_sameMax :: nat
  p_next :: bool
  p_nextMax :: nat
  p_baseDelayMs :: rat
  p_maxDelayMs :: rat
  p_honorRetryAfter :: bool
  p_giveUp :: bool

definition mk_policy :: "nat \<Rightarrow> bool \<Rightarrow> nat \<Rightarrow> rat \<Rightarrow> rat \<Rightarrow> bool \<Rightarrow> bool \<Rightarrow> retry_policy" where
  "mk_policy s n x b d h g = \<lparr>p_sameMax = s, p_next = n, p_nextMax = x, p_baseDelayMs = b,
     p_maxDelayMs = d, p_honorRetryAfter = h, p_giveUp = g\<rparr>"

definition POLICY :: "(string \<times> retry_policy) list" where
  "POLICY =
    [(''transient'', mk_policy 1 True 2 300 4000 False False),
     (''rate_limited'', mk_policy 1 True 2 1000 8000 True False),
     (''provider_down'', mk_policy 0 True 1 500 4000 True False),
     (''timeout'', mk_policy 0 True 2 0 0 False False),
     (''malformed_output'', mk_policy 2 True 1 0 0 False False),
     (''tool_error'', mk_policy 1 False 0 200 2000 False False),
     (''budget_exhausted'', mk_policy 0 True 1 0 0 False False),
     (''permanent'', mk_policy 0 True 2 0 0 False False),
     (''policy_blocked'', mk_policy 0 False 0 0 0 False True),
     (''poisoned'', mk_policy 0 False 0 0 0 False True),
     (''cancelled'', mk_policy 0 False 0 0 0 False True)]"

definition policy_for :: "string \<Rightarrow> retry_policy" where
  "policy_for cls = dflt (map_of POLICY cls) (the (map_of POLICY ''transient''))"

definition DEFAULT_MAX_INLINE_WAIT_MS :: rat where
  "DEFAULT_MAX_INLINE_WAIT_MS = 10000"

definition PARK_BACKOFF_MS :: "rat list" where
  "PARK_BACKOFF_MS = [5 * 60000, 15 * 60000, 30 * 60000, 60 * 60000, 3 * 3600000]"

definition js_round :: "rat \<Rightarrow> rat" where
  "js_round x = of_int \<lfloor>x + 1 / 2\<rfloor>"

definition pow2 :: "int \<Rightarrow> rat" where
  "pow2 n = (if 0 \<le> n then 2 ^ nat n else 1 / 2 ^ nat (- n))"

definition backoffMs :: "int \<Rightarrow> retry_policy \<Rightarrow> rat \<Rightarrow> rat" where
  "backoffMs attempt pol random =
    (if p_maxDelayMs pol \<le> 0 then 0
     else (let ceil = min (p_maxDelayMs pol) (p_baseDelayMs pol * pow2 (min attempt 10))
           in js_round (random * ceil)))"

datatype retry_action = RetrySame | RetryNext | Park | GiveUp

datatype retry_why =
    NeverRetried string
  | CeilingPark
  | CeilingGiveUp
  | SameModel string nat
  | NextCandidate string nat nat
  | RetryAfterTooLong rat
  | FaultWidespread nat
  | NoCandidateProviderSide
  | NoCandidateLeft string
  | OutsideStep string

record decision =
  d_action :: retry_action
  d_delayMs :: rat
  d_park :: "string option"
  d_wakeInMs :: "rat option"
  d_why :: retry_why

record retry_args =
  ra_class :: string
  ra_retryAfterMs :: "rat option"
  ra_sameProviderAttempts :: nat
  ra_attemptsUsed :: nat
  ra_maxAttempts :: nat
  ra_nextAvailable :: bool
  ra_hops :: "nat option"
  ra_parks :: "nat option"
  ra_maxInlineWaitMs :: "rat option"
  ra_random :: rat

definition parkDecision :: "rat option \<Rightarrow> nat option \<Rightarrow> string \<Rightarrow> retry_why \<Rightarrow> decision" where
  "parkDecision retryAfterMs parks reason why =
    (let backoff = PARK_BACKOFF_MS ! min (dflt parks 0) (length PARK_BACKOFF_MS - 1);
         wakeInMs = (case retryAfterMs of Some r \<Rightarrow> max r 1000 | None \<Rightarrow> backoff)
     in \<lparr>d_action = Park, d_delayMs = 0, d_park = Some reason, d_wakeInMs = Some wakeInMs, d_why = why\<rparr>)"

definition plain :: "retry_action \<Rightarrow> rat \<Rightarrow> retry_why \<Rightarrow> decision" where
  "plain a d w = \<lparr>d_action = a, d_delayMs = d, d_park = None, d_wakeInMs = None, d_why = w\<rparr>"

definition too_long :: "rat option \<Rightarrow> rat \<Rightarrow> bool" where
  "too_long retryAfter maxInline = (case retryAfter of None \<Rightarrow> False | Some r \<Rightarrow> maxInline < r)"

definition decideRetry :: "retry_args \<Rightarrow> decision" where
  "decideRetry a =
    (let pol = policy_for (ra_class a);
         maxInline = dflt (ra_maxInlineWaitMs a) DEFAULT_MAX_INLINE_WAIT_MS;
         parkReason = PARKABLE (ra_class a) in
     if p_giveUp pol then plain GiveUp 0 (NeverRetried (ra_class a))
     else if ra_maxAttempts a \<le> ra_attemptsUsed a then
       (case parkReason of
          Some r \<Rightarrow> parkDecision (ra_retryAfterMs a) (ra_parks a) r CeilingPark
        | None \<Rightarrow> plain GiveUp 0 CeilingGiveUp)
     else
       (let retryAfter = (if p_honorRetryAfter pol then ra_retryAfterMs a else None);
            delay = (case retryAfter of Some r \<Rightarrow> r
                     | None \<Rightarrow> backoffMs (int (ra_sameProviderAttempts a) - 1) pol (ra_random a));
            hops = dflt (ra_hops a) 0 in
        if ra_sameProviderAttempts a \<le> p_sameMax pol \<and> \<not> too_long retryAfter maxInline \<and> delay \<le> maxInline
        then plain RetrySame delay (SameModel (ra_class a) (ra_sameProviderAttempts a + 1))
        else if p_next pol \<and> ra_nextAvailable a \<and> hops < p_nextMax pol
        then plain RetryNext 0 (NextCandidate (ra_class a) (hops + 1) (p_nextMax pol))
        else (case parkReason of
            Some r \<Rightarrow>
              parkDecision (ra_retryAfterMs a) (ra_parks a) r
                (if too_long retryAfter maxInline then RetryAfterTooLong (the retryAfter)
                 else if p_nextMax pol \<le> hops \<and> ra_nextAvailable a then FaultWidespread (hops + 1)
                 else NoCandidateProviderSide)
          | None \<Rightarrow> plain GiveUp 0 (NoCandidateLeft (ra_class a)))))"

definition parkFor :: "string \<Rightarrow> rat option \<Rightarrow> nat \<Rightarrow> (string \<times> rat \<times> retry_why) option" where
  "parkFor cls retryAfterMs parks =
    (case PARKABLE cls of None \<Rightarrow> None
     | Some reason \<Rightarrow>
        (let d = parkDecision retryAfterMs (Some parks) reason (OutsideStep cls)
         in Some (the (d_park d), the (d_wakeInMs d), d_why d)))"

section \<open>What a decision guarantees\<close>

lemma plain_simps [simp]:
  "d_action (plain a d w) = a" "d_delayMs (plain a d w) = d" "d_park (plain a d w) = None"
  "d_wakeInMs (plain a d w) = None" "d_why (plain a d w) = w"
  by (simp_all add: plain_def)

lemma park_backoff_bounds:
  "n < 5 \<Longrightarrow> 300000 \<le> PARK_BACKOFF_MS ! n \<and> PARK_BACKOFF_MS ! n \<le> 10800000"
  by (auto simp: PARK_BACKOFF_MS_def less_Suc_eq numeral_eq_Suc)

lemma parkDecision_simps [simp]:
  "d_action (parkDecision ra ps r w) = Park" "d_park (parkDecision ra ps r w) = Some r"
  "d_delayMs (parkDecision ra ps r w) = 0"
  by (simp_all add: parkDecision_def Let_def)

lemma parkDecision_wake:
  "\<exists>w'. d_wakeInMs (parkDecision ra ps r w) = Some w' \<and> 1000 \<le> w' \<and> (\<forall>x. ra = Some x \<longrightarrow> x \<le> w')"
proof -
  have len: "length PARK_BACKOFF_MS = 5" by (simp add: PARK_BACKOFF_MS_def)
  have "min (dflt ps 0) 4 < 5" by simp
  from park_backoff_bounds [OF this] have "1000 \<le> PARK_BACKOFF_MS ! min (dflt ps 0) 4" by simp
  then show ?thesis by (auto simp: parkDecision_def Let_def len split: option.splits)
qed

lemma wake_after:
  "\<exists>w'. d_wakeInMs (parkDecision ra ps r w) = Some w' \<and> 1000 \<le> w' \<and> dflt ra 0 \<le> w'"
  using parkDecision_wake [of ra ps r w] by (cases ra) auto

lemma decideRetry_cases:
  obtains
    (never) "p_giveUp (policy_for (ra_class a))" "d_action (decideRetry a) = GiveUp"
  | (park) r w where "\<not> p_giveUp (policy_for (ra_class a))" "PARKABLE (ra_class a) = Some r"
      "decideRetry a = parkDecision (ra_retryAfterMs a) (ra_parks a) r w"
  | (out) "PARKABLE (ra_class a) = None" "d_action (decideRetry a) = GiveUp"
  | (same) "\<not> p_giveUp (policy_for (ra_class a))" "ra_attemptsUsed a < ra_maxAttempts a"
      "ra_sameProviderAttempts a \<le> p_sameMax (policy_for (ra_class a))" "d_action (decideRetry a) = RetrySame"
      "d_delayMs (decideRetry a) \<le> dflt (ra_maxInlineWaitMs a) DEFAULT_MAX_INLINE_WAIT_MS"
  | (next_one) "\<not> p_giveUp (policy_for (ra_class a))" "ra_attemptsUsed a < ra_maxAttempts a"
      "ra_nextAvailable a" "dflt (ra_hops a) 0 < p_nextMax (policy_for (ra_class a))"
      "d_action (decideRetry a) = RetryNext"
proof (cases "p_giveUp (policy_for (ra_class a))")
  case True
  then have "d_action (decideRetry a) = GiveUp" by (simp add: decideRetry_def Let_def)
  with True show ?thesis by (rule never)
next
  case False
  show ?thesis
  proof (cases "ra_maxAttempts a \<le> ra_attemptsUsed a")
    case True
    show ?thesis
    proof (cases "PARKABLE (ra_class a)")
      case None
      then have "d_action (decideRetry a) = GiveUp" using True False by (simp add: decideRetry_def Let_def)
      with None show ?thesis by (rule out)
    next
      case (Some r)
      then have "decideRetry a = parkDecision (ra_retryAfterMs a) (ra_parks a) r CeilingPark"
        using True False by (simp add: decideRetry_def Let_def)
      with False Some show ?thesis by (rule park)
    qed
  next
    case below: False
    define retryAfter where
      "retryAfter = (if p_honorRetryAfter (policy_for (ra_class a)) then ra_retryAfterMs a else None)"
    define maxInline where "maxInline = dflt (ra_maxInlineWaitMs a) DEFAULT_MAX_INLINE_WAIT_MS"
    define delay where "delay = (case retryAfter of Some r \<Rightarrow> r
        | None \<Rightarrow> backoffMs (int (ra_sameProviderAttempts a) - 1) (policy_for (ra_class a)) (ra_random a))"
    let ?same = "ra_sameProviderAttempts a \<le> p_sameMax (policy_for (ra_class a)) \<and>
      \<not> too_long retryAfter maxInline \<and> delay \<le> maxInline"
    let ?next = "p_next (policy_for (ra_class a)) \<and> ra_nextAvailable a \<and>
      dflt (ra_hops a) 0 < p_nextMax (policy_for (ra_class a))"
    note eq = decideRetry_def [of a, unfolded Let_def, folded retryAfter_def maxInline_def, folded delay_def]
    show ?thesis
    proof (cases ?same)
      case True
      then have "decideRetry a = plain RetrySame delay (SameModel (ra_class a) (ra_sameProviderAttempts a + 1))"
        using False below by (simp add: eq)
      with True False below show ?thesis by (intro same) (simp_all add: maxInline_def)
    next
      case not_same: False
      show ?thesis
      proof (cases ?next)
        case True
        then have "d_action (decideRetry a) = RetryNext" using False below not_same by (simp add: eq)
        with True False below show ?thesis by (intro next_one) simp_all
      next
        case not_next: False
        show ?thesis
        proof (cases "PARKABLE (ra_class a)")
          case None
          then have "d_action (decideRetry a) = GiveUp"
            using False below not_same not_next by (simp add: eq)
          with None show ?thesis by (rule out)
        next
          case (Some r)
          have "decideRetry a = parkDecision (ra_retryAfterMs a) (ra_parks a) r
              (if too_long retryAfter maxInline then RetryAfterTooLong (the retryAfter)
               else if p_nextMax (policy_for (ra_class a)) \<le> dflt (ra_hops a) 0 \<and> ra_nextAvailable a
                 then FaultWidespread (dflt (ra_hops a) 0 + 1)
               else NoCandidateProviderSide)"
            unfolding eq if_not_P [OF False] if_not_P [OF below] if_not_P [OF not_same] if_not_P [OF not_next]
              Some option.simps by (rule refl)
          with False Some show ?thesis by (rule park)
        qed
      qed
    qed
  qed
qed

text \<open>C38. The decision by case: a give-up class is given up at once; a same-model retry happens below
  the attempt ceiling, within the class's cap, after a wait of at most the inline cap; a hop
  needs a candidate left and a hop left; a park happens only for a class the provider is to
  blame for, and sleeps at least a second and at least as long as the server asked.\<close>

theorem decideRetry_sound:
  "(case d_action (decideRetry a) of
      RetrySame \<Rightarrow> ra_attemptsUsed a < ra_maxAttempts a \<and>
        ra_sameProviderAttempts a \<le> p_sameMax (policy_for (ra_class a)) \<and>
        d_delayMs (decideRetry a) \<le> dflt (ra_maxInlineWaitMs a) DEFAULT_MAX_INLINE_WAIT_MS \<and>
        \<not> p_giveUp (policy_for (ra_class a))
    | RetryNext \<Rightarrow> ra_attemptsUsed a < ra_maxAttempts a \<and> ra_nextAvailable a \<and>
        dflt (ra_hops a) 0 < p_nextMax (policy_for (ra_class a)) \<and> \<not> p_giveUp (policy_for (ra_class a))
    | Park \<Rightarrow> PARKABLE (ra_class a) = d_park (decideRetry a) \<and> d_park (decideRetry a) \<noteq> None \<and>
        (\<exists>w. d_wakeInMs (decideRetry a) = Some w \<and> 1000 \<le> w \<and> dflt (ra_retryAfterMs a) 0 \<le> w)
    | GiveUp \<Rightarrow> p_giveUp (policy_for (ra_class a)) \<or> PARKABLE (ra_class a) = None)"
  by (cases a rule: decideRetry_cases) (simp_all add: wake_after)

text \<open>A jittered delay never exceeds the class's cap, for a random number below one.\<close>

theorem backoff_bounded:
  assumes "0 \<le> random" and "random \<le> 1" and "0 \<le> p_baseDelayMs pol"
    and "p_maxDelayMs pol = of_int n"
  shows "0 \<le> backoffMs k pol random \<and> backoffMs k pol random \<le> max 0 (p_maxDelayMs pol)"
proof (cases "p_maxDelayMs pol \<le> 0")
  case True
  then show ?thesis by (simp add: backoffMs_def)
next
  case False
  define ceil where "ceil = min (p_maxDelayMs pol) (p_baseDelayMs pol * pow2 (min k 10))"
  have pow: "0 \<le> pow2 x" for x by (simp add: pow2_def)
  have c0: "0 \<le> ceil" using False assms(3) pow by (simp add: ceil_def)
  have c1: "ceil \<le> of_int n" using assms(4) by (simp add: ceil_def)
  have "random * ceil \<le> 1 * ceil" using assms(2) c0 by (rule mult_right_mono)
  then have r1: "random * ceil \<le> of_int n" using c1 by simp
  have r0: "0 \<le> random * ceil" using assms(1) c0 by simp
  have "\<lfloor>random * ceil + 1 / 2\<rfloor> \<le> n"
  proof -
    have "random * ceil + 1 / 2 < of_int (n + 1)" using r1 by simp
    then have "\<lfloor>random * ceil + 1 / 2\<rfloor> < n + 1" by (simp only: floor_less_iff)
    then show ?thesis by simp
  qed
  moreover have "0 \<le> \<lfloor>random * ceil + 1 / 2\<rfloor>" using r0 by simp
  ultimately have "0 \<le> js_round (random * ceil) \<and> js_round (random * ceil) \<le> of_int n"
    by (simp add: js_round_def)
  moreover have "backoffMs k pol random = js_round (random * ceil)"
    using False by (simp add: backoffMs_def ceil_def Let_def)
  ultimately show ?thesis using assms(4) False by simp
qed

theorem backoff_bounded_witness:
  "backoffMs 3 (policy_for ''transient'') (1 / 2) \<le> 4000"
proof -
  have p: "p_baseDelayMs (policy_for ''transient'') = 300 \<and> p_maxDelayMs (policy_for ''transient'') = 4000"
    by (simp add: policy_for_def POLICY_def mk_policy_def)
  then show ?thesis using backoff_bounded [of "1 / 2" "policy_for ''transient''" 4000 3] by simp
qed

end
