(* ===== verification/With_Retry.thy ===== *)
theory With_Retry
  imports Retry_Policy
begin

text \<open>
  The retrying call of \<open>src/lib/retry.js\<close>. The attempts of a call are a function from the attempt
  number to what that try gave; whether the signal was aborted is asked before a try, after a
  failed one and during the wait. The random number of a delay and the clock are arguments.
\<close>

section \<open>Which failures are retried\<close>

record lib_err = err +
  le_isRetryable :: bool

definition RETRYABLE_CODES :: "string list" where
  "RETRYABLE_CODES = [''ECONNRESET'', ''ECONNREFUSED'', ''ECONNABORTED'', ''ETIMEDOUT'', ''EPIPE'',
     ''EHOSTUNREACH'', ''ENETUNREACH'', ''ENOTFOUND'', ''EAI_AGAIN'', ''UND_ERR_CONNECT_TIMEOUT'',
     ''UND_ERR_HEADERS_TIMEOUT'', ''UND_ERR_BODY_TIMEOUT'', ''UND_ERR_SOCKET'']"

definition lib_statusOf :: "'a err_scheme \<Rightarrow> rat option" where
  "lib_statusOf e =
    List.find (\<lambda>n. 100 \<le> n \<and> n \<le> 599)
      (List.map_filter id [er_status e, er_statusCode e, er_responseStatus e])"

definition isRetryableError :: "lib_err \<Rightarrow> bool" where
  "isRetryableError e =
    (if er_name e = Some ''AbortError'' \<or> er_code e = Some ''ABORT_ERR'' then False
     else case lib_statusOf e of
       Some st \<Rightarrow> (if st = 429 then True else if 500 \<le> st then True else False)
     | None \<Rightarrow>
         (if code_in (er_code e) RETRYABLE_CODES then True
          else if er_name e = Some ''TimeoutError'' \<or> er_name e = Some ''FetchError'' then True
          else if le_isRetryable e then True
          else False))"

definition isNetworkFault :: "lib_err \<Rightarrow> bool" where
  "isNetworkFault e = (if \<not> isRetryableError e then False else lib_statusOf e = None)"

section \<open>Delays\<close>

text \<open>\<open>parseRetryAfterMs\<close>: \<open>num\<close> is \<open>Number(value)\<close> and \<open>date\<close> is \<open>Date.parse(String(value))\<close>, each
  \<open>None\<close> when not finite; an absent header is the outer \<open>None\<close>.\<close>

definition parseRetryAfterMs :: "(rat option \<times> rat option) option \<Rightarrow> rat \<Rightarrow> rat option" where
  "parseRetryAfterMs v now =
    (case v of
       None \<Rightarrow> None
     | Some (num, date) \<Rightarrow>
         (case num of
            Some n \<Rightarrow> Some (if n \<le> 0 then 0 else js_round (n * 1000))
          | None \<Rightarrow> (case date of Some d \<Rightarrow> Some (max 0 (d - now)) | None \<Rightarrow> None)))"

definition computeBackoff :: "nat \<Rightarrow> rat \<Rightarrow> rat \<Rightarrow> rat option \<Rightarrow> rat \<Rightarrow> rat" where
  "computeBackoff attempt baseDelayMs maxDelayMs retryAfterMs random =
    (case retryAfterMs of
       Some r \<Rightarrow> if 0 \<le> r then js_round r
                 else js_round (random * min maxDelayMs (baseDelayMs * 2 ^ min attempt 30))
     | None \<Rightarrow> js_round (random * min maxDelayMs (baseDelayMs * 2 ^ min attempt 30)))"

section \<open>The loop\<close>

datatype 'a retried = Returned 'a | Threw lib_err | Aborted

record retry_opts =
  ro_attempts :: int
  ro_baseDelayMs :: rat
  ro_maxDelayMs :: rat

definition default_opts :: retry_opts where
  "default_opts = \<lparr>ro_attempts = 3, ro_baseDelayMs = 300, ro_maxDelayMs = 8000\<rparr>"

text \<open>When the signal fires, as seen before attempt \<open>n\<close>, after it failed, and during the wait.\<close>

record abort_signal =
  as_before :: "nat \<Rightarrow> bool"
  as_after :: "nat \<Rightarrow> bool"
  as_waiting :: "nat \<Rightarrow> bool"

definition never :: abort_signal where
  "never = \<lparr>as_before = \<lambda>_. False, as_after = \<lambda>_. False, as_waiting = \<lambda>_. False\<rparr>"

text \<open>The loop from attempt \<open>n\<close> with \<open>left\<close> more tries after it; it also answers the attempts that
  were made, with the delay after each that was followed by a wait.\<close>

fun retry_from ::
  "nat \<Rightarrow> nat \<Rightarrow> (nat \<Rightarrow> lib_err + 'a) \<Rightarrow> retry_opts \<Rightarrow> abort_signal \<Rightarrow> (lib_err \<Rightarrow> bool) \<Rightarrow> (nat \<Rightarrow> rat) \<Rightarrow>
   'a retried \<times> (nat \<times> rat option) list" where
  "retry_from left n fn o' sg retryable random =
    (if as_before sg n then (Aborted, [])
     else case fn n of
       Inr v \<Rightarrow> (Returned v, [(n, None)])
     | Inl e \<Rightarrow>
         if as_after sg n then (Aborted, [(n, None)])
         else (case left of
             0 \<Rightarrow> (Threw e, [(n, None)])
           | Suc left' \<Rightarrow>
               if \<not> retryable e then (Threw e, [(n, None)])
               else (let delayMs = computeBackoff (n - 1) (ro_baseDelayMs o') (ro_maxDelayMs o')
                           (er_retryAfterMs e) (random n) in
                     if as_waiting sg n then (Aborted, [(n, Some delayMs)])
                     else (let (r, tr) = retry_from left' (n + 1) fn o' sg retryable random
                           in (r, (n, Some delayMs) # tr)))))"

declare retry_from.simps [simp del]

definition withRetry ::
  "(nat \<Rightarrow> lib_err + 'a) \<Rightarrow> retry_opts \<Rightarrow> abort_signal \<Rightarrow> (lib_err \<Rightarrow> bool) \<Rightarrow> (nat \<Rightarrow> rat) \<Rightarrow>
   'a retried \<times> (nat \<times> rat option) list" where
  "withRetry fn o' sg retryable random =
    retry_from (nat (max 1 (ro_attempts o')) - 1) 1 fn o' sg retryable random"

section \<open>What the loop does\<close>

lemma retry_from_trace:
  "map fst (snd (retry_from l n fn o' sg rt rnd)) = [n..<n + length (snd (retry_from l n fn o' sg rt rnd))] \<and>
   length (snd (retry_from l n fn o' sg rt rnd)) \<le> l + 1"
proof (induction l arbitrary: n)
  case 0
  show ?case by (subst (1 2 3) retry_from.simps) (auto split: sum.split)
next
  case (Suc l)
  show ?case
  proof (cases "\<exists>e. fn n = Inl e \<and> \<not> as_before sg n \<and> \<not> as_after sg n \<and> rt e \<and> \<not> as_waiting sg n")
    case True
    then obtain e where e: "fn n = Inl e" "\<not> as_before sg n" "\<not> as_after sg n" "rt e" "\<not> as_waiting sg n" by blast
    let ?tr = "snd (retry_from l (n + 1) fn o' sg rt rnd)"
    have "snd (retry_from (Suc l) n fn o' sg rt rnd) =
        (n, Some (computeBackoff (n - 1) (ro_baseDelayMs o') (ro_maxDelayMs o') (er_retryAfterMs e) (rnd n))) # ?tr"
      using e by (subst retry_from.simps) (simp add: Let_def split_beta)
    moreover have "[n..<n + Suc (length ?tr)] = n # [n + 1..<n + 1 + length ?tr]"
      by (simp add: upt_rec)
    ultimately show ?thesis using Suc.IH [of "n + 1"] by simp
  next
    case False
    then have "length (snd (retry_from (Suc l) n fn o' sg rt rnd)) \<le> 1 \<and>
        (\<forall>x\<in>set (snd (retry_from (Suc l) n fn o' sg rt rnd)). fst x = n)"
      by (subst (1 2) retry_from.simps) (auto simp: Let_def split: sum.split)
    then show ?thesis
      by (cases "snd (retry_from (Suc l) n fn o' sg rt rnd)") auto
  qed
qed

lemma retry_from_result:
  assumes "\<forall>k. \<not> as_before sg k \<and> \<not> as_after sg k \<and> \<not> as_waiting sg k"
  shows "case fst (retry_from l n fn o' sg rt rnd) of
      Returned v \<Rightarrow> (\<exists>k\<ge>n. k \<le> n + l \<and> fn k = Inr v \<and> (\<forall>j. n \<le> j \<and> j < k \<longrightarrow> (\<exists>e. fn j = Inl e \<and> rt e)))
    | Threw e \<Rightarrow> (\<exists>k\<ge>n. k \<le> n + l \<and> fn k = Inl e \<and> (k = n + l \<or> \<not> rt e) \<and>
        (\<forall>j. n \<le> j \<and> j < k \<longrightarrow> (\<exists>e. fn j = Inl e \<and> rt e)))
    | Aborted \<Rightarrow> False"
proof (induction l arbitrary: n)
  case 0
  show ?case using assms by (subst retry_from.simps) (auto split: sum.split)
next
  case (Suc l)
  show ?case
  proof (cases "\<exists>e. fn n = Inl e \<and> rt e")
    case True
    then obtain e where e: "fn n = Inl e" "rt e" by blast
    have step: "fst (retry_from (Suc l) n fn o' sg rt rnd) = fst (retry_from l (n + 1) fn o' sg rt rnd)"
      using e assms by (subst retry_from.simps) (simp add: Let_def split_beta)
    have up: "(\<forall>j. n \<le> j \<and> j < k \<longrightarrow> (\<exists>e. fn j = Inl e \<and> rt e))"
      if "\<forall>j. n + 1 \<le> j \<and> j < k \<longrightarrow> (\<exists>e. fn j = Inl e \<and> rt e)" for k
      using that e by (metis Suc_eq_plus1 le_eq_less_or_eq Suc_leI)
    show ?thesis
      unfolding step
    proof (cases "fst (retry_from l (n + 1) fn o' sg rt rnd)")
      case (Returned v)
      then obtain k where "k \<ge> n + 1" "k \<le> n + 1 + l" "fn k = Inr v"
        "\<forall>j. n + 1 \<le> j \<and> j < k \<longrightarrow> (\<exists>e. fn j = Inl e \<and> rt e)"
        using Suc.IH [of "n + 1"] by auto
      with up Returned show "case fst (retry_from l (n + 1) fn o' sg rt rnd) of
        Returned v \<Rightarrow> (\<exists>k\<ge>n. k \<le> n + Suc l \<and> fn k = Inr v \<and> (\<forall>j. n \<le> j \<and> j < k \<longrightarrow> (\<exists>e. fn j = Inl e \<and> rt e)))
      | Threw e \<Rightarrow> (\<exists>k\<ge>n. k \<le> n + Suc l \<and> fn k = Inl e \<and> (k = n + Suc l \<or> \<not> rt e) \<and>
          (\<forall>j. n \<le> j \<and> j < k \<longrightarrow> (\<exists>e. fn j = Inl e \<and> rt e)))
      | Aborted \<Rightarrow> False" by (auto intro!: exI [of _ k])
    next
      case (Threw e')
      then obtain k where "k \<ge> n + 1" "k \<le> n + 1 + l" "fn k = Inl e'" "k = n + 1 + l \<or> \<not> rt e'"
        "\<forall>j. n + 1 \<le> j \<and> j < k \<longrightarrow> (\<exists>e. fn j = Inl e \<and> rt e)"
        using Suc.IH [of "n + 1"] by auto
      with up Threw show "case fst (retry_from l (n + 1) fn o' sg rt rnd) of
        Returned v \<Rightarrow> (\<exists>k\<ge>n. k \<le> n + Suc l \<and> fn k = Inr v \<and> (\<forall>j. n \<le> j \<and> j < k \<longrightarrow> (\<exists>e. fn j = Inl e \<and> rt e)))
      | Threw e \<Rightarrow> (\<exists>k\<ge>n. k \<le> n + Suc l \<and> fn k = Inl e \<and> (k = n + Suc l \<or> \<not> rt e) \<and>
          (\<forall>j. n \<le> j \<and> j < k \<longrightarrow> (\<exists>e. fn j = Inl e \<and> rt e)))
      | Aborted \<Rightarrow> False" by (auto intro!: exI [of _ k])
    next
      case Aborted
      then show "case fst (retry_from l (n + 1) fn o' sg rt rnd) of
        Returned v \<Rightarrow> (\<exists>k\<ge>n. k \<le> n + Suc l \<and> fn k = Inr v \<and> (\<forall>j. n \<le> j \<and> j < k \<longrightarrow> (\<exists>e. fn j = Inl e \<and> rt e)))
      | Threw e \<Rightarrow> (\<exists>k\<ge>n. k \<le> n + Suc l \<and> fn k = Inl e \<and> (k = n + Suc l \<or> \<not> rt e) \<and>
          (\<forall>j. n \<le> j \<and> j < k \<longrightarrow> (\<exists>e. fn j = Inl e \<and> rt e)))
      | Aborted \<Rightarrow> False" using Suc.IH [of "n + 1"] by simp
    qed
  next
    case False
    then show ?thesis using assms
      by (subst retry_from.simps) (auto split: sum.split intro!: exI [of _ n])
  qed
qed

text \<open>The call is tried at most \<open>max(1, attempts)\<close> times, in order and without gaps; and when the
  signal never fires it ends with the first success, or with the error of the first try that is
  not retryable or is the last one allowed, every earlier try having failed retryably.\<close>

theorem withRetry_bounded:
  "length (snd (withRetry fn o' sg rt rnd)) \<le> nat (max 1 (ro_attempts o')) \<and>
   map fst (snd (withRetry fn o' sg rt rnd)) = [1..<1 + length (snd (withRetry fn o' sg rt rnd))] \<and>
   (case fst (withRetry fn o' never rt rnd) of
      Returned v \<Rightarrow> (\<exists>k\<ge>1. k \<le> nat (max 1 (ro_attempts o')) \<and> fn k = Inr v \<and>
        (\<forall>j. 1 \<le> j \<and> j < k \<longrightarrow> (\<exists>e. fn j = Inl e \<and> rt e)))
    | Threw e \<Rightarrow> (\<exists>k\<ge>1. k \<le> nat (max 1 (ro_attempts o')) \<and> fn k = Inl e \<and>
        (k = nat (max 1 (ro_attempts o')) \<or> \<not> rt e) \<and> (\<forall>j. 1 \<le> j \<and> j < k \<longrightarrow> (\<exists>e. fn j = Inl e \<and> rt e)))
    | Aborted \<Rightarrow> False)"
proof -
  let ?l = "nat (max 1 (ro_attempts o')) - 1"
  have l: "1 + ?l = nat (max 1 (ro_attempts o'))" by (simp add: max_def)
  have nev: "\<forall>k. \<not> as_before never k \<and> \<not> as_after never k \<and> \<not> as_waiting never k"
    by (simp add: never_def)
  show ?thesis
    using retry_from_trace [of ?l 1 fn o' sg rt rnd] retry_from_result [OF nev, where l = ?l and n = 1 and fn = fn and o' = o' and rt = rt and rnd = rnd]
    unfolding withRetry_def l by (simp only: l add.commute [of ?l 1])
qed

definition flaky :: "nat \<Rightarrow> lib_err + string" where
  "flaky n = (if n < 3 then Inl (err.extend (message_err ''reset'') (lib_err.fields True)) else Inr ''ok'')"

theorem withRetry_bounded_witness:
  "length (snd (withRetry flaky default_opts never isRetryableError (\<lambda>_. 0))) \<le> 3"
  using withRetry_bounded [of flaky default_opts never isRetryableError "\<lambda>_. 0"]
  by (simp add: default_opts_def)

text \<open>A client error is never retried, and an abort never is, whatever else the error carries.\<close>

lemma not_retried:
  "lib_statusOf e = Some st \<Longrightarrow> 400 \<le> st \<Longrightarrow> st < 500 \<Longrightarrow> st \<noteq> 429 \<Longrightarrow> \<not> isRetryableError e"
  "er_name e = Some ''AbortError'' \<Longrightarrow> \<not> isRetryableError e"
  by (simp_all add: isRetryableError_def)

lemma network_fault_retryable: "isNetworkFault e \<Longrightarrow> isRetryableError e"
  by (simp add: isNetworkFault_def split: if_splits)

end
