(* ===== verification/Json.thy ===== *)
theory Json
  imports Prelude "HOL-Library.List_Lexorder" "HOL-Library.Char_ord" "HOL-Library.Multiset"
begin

text \<open>
  JavaScript values as the engine's JSON files and model answers hold them. A number is an exact
  rational or one of the three values that are not finite; negative zero is not told apart from
  zero. An object is its list of own properties in enumeration order; keys are taken not to be
  array indices, which JavaScript would enumerate first.
\<close>

section \<open>Values\<close>

datatype num = Fin rat | PInf | NInf | NaN

datatype js =
    JUndef
  | JNull
  | JBool bool
  | JNum num
  | JStr string
  | JArr "js list"
  | JObj "(string \<times> js) list"

abbreviation jint :: "int \<Rightarrow> js" where "jint n \<equiv> JNum (Fin (of_int n))"

fun truthy :: "js \<Rightarrow> bool" where
  "truthy JUndef = False"
| "truthy JNull = False"
| "truthy (JBool b) = b"
| "truthy (JNum (Fin r)) = (r \<noteq> 0)"
| "truthy (JNum NaN) = False"
| "truthy (JNum _) = True"
| "truthy (JStr s) = (s \<noteq> [])"
| "truthy (JArr _) = True"
| "truthy (JObj _) = True"

text \<open>\<open>v?.k\<close> on an own property: undefined when there is none or \<open>v\<close> has no properties.\<close>

fun jget :: "js \<Rightarrow> string \<Rightarrow> js" where
  "jget (JObj kvs) k = dflt (map_of kvs k) JUndef"
| "jget _ k = JUndef"

fun nullish :: "js \<Rightarrow> bool" where
  "nullish JUndef = True"
| "nullish JNull = True"
| "nullish _ = False"

text \<open>\<open>v ?? d\<close>.\<close>

definition orNull :: "js \<Rightarrow> js \<Rightarrow> js" where
  "orNull v d = (if nullish v then d else v)"

fun arr_of :: "js \<Rightarrow> js list" where
  "arr_of (JArr xs) = xs"
| "arr_of _ = []"

fun is_arr :: "js \<Rightarrow> bool" where
  "is_arr (JArr _) = True"
| "is_arr _ = False"

fun is_obj :: "js \<Rightarrow> bool" where
  "is_obj (JObj _) = True"
| "is_obj _ = False"

fun entries :: "js \<Rightarrow> (string \<times> js) list" where
  "entries (JObj kvs) = kvs"
| "entries _ = []"

fun str_of :: "js \<Rightarrow> string option" where
  "str_of (JStr s) = Some s"
| "str_of _ = None"

fun num_of :: "js \<Rightarrow> rat option" where
  "num_of (JNum (Fin r)) = Some r"
| "num_of _ = None"

definition set_prop :: "string \<Rightarrow> js \<Rightarrow> js \<Rightarrow> js" where
  "set_prop k x v = (case v of JObj kvs \<Rightarrow> JObj (assoc_put k x kvs) | _ \<Rightarrow> v)"

lemma jget_set_prop [simp]: "is_obj v \<Longrightarrow> jget (set_prop k x v) j = (if j = k then x else jget v j)"
  by (cases v) (simp_all add: set_prop_def)

text \<open>Distinct keys at every level: what a JavaScript object is.\<close>

fun wf_js :: "js \<Rightarrow> bool" where
  "wf_js (JArr xs) = list_all wf_js xs"
| "wf_js (JObj kvs) = (distinct (map fst kvs) \<and> list_all (\<lambda>kv. wf_js (snd kv)) kvs)"
| "wf_js _ = True"

section \<open>JSON text\<close>

definition hex_digit :: "nat \<Rightarrow> char" where
  "hex_digit n = (if n < 10 then char_of (48 + n) else char_of (87 + n))"

definition esc_char :: "char \<Rightarrow> string" where
  "esc_char c =
    (let n = code_of c in
     if n = 34 then [CHR 0x5C, CHR 0x22]
     else if n = 92 then [CHR 0x5C, CHR 0x5C]
     else if n = 8 then [CHR 0x5C, CHR ''b'']
     else if n = 12 then [CHR 0x5C, CHR ''f'']
     else if n = 10 then [CHR 0x5C, CHR ''n'']
     else if n = 13 then [CHR 0x5C, CHR ''r'']
     else if n = 9 then [CHR 0x5C, CHR ''t'']
     else if n < 32 then [CHR 0x5C, CHR ''u'', CHR ''0'', CHR ''0'', hex_digit (n div 16), hex_digit (n mod 16)]
     else [c])"

definition quote :: "string \<Rightarrow> string" where
  "quote s = [CHR 0x22] @ concat (map esc_char s) @ [CHR 0x22]"

text \<open>\<open>JSON.stringify\<close> without indentation; \<open>sn\<close> renders a finite number. \<open>None\<close> is the
  result undefined.\<close>

fun stringify :: "(rat \<Rightarrow> string) \<Rightarrow> js \<Rightarrow> string option" where
  "stringify sn JUndef = None"
| "stringify sn JNull = Some ''null''"
| "stringify sn (JBool b) = Some (if b then ''true'' else ''false'')"
| "stringify sn (JNum (Fin r)) = Some (sn r)"
| "stringify sn (JNum _) = Some ''null''"
| "stringify sn (JStr s) = Some (quote s)"
| "stringify sn (JArr xs) =
     Some (''['' @ join_with '','' (map (\<lambda>x. dflt (stringify sn x) ''null'') xs) @ '']'')"
| "stringify sn (JObj kvs) =
     Some (''{'' @ join_with '',''
       (concat (map (\<lambda>kv. case stringify sn (snd kv) of None \<Rightarrow> [] | Some t \<Rightarrow> [quote (fst kv) @ '':'' @ t]) kvs)) @ ''}'')"

section \<open>A rendering that does not depend on key order\<close>

fun sortKeys :: "js \<Rightarrow> js" where
  "sortKeys (JArr xs) = JArr (map sortKeys xs)"
| "sortKeys (JObj kvs) = JObj (sort_key fst (map (\<lambda>kv. (fst kv, sortKeys (snd kv))) kvs))"
| "sortKeys v = v"

text \<open>The same value up to the order of keys, at every depth.\<close>

inductive same_json :: "js \<Rightarrow> js \<Rightarrow> bool" where
  atom: "same_json v v"
| arr: "list_all2 same_json xs ys \<Longrightarrow> same_json (JArr xs) (JArr ys)"
| obj: "distinct (map fst xs) \<Longrightarrow> distinct (map fst ys) \<Longrightarrow> fst ` set xs = fst ` set ys \<Longrightarrow>
    (\<And>k a b. (k, a) \<in> set xs \<Longrightarrow> (k, b) \<in> set ys \<Longrightarrow> same_json a b) \<Longrightarrow>
    same_json (JObj xs) (JObj ys)"

lemma sorted_pairs_unique:
  assumes "distinct (map fst (xs :: ('a :: linorder \<times> 'b) list))" and "mset xs = mset ys"
  shows "sort_key fst xs = sort_key fst ys"
proof (rule sort_key_inj_key_eq)
  show "mset xs = mset (sort_key fst ys)" using assms(2) by simp
  show "inj_on fst (set xs)" using assms(1) by (simp add: distinct_map)
  show "sorted (map fst (sort_key fst ys))" by simp
qed

lemma mset_mapped_pairs:
  assumes "distinct (map fst xs)" "distinct (map fst ys)" "fst ` set xs = fst ` set ys"
    and "\<And>k a b. (k, a) \<in> set xs \<Longrightarrow> (k, b) \<in> set ys \<Longrightarrow> f a = f b"
  shows "mset (map (\<lambda>kv. (fst kv, f (snd kv))) xs) = mset (map (\<lambda>kv. (fst kv, f (snd kv))) ys)"
proof -
  have d: "distinct (map (\<lambda>kv. (fst kv, f (snd kv))) zs)" if "distinct (map fst zs)" for zs :: "('a \<times> 'b) list"
    using that by (auto simp: distinct_map inj_on_def)
  have "set (map (\<lambda>kv. (fst kv, f (snd kv))) xs) \<subseteq> set (map (\<lambda>kv. (fst kv, f (snd kv))) ys)"
  proof
    fix p assume "p \<in> set (map (\<lambda>kv. (fst kv, f (snd kv))) xs)"
    then obtain k a where ka: "(k, a) \<in> set xs" "p = (k, f a)" by auto
    then have "k \<in> fst ` set ys" using assms(3) by force
    then obtain b where "(k, b) \<in> set ys" by auto
    then show "p \<in> set (map (\<lambda>kv. (fst kv, f (snd kv))) ys)" using ka assms(4) by force
  qed
  moreover have "set (map (\<lambda>kv. (fst kv, f (snd kv))) ys) \<subseteq> set (map (\<lambda>kv. (fst kv, f (snd kv))) xs)"
  proof
    fix p assume "p \<in> set (map (\<lambda>kv. (fst kv, f (snd kv))) ys)"
    then obtain k b where kb: "(k, b) \<in> set ys" "p = (k, f b)" by auto
    then have "k \<in> fst ` set xs" using assms(3) by force
    then obtain a where "(k, a) \<in> set xs" by auto
    then show "p \<in> set (map (\<lambda>kv. (fst kv, f (snd kv))) xs)" using kb assms(4) by force
  qed
  ultimately show ?thesis
    using d [OF assms(1)] d [OF assms(2)] set_eq_iff_mset_eq_distinct by blast
qed

lemma sortKeys_same: "same_json a b \<Longrightarrow> sortKeys a = sortKeys b"
proof (induction rule: same_json.induct)
  case (atom v)
  then show ?case by simp
next
  case (arr xs ys)
  then have "list_all2 (\<lambda>x y. sortKeys x = sortKeys y) xs ys"
    by (rule list.rel_mono_strong) simp
  then have "map sortKeys xs = map sortKeys ys" by (simp add: list_all2_conv_all_nth list_eq_iff_nth_eq)
  then show ?case by simp
next
  case (obj xs ys)
  have "mset (map (\<lambda>kv. (fst kv, sortKeys (snd kv))) xs) = mset (map (\<lambda>kv. (fst kv, sortKeys (snd kv))) ys)"
    using obj by (intro mset_mapped_pairs) auto
  moreover have "distinct (map fst (map (\<lambda>kv. (fst kv, sortKeys (snd kv))) xs))"
    using obj.hyps(1) by (simp add: comp_def)
  ultimately show ?case by (simp add: sorted_pairs_unique)
qed

end
