(* ===== verification/Mini_Yaml.thy ===== *)
theory Mini_Yaml
  imports Json
begin

text \<open>
  The YAML subset of the repository's config files, \<open>src/lib/miniYaml.js\<close>: one pass over the lines
  with the document so far and the open parent key as its state. An error carries its 1-based
  line. A number is the exact value of its decimal text; a \<open>\u\<close> escape is its code unit in UTF-8.
\<close>

section \<open>Comments and scalars\<close>

datatype yaml_error =
    TabIndent nat | BadTopKey nat | ForbiddenKey nat | DuplicateKey nat | NoParent nat
  | MixedKinds nat | EmptyItem nat | ListOfMaps nat | BadSubKey nat
  | Unterminated nat | BadEscape nat | UnsupportedConstruct nat

definition FORBIDDEN_KEYS :: "string list" where
  "FORBIDDEN_KEYS = [''__proto__'', ''constructor'', ''prototype'']"

definition dquote :: char where "dquote = CHR 0x22"
definition squote :: char where "squote = CHR 0x27"
definition backslash :: char where "backslash = CHR 0x5C"

text \<open>The scan of \<open>stripComment\<close>: the open quote, and the character before the current one.\<close>

fun strip_from :: "char option \<Rightarrow> char option \<Rightarrow> string \<Rightarrow> string" where
  "strip_from q p [] = []"
| "strip_from (Some q) p (c # cs) =
     (if c = backslash \<and> q = dquote
      then c # (case cs of [] \<Rightarrow> [] | d # ds \<Rightarrow> d # strip_from (Some q) (Some d) ds)
      else if c = q then c # strip_from None (Some c) cs
      else c # strip_from (Some q) (Some c) cs)"
| "strip_from None p (c # cs) =
     (if c = dquote \<or> c = squote then c # strip_from (Some c) (Some c) cs
      else if c = CHR ''#'' \<and> (case p of None \<Rightarrow> True | Some x \<Rightarrow> is_space x) then []
      else c # strip_from None (Some c) cs)"

definition stripComment :: "string \<Rightarrow> string" where
  "stripComment line = strip_from None None line"

definition hex_val :: "char \<Rightarrow> nat option" where
  "hex_val c =
    (let n = code_of c in
     if 48 \<le> n \<and> n \<le> 57 then Some (n - 48)
     else if 97 \<le> n \<and> n \<le> 102 then Some (n - 87)
     else if 65 \<le> n \<and> n \<le> 70 then Some (n - 55)
     else None)"

definition utf8 :: "nat \<Rightarrow> string" where
  "utf8 n =
    (if n < 128 then [char_of n]
     else if n < 2048 then [char_of (192 + n div 64), char_of (128 + n mod 64)]
     else [char_of (224 + n div 4096), char_of (128 + n div 64 mod 64), char_of (128 + n mod 64)])"

text \<open>The body of a JSON string up to its closing quote, which must end the text.\<close>

fun json_body :: "string \<Rightarrow> string option" where
  "json_body [] = None"
| "json_body (c # cs) =
     (if c = dquote then (if cs = [] then Some [] else None)
      else if code_of c < 32 then None
      else if c \<noteq> backslash then map_option (Cons c) (json_body cs)
      else (case cs of
          [] \<Rightarrow> None
        | e # es \<Rightarrow>
            if e = dquote \<or> e = backslash \<or> e = CHR ''/'' then map_option (Cons e) (json_body es)
            else if e = CHR ''b'' then map_option (Cons (CHR 0x08)) (json_body es)
            else if e = CHR ''f'' then map_option (Cons (CHR 0x0C)) (json_body es)
            else if e = CHR ''n'' then map_option (Cons (CHR 0x0A)) (json_body es)
            else if e = CHR ''r'' then map_option (Cons (CHR 0x0D)) (json_body es)
            else if e = CHR ''t'' then map_option (Cons (CHR 0x09)) (json_body es)
            else if e = CHR ''u'' then
              (case es of
                 h1 # h2 # h3 # h4 # rest \<Rightarrow>
                   (case (hex_val h1, hex_val h2, hex_val h3, hex_val h4) of
                      (Some a, Some b, Some d, Some f) \<Rightarrow>
                        map_option (append (utf8 (((a * 16 + b) * 16 + d) * 16 + f))) (json_body rest)
                    | _ \<Rightarrow> None)
               | _ \<Rightarrow> None)
            else None))"

fun unescape_single :: "string \<Rightarrow> string" where
  "unescape_single (a # b # cs) =
     (if a = squote \<and> b = squote then squote # unescape_single cs else a # unescape_single (b # cs))"
| "unescape_single cs = cs"

text \<open>\<open>Number(s)\<close> on text of the form \<open>-?\d+(\.\d+)?\<close>; \<open>None\<close> on any other text.\<close>

definition decimal :: "string \<Rightarrow> rat option" where
  "decimal s =
    (let neg = startsWith s ''-'';
         t = (if neg then tl s else s);
         w = takeWhile is_digit t;
         r = dropWhile is_digit t;
         value = (\<lambda>f. let v = of_int (digits_val w) + of_int (digits_val f) / 10 ^ length f in if neg then - v else v)
     in if w = [] then None
        else (case r of
            [] \<Rightarrow> Some (value [])
          | c # f \<Rightarrow> if c = CHR ''.'' \<and> f \<noteq> [] \<and> list_all is_digit f then Some (value f) else None))"

definition parseScalar :: "string \<Rightarrow> nat \<Rightarrow> yaml_error + js" where
  "parseScalar raw line =
    (let s = js_trim raw in
     if startsWith s [dquote] then
       (if length s < 2 \<or> \<not> endsWith s [dquote] then Inl (Unterminated line)
        else (case json_body (tl s) of None \<Rightarrow> Inl (BadEscape line) | Some t \<Rightarrow> Inr (JStr t)))
     else if startsWith s [squote] then
       (if length s < 2 \<or> \<not> endsWith s [squote] then Inl (Unterminated line)
        else Inr (JStr (unescape_single (butlast (tl s)))))
     else if s = ''true'' then Inr (JBool True)
     else if s = ''false'' then Inr (JBool False)
     else if s = ''null'' \<or> s = ''~'' then Inr JNull
     else (case decimal s of
         Some r \<Rightarrow> Inr (JNum (Fin r))
       | None \<Rightarrow> if s \<noteq> [] \<and> hd s \<in> set ''[{&*!|>'' then Inl (UnsupportedConstruct line) else Inr (JStr s)))"

section \<open>Lines\<close>

definition word_char :: "char \<Rightarrow> bool" where
  "word_char c = (is_lower c \<or> is_upper c \<or> is_digit c \<or> c = CHR ''_'')"

text \<open>\<open>TOP_KEY\<close>: the key and, when there is white space after the colon, the rest.\<close>

definition match_top :: "string \<Rightarrow> (string \<times> string option) option" where
  "match_top b =
    (let k = takeWhile (\<lambda>c. word_char c \<or> c = CHR ''-'') b; r = drop (length k) b in
     if k = [] \<or> is_digit (hd k) \<or> hd k = CHR ''-'' then None
     else (case r of
         [] \<Rightarrow> None
       | c # r1 \<Rightarrow>
           if c \<noteq> CHR '':'' then None
           else if r1 = [] then Some (k, None)
           else if is_space (hd r1) then Some (k, Some (trimStart r1))
           else None))"

definition match_sub :: "string \<Rightarrow> (string \<times> string) option" where
  "match_sub b =
    (let k = takeWhile (\<lambda>c. word_char c \<or> c = CHR ''.'' \<or> c = CHR ''-'') b; r = drop (length k) b in
     if k = [] \<or> hd k = CHR ''.'' \<or> hd k = CHR ''-'' then None
     else (case r of
         [] \<Rightarrow> None
       | c # r1 \<Rightarrow>
           if c = CHR '':'' \<and> r1 \<noteq> [] \<and> is_space (hd r1) then Some (k, trimStart r1) else None))"

fun has_colon_space :: "string \<Rightarrow> bool" where
  "has_colon_space (a # b # cs) = ((a = CHR '':'' \<and> is_space b) \<or> has_colon_space (b # cs))"
| "has_colon_space _ = False"

definition tab_indented :: "string \<Rightarrow> bool" where
  "tab_indented raw = (case dropWhile (\<lambda>c. c = CHR '' '') raw of [] \<Rightarrow> False | c # _ \<Rightarrow> c = CHR 0x09)"

datatype parent_kind = KNone | KList | KMap

type_synonym yaml_state = "(string \<times> js) list \<times> (string \<times> parent_kind) option"

definition top_line :: "string \<Rightarrow> nat \<Rightarrow> yaml_state \<Rightarrow> yaml_error + yaml_state" where
  "top_line body n st =
    (case match_top body of
       None \<Rightarrow> Inl (BadTopKey n)
     | Some (key, rest) \<Rightarrow>
         if key \<in> set FORBIDDEN_KEYS then Inl (ForbiddenKey n)
         else if key \<in> fst ` set (fst st) then Inl (DuplicateKey n)
         else if rest = None \<or> js_trim (the rest) = [] then Inr (fst st @ [(key, JNull)], Some (key, KNone))
         else res_bind (parseScalar (the rest) n) (\<lambda>v. Inr (fst st @ [(key, v)], None)))"

definition item_line :: "string \<Rightarrow> nat \<Rightarrow> (string \<times> js) list \<Rightarrow> string \<Rightarrow> parent_kind \<Rightarrow> yaml_error + yaml_state" where
  "item_line body n out key kind =
    (if kind = KMap then Inl (MixedKinds n)
     else (let item = (if body = ''-'' then [] else js_trim (drop 2 body)) in
       if item = [] then Inl (EmptyItem n)
       else if \<not> (hd item = dquote \<or> hd item = squote) \<and> has_colon_space item then Inl (ListOfMaps n)
       else res_bind (parseScalar item n)
         (\<lambda>v. Inr (assoc_put key (JArr ((if kind = KNone then [] else arr_of (dflt (map_of out key) JNull)) @ [v])) out,
                   Some (key, KList)))))"

definition entry_line :: "string \<Rightarrow> nat \<Rightarrow> (string \<times> js) list \<Rightarrow> string \<Rightarrow> parent_kind \<Rightarrow> yaml_error + yaml_state" where
  "entry_line body n out key kind =
    (case match_sub body of
       None \<Rightarrow> Inl (BadSubKey n)
     | Some (k, rest) \<Rightarrow>
         if kind = KList then Inl (MixedKinds n)
         else if k \<in> set FORBIDDEN_KEYS then Inl (ForbiddenKey n)
         else (let m = (if kind = KNone then [] else (case dflt (map_of out key) JNull of JObj kvs \<Rightarrow> kvs | _ \<Rightarrow> [])) in
           if k \<in> fst ` set m then Inl (DuplicateKey n)
           else res_bind (parseScalar rest n)
             (\<lambda>v. Inr (assoc_put key (JObj (m @ [(k, v)])) out, Some (key, KMap)))))"

definition yaml_line :: "nat \<Rightarrow> string \<Rightarrow> yaml_state \<Rightarrow> yaml_error + yaml_state" where
  "yaml_line n raw st =
    (if tab_indented raw then Inl (TabIndent n)
     else (let stripped = trimEnd (stripComment raw); body = js_trim stripped in
       if body = [] then Inr st
       else if length stripped = length (trimStart stripped) then top_line body n st
       else (case snd st of
           None \<Rightarrow> Inl (NoParent n)
         | Some (key, kind) \<Rightarrow>
             if body = ''-'' \<or> startsWith body ''- '' then item_line body n (fst st) key kind
             else entry_line body n (fst st) key kind)))"

fun yaml_lines :: "nat \<Rightarrow> string list \<Rightarrow> yaml_state \<Rightarrow> yaml_error + yaml_state" where
  "yaml_lines n [] st = Inr st"
| "yaml_lines n (l # ls) st = res_bind (yaml_line n l st) (yaml_lines (n + 1) ls)"

text \<open>The byte order mark, and \<open>\r\n\<close> or \<open>\r\<close> as \<open>\n\<close>.\<close>

definition strip_bom :: "string \<Rightarrow> string" where
  "strip_bom s = (if startsWith s [CHR 0xEF, CHR 0xBB, CHR 0xBF] then drop 3 s else s)"

fun unix_lines :: "string \<Rightarrow> string" where
  "unix_lines [] = []"
| "unix_lines (c # cs) =
     (if c = CHR 0x0D then CHR 0x0A # (case cs of [] \<Rightarrow> [] | d # ds \<Rightarrow> unix_lines (if d = CHR 0x0A then ds else cs))
      else c # unix_lines cs)"

definition parseYamlSubset :: "string \<Rightarrow> yaml_error + (string \<times> js) list" where
  "parseYamlSubset txt =
    res_bind (yaml_lines 1 (split_on (\<lambda>c. c = CHR 0x0A) (unix_lines (strip_bom txt))) ([], None))
      (\<lambda>st. Inr (fst st))"

section \<open>What a parsed document looks like\<close>

fun scalar :: "js \<Rightarrow> bool" where
  "scalar (JArr _) = False"
| "scalar (JObj _) = False"
| "scalar JUndef = False"
| "scalar _ = True"

fun yaml_value :: "js \<Rightarrow> bool" where
  "yaml_value (JArr xs) = list_all scalar xs"
| "yaml_value (JObj kvs) = (distinct (map fst kvs) \<and> list_all (\<lambda>kv. scalar (snd kv) \<and> fst kv \<notin> set FORBIDDEN_KEYS) kvs)"
| "yaml_value v = scalar v"

definition yaml_doc :: "(string \<times> js) list \<Rightarrow> bool" where
  "yaml_doc out =
    (distinct (map fst out) \<and> list_all (\<lambda>kv. yaml_value (snd kv) \<and> fst kv \<notin> set FORBIDDEN_KEYS) out)"

fun kind_of :: "js \<Rightarrow> parent_kind" where
  "kind_of (JArr _) = KList"
| "kind_of (JObj _) = KMap"
| "kind_of _ = KNone"

definition yaml_inv :: "yaml_state \<Rightarrow> bool" where
  "yaml_inv st =
    (yaml_doc (fst st) \<and>
     (case snd st of None \<Rightarrow> True
      | Some (k, kind) \<Rightarrow> (\<exists>v. map_of (fst st) k = Some v \<and> kind_of v = kind)))"

lemma parseScalar_scalar: "parseScalar raw n = Inr v \<Longrightarrow> scalar v"
  by (auto simp: parseScalar_def Let_def split: if_splits option.splits)

lemma doc_put:
  assumes "yaml_doc out" and "yaml_value v" and "k \<in> fst ` set out"
  shows "yaml_doc (assoc_put k v out)"
proof -
  have "list_all P (assoc_put k v out)" if "list_all P out" "P (k, v)" for P
    using that by (induction k v out rule: assoc_put.induct) auto
  moreover have "k \<notin> set FORBIDDEN_KEYS" using assms by (auto simp: yaml_doc_def list_all_iff)
  ultimately show ?thesis using assms by (simp add: yaml_doc_def distinct_assoc_put)
qed

lemma doc_snoc:
  "yaml_doc out \<Longrightarrow> yaml_value v \<Longrightarrow> k \<notin> fst ` set out \<Longrightarrow> k \<notin> set FORBIDDEN_KEYS \<Longrightarrow> yaml_doc (out @ [(k, v)])"
  by (auto simp: yaml_doc_def)

lemma scalar_value: "scalar v \<Longrightarrow> yaml_value v"
  by (cases v) auto

lemma map_of_snoc_fresh: "k \<notin> fst ` set xs \<Longrightarrow> map_of (xs @ [(k, v)]) k = Some v"
  by (induction xs) auto

lemma top_line_inv:
  assumes "yaml_doc (fst st)" and "top_line body n st = Inr st'"
  shows "yaml_inv st'"
proof -
  obtain key rest where m: "match_top body = Some (key, rest)" "key \<notin> set FORBIDDEN_KEYS" "key \<notin> fst ` set (fst st)"
    using assms(2) by (auto simp: top_line_def split: option.splits if_splits)
  show ?thesis
  proof (cases "rest = None \<or> js_trim (the rest) = []")
    case True
    then have "st' = (fst st @ [(key, JNull)], Some (key, KNone))"
      using assms(2) m by (simp add: top_line_def)
    then show ?thesis
      using doc_snoc [OF assms(1) _ m(3,2), of JNull] map_of_snoc_fresh [OF m(3), of JNull]
      by (simp add: yaml_inv_def)
  next
    case False
    then obtain x where x: "parseScalar (the rest) n = Inr x" "st' = (fst st @ [(key, x)], None)"
      using assms(2) m by (auto simp: top_line_def res_bind_eq_Inr)
    then show ?thesis
      using doc_snoc [OF assms(1) scalar_value [OF parseScalar_scalar [OF x(1)]] m(3,2)]
      by (simp add: yaml_inv_def)
  qed
qed

lemma doc_lookup: "yaml_doc out \<Longrightarrow> map_of out k = Some v \<Longrightarrow> yaml_value v \<and> k \<in> fst ` set out"
  by (force simp: yaml_doc_def list_all_iff dest: map_of_SomeD)

lemma item_line_inv:
  assumes "yaml_inv (out, Some (key, kind))" and "item_line body n out key kind = Inr st'"
  shows "yaml_inv st'"
proof -
  obtain v where v: "map_of out key = Some v" "kind_of v = kind" and d: "yaml_doc out"
    using assms(1) by (auto simp: yaml_inv_def)
  have k: "yaml_value v" "key \<in> fst ` set out" using doc_lookup [OF d v(1)] by simp_all
  let ?m = "if kind = KNone then [] else arr_of v"
  obtain x where x: "scalar x" "st' = (assoc_put key (JArr (?m @ [x])) out, Some (key, KList))"
    using assms(2) v(1)
    by (auto simp: item_line_def Let_def res_bind_eq_Inr dest!: parseScalar_scalar split: if_splits)
  have "yaml_value (JArr (?m @ [x]))" using k(1) x(1) by (cases v) auto
  then show ?thesis using d k(2) x(2) by (simp add: yaml_inv_def doc_put)
qed

lemma entry_line_inv:
  assumes "yaml_inv (out, Some (key, kind))" and "entry_line body n out key kind = Inr st'"
  shows "yaml_inv st'"
proof -
  obtain v where v: "map_of out key = Some v" "kind_of v = kind" and d: "yaml_doc out"
    using assms(1) by (auto simp: yaml_inv_def)
  have k: "yaml_value v" "key \<in> fst ` set out" using doc_lookup [OF d v(1)] by simp_all
  obtain q rest where q: "match_sub body = Some (q, rest)" "q \<notin> set FORBIDDEN_KEYS" "kind \<noteq> KList"
    using assms(2) by (auto simp: entry_line_def split: option.splits if_splits)
  let ?m = "if kind = KNone then [] else (case v of JObj kvs \<Rightarrow> kvs | _ \<Rightarrow> [])"
  from assms(2) q v obtain x where x: "parseScalar rest n = Inr x" "q \<notin> fst ` set ?m"
    "st' = (assoc_put key (JObj (?m @ [(q, x)])) out, Some (key, KMap))"
    by (auto simp: entry_line_def Let_def res_bind_eq_Inr split: if_splits)
  have "yaml_value (JObj (?m @ [(q, x)]))"
    using k(1) x(2) q(2) parseScalar_scalar [OF x(1)] by (cases v) auto
  then show ?thesis using d k(2) x(3) by (simp add: yaml_inv_def doc_put)
qed

lemma yaml_line_cases:
  assumes "yaml_line n raw st = Inr st'"
  obtains "st' = st"
  | body where "top_line body n st = Inr st'"
  | body key kind where "snd st = Some (key, kind)" "item_line body n (fst st) key kind = Inr st'"
  | body key kind where "snd st = Some (key, kind)" "entry_line body n (fst st) key kind = Inr st'"
proof (cases "js_trim (trimEnd (stripComment raw)) = []")
  case True
  then have "st' = st" using assms unfolding yaml_line_def Let_def by (simp split: if_split_asm)
  then show ?thesis by (rule that(1))
next
  case body: False
  let ?b = "js_trim (trimEnd (stripComment raw))"
  show ?thesis
  proof (cases "length (trimEnd (stripComment raw)) = length (trimStart (trimEnd (stripComment raw)))")
    case True
    then have "top_line ?b n st = Inr st'"
      using assms body unfolding yaml_line_def Let_def by (simp only: if_False if_True split: if_split_asm) simp_all
    then show ?thesis by (rule that(2))
  next
    case indented: False
    obtain key kind where kk: "snd st = Some (key, kind)"
      using assms body indented unfolding yaml_line_def Let_def
      by (cases "snd st") (auto simp only: if_False option.case sum.distinct split: if_split_asm)
    show ?thesis
    proof (cases "?b = ''-'' \<or> startsWith ?b ''- ''")
      case True
      then have "item_line ?b n (fst st) key kind = Inr st'"
        using assms body indented unfolding yaml_line_def Let_def kk
        by (simp only: if_False if_True option.case prod.case sum.distinct split: if_split_asm)
      with kk show ?thesis by (rule that(3))
    next
      case False
      then have "entry_line ?b n (fst st) key kind = Inr st'"
        using assms body indented unfolding yaml_line_def Let_def kk
        by (simp only: if_False if_True option.case prod.case sum.distinct split: if_split_asm)
      with kk show ?thesis by (rule that(4))
    qed
  qed
qed

lemma yaml_line_inv:
  assumes "yaml_inv st" and "yaml_line n raw st = Inr st'"
  shows "yaml_inv st'"
proof -
  have d: "yaml_doc (fst st)" using assms(1) by (simp add: yaml_inv_def)
  have st: "st = (fst st, snd st)" by simp
  show ?thesis
    using assms(2)
  proof (cases rule: yaml_line_cases)
    case 1
    then show ?thesis using assms(1) by simp
  next
    case (2 body)
    then show ?thesis by (rule top_line_inv [OF d])
  next
    case (3 body key kind)
    with assms(1) st show ?thesis using item_line_inv [of "fst st" key kind body n st'] by simp
  next
    case (4 body key kind)
    with assms(1) st show ?thesis using entry_line_inv [of "fst st" key kind body n st'] by simp
  qed
qed

lemma yaml_lines_inv: "yaml_inv st \<Longrightarrow> yaml_lines n ls st = Inr st' \<Longrightarrow> yaml_inv st'"
proof (induction ls arbitrary: n st)
  case Nil
  then show ?case by simp
next
  case (Cons l ls)
  then show ?case by (auto simp: res_bind_eq_Inr dest: yaml_line_inv)
qed

text \<open>Whatever text is parsed, a document that comes back has distinct keys, none of them a
  prototype key, and nests at most one level: each value is a scalar, a list of scalars, or a map
  from distinct safe keys to scalars.\<close>

theorem parsed_yaml_is_flat:
  assumes "parseYamlSubset txt = Inr doc"
  shows "distinct (map fst doc) \<and>
    (\<forall>(k, v)\<in>set doc. k \<notin> set FORBIDDEN_KEYS \<and> yaml_value v)"
proof -
  obtain st where "yaml_lines 1 (split_on (\<lambda>c. c = CHR 0x0A) (unix_lines (strip_bom txt))) ([], None) = Inr st"
    "doc = fst st"
    using assms by (auto simp: parseYamlSubset_def res_bind_eq_Inr)
  moreover have "yaml_inv ([], None)" by (simp add: yaml_inv_def yaml_doc_def)
  ultimately have "yaml_inv st" using yaml_lines_inv by blast
  then show ?thesis using \<open>doc = fst st\<close> by (auto simp: yaml_inv_def yaml_doc_def list_all_iff)
qed

section \<open>What is written is read back\<close>

text \<open>Names that need no quotes, and the text of a document of such names.\<close>

definition name_char :: "char \<Rightarrow> bool" where
  "name_char c = (word_char c \<or> c = CHR ''-'')"

definition plain_name :: "string \<Rightarrow> bool" where
  "plain_name s = (s \<noteq> [] \<and> list_all name_char s \<and> \<not> is_digit (hd s) \<and> hd s \<noteq> CHR ''-'' \<and>
     s \<notin> {''true'', ''false'', ''null''} \<and> s \<notin> set FORBIDDEN_KEYS)"

datatype yentry = Scalar string | Items "string list"

definition item_text :: "string \<Rightarrow> string" where
  "item_text i = ''  - '' @ i"

fun entry_text :: "string \<times> yentry \<Rightarrow> string list" where
  "entry_text (k, Scalar v) = [k @ '': '' @ v]"
| "entry_text (k, Items is) = (k @ '':'') # map item_text is"

fun entry_value :: "yentry \<Rightarrow> js" where
  "entry_value (Scalar v) = JStr v"
| "entry_value (Items is) = (if is = [] then JNull else JArr (map JStr is))"

fun plain_entry :: "yentry \<Rightarrow> bool" where
  "plain_entry (Scalar v) = plain_name v"
| "plain_entry (Items is) = list_all plain_name is"

definition yaml_text :: "(string \<times> yentry) list \<Rightarrow> string" where
  "yaml_text doc = join_with [CHR 0x0A] (concat (map entry_text doc))"

lemma not_names:
  "\<not> name_char dquote" "\<not> name_char squote" "\<not> name_char (CHR ''#'')" "\<not> name_char (CHR '':'')"
  "\<not> name_char (CHR 0x09)" "\<not> name_char (CHR 0x0A)" "\<not> name_char (CHR 0x0D)" "\<not> name_char (CHR 0xEF)"
  "\<not> name_char (CHR ''~'')" "\<not> name_char (CHR ''['')" "\<not> name_char (CHR ''{'')" "\<not> name_char (CHR ''&'')"
  "\<not> name_char (CHR ''*'')" "\<not> name_char (CHR ''!'')" "\<not> name_char (CHR ''|'')" "\<not> name_char (CHR ''>'')"
  by code_simp+

lemma name_not_space: "name_char c \<Longrightarrow> \<not> is_space c"
  by (auto simp: name_char_def word_char_def is_lower_def is_upper_def is_digit_def is_space_def code_of_def)

lemma name_char_facts:
  assumes "name_char c"
  shows "c \<noteq> dquote" "c \<noteq> squote" "c \<noteq> CHR ''#''" "\<not> is_space c" "c \<noteq> CHR '':''"
    "c \<noteq> CHR 0x09" "c \<noteq> CHR 0x0A" "c \<noteq> CHR 0x0D" "c \<noteq> CHR 0xEF" "c \<noteq> CHR ''~''"
    "c \<notin> set ''[{&*!|>''"
  using assms not_names name_not_space by (metis, metis, metis, metis, metis, metis, metis, metis, metis, metis, force)

lemma name_quiet:
  assumes "\<forall>c\<in>set s. name_char c"
  shows "dquote \<notin> set s" "squote \<notin> set s" "CHR ''#'' \<notin> set s"
  using assms not_names(1-3) by blast+

lemma strip_quiet:
  "\<forall>c\<in>set s. c \<noteq> dquote \<and> c \<noteq> squote \<and> c \<noteq> CHR ''#'' \<Longrightarrow> strip_from None p s = s"
  by (induction s arbitrary: p) auto

lemma plain_facts:
  assumes "plain_name s"
  shows "s \<noteq> []" "name_char (hd s)" "name_char (last s)" "\<forall>c\<in>set s. name_char c"
    "s \<notin> set FORBIDDEN_KEYS" "\<not> is_space (hd s)" "\<not> is_space (last s)"
proof -
  show n: "s \<noteq> []" and a: "\<forall>c\<in>set s. name_char c" and "s \<notin> set FORBIDDEN_KEYS"
    using assms by (auto simp: plain_name_def list_all_iff)
  then show "name_char (hd s)" "name_char (last s)" by auto
  then show "\<not> is_space (hd s)" "\<not> is_space (last s)" using name_char_facts(4) by blast+
qed

lemma parseScalar_plain: "plain_name s \<Longrightarrow> parseScalar s n = Inr (JStr s)"
proof -
  assume p: "plain_name s"
  note f = plain_facts [OF p]
  have t: "js_trim s = s" using f by (intro js_trim_id)
  obtain c cs where s: "s = c # cs" using f(1) by (cases s) auto
  have c: "name_char c" "\<not> is_digit c" "c \<noteq> CHR ''-''" using p f(2) s by (auto simp: plain_name_def)
  have "decimal s = None" using c by (simp add: decimal_def s startsWith_def Let_def)
  moreover have "\<not> startsWith s [dquote]" "\<not> startsWith s [squote]"
    using name_char_facts(1,2) [OF c(1)] by (simp_all add: startsWith_def s)
  moreover have "c \<notin> set ''[{&*!|>''" using name_char_facts(11) [OF c(1)] .
  moreover have "s \<noteq> ''true''" "s \<noteq> ''false''" "s \<noteq> ''null''" using p by (simp_all add: plain_name_def)
  moreover have "s \<noteq> ''~''" using name_char_facts(10) [OF c(1)] s by auto
  ultimately show ?thesis unfolding parseScalar_def t Let_def by (simp only: s if_False list.sel option.simps list.distinct simp_thms)
qed

lemma takeWhile_name:
  assumes "\<forall>c\<in>set s. name_char c"
  shows "takeWhile (\<lambda>c. word_char c \<or> c = CHR ''-'') (s @ CHR '':'' # r) = s"
proof -
  have "\<not> (word_char (CHR '':'') \<or> CHR '':'' = CHR ''-'')"
    by (simp add: word_char_def is_lower_def is_upper_def is_digit_def code_of_def)
  then show ?thesis using assms by (induction s) (auto simp: name_char_def)
qed

lemma match_top_plain:
  assumes "plain_name k"
  shows "match_top (k @ '':'') = Some (k, None)"
    and "plain_name v \<Longrightarrow> match_top (k @ '': '' @ v) = Some (k, Some v)"
proof -
  note f = plain_facts [OF assms]
  have h: "\<not> is_digit (hd k)" "hd k \<noteq> CHR ''-''" using assms by (simp_all add: plain_name_def)
  show "match_top (k @ '':'') = Some (k, None)"
    using f h takeWhile_name [OF f(4), of "[]"] by (simp add: match_top_def Let_def)
  assume v: "plain_name v"
  have "is_space (CHR '' '')" by (simp add: is_space_def code_of_def)
  then have "trimStart (CHR '' '' # v) = v"
    using plain_facts(1,6) [OF v] trimStart_id [of v] by (simp add: trimStart_def)
  then show "match_top (k @ '': '' @ v) = Some (k, Some v)"
    using f h takeWhile_name [OF f(4), of "CHR '' '' # v"] \<open>is_space (CHR '' '')\<close>
    by (simp add: match_top_def Let_def)
qed

text \<open>Lines of the rendered text: the characters that would start a comment, a quote or a break do
  not occur, so stripping and trimming leave the body.\<close>

lemma yaml_line_top:
  assumes "b \<noteq> []" and "\<not> is_space (hd b)" and "\<not> is_space (last b)"
    and "\<forall>c\<in>set b. c \<noteq> dquote \<and> c \<noteq> squote \<and> c \<noteq> CHR ''#''"
  shows "yaml_line n b st = top_line b n st"
proof -
  have t: "trimEnd (stripComment b) = b" "trimStart b = b" "js_trim b = b"
    using assms by (simp_all add: stripComment_def strip_quiet trimEnd_id trimStart_id js_trim_id)
  have "\<not> tab_indented b"
    using assms(1,2) by (cases b) (auto simp: tab_indented_def is_space_def code_of_def)
  then show ?thesis using t assms(1) by (simp add: yaml_line_def Let_def)
qed

lemma sep_chars: "is_space (CHR '' '')" "\<not> is_space (CHR '':'')" "\<not> is_space (CHR ''-'')"
  "CHR '':'' \<noteq> dquote" "CHR '':'' \<noteq> squote" "CHR '' '' \<noteq> dquote" "CHR '' '' \<noteq> squote"
  "CHR ''-'' \<noteq> dquote" "CHR ''-'' \<noteq> squote"
  by (simp_all add: is_space_def code_of_def dquote_def squote_def)

lemma key_line:
  assumes "plain_name k" and "k \<notin> fst ` set (fst st)"
  shows "yaml_line n (k @ '':'') st = Inr (fst st @ [(k, JNull)], Some (k, KNone))"
proof -
  note f = plain_facts [OF assms(1)]
  have "yaml_line n (k @ '':'') st = top_line (k @ '':'') n st"
    using f name_char_facts sep_chars by (intro yaml_line_top) (auto dest: name_quiet)
  then show ?thesis using f(5) assms(2) match_top_plain(1) [OF assms(1)] by (simp add: top_line_def)
qed

lemma scalar_line:
  assumes "plain_name k" and "k \<notin> fst ` set (fst st)" and "plain_name v"
  shows "yaml_line n (k @ '': '' @ v) st = Inr (fst st @ [(k, JStr v)], None)"
proof -
  note f = plain_facts [OF assms(1)] and g = plain_facts [OF assms(3)]
  have "yaml_line n (k @ '': '' @ v) st = top_line (k @ '': '' @ v) n st"
    using f g name_char_facts sep_chars by (intro yaml_line_top) (auto dest: name_quiet)
  moreover have "js_trim v = v" using g by (intro js_trim_id)
  ultimately show ?thesis
    using f(5) g(1) assms(2) match_top_plain(2) [OF assms(1,3)] parseScalar_plain [OF assms(3)]
    by (simp add: top_line_def)
qed

lemma item_line_plain:
  assumes "plain_name i" and "kind \<noteq> KMap" and "snd st = Some (k, kind)"
  shows "yaml_line n (item_text i) st =
    Inr (assoc_put k (JArr ((if kind = KNone then [] else arr_of (dflt (map_of (fst st) k) JNull)) @ [JStr i])) (fst st),
         Some (k, KList))"
proof -
  note g = plain_facts [OF assms(1)]
  let ?l = "''  - '' @ i" let ?b = "''- '' @ i"
  have s: "trimEnd (stripComment ?l) = ?l"
  proof -
    have "stripComment ?l = ?l"
      unfolding stripComment_def using g(4) name_char_facts sep_chars by (intro strip_quiet) (auto dest: name_quiet)
    then show ?thesis using g(1,7) by (simp add: trimEnd_id)
  qed
  have t: "trimStart ?l = ?b" using sep_chars by (simp add: trimStart_def)
  have jt: "js_trim ?l = ?b" unfolding js_trim_def t using g(1,7) by (simp add: trimEnd_id)
  have nt: "\<not> tab_indented ?l" by (simp add: tab_indented_def)
  have ji: "js_trim i = i" using g by (intro js_trim_id)
  have hc: "\<not> has_colon_space i"
    using g(4) by (induction i rule: has_colon_space.induct) (auto dest: name_char_facts(5))
  have pre: "startsWith ?b ''- ''" by (simp add: startsWith_def)
  have nd: "drop 2 ?b = i" by simp
  have "yaml_line n (item_text i) st = item_line ?b n (fst st) k kind"
    unfolding item_text_def yaml_line_def Let_def s jt t using nt pre assms(3) by simp
  moreover have "item_line ?b n (fst st) k kind =
    Inr (assoc_put k (JArr ((if kind = KNone then [] else arr_of (dflt (map_of (fst st) k) JNull)) @ [JStr i])) (fst st),
         Some (k, KList))"
    unfolding item_line_def Let_def nd using assms(2) g(1) ji hc parseScalar_plain [OF assms(1)] by simp
  ultimately show ?thesis by simp
qed

lemma assoc_put_snoc: "k \<notin> fst ` set xs \<Longrightarrow> assoc_put k v (xs @ [(k, w)]) = xs @ [(k, v)]"
  by (induction xs) auto

lemma item_lines:
  assumes "k \<notin> fst ` set out" and "list_all plain_name is" and "is \<noteq> []"
  shows "yaml_lines n (map item_text is) (out @ [(k, if js = [] then JNull else JArr js)],
      Some (k, if js = [] then KNone else KList)) =
    Inr (out @ [(k, JArr (js @ map JStr is))], Some (k, KList))"
  using assms(2,3)
proof (induction "is" arbitrary: n js)
  case Nil
  then show ?case by simp
next
  case (Cons i "is")
  let ?st = "(out @ [(k, if js = [] then JNull else JArr js)], Some (k, if js = [] then KNone else KList))"
  have "yaml_line n (item_text i) ?st = Inr (out @ [(k, JArr (js @ [JStr i]))], Some (k, KList))"
    using Cons.prems assms(1) map_of_snoc_fresh [OF assms(1)]
    by (subst item_line_plain [where k = k and kind = "if js = [] then KNone else KList"])
      (auto simp: assoc_put_snoc)
  moreover have "yaml_lines (n + 1) (map item_text is) (out @ [(k, JArr (js @ [JStr i]))], Some (k, KList)) =
      Inr (out @ [(k, JArr ((js @ [JStr i]) @ map JStr is))], Some (k, KList))"
    using Cons.IH [of "n + 1" "js @ [JStr i]"] Cons.prems by (cases "is") auto
  ultimately show ?case by simp
qed

lemma yaml_lines_append:
  "yaml_lines n (xs @ ys) st = res_bind (yaml_lines n xs st) (yaml_lines (n + length xs) ys)"
proof (induction xs arbitrary: n st)
  case Nil
  then show ?case by simp
next
  case (Cons x xs)
  then show ?case by (cases "yaml_line n x st") simp_all
qed

lemma entry_lines:
  assumes "plain_name k" and "plain_entry e" and "k \<notin> fst ` set (fst st)"
  shows "\<exists>cur. yaml_lines n (entry_text (k, e)) st = Inr (fst st @ [(k, entry_value e)], cur)"
proof (cases e)
  case (Scalar v)
  then show ?thesis using assms scalar_line by simp
next
  case (Items "is")
  then show ?thesis
    using assms key_line [OF assms(1,3)] item_lines [OF assms(3), of "is" "n + 1" "[]"] by (cases "is = []") auto
qed

lemma doc_lines:
  assumes "list_all (\<lambda>ke. plain_name (fst ke) \<and> plain_entry (snd ke)) doc" and "distinct (map fst doc)"
    and "fst ` set doc \<inter> fst ` set (fst st) = {}"
  shows "\<exists>cur. yaml_lines n (concat (map entry_text doc)) st =
    Inr (fst st @ map (\<lambda>ke. (fst ke, entry_value (snd ke))) doc, cur)"
  using assms
proof (induction doc arbitrary: n st)
  case Nil
  then show ?case by (cases st) simp
next
  case (Cons ke doc)
  obtain k e where ke: "ke = (k, e)" by (cases ke)
  obtain cur where c: "yaml_lines n (entry_text (k, e)) st = Inr (fst st @ [(k, entry_value e)], cur)"
    using entry_lines [of k e st n] Cons.prems ke by auto
  obtain cur' where "yaml_lines (n + length (entry_text (k, e))) (concat (map entry_text doc)) (fst st @ [(k, entry_value e)], cur) =
      Inr ((fst st @ [(k, entry_value e)]) @ map (\<lambda>ke. (fst ke, entry_value (snd ke))) doc, cur')"
    using Cons.IH [of "(fst st @ [(k, entry_value e)], cur)" "n + length (entry_text (k, e))"] Cons.prems ke
    by auto
  then show ?case using c ke by (simp add: yaml_lines_append)
qed

lemma unix_lines_id: "CHR 0x0D \<notin> set s \<Longrightarrow> unix_lines s = s"
  by (induction s) auto

lemma entry_text_chars:
  assumes "plain_name k" and "plain_entry e" and "l \<in> set (entry_text (k, e))" and "c \<in> set l"
  shows "name_char c \<or> c = CHR '':'' \<or> c = CHR '' ''"
proof (cases e)
  case (Scalar v)
  then have "plain_name v" "l = k @ '': '' @ v" using assms by simp_all
  then show ?thesis using assms(1,4) plain_facts(4) by auto
next
  case (Items "is")
  show ?thesis
  proof (cases "l = k @ '':''")
    case True
    then show ?thesis using assms(1,4) plain_facts(4) by auto
  next
    case False
    then obtain i where i: "i \<in> set is" "l = item_text i" using assms(3) Items by auto
    then have "plain_name i" using assms(2) Items by (simp add: list_all_iff)
    then have "\<forall>c\<in>set i. name_char c" by (rule plain_facts(4))
    moreover have "name_char (CHR ''-'')" by (simp add: name_char_def)
    ultimately show ?thesis using assms(4) i(2) by (auto simp: item_text_def)
  qed
qed



theorem parsed_yaml_is_flat_witness:
  "distinct (map fst [(''default'', JStr ''ask''), (''always_ask'', JArr [JStr ''git-commit'', JStr ''file-delete''])])"
proof -
  have "parseYamlSubset (yaml_text [(''default'', Scalar ''ask''), (''always_ask'', Items [''git-commit'', ''file-delete''])]) =
    Inr [(''default'', JStr ''ask''), (''always_ask'', JArr [JStr ''git-commit'', JStr ''file-delete''])]"
    by code_simp
  then show ?thesis by (rule parsed_yaml_is_flat [THEN conjunct1])
qed

text \<open>An apostrophe in a bare value opens a quote, so the comment after it is kept as text.\<close>

lemma apostrophe_keeps_comment:
  "parseYamlSubset (''note: don'' @ [squote] @ ''t # todo'') = Inr [(''note'', JStr (''don'' @ [squote] @ ''t # todo''))]"
  by code_simp

end
