(* ===== verification/Safety_Rules.thy ===== *)
theory Safety_Rules
  imports Mini_Yaml Regex
begin

text \<open>
  The safety rules, \<open>src/policy/safetyRules.js\<close>: what an action is (code), and per category whether
  it needs a human (data, over a floor the data cannot lower).
\<close>

section \<open>Categories and rules\<close>

definition ACTION_CATEGORIES :: "string list" where
  "ACTION_CATEGORIES = [''read'', ''scratch-write'', ''external-fetch'', ''external-effect'', ''issue-comment'',
     ''state-append'', ''git-commit'', ''file-delete'', ''credential-change'', ''state-mutation'']"

definition HARD_ASK :: "string list" where
  "HARD_ASK = [''git-commit'', ''file-delete'', ''credential-change'', ''state-mutation'']"

datatype rules_warning =
    UnknownCategory string | HardUnderAuto string | InBothLists string
  | CouldNotRead string | RulesIgnored

record safety_rules =
  sr_auto_default :: bool
  sr_autoApprove :: "string list"
  sr_alwaysAsk :: "string list"
  sr_source :: string
  sr_warnings :: "rules_warning list"

definition DEFAULT_SAFETY_RULES :: safety_rules where
  "DEFAULT_SAFETY_RULES =
    \<lparr>sr_auto_default = False,
     sr_autoApprove = [''read'', ''scratch-write'', ''external-fetch'', ''external-effect'', ''issue-comment'', ''state-append''],
     sr_alwaysAsk = [''git-commit'', ''file-delete'', ''credential-change'', ''state-mutation''],
     sr_source = ''built-in'', sr_warnings = []\<rparr>"

section \<open>Classification\<close>

record action =
  ac_kind :: "string option"
  ac_toolId :: "string option"
  ac_effect :: "string option"
  ac_runId :: "string option"
  ac_args :: js

definition BUILTIN_TOOL_CATEGORY :: "(string \<times> string) list" where
  "BUILTIN_TOOL_CATEGORY =
    [(''repo_read_file'', ''read''), (''repo_list_files'', ''read''), (''repo_search'', ''read''),
     (''workspace_write'', ''scratch-write''), (''http_fetch'', ''external-fetch'')]"

definition PATH_ARG_KEYS :: "string list" where
  "PATH_ARG_KEYS = [''path'', ''file'', ''filePath'', ''filename'', ''target'', ''dest'', ''destination'', ''from'', ''to'']"

definition WORD_GROUPS :: "(string \<times> string list) list" where
  "WORD_GROUPS =
    [(''credential-change'', [''secret'', ''secrets'', ''credential'', ''credentials'', ''password'', ''passwd'',
        ''token'', ''apikey'', ''keychain'', ''keypair'', ''gpg'', ''ssh'']),
     (''file-delete'', [''delete'', ''remove'', ''rm'', ''rmdir'', ''unlink'', ''purge'', ''wipe'', ''truncate'',
        ''shred'', ''erase'']),
     (''git-commit'', [''git'', ''commit'', ''push'', ''merge'', ''rebase'', ''cherrypick''])]"

definition api_key_re :: rx where
  "api_key_re = seqs [ilit ''api'', opt (any_of ''-_ ''), ilit ''key'']"

definition private_key_re :: rx where
  "private_key_re = seqs [ilit ''private'', opt (any_of ''-_ ''), ilit ''key'']"

definition cherry_pick_re :: rx where
  "cherry_pick_re = seqs [ilit ''cherry'', opt (any_of ''-_ ''), ilit ''pick'']"

definition CREDENTIAL_PATH :: rx where
  "CREDENTIAL_PATH =
    seqs [alts [Bol, chr (CHR ''/'')],
      alts [
        seqs [ilit ''.env'', alts [chr (CHR ''.''), Eol]],
        seqs [ilit ''.npmrc'', Eol],
        seqs [ilit ''.netrc'', Eol],
        seqs [ilit ''id_'', alts [ilit ''rsa'', ilit ''ed25519'', ilit ''ecdsa'']],
        seqs [Star (none_of ''/''), ilit ''.'', alts [ilit ''pem'', ilit ''key'', ilit ''p12'', ilit ''pfx''], Eol],
        seqs [Star (none_of ''/''), alts [ilit ''secret'', ilit ''credential'', ilit ''password'', ilit ''token''],
              opt (ilit ''s''), Star (none_of ''/''), Eol]]]"

definition normal_path :: "string \<Rightarrow> string" where
  "normal_path p =
    (let q = map (\<lambda>c. if c = backslash then CHR ''/'' else c) p
     in if startsWith q ''./'' then drop 2 q else q)"

fun path_values :: "js \<Rightarrow> string list" where
  "path_values (JStr s) = [s]"
| "path_values (JArr xs) = List.map_filter str_of (take 20 xs)"
| "path_values _ = []"

definition pathArgs :: "js \<Rightarrow> string list" where
  "pathArgs v = map normal_path (concat (map (\<lambda>k. path_values (jget v k)) PATH_ARG_KEYS))"

text \<open>A space between a lower-case letter and an upper-case one.\<close>

fun camel_space :: "string \<Rightarrow> string" where
  "camel_space (a # b # cs) =
     (if is_lower a \<and> is_upper b then a # CHR '' '' # camel_space (b # cs) else a # camel_space (b # cs))"
| "camel_space cs = cs"

definition spaced_id :: "string \<Rightarrow> string" where
  "spaced_id toolId = toLowerCase (camel_space toolId)"

definition id_words :: "string \<Rightarrow> string list" where
  "id_words toolId = filter (\<lambda>w. w \<noteq> []) (split_on (\<lambda>c. \<not> is_lower c) (spaced_id toolId))"

definition in_dir :: "string \<Rightarrow> string \<Rightarrow> bool" where
  "in_dir d p = (p = d \<or> startsWith p (d @ ''/''))"

definition word_hits :: "string \<Rightarrow> string list" where
  "word_hits toolId =
    map fst (filter (\<lambda>g. list_ex (\<lambda>w. w \<in> set (id_words toolId)) (snd g)) WORD_GROUPS) @
    (if rx_test api_key_re (spaced_id toolId) \<or> rx_test private_key_re (spaced_id toolId)
     then [''credential-change''] else []) @
    (if rx_test cherry_pick_re (spaced_id toolId) then [''git-commit''] else [])"

definition path_hits :: "string list \<Rightarrow> string list" where
  "path_hits ps =
    concat (map (\<lambda>p. (if rx_test CREDENTIAL_PATH p then [''credential-change''] else []) @
                     (if in_dir ''.git'' p then [''git-commit''] else [])) ps)"

definition appends_only :: "action \<Rightarrow> string \<Rightarrow> bool" where
  "appends_only a toolId =
    (''append'' \<in> set (id_words toolId) \<or> jget (ac_args a) ''mode'' = JStr ''append'' \<or>
     jget (ac_args a) ''append'' = JBool True)"

text \<open>Strictest hard-ask first.\<close>

definition strictest :: "string list \<Rightarrow> string option" where
  "strictest hits =
    List.find (\<lambda>c. c \<in> set hits) [''credential-change'', ''file-delete'', ''git-commit'', ''state-mutation'']"

definition classify_custom :: "action \<Rightarrow> string \<Rightarrow> string" where
  "classify_custom a toolId =
    (let paths = pathArgs (ac_args a);
         touchesState = list_ex (in_dir ''state'') paths;
         hits = word_hits toolId @ path_hits paths @
           (if touchesState \<and> \<not> appends_only a toolId then [''state-mutation''] else [])
     in case strictest hits of
          Some c \<Rightarrow> c
        | None \<Rightarrow>
            if touchesState then ''state-append''
            else if ac_effect a = Some ''local_write'' then ''scratch-write''
            else ''external-effect'')"

definition classifyAction :: "action \<Rightarrow> string" where
  "classifyAction a =
    (let kind = dflt (ac_kind a) ''tool'' in
     if kind = ''self-improve'' then ''git-commit''
     else if kind = ''deliver'' then ''issue-comment''
     else if ac_effect a = Some ''read'' then ''read''
     else (let toolId = dflt (ac_toolId a) [] in
       case map_of BUILTIN_TOOL_CATEGORY toolId of
         Some c \<Rightarrow> c
       | None \<Rightarrow> classify_custom a toolId))"

text \<open>\<open>/^tool:([^:]+):/\<close>.\<close>

definition categoryForApprovalKey :: "string \<Rightarrow> string" where
  "categoryForApprovalKey k =
    (if k = ''all'' then ''all''
     else if startsWith k ''self-improve:'' then ''git-commit''
     else if startsWith k ''deliver:'' then ''issue-comment''
     else (let r = drop 5 k; i = takeWhile (\<lambda>c. c \<noteq> CHR '':'') r in
       if startsWith k ''tool:'' \<and> i \<noteq> [] \<and> length i < length r
       then classifyAction \<lparr>ac_kind = Some ''tool'', ac_toolId = Some i, ac_effect = Some ''external'',
              ac_runId = None, ac_args = JUndef\<rparr>
       else ''unknown''))"

section \<open>The rules file\<close>

datatype rules_error = YamlProblem yaml_error | BadVersion | BadDefault | BadList string

definition as_list :: "(string \<times> js) list \<Rightarrow> string \<Rightarrow> rules_error + string list" where
  "as_list doc name =
    (case map_of doc name of
       None \<Rightarrow> Inr []
     | Some v \<Rightarrow>
         if nullish v then Inr []
         else (case v of
             JArr xs \<Rightarrow> if list_all (\<lambda>x. str_of x \<noteq> None) xs then Inr (List.map_filter str_of xs) else Inl (BadList name)
           | _ \<Rightarrow> Inl (BadList name)))"

definition rules_warnings :: "string list \<Rightarrow> string list \<Rightarrow> rules_warning list" where
  "rules_warnings auto ask =
    map UnknownCategory (filter (\<lambda>n. n \<notin> set ACTION_CATEGORIES) (auto @ ask)) @
    concat (map (\<lambda>n. (if n \<in> set HARD_ASK then [HardUnderAuto n] else []) @
                     (if n \<in> set ask then [InBothLists n] else [])) auto)"

definition parseSafetyRules :: "string \<Rightarrow> rules_error + safety_rules" where
  "parseSafetyRules txt =
    (case parseYamlSubset txt of
       Inl e \<Rightarrow> Inl (YamlProblem e)
     | Inr doc \<Rightarrow>
         if map_of doc ''version'' \<noteq> Some (JNum (Fin 1)) then Inl BadVersion
         else (let def = orNull (dflt (map_of doc ''default'') JUndef) (JStr ''ask'') in
           if def \<noteq> JStr ''ask'' \<and> def \<noteq> JStr ''auto'' then Inl BadDefault
           else res_bind (as_list doc ''auto_approve'')
             (\<lambda>auto. res_bind (as_list doc ''always_ask'')
               (\<lambda>ask. Inr \<lparr>sr_auto_default = (def = JStr ''auto''), sr_autoApprove = auto, sr_alwaysAsk = ask,
                            sr_source = ''config'', sr_warnings = rules_warnings auto ask\<rparr>))))"

text \<open>What reading the file gave: its text, no such file, or another error. \<open>label\<close> is the path with
  everything up to the last \<open>config\<close> directory replaced by \<open>config/\<close>.\<close>

datatype file_read = FileText string | NoFile | ReadError string

definition loadSafetyRules :: "file_read \<Rightarrow> string \<Rightarrow> safety_rules" where
  "loadSafetyRules f label =
    (case f of
       NoFile \<Rightarrow> DEFAULT_SAFETY_RULES\<lparr>sr_source := ''built-in (no config/safety-rules.yml)'', sr_warnings := []\<rparr>
     | ReadError msg \<Rightarrow> DEFAULT_SAFETY_RULES\<lparr>sr_source := ''built-in'', sr_warnings := [CouldNotRead msg]\<rparr>
     | FileText txt \<Rightarrow>
         (case parseSafetyRules txt of
            Inr r \<Rightarrow> r\<lparr>sr_source := label\<rparr>
          | Inl e \<Rightarrow> DEFAULT_SAFETY_RULES\<lparr>sr_source := ''built-in'', sr_warnings := [RulesIgnored]\<rparr>))"

section \<open>Evaluation\<close>

datatype rule_name = HardFloor | AlwaysAsk | AutoApprove | DefaultRule

record rules_verdict =
  rv_ask :: bool
  rv_hard :: bool
  rv_category :: string
  rv_rule :: rule_name
  rv_reason :: string

definition evaluateRules :: "action \<Rightarrow> safety_rules \<Rightarrow> rules_verdict" where
  "evaluateRules a rules =
    (let category = classifyAction a in
     if category \<in> set HARD_ASK then
       \<lparr>rv_ask = True, rv_hard = True, rv_category = category, rv_rule = HardFloor, rv_reason = category @ '' always needs approval''\<rparr>
     else if category \<in> set (sr_alwaysAsk rules) then
       \<lparr>rv_ask = True, rv_hard = False, rv_category = category, rv_rule = AlwaysAsk, rv_reason = category @ '' is on the always-ask list''\<rparr>
     else if category \<in> set (sr_autoApprove rules) then
       \<lparr>rv_ask = False, rv_hard = False, rv_category = category, rv_rule = AutoApprove, rv_reason = category @ '' is auto-approved''\<rparr>
     else (let ask = \<not> sr_auto_default rules in
       \<lparr>rv_ask = ask, rv_hard = False, rv_category = category, rv_rule = DefaultRule,
        rv_reason = (if ask then category @ '' is not on the auto-approve list'' else category @ '' allowed by default'')\<rparr>))"

section \<open>Facts\<close>

lemma find_mem: "x \<in> set xs \<Longrightarrow> P x \<Longrightarrow> \<exists>y. List.find P xs = Some y \<and> y \<in> set xs \<and> P y"
  by (induction xs) auto

lemma hard_rv [simp]: "rv_hard (evaluateRules a rules) = (classifyAction a \<in> set HARD_ASK)"
  by (simp add: evaluateRules_def Let_def)

lemma ask_rv: "classifyAction a \<in> set HARD_ASK \<Longrightarrow> rv_ask (evaluateRules a rules)"
  by (simp add: evaluateRules_def Let_def)

lemma category_rv [simp]: "rv_category (evaluateRules a rules) = classifyAction a"
  by (simp add: evaluateRules_def Let_def)

lemma custom_class:
  "classify_custom a toolId \<in> set HARD_ASK \<or> classify_custom a toolId \<in> {''state-append'', ''scratch-write'', ''external-effect''}"
proof -
  have "c \<in> set HARD_ASK" if "strictest hs = Some c" for hs c
    using find_Some_iff_mem [OF that [unfolded strictest_def]] by (auto simp: HARD_ASK_def)
  then show ?thesis
    unfolding classify_custom_def Let_def by (auto split: option.split)
qed

lemma builtin_class: "map_of BUILTIN_TOOL_CATEGORY i = Some c \<Longrightarrow> c \<in> {''read'', ''scratch-write'', ''external-fetch''}"
  by (auto simp: BUILTIN_TOOL_CATEGORY_def split: if_split_asm)

text \<open>C33. Every action has a category of the list; and whatever the rules file says, an action in a
  hard-ask category asks, as a hard ask.\<close>

theorem floor_holds:
  "classifyAction a \<in> set ACTION_CATEGORIES \<and>
   (classifyAction a \<in> set HARD_ASK \<longrightarrow>
     rv_ask (evaluateRules a (loadSafetyRules f label)) \<and> rv_hard (evaluateRules a (loadSafetyRules f label)) \<and>
     rv_rule (evaluateRules a (loadSafetyRules f label)) = HardFloor)"
proof (intro conjI impI)
  let ?i = "dflt (ac_toolId a) []"
  have custom: "classify_custom a ?i \<in> set ACTION_CATEGORIES"
    using custom_class [of a ?i] by (auto simp: HARD_ASK_def ACTION_CATEGORIES_def)
  show "classifyAction a \<in> set ACTION_CATEGORIES"
  proof (cases "map_of BUILTIN_TOOL_CATEGORY ?i")
    case None
    then show ?thesis using custom by (simp add: classifyAction_def Let_def ACTION_CATEGORIES_def)
  next
    case (Some c)
    then show ?thesis using builtin_class [OF Some] by (auto simp: classifyAction_def Let_def ACTION_CATEGORIES_def)
  qed
qed (simp_all add: ask_rv evaluateRules_def Let_def)

definition delete_action :: action where
  "delete_action = \<lparr>ac_kind = Some ''tool'', ac_toolId = Some ''cloudDeleteBucket'', ac_effect = Some ''external'',
     ac_runId = None, ac_args = JUndef\<rparr>"

lemma delete_action_class: "classifyAction delete_action = ''file-delete''"
  by code_simp

theorem floor_holds_witness:
  "rv_hard (evaluateRules delete_action (loadSafetyRules NoFile []))"
  using floor_holds [of delete_action NoFile "[]"] by (simp add: delete_action_class HARD_ASK_def)

text \<open>A tool of one's own that is given a credential path, in any of the path arguments and with
  either separator, is a credential change, so it asks under every rules file.\<close>

theorem credential_paths_ask:
  assumes "ac_kind a \<notin> {Some ''self-improve'', Some ''deliver''}" and "ac_effect a \<noteq> Some ''read''"
    and "map_of BUILTIN_TOOL_CATEGORY (dflt (ac_toolId a) []) = None"
    and "p \<in> set (pathArgs (ac_args a))" and "rx_test CREDENTIAL_PATH p"
  shows "classifyAction a = ''credential-change'' \<and> rv_ask (evaluateRules a rules) \<and> rv_hard (evaluateRules a rules)"
proof -
  have k: "dflt (ac_kind a) ''tool'' \<noteq> ''self-improve''" "dflt (ac_kind a) ''tool'' \<noteq> ''deliver''"
    using assms(1) by (cases "ac_kind a"; simp)+
  have "''credential-change'' \<in> set (path_hits (pathArgs (ac_args a)))"
    using assms(4,5) by (force simp: path_hits_def)
  then have "classify_custom a (dflt (ac_toolId a) []) = ''credential-change''"
    unfolding classify_custom_def Let_def by (simp add: strictest_def)
  then have c: "classifyAction a = ''credential-change''"
    using k assms(2,3) by (simp add: classifyAction_def Let_def)
  then show ?thesis by (simp add: ask_rv HARD_ASK_def)
qed

definition upload_action :: action where
  "upload_action = \<lparr>ac_kind = Some ''tool'', ac_toolId = Some ''blob_put'', ac_effect = Some ''external'',
     ac_runId = None, ac_args = JObj [(''file'', JStr (''conf'' @ [backslash] @ ''.ENV''))]\<rparr>"

theorem credential_paths_ask_witness:
  "classifyAction upload_action = ''credential-change''"
proof -
  have "pathArgs (ac_args upload_action) = [''conf/.ENV'']" by code_simp
  moreover have "rx_test CREDENTIAL_PATH ''conf/.ENV''" by code_simp
  moreover have "map_of BUILTIN_TOOL_CATEGORY (dflt (ac_toolId upload_action) []) = None" by code_simp
  ultimately show ?thesis
    using credential_paths_ask [of upload_action "''conf/.ENV''" DEFAULT_SAFETY_RULES]
    by (simp add: upload_action_def)
qed

text \<open>Loading falls back to the built-in lists whenever the file is missing, unreadable or invalid.\<close>

lemma load_fallback:
  "sr_autoApprove (loadSafetyRules NoFile l) = sr_autoApprove DEFAULT_SAFETY_RULES"
  "sr_alwaysAsk (loadSafetyRules (ReadError m) l) = sr_alwaysAsk DEFAULT_SAFETY_RULES"
  "parseSafetyRules txt = Inl e \<Longrightarrow> sr_alwaysAsk (loadSafetyRules (FileText txt) l) = sr_alwaysAsk DEFAULT_SAFETY_RULES"
  by (simp_all add: loadSafetyRules_def)

end
