(* ===== verification/Policy_Engine.thy ===== *)
theory Policy_Engine
  imports Safety_Rules
begin

text \<open>
  The policy engine, \<open>src/policy/engine.js\<close>: one decision for every side effect, from the control
  file, the task and the safety rules. The digest of an approval key and the rendering of numbers
  are arguments. The log of human decisions, \<open>src/policy/approvalLog.js\<close>, is summarised at the end.
\<close>

section \<open>Autonomy\<close>

datatype autonomy = DryRun | Propose | Approval | Autonomous

definition AUTONOMY_LEVELS :: "(string \<times> autonomy) list" where
  "AUTONOMY_LEVELS = [(''dry-run'', DryRun), (''propose'', Propose), (''approval'', Approval), (''autonomous'', Autonomous)]"

fun rank :: "autonomy \<Rightarrow> nat" where
  "rank DryRun = 0"
| "rank Propose = 1"
| "rank Approval = 2"
| "rank Autonomous = 3"

text \<open>The levels ordered as the code ranks them.\<close>

instantiation autonomy :: linorder
begin

definition less_eq_autonomy :: "autonomy \<Rightarrow> autonomy \<Rightarrow> bool" where
  "less_eq_autonomy a b = (rank a \<le> rank b)"

definition less_autonomy :: "autonomy \<Rightarrow> autonomy \<Rightarrow> bool" where
  "less_autonomy a b = (rank a < rank b)"

instance
proof
  fix a b :: autonomy
  show "a = b" if "a \<le> b" "b \<le> a"
    using that by (cases a; cases b) (simp_all add: less_eq_autonomy_def)
qed (auto simp: less_eq_autonomy_def less_autonomy_def)

end

text \<open>A level that is missing or not one of the four counts as autonomous.\<close>

definition level_of :: "string option \<Rightarrow> autonomy" where
  "level_of l = (case l of None \<Rightarrow> Autonomous | Some s \<Rightarrow> dflt (map_of AUTONOMY_LEVELS s) Autonomous)"

definition effectiveAutonomy :: "string option \<Rightarrow> string option \<Rightarrow> autonomy" where
  "effectiveAutonomy control task = (let c = level_of control; t = level_of task in if t < c then t else c)"

lemma effective_is_min: "effectiveAutonomy c t = min (level_of c) (level_of t)"
  by (auto simp: effectiveAutonomy_def Let_def min_def)

section \<open>The decision\<close>

definition approvalKeyFor :: "(string \<Rightarrow> string) \<Rightarrow> (rat \<Rightarrow> string) \<Rightarrow> action \<Rightarrow> string" where
  "approvalKeyFor sha1 sn a =
    (let kind = dflt (ac_kind a) ''undefined'' in
     if kind = ''tool'' then
       ''tool:'' @ dflt (ac_toolId a) ''undefined'' @ '':'' @
         take 8 (sha1 (dflt (stringify sn (orNull (ac_args a) (JObj []))) []))
     else if kind = ''deliver'' then ''deliver:'' @ dflt (ac_runId a) ''run''
     else if kind = ''self-improve'' then ''self-improve:'' @ dflt (ac_runId a) ''run''
     else kind @ '':'' @ dflt (ac_toolId a) ''action'')"

datatype effect = ReadEffect | LocalWrite | External

text \<open>An effect that is not one of the three counts as external.\<close>

definition effect_of :: "action \<Rightarrow> effect" where
  "effect_of a =
    (if ac_effect a = Some ''read'' then ReadEffect
     else if ac_effect a = Some ''local_write'' then LocalWrite
     else External)"

record control =
  ct_killSwitch :: bool
  ct_safeMode :: bool
  ct_autonomy :: "string option"

record human_decision =
  hd_decision :: string
  hd_by :: "string option"

record ptask =
  pt_autonomy :: "string option"
  pt_approvals :: "(string \<times> human_decision) list"

datatype verdict = Allow | Approve | Deny

datatype decision_source = ByLevel | ByDenial | ByApproval | BySafeMode | ByKillSwitch | BySafetyRules

record decided =
  dc_decision :: verdict
  dc_reason :: string
  dc_approvalKey :: string
  dc_autonomy :: autonomy
  dc_source :: decision_source
  dc_category :: string
  dc_rule :: rule_name

definition level_name :: "autonomy \<Rightarrow> string" where
  "level_name l = (case l of DryRun \<Rightarrow> ''dry-run'' | Propose \<Rightarrow> ''propose'' | Approval \<Rightarrow> ''approval'' | Autonomous \<Rightarrow> ''autonomous'')"

definition decide :: "(string \<Rightarrow> string) \<Rightarrow> (rat \<Rightarrow> string) \<Rightarrow> action \<Rightarrow> control \<Rightarrow> ptask \<Rightarrow> safety_rules \<Rightarrow> decided" where
  "decide sha1 sn a control task rules =
    (let autonomy = effectiveAutonomy (ct_autonomy control) (pt_autonomy task);
         key = approvalKeyFor sha1 sn a;
         eff = effect_of a;
         v = evaluateRules a rules;
         out = (\<lambda>d r s. \<lparr>dc_decision = d, dc_reason = r, dc_approvalKey = key, dc_autonomy = autonomy, dc_source = s,
                         dc_category = rv_category v, dc_rule = rv_rule v\<rparr>);
         exact = map_of (pt_approvals task) key;
         recorded = (case exact of Some x \<Rightarrow> Some x | None \<Rightarrow> map_of (pt_approvals task) ''all'');
         who = (\<lambda>h. dflt (hd_by h) ''an authorized user'');
         approval = (if rv_hard v then exact else recorded) in
     if ct_killSwitch control then out Deny ''the kill switch is on'' ByKillSwitch
     else if map_option hd_decision recorded = Some ''denied''
       then out Deny (''denied by '' @ who (the recorded)) ByDenial
     else if eff = ReadEffect then out Allow ''a read has no side effect'' ByLevel
     else if autonomy = DryRun then
       out Deny (''autonomy is dry-run: no '' @ (if eff = External then ''external'' else ''local'') @ '' side effects'') ByLevel
     else if ct_safeMode control \<and> eff = External then out Deny ''safe mode is on: no external side effects'' BySafeMode
     else if map_option hd_decision approval = Some ''approved''
       then out Allow (''approved by '' @ who (the approval)) ByApproval
     else if rv_ask v then
       out Approve (''safety rules: '' @ rv_reason v @ ''; needs /titan approve '' @ key) BySafetyRules
     else if autonomy = Approval then
       out Approve (''autonomy is approval: every '' @ (if eff = LocalWrite then ''local write'' else ''external'')
         @ '' needs /titan approve '' @ key) ByLevel
     else if autonomy = Propose \<and> eff = External then
       out Approve (''autonomy is propose: an external effect needs /titan approve '' @ key) ByLevel
     else out Allow (''autonomy is '' @ level_name autonomy) ByLevel)"

section \<open>What a decision guarantees\<close>

text \<open>The human answers on record for an action: on its exact key, else on \<open>all\<close>.\<close>

definition exact_answer :: "(string \<Rightarrow> string) \<Rightarrow> (rat \<Rightarrow> string) \<Rightarrow> action \<Rightarrow> ptask \<Rightarrow> string option" where
  "exact_answer sha1 sn a task = map_option hd_decision (map_of (pt_approvals task) (approvalKeyFor sha1 sn a))"

definition recorded_answer :: "(string \<Rightarrow> string) \<Rightarrow> (rat \<Rightarrow> string) \<Rightarrow> action \<Rightarrow> ptask \<Rightarrow> string option" where
  "recorded_answer sha1 sn a task =
    (case exact_answer sha1 sn a task of Some x \<Rightarrow> Some x
     | None \<Rightarrow> map_option hd_decision (map_of (pt_approvals task) ''all''))"

definition approved :: "(string \<Rightarrow> string) \<Rightarrow> (rat \<Rightarrow> string) \<Rightarrow> action \<Rightarrow> ptask \<Rightarrow> bool" where
  "approved sha1 sn a task =
    ((if classifyAction a \<in> set HARD_ASK then exact_answer sha1 sn a task else recorded_answer sha1 sn a task)
      = Some ''approved'')"

lemma decide_verdict:
  "dc_decision (decide sha1 sn a control task rules) =
    (let l = effectiveAutonomy (ct_autonomy control) (pt_autonomy task) in
     if ct_killSwitch control then Deny
     else if recorded_answer sha1 sn a task = Some ''denied'' then Deny
     else if effect_of a = ReadEffect then Allow
     else if l = DryRun then Deny
     else if ct_safeMode control \<and> effect_of a = External then Deny
     else if approved sha1 sn a task then Allow
     else if rv_ask (evaluateRules a rules) then Approve
     else if l = Approval then Approve
     else if l = Propose \<and> effect_of a = External then Approve
     else Allow)"
proof -
  have rec: "map_option hd_decision
      (case map_of (pt_approvals task) (approvalKeyFor sha1 sn a) of Some x \<Rightarrow> Some x
       | None \<Rightarrow> map_of (pt_approvals task) ''all'') = recorded_answer sha1 sn a task"
    by (simp add: recorded_answer_def exact_answer_def split: option.split)
  have app: "(map_option hd_decision
      (if classifyAction a \<in> set HARD_ASK then map_of (pt_approvals task) (approvalKeyFor sha1 sn a)
       else (case map_of (pt_approvals task) (approvalKeyFor sha1 sn a) of Some x \<Rightarrow> Some x
             | None \<Rightarrow> map_of (pt_approvals task) ''all'')) = Some ''approved'') = approved sha1 sn a task"
    by (cases "classifyAction a \<in> set HARD_ASK") (simp_all only: approved_def rec exact_answer_def if_True if_False simp_thms)
  show ?thesis
    unfolding decide_def Let_def hard_rv rec app by simp
qed

text \<open>C32. Denials are absolute: with the kill switch on, or a denial on record for the exact effect (or
  for all effects with no answer on the exact one), every action is denied, reads included; and in
  dry-run or, for external effects, safe mode, everything but a read is denied whatever was
  approved.\<close>

theorem denials_win:
  "(ct_killSwitch control \<or> recorded_answer sha1 sn a task = Some ''denied'' \<or>
    (effect_of a \<noteq> ReadEffect \<and>
      (effectiveAutonomy (ct_autonomy control) (pt_autonomy task) = DryRun \<or>
       (ct_safeMode control \<and> effect_of a = External)))) \<longleftrightarrow>
   dc_decision (decide sha1 sn a control task rules) = Deny"
  unfolding decide_verdict Let_def by auto

text \<open>C31. A hard-ask action other than a declared read is only ever allowed by a recorded approval that
  names its exact key: under any rules file and at any autonomy, \<open>approve all\<close> is not enough.\<close>

theorem hard_ask_needs_exact_approval:
  assumes "dc_decision (decide sha1 sn a control task rules) = Allow"
    and "classifyAction a \<in> set HARD_ASK" and "effect_of a \<noteq> ReadEffect"
  shows "exact_answer sha1 sn a task = Some ''approved''"
  using assms ask_rv [OF assms(2), of rules]
  unfolding decide_verdict Let_def approved_def by (simp split: if_split_asm)

definition full_auto :: control where
  "full_auto = \<lparr>ct_killSwitch = False, ct_safeMode = False, ct_autonomy = Some ''autonomous''\<rparr>"

definition answers :: "(string \<times> string) list \<Rightarrow> ptask" where
  "answers as = \<lparr>pt_autonomy = None,
     pt_approvals = map (\<lambda>(k, d). (k, \<lparr>hd_decision = d, hd_by = None\<rparr>)) as\<rparr>"

theorem hard_ask_needs_exact_approval_witness:
  "exact_answer (\<lambda>s. ''0123456789'') (\<lambda>r. []) delete_action (answers [(''tool:cloudDeleteBucket:01234567'', ''approved'')])
     = Some ''approved'' \<and>
   dc_decision (decide (\<lambda>s. ''0123456789'') (\<lambda>r. []) delete_action full_auto (answers [(''all'', ''approved'')]) DEFAULT_SAFETY_RULES)
     \<noteq> Allow"
proof
  let ?sha = "\<lambda>s :: string. ''0123456789''" and ?sn = "\<lambda>r :: rat. [] :: string"
  have ne: "classifyAction delete_action \<in> set HARD_ASK" "effect_of delete_action \<noteq> ReadEffect"
    by (simp add: delete_action_class HARD_ASK_def) (simp add: effect_of_def delete_action_def)
  have "dc_decision (decide ?sha ?sn delete_action full_auto
      (answers [(''tool:cloudDeleteBucket:01234567'', ''approved'')]) DEFAULT_SAFETY_RULES) = Allow"
    by code_simp
  then show "exact_answer ?sha ?sn delete_action (answers [(''tool:cloudDeleteBucket:01234567'', ''approved'')]) = Some ''approved''"
    using ne by (rule hard_ask_needs_exact_approval)
  have "exact_answer ?sha ?sn delete_action (answers [(''all'', ''approved'')]) = None" by code_simp
  then show "dc_decision (decide ?sha ?sn delete_action full_auto (answers [(''all'', ''approved'')]) DEFAULT_SAFETY_RULES) \<noteq> Allow"
    using hard_ask_needs_exact_approval [of ?sha ?sn delete_action full_auto "answers [(''all'', ''approved'')]" DEFAULT_SAFETY_RULES] ne
    by auto
qed

text \<open>How strict a verdict is.\<close>

fun strictness :: "verdict \<Rightarrow> nat" where
  "strictness Allow = 0"
| "strictness Approve = 1"
| "strictness Deny = 2"

text \<open>The dial alone: the decision with no rule asking and \<open>approve all\<close> covering everything.\<close>

definition dial :: "(string \<Rightarrow> string) \<Rightarrow> (rat \<Rightarrow> string) \<Rightarrow> action \<Rightarrow> control \<Rightarrow> ptask \<Rightarrow> verdict" where
  "dial sha1 sn a control task =
    (let l = effectiveAutonomy (ct_autonomy control) (pt_autonomy task) in
     if ct_killSwitch control \<or> recorded_answer sha1 sn a task = Some ''denied'' then Deny
     else if effect_of a = ReadEffect then Allow
     else if l = DryRun \<or> (ct_safeMode control \<and> effect_of a = External) then Deny
     else if recorded_answer sha1 sn a task = Some ''approved'' then Allow
     else if l = Approval \<or> (l = Propose \<and> effect_of a = External) then Approve
     else Allow)"

lemma approved_recorded: "approved sha1 sn a task \<Longrightarrow> recorded_answer sha1 sn a task = Some ''approved''"
  by (auto simp: approved_def recorded_answer_def split: if_split_asm)

text \<open>The safety rules only ever make the dial stricter: whatever the rules file, the decision is at
  least as strict as the dial alone; and two files that differ only in what they ask for are
  ordered the same way.\<close>

theorem rules_only_restrict:
  "strictness (dial sha1 sn a control task) \<le> strictness (dc_decision (decide sha1 sn a control task rules)) \<and>
   (rv_ask (evaluateRules a rules) \<longrightarrow> rv_ask (evaluateRules a rules') \<longrightarrow>
      dc_decision (decide sha1 sn a control task rules) = dc_decision (decide sha1 sn a control task rules')) \<and>
   (\<not> rv_ask (evaluateRules a rules) \<longrightarrow>
      strictness (dc_decision (decide sha1 sn a control task rules))
        \<le> strictness (dc_decision (decide sha1 sn a control task rules')))"
  using approved_recorded [of sha1 sn a task]
  unfolding decide_verdict dial_def Let_def by auto

theorem rules_only_restrict_witness:
  "dc_decision (decide (\<lambda>s. []) (\<lambda>r. []) delete_action full_auto (answers []) DEFAULT_SAFETY_RULES) =
   dc_decision (decide (\<lambda>s. []) (\<lambda>r. []) delete_action full_auto (answers [])
     (DEFAULT_SAFETY_RULES\<lparr>sr_auto_default := True, sr_autoApprove := [''file-delete'']\<rparr>))"
proof -
  have "rv_ask (evaluateRules delete_action r)" for r
    by (rule ask_rv) (simp add: delete_action_class HARD_ASK_def)
  then show ?thesis
    using rules_only_restrict [of "\<lambda>s. []" "\<lambda>r. []" delete_action full_auto "answers []" DEFAULT_SAFETY_RULES
        "DEFAULT_SAFETY_RULES\<lparr>sr_auto_default := True, sr_autoApprove := [''file-delete'']\<rparr>"]
    by blast
qed

text \<open>For external effects a lower level never allows what a higher one would not: lowering the
  task's own level only makes the decision stricter. For local writes this fails between two of
  the levels, which is the next property.\<close>

theorem lower_level_is_stricter_externally:
  assumes "level_of lo \<le> level_of hi" and "effect_of a = External"
  shows "strictness (dc_decision (decide sha1 sn a control (task\<lparr>pt_autonomy := hi\<rparr>) rules))
    \<le> strictness (dc_decision (decide sha1 sn a control (task\<lparr>pt_autonomy := lo\<rparr>) rules))"
proof -
  have "effectiveAutonomy (ct_autonomy control) lo \<le> effectiveAutonomy (ct_autonomy control) hi"
    using assms(1) by (simp add: effective_is_min min.coboundedI2)
  then have r: "rank (effectiveAutonomy (ct_autonomy control) lo) \<le> rank (effectiveAutonomy (ct_autonomy control) hi)"
    by (simp add: less_eq_autonomy_def)
  have same: "recorded_answer sha1 sn a (task\<lparr>pt_autonomy := x\<rparr>) = recorded_answer sha1 sn a task"
    "approved sha1 sn a (task\<lparr>pt_autonomy := x\<rparr>) = approved sha1 sn a task" for x
    by (simp_all add: recorded_answer_def exact_answer_def approved_def split: option.split)
  show ?thesis
    using r assms(2) unfolding decide_verdict Let_def same
    by (cases "effectiveAutonomy (ct_autonomy control) lo"; cases "effectiveAutonomy (ct_autonomy control) hi") auto
qed

definition post_action :: action where
  "post_action = \<lparr>ac_kind = Some ''deliver'', ac_toolId = None, ac_effect = Some ''external'',
     ac_runId = Some ''r1'', ac_args = JUndef\<rparr>"

theorem lower_level_is_stricter_externally_witness:
  "strictness (dc_decision (decide (\<lambda>s. []) (\<lambda>r. []) post_action full_auto (answers []\<lparr>pt_autonomy := None\<rparr>) DEFAULT_SAFETY_RULES))
    \<le> strictness (dc_decision (decide (\<lambda>s. []) (\<lambda>r. []) post_action full_auto
        (answers []\<lparr>pt_autonomy := Some ''propose''\<rparr>) DEFAULT_SAFETY_RULES))"
  by (rule lower_level_is_stricter_externally)
    (simp_all add: level_of_def AUTONOMY_LEVELS_def less_eq_autonomy_def effect_of_def post_action_def)

text \<open>The order of the levels is not the order of their strictness: under a repository-wide level of
  \<open>approval\<close> an unapproved local write of an auto-approved category waits for a human, but the same
  task asking for \<open>propose\<close>, which the code ranks as stricter, is allowed to make it at once.\<close>

theorem propose_loosens_approval:
  assumes "ct_killSwitch control = False" and "level_of (ct_autonomy control) = Approval"
    and "effect_of a = LocalWrite" and "\<not> rv_ask (evaluateRules a rules)"
    and "recorded_answer sha1 sn a task = None"
  shows "dc_decision (decide sha1 sn a control (task\<lparr>pt_autonomy := None\<rparr>) rules) = Approve \<and>
    dc_decision (decide sha1 sn a control (task\<lparr>pt_autonomy := Some ''propose''\<rparr>) rules) = Allow"
proof -
  have lv: "effectiveAutonomy (ct_autonomy control) None = Approval"
    "effectiveAutonomy (ct_autonomy control) (Some ''propose'') = Propose"
    using assms(2) by (simp_all add: effective_is_min level_of_def AUTONOMY_LEVELS_def min_def less_eq_autonomy_def)
  have same: "recorded_answer sha1 sn a (task\<lparr>pt_autonomy := x\<rparr>) = None"
    "approved sha1 sn a (task\<lparr>pt_autonomy := x\<rparr>) = False" for x
    using assms(5) by (auto simp: recorded_answer_def exact_answer_def approved_def split: option.splits)
  show ?thesis using assms lv unfolding decide_verdict Let_def same by simp
qed

definition write_action :: action where
  "write_action = \<lparr>ac_kind = Some ''tool'', ac_toolId = Some ''workspace_write'', ac_effect = Some ''local_write'',
     ac_runId = None, ac_args = JUndef\<rparr>"

theorem propose_loosens_approval_witness:
  "dc_decision (decide (\<lambda>s. []) (\<lambda>r. []) write_action (full_auto\<lparr>ct_autonomy := Some ''approval''\<rparr>)
     (answers []\<lparr>pt_autonomy := Some ''propose''\<rparr>) DEFAULT_SAFETY_RULES) = Allow"
proof -
  have "\<not> rv_ask (evaluateRules write_action DEFAULT_SAFETY_RULES)" by code_simp
  then show ?thesis
    using propose_loosens_approval [of "full_auto\<lparr>ct_autonomy := Some ''approval''\<rparr>" write_action
        DEFAULT_SAFETY_RULES "\<lambda>s. []" "\<lambda>r. []" "answers []"]
    by (simp add: full_auto_def level_of_def AUTONOMY_LEVELS_def effect_of_def write_action_def
        recorded_answer_def exact_answer_def answers_def)
qed

section \<open>The approval log\<close>

record approval_entry =
  ae_category :: "string option"
  ae_decision :: string

text \<open>One line of the log after \<open>JSON.parse\<close>: \<open>None\<close> is a line that does not parse.\<close>

definition log_entry :: "js option \<Rightarrow> approval_entry option" where
  "log_entry v =
    (case v of
       Some (JObj kvs) \<Rightarrow>
         (case map_of kvs ''decision'' of
            Some (JStr d) \<Rightarrow>
              if d = ''approved'' \<or> d = ''denied''
              then Some \<lparr>ae_category = (case map_of kvs ''category'' of Some (JStr c) \<Rightarrow> Some c | _ \<Rightarrow> None), ae_decision = d\<rparr>
              else None
          | _ \<Rightarrow> None)
     | _ \<Rightarrow> None)"

definition read_log :: "nat \<Rightarrow> (string \<Rightarrow> js option) \<Rightarrow> string \<Rightarrow> approval_entry list" where
  "read_log limit parse txt =
    (let es = List.map_filter (\<lambda>l. if js_trim l = [] then None else log_entry (parse l)) (split_on (\<lambda>c. c = CHR 0x0A) txt)
     in if limit = 0 then es else slice_last limit es)"

record approval_summary =
  as_total :: nat
  as_approved :: nat
  as_denied :: nat
  as_byCategory :: "(string \<times> nat \<times> nat) list"

definition add_entry :: "approval_entry \<Rightarrow> approval_summary \<Rightarrow> approval_summary" where
  "add_entry e s =
    (let c = dflt (ae_category e) ''unknown''; (a, d) = dflt (map_of (as_byCategory s) c) (0, 0) in
     if ae_decision e = ''approved''
     then s\<lparr>as_approved := as_approved s + 1, as_byCategory := assoc_put c (a + 1, d) (as_byCategory s)\<rparr>
     else s\<lparr>as_denied := as_denied s + 1, as_byCategory := assoc_put c (a, d + 1) (as_byCategory s)\<rparr>)"

definition summarizeApprovals :: "approval_entry list \<Rightarrow> approval_summary \<times> approval_entry list" where
  "summarizeApprovals es =
    ((fold add_entry es \<lparr>as_total = 0, as_approved = 0, as_denied = 0, as_byCategory = []\<rparr>)\<lparr>as_total := length es\<rparr>,
     rev (slice_last 10 es))"

lemma summary_counts_from:
  "as_approved (fold add_entry es s) = as_approved s + length (filter (\<lambda>e. ae_decision e = ''approved'') es) \<and>
   as_denied (fold add_entry es s) = as_denied s + length (filter (\<lambda>e. ae_decision e \<noteq> ''approved'') es) \<and>
   dflt (map_of (as_byCategory (fold add_entry es s)) c) (0, 0) =
     (let (a, d) = dflt (map_of (as_byCategory s) c) (0, 0) in
      (a + length (filter (\<lambda>e. dflt (ae_category e) ''unknown'' = c \<and> ae_decision e = ''approved'') es),
       d + length (filter (\<lambda>e. dflt (ae_category e) ''unknown'' = c \<and> ae_decision e \<noteq> ''approved'') es)))"
proof (induction es arbitrary: s)
  case Nil
  then show ?case by (simp add: split_beta)
next
  case (Cons e es)
  show ?case
    using Cons.IH [of "add_entry e s"] by (simp add: add_entry_def Let_def split_beta)
qed

text \<open>The totals and the per-category tallies are those of the entries.\<close>

lemma summary_counts:
  "as_approved (fst (summarizeApprovals es)) + as_denied (fst (summarizeApprovals es)) = as_total (fst (summarizeApprovals es))"
  using summary_counts_from [of es "\<lparr>as_total = 0, as_approved = 0, as_denied = 0, as_byCategory = []\<rparr>" "[]"]
    filter_length_partition [of "\<lambda>e. ae_decision e = ''approved''" es]
  by (simp add: summarizeApprovals_def)

end
