(* ===== verification/Validate.thy ===== *)
theory Validate
  imports Json Regex
begin

text \<open>
  The schema validator, \<open>src/lib/validate.js\<close>, and the two schema transformers of
  \<open>src/state/strict.js\<close> that every state schema goes through. A schema is a JavaScript value, as in
  the code. The constructor \<open>RegExp\<close> for the keyword \<open>pattern\<close> is an argument. The operator \<open>in\<close>
  sees the properties of \<open>Object.prototype\<close>, as JavaScript's does.
\<close>

section \<open>Sizes\<close>

lemma size_entry: "(k, v) \<in> set kvs \<Longrightarrow> size v < size (JObj kvs)"
  by (induction kvs) auto

lemma size_elem: "x \<in> set xs \<Longrightarrow> size x < size (JArr xs)"
  by (induction xs) auto

lemma jget_cases: "jget s k = JUndef \<or> (k, jget s k) \<in> set (entries s)"
  by (cases s) (auto simp: dflt_def dest: map_of_SomeD split: option.splits)

lemma size_jget: "jget s k \<noteq> JUndef \<Longrightarrow> size (jget s k) < size s"
  using jget_cases [of s k] by (cases s) (auto dest: size_entry)

lemma size_truthy [termination_simp]: "truthy (jget s k) \<Longrightarrow> size (jget s k) < size s"
  by (rule size_jget) auto

lemma size_items [termination_simp]: "x \<in> set (arr_of (jget s k)) \<Longrightarrow> size x < size s"
proof (cases "jget s k")
  case (JArr xs)
  assume "x \<in> set (arr_of (jget s k))"
  then have "size x < size (JArr xs)" using JArr size_elem by simp
  also have "\<dots> < size s" using size_jget [of s k] JArr by simp
  finally show ?thesis .
qed auto

lemma size_props [termination_simp]: "(n, x) \<in> set (entries (jget s k)) \<Longrightarrow> size x < size s"
proof (cases "jget s k")
  case (JObj kvs)
  assume "(n, x) \<in> set (entries (jget s k))"
  then have "size x < size (JObj kvs)" using JObj size_entry by simp
  also have "\<dots> < size s" using size_jget [of s k] JObj by simp
  finally show ?thesis .
qed auto

section \<open>The validator\<close>

fun num_less :: "num \<Rightarrow> num \<Rightarrow> bool" where
  "num_less (Fin a) (Fin b) = (a < b)"
| "num_less NInf (Fin b) = True"
| "num_less NInf PInf = True"
| "num_less (Fin a) PInf = True"
| "num_less _ _ = False"

fun js_less :: "js \<Rightarrow> js \<Rightarrow> bool" where
  "js_less (JNum a) (JNum b) = num_less a b"
| "js_less _ _ = False"

text \<open>\<open>a === b\<close>: objects and arrays of a schema are never the value itself.\<close>

fun strict_eq :: "js \<Rightarrow> js \<Rightarrow> bool" where
  "strict_eq (JArr _) _ = False"
| "strict_eq (JObj _) _ = False"
| "strict_eq (JNum NaN) _ = False"
| "strict_eq a b = (a = b)"

text \<open>\<open>includes\<close> compares like \<open>===\<close>, but finds NaN.\<close>

definition js_includes :: "js list \<Rightarrow> js \<Rightarrow> bool" where
  "js_includes xs v = list_ex (\<lambda>x. strict_eq v x \<or> (v = JNum NaN \<and> x = JNum NaN)) xs"

fun type_check :: "js \<Rightarrow> js \<Rightarrow> bool" where
  "type_check (JStr t) v =
     (if t = ''string'' then (case v of JStr _ \<Rightarrow> True | _ \<Rightarrow> False)
      else if t = ''number'' then (case v of JNum (Fin _) \<Rightarrow> True | _ \<Rightarrow> False)
      else if t = ''integer'' then (case v of JNum (Fin r) \<Rightarrow> of_int \<lfloor>r\<rfloor> = r | _ \<Rightarrow> False)
      else if t = ''boolean'' then (case v of JBool _ \<Rightarrow> True | _ \<Rightarrow> False)
      else if t = ''object'' then is_obj v
      else if t = ''array'' then is_arr v
      else if t = ''null'' then v = JNull
      else False)"
| "type_check _ v = False"

definition schema_types :: "js \<Rightarrow> js list" where
  "schema_types t = (case t of JArr ts \<Rightarrow> ts | _ \<Rightarrow> [t])"

definition d2 :: rx where "d2 = rep 2 digit"

definition ISO_DATE :: rx where
  "ISO_DATE = seqs [Bol, rep 4 digit, lit ''-'', d2, lit ''-'', d2, lit ''T'', d2, lit '':'', d2, lit '':'', d2,
     opt (Seq (lit ''.'') (rep_between 1 3 digit)),
     alts [lit ''Z'', seqs [any_of ''+-'', d2, lit '':'', d2]], Eol]"

definition PROTO_KEYS :: "string list" where
  "PROTO_KEYS = [''constructor'', ''__defineGetter__'', ''__defineSetter__'', ''hasOwnProperty'', ''__lookupGetter__'',
     ''__lookupSetter__'', ''isPrototypeOf'', ''propertyIsEnumerable'', ''toString'', ''valueOf'', ''__proto__'',
     ''toLocaleString'']"

definition own_keys :: "js \<Rightarrow> string list" where
  "own_keys v = map fst (entries v)"

definition in_obj :: "string \<Rightarrow> js \<Rightarrow> bool" where
  "in_obj k v = (k \<in> set (own_keys v) \<or> k \<in> set PROTO_KEYS)"

datatype verr_kind =
    NoShape | NotConst | WrongType | NotInEnum | TooShort | TooLong | NoPattern | NotDateTime
  | BelowMinimum | AboveMaximum | FewItems | ManyItems | Required | Unexpected

type_synonym verr = "string \<times> verr_kind"

definition err_if :: "bool \<Rightarrow> string \<Rightarrow> verr_kind \<Rightarrow> verr list" where
  "err_if b path k = (if b then [(path, k)] else [])"

definition string_errors :: "(string \<Rightarrow> string \<Rightarrow> bool) \<Rightarrow> js \<Rightarrow> js \<Rightarrow> string \<Rightarrow> verr list" where
  "string_errors rxt v s path =
    (case v of
       JStr t \<Rightarrow>
         err_if (js_less (jint (int (length t))) (jget s ''minLength'')) path TooShort @
         err_if (js_less (jget s ''maxLength'') (jint (int (length t)))) path TooLong @
         err_if (case jget s ''pattern'' of JStr p \<Rightarrow> p \<noteq> [] \<and> \<not> rxt p t | _ \<Rightarrow> False) path NoPattern @
         err_if (jget s ''format'' = JStr ''date-time'' \<and> \<not> rx_test ISO_DATE t) path NotDateTime
     | _ \<Rightarrow> [])"

definition number_errors :: "js \<Rightarrow> js \<Rightarrow> string \<Rightarrow> verr list" where
  "number_errors v s path =
    err_if (js_less v (jget s ''minimum'')) path BelowMinimum @
    err_if (js_less (jget s ''maximum'') v) path AboveMaximum"

definition size_errors :: "js \<Rightarrow> js \<Rightarrow> string \<Rightarrow> verr list" where
  "size_errors v s path =
    (case v of
       JArr xs \<Rightarrow>
         err_if (js_less (jint (int (length xs))) (jget s ''minItems'')) path FewItems @
         err_if (js_less (jget s ''maxItems'') (jint (int (length xs)))) path ManyItems
     | _ \<Rightarrow> [])"

definition dot_path :: "string \<Rightarrow> string \<Rightarrow> string" where
  "dot_path path key = path @ ''.'' @ key"

definition index_path :: "string \<Rightarrow> nat \<Rightarrow> string" where
  "index_path path i = path @ ''['' @ show_nat i @ '']''"

definition required_errors :: "js \<Rightarrow> js \<Rightarrow> string \<Rightarrow> verr list" where
  "required_errors v s path =
    concat (map (\<lambda>k. err_if (\<not> in_obj k v) (dot_path path k) Required) (List.map_filter str_of (arr_of (jget s ''required''))))"

definition extra_errors :: "js \<Rightarrow> js \<Rightarrow> string \<Rightarrow> verr list" where
  "extra_errors v s path =
    (if jget s ''additionalProperties'' = JBool False
     then concat (map (\<lambda>k. err_if (\<not> in_obj k (jget s ''properties'')) (dot_path path k) Unexpected) (own_keys v))
     else [])"

fun is_object_like :: "js \<Rightarrow> bool" where
  "is_object_like (JObj _) = True"
| "is_object_like (JArr _) = True"
| "is_object_like _ = False"

function (sequential) validate :: "(string \<Rightarrow> string \<Rightarrow> bool) \<Rightarrow> js \<Rightarrow> js \<Rightarrow> string \<Rightarrow> verr list" where
  "validate rxt v s path =
    (if \<not> is_object_like s then []
     else if truthy (jget s ''nullable'') \<and> v = JNull then []
     else if truthy (jget s ''anyOf'') then
       (if list_ex (\<lambda>sub. validate rxt v sub path = []) (arr_of (jget s ''anyOf'')) then [] else [(path, NoShape)])
     else if jget s ''const'' \<noteq> JUndef \<and> \<not> strict_eq v (jget s ''const'') then [(path, NotConst)]
     else if truthy (jget s ''type'') \<and> \<not> list_ex (\<lambda>t. type_check t v) (schema_types (jget s ''type'')) then [(path, WrongType)]
     else if truthy (jget s ''enum'') \<and> \<not> js_includes (arr_of (jget s ''enum'')) v then [(path, NotInEnum)]
     else
       string_errors rxt v s path @
       number_errors v s path @
       size_errors v s path @
       (if truthy (jget s ''items'')
        then concat (map (\<lambda>(i, x). validate rxt x (jget s ''items'') (index_path path i)) (enumerate 0 (arr_of v)))
        else []) @
       (if is_obj v then
          required_errors v s path @
          concat (map (\<lambda>(k, sub). if in_obj k v then validate rxt (jget v k) sub (dot_path path k) else [])
            (entries (jget s ''properties''))) @
          extra_errors v s path @
          (if truthy (jget s ''additionalProperties'') \<and> is_object_like (jget s ''additionalProperties'')
           then concat (map (\<lambda>(k, x). if in_obj k (jget s ''properties'') then []
                                     else validate rxt x (jget s ''additionalProperties'') (dot_path path k)) (entries v))
           else [])
        else []))"
  by pat_completeness auto
termination
  by (relation "measure (\<lambda>(_, _, s, _). size s)") (auto simp: termination_simp)

declare validate.simps [simp del]

definition check :: "(string \<Rightarrow> string \<Rightarrow> bool) \<Rightarrow> js \<Rightarrow> js \<Rightarrow> bool \<times> verr list" where
  "check rxt v s = (let errors = validate rxt v s ''$'' in (errors = [], errors))"

section \<open>Strict schemas\<close>

function (sequential) strictify :: "js \<Rightarrow> js" where
  "strictify (JArr xs) = JArr (map strictify xs)"
| "strictify (JObj kvs) =
     (let out = JObj (map (\<lambda>(k, v).
          (k, if k = ''properties'' then (case v of JObj ps \<Rightarrow> JObj (map (\<lambda>(n, s). (n, strictify s)) ps) | _ \<Rightarrow> v)
              else if k = ''items'' \<or> k = ''additionalProperties'' then strictify v
              else if k = ''anyOf'' then (case v of JArr xs \<Rightarrow> JArr (map strictify xs) | _ \<Rightarrow> v)
              else v)) kvs)
      in if truthy (jget out ''properties'') \<and> jget out ''additionalProperties'' = JUndef
         then set_prop ''additionalProperties'' (JBool False) out else out)"
| "strictify v = v"
  by pat_completeness auto

lemma size_prop_entry: "(k, JObj ps) \<in> set kvs \<Longrightarrow> (n, s) \<in> set ps \<Longrightarrow> size s < size (JObj kvs)"
  using size_entry [of k "JObj ps" kvs] size_entry [of n s ps] by simp

lemma size_any_entry: "(k, JArr xs) \<in> set kvs \<Longrightarrow> x \<in> set xs \<Longrightarrow> size x < size (JObj kvs)"
  using size_entry [of k "JArr xs" kvs] size_elem [of x xs] by simp

termination strictify
proof (relation "measure size")
  show "wf (measure (size :: js \<Rightarrow> nat))" by simp
  show "\<And>xs x. x \<in> set xs \<Longrightarrow> (x, JArr xs) \<in> measure size" using size_elem by simp
  show "\<And>kvs x k v ps xa n s. x \<in> set kvs \<Longrightarrow> (k, v) = x \<Longrightarrow> k = ''properties'' \<Longrightarrow> v = JObj ps \<Longrightarrow> xa \<in> set ps \<Longrightarrow> (n, s) = xa \<Longrightarrow>
      (s, JObj kvs) \<in> measure size"
    using size_prop_entry by auto
  show "\<And>kvs x k v. x \<in> set kvs \<Longrightarrow> (k, v) = x \<Longrightarrow> k \<noteq> ''properties'' \<Longrightarrow> k = ''items'' \<or> k = ''additionalProperties'' \<Longrightarrow>
      (v, JObj kvs) \<in> measure size"
    using size_entry by auto
  show "\<And>kvs x k v xs xa. x \<in> set kvs \<Longrightarrow> (k, v) = x \<Longrightarrow> k \<noteq> ''properties'' \<Longrightarrow> \<not> (k = ''items'' \<or> k = ''additionalProperties'') \<Longrightarrow>
      k = ''anyOf'' \<Longrightarrow> v = JArr xs \<Longrightarrow> xa \<in> set xs \<Longrightarrow> (xa, JObj kvs) \<in> measure size"
    using size_any_entry by auto
qed

text \<open>The paths of the objects that list properties but let others in.\<close>

function (sequential) findLooseObjects :: "js \<Rightarrow> string \<Rightarrow> string list" where
  "findLooseObjects s path =
    (if \<not> is_object_like s then []
     else
       (if truthy (jget s ''properties'') \<and> jget s ''additionalProperties'' \<noteq> JBool False \<and>
           \<not> is_object_like (jget s ''additionalProperties'') then [path] else []) @
       concat (map (\<lambda>(k, v). findLooseObjects v (dot_path path k)) (entries (jget s ''properties''))) @
       (if truthy (jget s ''items'') then findLooseObjects (jget s ''items'') (path @ ''[]'') else []) @
       (if is_object_like (jget s ''additionalProperties'')
        then findLooseObjects (jget s ''additionalProperties'') (path @ ''.*'') else []) @
       concat (map (\<lambda>x. findLooseObjects x path) (arr_of (jget s ''anyOf''))))"
  by pat_completeness auto

lemma size_like: "is_object_like (jget s k) \<Longrightarrow> size (jget s k) < size s"
  by (rule size_jget) auto

termination findLooseObjects
  by (relation "measure (\<lambda>(s, _). size s)") (auto simp: termination_simp size_like)

declare findLooseObjects.simps [simp del]

section \<open>How \<open>strictify\<close> changes the keywords\<close>

definition strict_entry :: "string \<Rightarrow> js \<Rightarrow> js" where
  "strict_entry k v =
    (if k = ''properties'' then (case v of JObj ps \<Rightarrow> JObj (map (\<lambda>(n, s). (n, strictify s)) ps) | _ \<Rightarrow> v)
     else if k = ''items'' \<or> k = ''additionalProperties'' then strictify v
     else if k = ''anyOf'' then (case v of JArr xs \<Rightarrow> JArr (map strictify xs) | _ \<Rightarrow> v)
     else v)"

lemma jget_mapped:
  "f k JUndef = JUndef \<Longrightarrow> jget (JObj (map (\<lambda>(k, v). (k, f k v)) kvs)) k = f k (jget (JObj kvs) k)"
  by (induction kvs) (auto simp: dflt_def)

lemma strict_entry_undef [simp]: "strict_entry k JUndef = JUndef"
  by (simp add: strict_entry_def)

lemma truthy_strictify [simp]: "truthy (strictify v) = truthy v"
  by (cases v) (simp_all add: set_prop_def Let_def)

lemma object_like_strictify [simp]: "is_object_like (strictify v) = is_object_like v"
  by (cases v) (simp_all add: set_prop_def Let_def)

lemma truthy_strict_entry [simp]: "truthy (strict_entry k v) = truthy v"
  by (auto simp: strict_entry_def split: js.splits)

lemma strictify_undef: "strictify v = JUndef \<longleftrightarrow> v = JUndef" "strictify v = JBool False \<longleftrightarrow> v = JBool False"
  by (cases v; simp add: set_prop_def Let_def)+

lemma strictify_obj:
  "strictify (JObj kvs) =
    (let out = JObj (map (\<lambda>(k, v). (k, strict_entry k v)) kvs)
     in if truthy (jget (JObj kvs) ''properties'') \<and> jget (JObj kvs) ''additionalProperties'' = JUndef
        then set_prop ''additionalProperties'' (JBool False) out else out)"
proof -
  have out: "JObj (map (\<lambda>(k, v).
          (k, if k = ''properties'' then (case v of JObj ps \<Rightarrow> JObj (map (\<lambda>(n, s). (n, strictify s)) ps) | _ \<Rightarrow> v)
              else if k = ''items'' \<or> k = ''additionalProperties'' then strictify v
              else if k = ''anyOf'' then (case v of JArr xs \<Rightarrow> JArr (map strictify xs) | _ \<Rightarrow> v)
              else v)) kvs) = JObj (map (\<lambda>(k, v). (k, strict_entry k v)) kvs)"
    by (simp add: strict_entry_def)
  have p: "truthy (jget (JObj (map (\<lambda>(k, v). (k, strict_entry k v)) kvs)) ''properties'') = truthy (jget (JObj kvs) ''properties'')"
    by (subst jget_mapped) simp_all
  have a: "jget (JObj (map (\<lambda>(k, v). (k, strict_entry k v)) kvs)) ''additionalProperties'' = JUndef \<longleftrightarrow>
      jget (JObj kvs) ''additionalProperties'' = JUndef"
    by (subst jget_mapped) (simp_all add: strict_entry_def strictify_undef)
  show ?thesis unfolding strictify.simps out Let_def p a by (rule refl)
qed

lemma jget_strictify:
  "jget (strictify s) k =
    (if k = ''additionalProperties'' \<and> truthy (jget s ''properties'') \<and> jget s k = JUndef then JBool False
     else strict_entry k (jget s k))"
proof (cases s)
  case (JObj kvs)
  have m: "jget (JObj (map (\<lambda>(k, v). (k, strict_entry k v)) kvs)) k = strict_entry k (jget s k)" for k
    unfolding JObj by (rule jget_mapped) simp
  show ?thesis
    unfolding JObj strictify_obj Let_def
    using m [of k, unfolded JObj] by (simp add: jget_set_prop del: jget.simps) (auto simp: strict_entry_def)
qed simp_all

lemma entries_strict_props:
  "entries (strict_entry ''properties'' v) = map (\<lambda>(n, s). (n, strictify s)) (entries v)"
  by (cases v) (simp_all add: strict_entry_def)

lemma arr_of_strict_any: "arr_of (strict_entry ''anyOf'' v) = map strictify (arr_of v)"
  by (cases v) (simp_all add: strict_entry_def)

lemma in_obj_strict_props [simp]: "in_obj k (strict_entry ''properties'' v) = in_obj k v"
  by (simp add: in_obj_def own_keys_def entries_strict_props split_beta comp_def)

text \<open>No object of the schema says in so many words that it is open.\<close>

function (sequential) says_nothing_open :: "js \<Rightarrow> bool" where
  "says_nothing_open s =
    (\<not> is_object_like s \<or>
     ((jget s ''additionalProperties'' \<in> {JUndef, JBool False} \<or> is_object_like (jget s ''additionalProperties'')) \<and>
      list_all (\<lambda>(k, v). says_nothing_open v) (entries (jget s ''properties'')) \<and>
      (truthy (jget s ''items'') \<longrightarrow> says_nothing_open (jget s ''items'')) \<and>
      (is_object_like (jget s ''additionalProperties'') \<longrightarrow> says_nothing_open (jget s ''additionalProperties'')) \<and>
      list_all says_nothing_open (arr_of (jget s ''anyOf''))))"
  by pat_completeness auto
termination
  by (relation "measure size") (auto simp: termination_simp size_like)

declare says_nothing_open.simps [simp del]

text \<open>\<open>strictify\<close> does what the registry's meta check asks for: after it, no object of a schema that
  lists properties admits others, unless the schema itself says it is open.\<close>

lemma strictify_closes:
  assumes "says_nothing_open s"
  shows "findLooseObjects (strictify s) path = []"
  using assms
proof (induction s arbitrary: path rule: says_nothing_open.induct)
  case (1 s)
  show ?case
  proof (cases "is_object_like s")
    case False
    then show ?thesis by (subst findLooseObjects.simps) simp
  next
    case True
    have n: "jget s ''additionalProperties'' \<in> {JUndef, JBool False} \<or> is_object_like (jget s ''additionalProperties'')"
      "list_all (\<lambda>(k, v). says_nothing_open v) (entries (jget s ''properties''))"
      "truthy (jget s ''items'') \<longrightarrow> says_nothing_open (jget s ''items'')"
      "is_object_like (jget s ''additionalProperties'') \<longrightarrow> says_nothing_open (jget s ''additionalProperties'')"
      "list_all says_nothing_open (arr_of (jget s ''anyOf''))"
      using "1.prems" True by (simp_all add: says_nothing_open.simps [of s])
    have ps: "findLooseObjects (strictify v) (dot_path path k) = []" if "(k, v) \<in> set (entries (jget s ''properties''))" for k v
      using "1.IH"(1) [OF that refl] n(2) that by (auto simp: list_all_iff)
    have it: "findLooseObjects (strictify (jget s ''items'')) (path @ ''[]'') = []" if "truthy (jget s ''items'')"
      using "1.IH"(2) [OF that] n(3) that by simp
    have ad: "findLooseObjects (strictify (jget s ''additionalProperties'')) (path @ ''.*'') = []"
      if "is_object_like (jget s ''additionalProperties'')"
      using "1.IH"(3) [OF that] n(4) that by simp
    have an: "findLooseObjects (strictify x) path = []" if "x \<in> set (arr_of (jget s ''anyOf''))" for x
      using "1.IH"(4) [OF that] n(5) that by (simp add: list_all_iff)
    have items: "jget (strictify s) ''items'' = strictify (jget s ''items'')"
      and props: "jget (strictify s) ''properties'' = strict_entry ''properties'' (jget s ''properties'')"
      and any: "jget (strictify s) ''anyOf'' = strict_entry ''anyOf'' (jget s ''anyOf'')"
      by (simp_all add: jget_strictify) (simp add: strict_entry_def)
    have addl: "jget (strictify s) ''additionalProperties'' =
        (if truthy (jget s ''properties'') \<and> jget s ''additionalProperties'' = JUndef then JBool False
         else strictify (jget s ''additionalProperties''))"
      by (simp add: jget_strictify strict_entry_def)
    show ?thesis
      unfolding findLooseObjects.simps [of "strictify s"] items props any addl
      using True n(1) ps it ad an
      by (auto simp: entries_strict_props arr_of_strict_any strictify_undef)
  qed
qed

section \<open>Strict validation implies the original one\<close>

lemma strict_other_keys:
  "k \<notin> {''properties'', ''items'', ''additionalProperties'', ''anyOf''} \<Longrightarrow> jget (strictify s) k = jget s k"
  by (simp add: jget_strictify strict_entry_def)

lemma strict_items: "jget (strictify s) ''items'' = strictify (jget s ''items'')"
  by (simp add: jget_strictify strict_entry_def)

lemma strict_props: "jget (strictify s) ''properties'' = strict_entry ''properties'' (jget s ''properties'')"
  and strict_any: "jget (strictify s) ''anyOf'' = strict_entry ''anyOf'' (jget s ''anyOf'')"
  by (simp_all add: jget_strictify)

lemma strict_addl:
  "jget (strictify s) ''additionalProperties'' =
    (if truthy (jget s ''properties'') \<and> jget s ''additionalProperties'' = JUndef then JBool False
     else strictify (jget s ''additionalProperties''))"
  by (simp add: jget_strictify strict_entry_def)

lemma extra_strict: "extra_errors v (strictify s) path = [] \<Longrightarrow> extra_errors v s path = []"
proof (cases "jget s ''additionalProperties'' = JBool False")
  case True
  then have "jget (strictify s) ''additionalProperties'' = JBool False" by (simp add: strict_addl)
  moreover assume "extra_errors v (strictify s) path = []"
  ultimately show ?thesis by (simp add: extra_errors_def strict_props True)
qed (simp add: extra_errors_def)

lemma leaf_errors_strict:
  "string_errors rxt v (strictify s) path = string_errors rxt v s path"
  "number_errors v (strictify s) path = number_errors v s path"
  "size_errors v (strictify s) path = size_errors v s path"
  "required_errors v (strictify s) path = required_errors v s path"
  by (cases v; simp add: string_errors_def number_errors_def size_errors_def required_errors_def strict_other_keys)+

text \<open>What it takes for a value to pass: the keywords that look at the value alone, and those that
  look inside it.\<close>

definition leaf_ok :: "(string \<Rightarrow> string \<Rightarrow> bool) \<Rightarrow> js \<Rightarrow> js \<Rightarrow> string \<Rightarrow> bool" where
  "leaf_ok rxt v s path =
    (\<not> (jget s ''const'' \<noteq> JUndef \<and> \<not> strict_eq v (jget s ''const'')) \<and>
     \<not> (truthy (jget s ''type'') \<and> \<not> list_ex (\<lambda>t. type_check t v) (schema_types (jget s ''type''))) \<and>
     \<not> (truthy (jget s ''enum'') \<and> \<not> js_includes (arr_of (jget s ''enum'')) v) \<and>
     string_errors rxt v s path = [] \<and> number_errors v s path = [] \<and> size_errors v s path = [])"

definition items_ok :: "(string \<Rightarrow> string \<Rightarrow> bool) \<Rightarrow> js \<Rightarrow> js \<Rightarrow> string \<Rightarrow> bool" where
  "items_ok rxt v s path =
    (\<forall>(i, x)\<in>set (enumerate 0 (arr_of v)). validate rxt x (jget s ''items'') (index_path path i) = [])"

definition props_ok :: "(string \<Rightarrow> string \<Rightarrow> bool) \<Rightarrow> js \<Rightarrow> js \<Rightarrow> string \<Rightarrow> bool" where
  "props_ok rxt v s path =
    (\<forall>(k, sub)\<in>set (entries (jget s ''properties'')). in_obj k v \<longrightarrow> validate rxt (jget v k) sub (dot_path path k) = [])"

definition others_ok :: "(string \<Rightarrow> string \<Rightarrow> bool) \<Rightarrow> js \<Rightarrow> js \<Rightarrow> string \<Rightarrow> bool" where
  "others_ok rxt v s path =
    (\<forall>(k, x)\<in>set (entries v). \<not> in_obj k (jget s ''properties'') \<longrightarrow>
        validate rxt x (jget s ''additionalProperties'') (dot_path path k) = [])"

lemma shape_Nil_iff:
  "(if \<not> L then [] else if N then [] else if A then (if X then [] else [e1]) else if C then [e2] else if T then [e3]
    else if E then [e4] else S @ M @ Z @ (if I then Is else []) @
      (if O' then R @ P @ X2 @ (if D then Ds else []) else [])) = [] \<longleftrightarrow>
   \<not> L \<or> N \<or> (if A then X else
     (\<not> C \<and> \<not> T \<and> \<not> E \<and> S = [] \<and> M = [] \<and> Z = []) \<and> (I \<longrightarrow> Is = []) \<and>
     (O' \<longrightarrow> R = [] \<and> P = [] \<and> X2 = [] \<and> (D \<longrightarrow> Ds = [])))"
  by simp

lemma concat_map_Nil: "concat (map f xs) = [] \<longleftrightarrow> (\<forall>x\<in>set xs. f x = [])"
  by simp

lemma if_Nil: "(if c then xs else []) = [] \<longleftrightarrow> (c \<longrightarrow> xs = [])" "(if c then [] else xs) = [] \<longleftrightarrow> (\<not> c \<longrightarrow> xs = [])"
  by simp_all

lemma validate_Nil_iff:
  "validate rxt v s path = [] \<longleftrightarrow>
    \<not> is_object_like s \<or> (truthy (jget s ''nullable'') \<and> v = JNull) \<or>
     (if truthy (jget s ''anyOf'') then list_ex (\<lambda>sub. validate rxt v sub path = []) (arr_of (jget s ''anyOf''))
      else leaf_ok rxt v s path \<and>
       (truthy (jget s ''items'') \<longrightarrow> items_ok rxt v s path) \<and>
       (is_obj v \<longrightarrow> required_errors v s path = [] \<and> props_ok rxt v s path \<and> extra_errors v s path = [] \<and>
          (truthy (jget s ''additionalProperties'') \<and> is_object_like (jget s ''additionalProperties'') \<longrightarrow>
             others_ok rxt v s path)))"
  unfolding validate.simps [of rxt v s path]
  unfolding shape_Nil_iff
  unfolding leaf_ok_def items_ok_def props_ok_def others_ok_def
    concat_map_Nil split_beta if_Nil
  by (rule refl)

lemma leaf_ok_strict: "leaf_ok rxt v (strictify s) path = leaf_ok rxt v s path"
  by (simp add: leaf_ok_def leaf_errors_strict strict_other_keys)

definition name_schema :: js where
  "name_schema = JObj [(''type'', JStr ''object''), (''required'', JArr [JStr ''id'']),
     (''properties'', JObj [(''id'', JObj [(''type'', JStr ''string'')])])]"

text \<open>C39. A strict schema only refuses more: whatever a schema made by \<open>strictify\<close> accepts, the schema
  it was made from accepts too.\<close>

theorem strictify_refines:
  assumes "validate rxt v (strictify s) path = []"
  shows "validate rxt v s path = []"
  using assms
proof (induction rxt v s path rule: validate.induct)
  case (1 rxt v s path)
  have nullable: "jget (strictify s) ''nullable'' = jget s ''nullable''" by (rule strict_other_keys) simp
  have strict: "\<not> is_object_like s \<or> (truthy (jget s ''nullable'') \<and> v = JNull) \<or>
     (if truthy (jget s ''anyOf'') then list_ex (\<lambda>sub. validate rxt v (strictify sub) path = []) (arr_of (jget s ''anyOf''))
      else leaf_ok rxt v s path \<and>
       (truthy (jget s ''items'') \<longrightarrow> items_ok rxt v (strictify s) path) \<and>
       (is_obj v \<longrightarrow> required_errors v s path = [] \<and> props_ok rxt v (strictify s) path \<and> extra_errors v (strictify s) path = [] \<and>
          (truthy (jget (strictify s) ''additionalProperties'') \<and> is_object_like (jget (strictify s) ''additionalProperties'') \<longrightarrow>
             others_ok rxt v (strictify s) path)))"
    using "1.prems" [unfolded validate_Nil_iff [of rxt v "strictify s" path] nullable strict_any strict_items leaf_ok_strict
        truthy_strict_entry truthy_strictify object_like_strictify arr_of_strict_any leaf_errors_strict(4)]
    by (simp only: list_ex_iff set_map ball_simps bex_simps)
  show ?case
  proof (cases "\<not> is_object_like s \<or> (truthy (jget s ''nullable'') \<and> v = JNull)")
    case True
    then show ?thesis unfolding validate_Nil_iff [of rxt v s path] by blast
  next
    case False
    then have n1: "\<not> \<not> is_object_like s" and n2: "\<not> (truthy (jget s ''nullable'') \<and> v = JNull)" by blast+
    show ?thesis
    proof (cases "truthy (jget s ''anyOf'')")
      case True
      with strict False obtain sub where sub: "sub \<in> set (arr_of (jget s ''anyOf''))" "validate rxt v (strictify sub) path = []"
        by (auto simp only: list_ex_iff if_True)
      have "validate rxt v sub path = []" using "1.IH"(1) [OF n1 n2 True sub] .
      with sub(1) True show ?thesis unfolding validate_Nil_iff [of rxt v s path] list_ex_iff by auto
    next
      case any: False
      have parts: "leaf_ok rxt v s path" "truthy (jget s ''items'') \<longrightarrow> items_ok rxt v (strictify s) path"
        "is_obj v \<longrightarrow> required_errors v s path = [] \<and> props_ok rxt v (strictify s) path \<and> extra_errors v (strictify s) path = [] \<and>
          (truthy (jget (strictify s) ''additionalProperties'') \<and> is_object_like (jget (strictify s) ''additionalProperties'') \<longrightarrow>
             others_ok rxt v (strictify s) path)"
        using strict False any unfolding if_not_P [OF any] by blast+
      have c: "\<not> (jget s ''const'' \<noteq> JUndef \<and> \<not> strict_eq v (jget s ''const''))"
        "\<not> (truthy (jget s ''type'') \<and> \<not> list_ex (\<lambda>t. type_check t v) (schema_types (jget s ''type'')))"
        "\<not> (truthy (jget s ''enum'') \<and> \<not> js_includes (arr_of (jget s ''enum'')) v)"
        using parts(1) unfolding leaf_ok_def by blast+
      have it: "items_ok rxt v s path" if i: "truthy (jget s ''items'')"
        unfolding items_ok_def
      proof (clarify)
        fix j x assume jx: "(j, x) \<in> set (enumerate 0 (arr_of v))"
        have "validate rxt x (strictify (jget s ''items'')) (index_path path j) = []"
          using parts(2) i jx unfolding items_ok_def strict_items by blast
        then show "validate rxt x (jget s ''items'') (index_path path j) = []"
          using "1.IH"(2) [OF n1 n2 any c i jx refl] by blast
      qed
      have pr: "props_ok rxt v s path" if o: "is_obj v"
        unfolding props_ok_def
      proof (clarify)
        fix k sub assume ks: "(k, sub) \<in> set (entries (jget s ''properties''))" and k: "in_obj k v"
        have "(k, strictify sub) \<in> set (entries (jget (strictify s) ''properties''))"
          unfolding strict_props entries_strict_props using ks by force
        then have "validate rxt (jget v k) (strictify sub) (dot_path path k) = []"
          using parts(3) o k unfolding props_ok_def by blast
        then show "validate rxt (jget v k) sub (dot_path path k) = []"
          using "1.IH"(3) [OF n1 n2 any c o ks refl k] by blast
      qed
      have ot: "others_ok rxt v s path"
        if o: "is_obj v" and ap: "truthy (jget s ''additionalProperties'') \<and> is_object_like (jget s ''additionalProperties'')"
        unfolding others_ok_def
      proof (clarify)
        fix k x assume kx: "(k, x) \<in> set (entries v)" and k: "\<not> in_obj k (jget s ''properties'')"
        have eq: "jget (strictify s) ''additionalProperties'' = strictify (jget s ''additionalProperties'')"
          using ap by (auto simp: strict_addl)
        have "others_ok rxt v (strictify s) path" using parts(3) o ap unfolding eq by simp
        then have "validate rxt x (strictify (jget s ''additionalProperties'')) (dot_path path k) = []"
          using kx k unfolding others_ok_def eq strict_props in_obj_strict_props by blast
        then show "validate rxt x (jget s ''additionalProperties'') (dot_path path k) = []"
          using "1.IH"(4) [OF n1 n2 any c o ap kx refl k] by blast
      qed
      show ?thesis
        unfolding validate_Nil_iff [of rxt v s path]
        using parts it pr ot any extra_strict [of v s path] by (simp only: if_False) blast
    qed
  qed
qed

theorem strictify_refines_witness: "validate (\<lambda>_ _. True) (JObj [(''id'', JStr ''a'')]) name_schema ''$'' = []"
proof -
  have "validate (\<lambda>_ _. True) (JObj [(''id'', JStr ''a'')]) (strictify name_schema) ''$'' = []" by code_simp
  then show ?thesis by (rule strictify_refines)
qed

section \<open>What a closed object lists, and what slips through\<close>

text \<open>A value that passes an object schema with \<open>additionalProperties: false\<close> has every required key
  and no key outside \<open>properties\<close>, the keys of \<open>Object.prototype\<close> aside; and each listed key it has
  passes its own schema.\<close>

theorem closed_object_keys:
  assumes "validate rxt v s path = []" and "is_obj v" and "is_object_like s"
    and "\<not> truthy (jget s ''anyOf'')" and "jget s ''additionalProperties'' = JBool False"
  shows "(\<forall>k\<in>set (own_keys v). k \<in> set (own_keys (jget s ''properties'')) \<or> k \<in> set PROTO_KEYS) \<and>
    (\<forall>k. JStr k \<in> set (arr_of (jget s ''required'')) \<longrightarrow> k \<in> set (own_keys v) \<or> k \<in> set PROTO_KEYS) \<and>
    (\<forall>(k, sub)\<in>set (entries (jget s ''properties'')). k \<in> set (own_keys v) \<longrightarrow>
       validate rxt (jget v k) sub (dot_path path k) = [])"
proof -
  have "v \<noteq> JNull" using assms(2) by (cases v) auto
  then have "required_errors v s path = [] \<and> extra_errors v s path = [] \<and> props_ok rxt v s path"
    using assms(1-4) unfolding validate_Nil_iff [of rxt v s path] by (simp only: if_False simp_thms)
  then have parts: "required_errors v s path = []" "extra_errors v s path = []"
    "\<forall>(k, sub)\<in>set (entries (jget s ''properties'')). in_obj k v \<longrightarrow> validate rxt (jget v k) sub (dot_path path k) = []"
    unfolding props_ok_def by blast+
  have mem: "k \<in> set (List.map_filter str_of xs)" if "JStr k \<in> set xs" for k xs
    using that by (force simp: map_filter_def)
  have "in_obj k v" if "JStr k \<in> set (arr_of (jget s ''required''))" for k
    using bspec [OF parts(1) [unfolded required_errors_def concat_map_Nil] mem [OF that]]
    by (simp add: err_if_def split: if_split_asm)
  moreover have "in_obj k (jget s ''properties'')" if "k \<in> set (own_keys v)" for k
    using bspec [OF parts(2) [unfolded extra_errors_def if_P [OF assms(5)] concat_map_Nil] that]
    by (simp add: err_if_def split: if_split_asm)
  ultimately show ?thesis using parts(3) by (auto simp: in_obj_def)
qed

theorem closed_object_keys_witness:
  "''id'' \<in> set (own_keys (JObj [(''id'', JStr ''a'')])) \<or> ''id'' \<in> set PROTO_KEYS"
proof -
  have h: "validate rxt (JObj [(''id'', JStr ''a'')]) (strictify name_schema) ''$'' = []" for rxt by code_simp
  have s: "is_obj (JObj [(''id'', JStr ''a'')])" "is_object_like (strictify name_schema)"
    "\<not> truthy (jget (strictify name_schema) ''anyOf'')" "jget (strictify name_schema) ''additionalProperties'' = JBool False"
    by (simp, code_simp+)
  have r: "JStr ''id'' \<in> set (arr_of (jget (strictify name_schema) ''required''))" by code_simp
  show ?thesis by (rule closed_object_keys [OF h s, THEN conjunct2, THEN conjunct1, rule_format, OF r])
qed

text \<open>A closed schema does not see a key that \<open>Object.prototype\<close> has: to an object that says
  \<open>additionalProperties: false\<close> and does not list \<open>constructor\<close>, a value may add that key with any
  content whatever, and validates exactly as before.\<close>

theorem prototype_key_slips_through:
  assumes "jget s ''additionalProperties'' = JBool False" and "\<not> truthy (jget s ''anyOf'')"
    and "jget s ''const'' = JUndef" and "jget s ''enum'' = JUndef"
    and "''constructor'' \<notin> set (own_keys (jget s ''properties''))" and "''constructor'' \<notin> fst ` set kvs"
  shows "validate rxt (JObj (kvs @ [(''constructor'', anything)])) s path = validate rxt (JObj kvs) s path"
proof -
  let ?w = "JObj (kvs @ [(''constructor'', anything)])" and ?v = "JObj kvs"
  have con: "''constructor'' \<in> set PROTO_KEYS" by (simp add: PROTO_KEYS_def)
  have inw: "in_obj k ?w = in_obj k ?v" for k using con by (auto simp: in_obj_def own_keys_def)
  have get: "jget ?w k = jget ?v k" if "k \<noteq> ''constructor''" for k
    using that by (auto simp: map_of_append map_add_def dflt_def split: option.splits)
  have ne: "k \<noteq> ''constructor''" if "(k, sub) \<in> set (entries (jget s ''properties''))" for k sub
    using assms(5) that by (force simp: own_keys_def)
  have props: "map (\<lambda>(k, sub). if in_obj k ?w then validate rxt (jget ?w k) sub (dot_path path k) else [])
        (entries (jget s ''properties'')) =
      map (\<lambda>(k, sub). if in_obj k ?v then validate rxt (jget ?v k) sub (dot_path path k) else [])
        (entries (jget s ''properties''))"
    by (rule map_cong [OF refl]) (auto simp: inw get [OF ne] simp del: jget.simps)
  have leaf: "string_errors rxt ?w s path = string_errors rxt ?v s path" "number_errors ?w s path = number_errors ?v s path"
    "size_errors ?w s path = size_errors ?v s path" "required_errors ?w s path = required_errors ?v s path"
    "type_check t ?w = type_check t ?v" for t
    by (simp_all add: string_errors_def number_errors_def size_errors_def required_errors_def inw)
      (cases t; simp add: inw)+
  have num: "js_less ?w x = js_less ?v x" "js_less x ?w = js_less x ?v" for x by (cases x; simp)+
  have extra: "extra_errors ?w s path = extra_errors ?v s path"
    using con by (simp add: extra_errors_def own_keys_def err_if_def in_obj_def)
  show ?thesis
    unfolding validate.simps [of rxt ?w s path] validate.simps [of rxt ?v s path] props leaf extra
    using assms(1-4) by simp
qed

theorem prototype_key_slips_through_witness:
  "validate (\<lambda>_ _. True) (JObj ([(''id'', JStr ''a'')] @ [(''constructor'', JStr ''leak'')])) (strictify name_schema) ''$'' =
   validate (\<lambda>_ _. True) (JObj [(''id'', JStr ''a'')]) (strictify name_schema) ''$''"
proof -
  have s: "jget (strictify name_schema) ''additionalProperties'' = JBool False" "\<not> truthy (jget (strictify name_schema) ''anyOf'')"
    "jget (strictify name_schema) ''const'' = JUndef" "jget (strictify name_schema) ''enum'' = JUndef"
    "''constructor'' \<notin> set (own_keys (jget (strictify name_schema) ''properties''))"
    "''constructor'' \<notin> fst ` set [(''id'', JStr ''a'')]"
    by (code_simp, code_simp, code_simp, code_simp, code_simp, simp)
  show ?thesis by (rule prototype_key_slips_through [OF s])
qed

end
