(* ===== verification/State_Schema.thy ===== *)
theory State_Schema
  imports Validate
begin

text \<open>
  The shapes of the state files, \<open>src/state/schema.js\<close> and \<open>src/state/strict.js\<close>: the versioned
  schemas, the migration from version 1, the strict registry and its lookup, and the default
  files of \<open>src/state/store.js\<close>.
\<close>

section \<open>Versioned schemas\<close>

definition ty :: "string \<Rightarrow> string \<times> js" where "ty t = (''type'', JStr t)"
definition nullable :: "string \<times> js" where "nullable = (''nullable'', JBool True)"
definition kw_int :: "string \<Rightarrow> int \<Rightarrow> string \<times> js" where "kw_int k n = (k, jint n)"
definition one_of :: "js list \<Rightarrow> string \<times> js" where "one_of xs = (''enum'', JArr xs)"
definition kw_strs :: "string \<Rightarrow> string list \<Rightarrow> string \<times> js" where "kw_strs k xs = (k, JArr (map JStr xs))"

definition TASKS_SCHEMA_VERSION :: int where "TASKS_SCHEMA_VERSION = 2"

definition STATUS_NAMES :: "string list" where
  "STATUS_NAMES = [''pending'', ''running'', ''waiting'', ''paused'', ''complete'', ''failed'', ''blocked'', ''cancelled'',
     ''expired'', ''dead-lettered'', ''pr-open'']"

definition WAIT_NAMES :: "string list" where
  "WAIT_NAMES = [''backoff'', ''dependency'', ''approval'', ''budget'', ''quota'', ''pulse-budget'', ''provider'']"

definition PRIORITIES :: "string list" where
  "PRIORITIES = [''low'', ''normal'', ''high'', ''urgent'']"

definition LEVEL_NAMES :: "js list" where
  "LEVEL_NAMES = [JStr ''dry-run'', JStr ''propose'', JStr ''approval'', JStr ''autonomous'']"

definition iso :: js where
  "iso = JObj [ty ''string'', (''format'', JStr ''date-time''), nullable]"

definition date_time :: js where
  "date_time = JObj [ty ''string'', (''format'', JStr ''date-time'')]"

definition plain_ty :: "string \<Rightarrow> js" where "plain_ty t = JObj [ty t]"
definition null_ty :: "string \<Rightarrow> js" where "null_ty t = JObj [ty t, nullable]"

definition TASK_SCHEMA :: js where
  "TASK_SCHEMA = JObj [ty ''object'',
    kw_strs ''required'' [''id'', ''type'', ''title'', ''prompt'', ''status'', ''createdAt''],
    (''properties'', JObj [
      (''id'', JObj [ty ''string'', kw_int ''minLength'' 1, kw_int ''maxLength'' 120]),
      (''type'', JObj [one_of [JStr ''task'', JStr ''self-improve'']]),
      (''issueNumber'', null_ty ''integer''),
      (''issueUrl'', JObj [ty ''string'', nullable, kw_int ''maxLength'' 500]),
      (''author'', JObj [ty ''string'', nullable, kw_int ''maxLength'' 80]),
      (''title'', JObj [ty ''string'', kw_int ''maxLength'' 240]),
      (''prompt'', JObj [ty ''string'', kw_int ''maxLength'' 16000]),
      (''priority'', JObj [one_of (map JStr PRIORITIES @ [JNull]), nullable]),
      (''routingHint'', JObj [one_of [JStr ''fast'', JStr ''cheap'', JStr ''careful'', JStr ''any'', JNull], nullable]),
      (''status'', JObj [one_of (map JStr STATUS_NAMES)]),
      (''waitReason'', JObj [one_of (map JStr WAIT_NAMES @ [JNull]), nullable]),
      (''wakeAt'', iso),
      (''createdAt'', date_time),
      (''claimedAt'', iso),
      (''startedAt'', iso),
      (''completedAt'', iso),
      (''runId'', null_ty ''string''),
      (''prNumber'', null_ty ''integer''),
      (''prUrl'', null_ty ''string''),
      (''error'', JObj [ty ''string'', nullable, kw_int ''maxLength'' 4000]),
      (''attempts'', JObj [ty ''integer'', kw_int ''minimum'' 0]),
      (''maxAttempts'', JObj [ty ''integer'', kw_int ''minimum'' 1]),
      (''lease'', JObj [ty ''object'', nullable, kw_strs ''required'' [''owner'', ''acquiredAt'', ''expiresAt''],
        (''properties'', JObj [(''owner'', plain_ty ''string''), (''acquiredAt'', date_time), (''expiresAt'', date_time)])]),
      (''dependsOn'', JObj [ty ''array'', (''items'', plain_ty ''string''), kw_int ''maxItems'' 32]),
      (''parentId'', null_ty ''string''),
      (''deadline'', iso),
      (''expiresAt'', iso),
      (''idempotencyKey'', JObj [ty ''string'', nullable, kw_int ''maxLength'' 64]),
      (''failure'', JObj [ty ''object'', nullable,
        (''properties'', JObj [(''class'', plain_ty ''string''), (''code'', null_ty ''string''),
          (''message'', JObj [ty ''string'', kw_int ''maxLength'' 2000]), (''at'', plain_ty ''string'')])]),
      (''history'', JObj [ty ''array'', kw_int ''maxItems'' 40, (''items'', JObj [ty ''object'', kw_strs ''required'' [''at'', ''to''],
        (''properties'', JObj [(''at'', plain_ty ''string''), (''from'', null_ty ''string''), (''to'', plain_ty ''string''),
          (''reason'', JObj [ty ''string'', nullable, kw_int ''maxLength'' 300])])])]),
      (''autonomy'', JObj [one_of (LEVEL_NAMES @ [JNull]), nullable]),
      (''parks'', JObj [ty ''integer'', kw_int ''minimum'' 0]),
      (''usage'', JObj [ty ''object'', nullable,
        (''properties'', JObj [(''calls'', plain_ty ''integer''), (''tokens'', plain_ty ''integer''), (''wallMs'', plain_ty ''integer'')])]),
      (''cancelRequested'', plain_ty ''boolean''),
      (''pauseRequested'', plain_ty ''boolean''),
      (''approvals'', null_ty ''object''),
      (''duplicateOf'', null_ty ''string''),
      (''retriedBy'', null_ty ''string''),
      (''issueUpdatedAtSeen'', null_ty ''string'')])]"

definition TASKS_FILE_SCHEMA :: js where
  "TASKS_FILE_SCHEMA = JObj [ty ''object'', kw_strs ''required'' [''version'', ''tasks''],
    (''properties'', JObj [
      (''version'', JObj [ty ''integer'', kw_int ''minimum'' 1, kw_int ''maximum'' TASKS_SCHEMA_VERSION]),
      (''updatedAt'', plain_ty ''string''),
      (''tasks'', JObj [ty ''array'', (''items'', TASK_SCHEMA)])])]"

definition HEARTBEAT_SCHEMA :: js where
  "HEARTBEAT_SCHEMA = JObj [ty ''object'', kw_strs ''required'' [''version'', ''lastPulseAt'', ''lastPulseStatus''],
    (''properties'', JObj [
      (''version'', plain_ty ''integer''),
      (''lastPulseAt'', iso),
      (''lastPulseStatus'', JObj [one_of [JStr ''ok'', JStr ''error'', JNull], nullable]),
      (''lastPulseDurationMs'', null_ty ''number''),
      (''consecutivePulseFailures'', JObj [ty ''integer'', kw_int ''minimum'' 0]),
      (''totalPulses'', JObj [ty ''integer'', kw_int ''minimum'' 0]),
      (''cadenceMinutes'', plain_ty ''number'')])]"

definition CONTROL_SCHEMA :: js where
  "CONTROL_SCHEMA = JObj [ty ''object'', kw_strs ''required'' [''version''],
    (''properties'', JObj [
      (''version'', plain_ty ''integer''),
      (''killSwitch'', plain_ty ''boolean''),
      (''drain'', plain_ty ''boolean''),
      (''safeMode'', plain_ty ''boolean''),
      (''autonomy'', JObj [one_of LEVEL_NAMES]),
      (''updatedAt'', iso),
      (''updatedBy'', null_ty ''string''),
      (''reason'', JObj [ty ''string'', nullable, kw_int ''maxLength'' 300])])]"

definition EVENT_SCHEMA :: js where
  "EVENT_SCHEMA = JObj [ty ''object'', kw_strs ''required'' [''seq'', ''ts'', ''type'', ''pulseId''],
    (''properties'', JObj [
      (''seq'', JObj [ty ''integer'', kw_int ''minimum'' 1]),
      (''ts'', date_time),
      (''type'', JObj [ty ''string'', (''pattern'', JStr (''^[a-z][a-z-]*('' @ [CHR 0x5C] @ ''.[a-z-]+)+$''))]),
      (''pulseId'', plain_ty ''string''),
      (''taskId'', null_ty ''string''),
      (''runId'', null_ty ''string''),
      (''attempt'', null_ty ''integer''),
      (''stepId'', null_ty ''string''),
      (''agent'', null_ty ''string''),
      (''provider'', null_ty ''string''),
      (''toolCallId'', null_ty ''string''),
      (''parentId'', null_ty ''string''),
      (''durationMs'', null_ty ''number''),
      (''outcome'', null_ty ''string''),
      (''failureClass'', null_ty ''string''),
      (''calls'', null_ty ''integer''),
      (''tokens'', null_ty ''integer'')])]"

definition CHECKPOINT_SCHEMA :: js where
  "CHECKPOINT_SCHEMA = JObj [ty ''object'', kw_strs ''required'' [''version'', ''taskId'', ''runId'', ''phase'', ''updatedAt''],
    (''properties'', JObj [
      (''version'', plain_ty ''integer''),
      (''taskId'', plain_ty ''string''),
      (''runId'', plain_ty ''string''),
      (''phase'', JObj [one_of (map JStr [''planned'', ''executing'', ''executed'', ''verifying'', ''verified'', ''delivering'', ''done''])]),
      (''graph'', null_ty ''object''),
      (''subtasks'', plain_ty ''object''),
      (''sideEffects'', plain_ty ''object''),
      (''verification'', null_ty ''object''),
      (''remediations'', JObj [ty ''integer'', kw_int ''minimum'' 0]),
      (''stepUsage'', plain_ty ''object''),
      (''usage'', JObj [ty ''object'', nullable, (''properties'', JObj [
        (''calls'', JObj [ty ''integer'', kw_int ''minimum'' 0]), (''tokens'', JObj [ty ''integer'', kw_int ''minimum'' 0]),
        (''wallMs'', JObj [ty ''integer'', kw_int ''minimum'' 0])])]),
      (''gate'', null_ty ''object''),
      (''tools'', plain_ty ''object''),
      (''updatedAt'', date_time)])]"

definition QUOTA_SCHEMA :: js where
  "QUOTA_SCHEMA = JObj [ty ''object'', kw_strs ''required'' [''version'', ''providers''],
    (''properties'', JObj [
      (''version'', plain_ty ''integer''),
      (''updatedAt'', plain_ty ''string''),
      (''reserveFraction'', JObj [ty ''number'', kw_int ''minimum'' 0, kw_int ''maximum'' 1]),
      (''providers'', plain_ty ''object'')])]"

section \<open>Defaults and migration\<close>

definition taskDefaults :: "js option \<Rightarrow> (string \<times> js) list" where
  "taskDefaults maxAttempts =
    [(''author'', JNull), (''priority'', JStr ''normal''), (''routingHint'', JNull), (''waitReason'', JNull), (''wakeAt'', JNull),
     (''claimedAt'', JNull), (''startedAt'', JNull), (''completedAt'', JNull), (''runId'', JNull), (''prNumber'', JNull),
     (''prUrl'', JNull), (''error'', JNull), (''attempts'', jint 0),
     (''maxAttempts'', orNull (dflt maxAttempts JUndef) (jint 3)), (''lease'', JNull), (''dependsOn'', JArr []),
     (''parentId'', JNull), (''deadline'', JNull), (''expiresAt'', JNull), (''idempotencyKey'', JNull), (''failure'', JNull),
     (''history'', JArr []), (''autonomy'', JNull)]"

definition is_integer :: "js \<Rightarrow> bool" where
  "is_integer v = type_check (JStr ''integer'') v"

definition fix_field :: "string \<Rightarrow> (js \<Rightarrow> bool) \<Rightarrow> js \<Rightarrow> js \<Rightarrow> js" where
  "fix_field k ok d t = (if ok (jget t k) then t else set_prop k d t)"

definition is_priority :: "js \<Rightarrow> bool" where
  "is_priority v = (case v of JStr p \<Rightarrow> p \<in> set PRIORITIES | _ \<Rightarrow> False)"

definition migrate_task :: "js option \<Rightarrow> js \<Rightarrow> js" where
  "migrate_task maxAttempts t =
    (let defaults = taskDefaults maxAttempts;
         t0 = JObj (spread defaults (entries t));
         t1 = fix_field ''priority'' is_priority (JStr ''normal'') t0;
         t2 = fix_field ''dependsOn'' is_arr (JArr []) t1;
         t3 = fix_field ''history'' is_arr (JArr []) t2;
         t4 = fix_field ''attempts'' is_integer (jint 0) t3
     in fix_field ''maxAttempts'' is_integer (jget (JObj defaults) ''maxAttempts'') t4)"

definition migrateTasks :: "js option \<Rightarrow> js \<Rightarrow> js \<times> bool \<times> rat" where
  "migrateTasks maxAttempts file =
    (let from_ver = (if is_integer (jget file ''version'') then dflt (num_of (jget file ''version'')) 1 else 1) in
     if of_int TASKS_SCHEMA_VERSION \<le> from_ver then (file, False, from_ver)
     else (let tasks = map (migrate_task maxAttempts) (arr_of (jget file ''tasks'')) in
       (JObj (assoc_put ''tasks'' (JArr tasks) (assoc_put ''version'' (jint TASKS_SCHEMA_VERSION) (entries file))),
        True, from_ver)))"

definition defaultTasksFile :: "string \<Rightarrow> js" where
  "defaultTasksFile now = JObj [(''version'', jint TASKS_SCHEMA_VERSION), (''updatedAt'', JStr now), (''tasks'', JArr [])]"

definition CONTROL_VERSION :: int where "CONTROL_VERSION = 1"

definition defaultControl :: "string \<Rightarrow> js" where
  "defaultControl now = JObj [(''version'', jint CONTROL_VERSION), (''killSwitch'', JBool False), (''drain'', JBool False),
     (''safeMode'', JBool False), (''autonomy'', JStr ''autonomous''), (''updatedAt'', JStr now), (''updatedBy'', JNull),
     (''reason'', JNull)]"

definition defaultHeartbeat :: js where
  "defaultHeartbeat = JObj [(''version'', jint 1), (''lastPulseAt'', JNull), (''lastPulseStatus'', JNull),
     (''lastPulseDurationMs'', JNull), (''lastPulseTasksClaimed'', jint 0), (''lastPulseTasksCompleted'', jint 0),
     (''lastPulseTasksFailed'', jint 0), (''lastPulseError'', JNull), (''consecutivePulseFailures'', jint 0),
     (''totalPulses'', jint 0), (''cadenceMinutes'', jint 15)]"

section \<open>The strict registry\<close>

definition TEXT :: "int \<Rightarrow> js" where "TEXT n = JObj [ty ''string'', kw_int ''maxLength'' n]"
definition NSTR :: "int \<Rightarrow> js" where "NSTR n = JObj [ty ''string'', kw_int ''maxLength'' n, nullable]"
definition NUM :: js where "NUM = plain_ty ''number''"
definition NNUM :: js where "NNUM = null_ty ''number''"
definition INTEGER :: js where "INTEGER = plain_ty ''integer''"
definition NINT :: js where "NINT = null_ty ''integer''"
definition BOOL :: js where "BOOL = plain_ty ''boolean''"
definition TS :: js where "TS = date_time"

definition ANYSTR :: "int \<Rightarrow> js" where
  "ANYSTR n = JObj [ty ''array'', kw_int ''maxItems'' 500, (''items'', JObj [ty ''string'', kw_int ''maxLength'' n])]"

definition SCALAR :: js where
  "SCALAR = JObj [(''anyOf'', JArr [JObj [ty ''string'', kw_int ''maxLength'' 4000], plain_ty ''number'', plain_ty ''boolean'', plain_ty ''null''])]"

definition any_schema :: "js list \<Rightarrow> js" where "any_schema xs = JObj [(''anyOf'', JArr xs)]"

definition map_schema :: "js \<Rightarrow> js" where "map_schema v = JObj [ty ''object'', (''additionalProperties'', v)]"

definition SMALL_OBJECT :: js where "SMALL_OBJECT = map_schema SCALAR"

definition arr_schema :: "js \<Rightarrow> int \<Rightarrow> js" where
  "arr_schema items n = JObj [ty ''array'', kw_int ''maxItems'' n, (''items'', items)]"

definition SMALL_ARRAY :: js where "SMALL_ARRAY = arr_schema (any_schema [SCALAR, SMALL_OBJECT]) 500"

definition SMALL :: js where
  "SMALL = any_schema [SCALAR, SMALL_ARRAY,
     map_schema (any_schema [SCALAR, SMALL_ARRAY, map_schema (any_schema [SCALAR, SMALL_ARRAY])])]"

definition obj_schema :: "(string \<times> js) list \<Rightarrow> string list \<Rightarrow> js" where
  "obj_schema properties optional = JObj [ty ''object'', (''additionalProperties'', JBool False), (''properties'', JObj properties),
     kw_strs ''required'' (filter (\<lambda>k. k \<notin> set optional) (map fst properties))]"

fun set_at :: "string list \<Rightarrow> js \<Rightarrow> js \<Rightarrow> js" where
  "set_at [] x v = x"
| "set_at (k # ks) x v = set_prop k (set_at ks x (jget v k)) v"

definition TASKS :: js where
  "TASKS = set_at [''properties'', ''tasks'', ''items'', ''properties'', ''approvals'']
     (JObj [ty ''object'', nullable, (''additionalProperties'', SMALL)]) (strictify TASKS_FILE_SCHEMA)"

definition HEARTBEAT :: js where
  "HEARTBEAT = obj_schema
    [(''version'', INTEGER), (''lastPulseAt'', TS), (''lastPulseStatus'', TEXT 40), (''lastPulseDurationMs'', NUM),
     (''lastPulseTasksClaimed'', INTEGER), (''lastPulseTasksCompleted'', INTEGER), (''lastPulseTasksFailed'', INTEGER),
     (''lastPulseError'', NSTR 2000), (''consecutivePulseFailures'', INTEGER), (''totalPulses'', INTEGER), (''cadenceMinutes'', NUM),
     (''pulseId'', TEXT 120), (''modelCalls'', INTEGER),
     (''budget'', obj_schema [(''budgetMs'', NUM), (''elapsedMs'', NUM), (''remainingMs'', NUM), (''draining'', BOOL)] [])]
    [''pulseId'', ''modelCalls'', ''budget'']"

definition CONTROL :: js where "CONTROL = strictify CONTROL_SCHEMA"

definition QUOTA_WINDOW :: js where "QUOTA_WINDOW = obj_schema [(''start'', TEXT 40), (''count'', INTEGER)] []"

definition QUOTA :: js where
  "QUOTA = set_at [''properties'', ''providers'']
    (map_schema (obj_schema [(''minute'', QUOTA_WINDOW), (''day'', QUOTA_WINDOW), (''tokens'', NUM), (''last429At'', NSTR 40)]
       [''tokens'', ''last429At'']))
    (strictify QUOTA_SCHEMA)"

definition PROVIDER_RECORD :: js where
  "PROVIDER_RECORD = obj_schema
    [(''id'', TEXT 60), (''configured'', BOOL), (''status'', TEXT 40), (''lastCheckedAt'', NSTR 40), (''lastSuccessAt'', NSTR 40),
     (''latencyMs'', NNUM), (''p50LatencyMs'', NNUM), (''samples'', INTEGER), (''errorRate'', NUM), (''consecutiveFailures'', INTEGER),
     (''cooldownUntil'', NSTR 40), (''lastError'', NSTR 2000), (''model'', NSTR 200), (''discoveredModels'', ANYSTR 200),
     (''modelsDiscoveredAt'', NSTR 40), (''note'', NSTR 2000), (''lastFailureClass'', NSTR 80)]
    [''lastFailureClass'', ''note'']"

definition PROVIDERS :: js where
  "PROVIDERS = obj_schema [(''version'', INTEGER), (''updatedAt'', TEXT 40), (''providers'', map_schema PROVIDER_RECORD)] []"

definition AGENT_RECORD :: js where
  "AGENT_RECORD = obj_schema
    [(''modelId'', TEXT 200), (''pool'', TEXT 80), (''strengths'', ANYSTR 80), (''weaknesses'', ANYSTR 80), (''latencyClass'', TEXT 40),
     (''contextWindow'', NUM), (''source'', TEXT 200), (''probedAt'', NSTR 40),
     (''observed'', map_schema (obj_schema [(''runs'', INTEGER), (''successRate'', NUM), (''avgMs'', NUM)] [])),
     (''measured'', map_schema (obj_schema [(''score'', NUM), (''tasksRun'', INTEGER), (''runAt'', TEXT 40), (''evalVersion'', TEXT 40)] []))]
    [''measured'']"

definition AGENTS :: js where "AGENTS = map_schema AGENT_RECORD"

definition RESEARCH :: js where
  "RESEARCH = obj_schema
    [(''version'', INTEGER), (''lastAttemptAt'', NSTR 40), (''lastStatus'', TEXT 60), (''lastReason'', NSTR 500), (''lastDigestDate'', NSTR 20),
     (''lastDigestFile'', NSTR 200), (''provider'', NSTR 80), (''model'', NSTR 200), (''topicIds'', ANYSTR 80), (''preview'', NSTR 2000),
     (''lastDetail'', NSTR 2000)]
    [''lastDigestDate'', ''lastDigestFile'', ''provider'', ''model'', ''topicIds'', ''preview'', ''lastDetail'']"

definition PULSE_HISTORY :: js where
  "PULSE_HISTORY = obj_schema [(''version'', INTEGER), (''pulses'', arr_schema (obj_schema
     [(''at'', TEXT 40), (''durationMs'', NUM), (''status'', TEXT 40), (''tasksClaimed'', INTEGER), (''tasksCompleted'', INTEGER),
      (''tasksFailed'', INTEGER), (''modelCalls'', INTEGER)] [''modelCalls'']) 500)] []"

definition VIEW_HEAD :: "(string \<times> js) list" where "VIEW_HEAD = [(''version'', INTEGER), (''updatedAt'', TEXT 40)]"

definition VIEWS :: "(string \<times> js) list" where
  "VIEWS =
    [(''analytics'', obj_schema (VIEW_HEAD @
       [(''window'', obj_schema [(''events'', INTEGER), (''from'', NSTR 40), (''to'', NSTR 40),
          (''archived'', obj_schema [(''days'', INTEGER), (''events'', INTEGER), (''calls'', INTEGER)] [])] []),
        (''tasks'', obj_schema [(''finished'', INTEGER), (''succeeded'', INTEGER), (''successRate'', NNUM), (''byOutcome'', map_schema INTEGER),
          (''deadLetteredByClass'', map_schema INTEGER)] []),
        (''reliability'', obj_schema [(''retriesByClass'', map_schema INTEGER), (''parks'', INTEGER), (''loops'', INTEGER), (''remediations'', INTEGER)] []),
        (''verification'', obj_schema [(''runs'', INTEGER), (''passRate'', NNUM), (''unjudged'', INTEGER)] []),
        (''tools'', obj_schema [(''calls'', INTEGER), (''denied'', INTEGER)] []),
        (''policy'', obj_schema [(''approvalsRequested'', INTEGER), (''denials'', INTEGER)] []),
        (''cost'', obj_schema [(''modelCalls'', INTEGER), (''upstreamCalls'', INTEGER), (''tokens'', INTEGER), (''callsPerCompletedTask'', NNUM),
          (''callsPerPulse'', NNUM)] []),
        (''pulses'', obj_schema [(''count'', INTEGER), (''p50Ms'', NNUM), (''p95Ms'', NNUM), (''maxMs'', NNUM)] [])]) []),
     (''providers'', obj_schema (VIEW_HEAD @ [(''providers'', map_schema (obj_schema
       [(''breaker'', TEXT 40), (''until'', NSTR 40), (''reason'', NSTR 500), (''explain'', NSTR 1000), (''status'', TEXT 40),
        (''consecutiveFailures'', INTEGER), (''lastFailureClass'', NSTR 80),
        (''quota'', set_prop ''nullable'' (JBool True)
          (obj_schema [(''usedMinute'', NUM), (''usedDay'', NUM), (''dayLeft'', NNUM), (''perDay'', NNUM)] []))] []))]) []),
     (''queue'', obj_schema (VIEW_HEAD @
       [(''total'', INTEGER), (''byStatus'', map_schema INTEGER), (''byWaitReason'', map_schema INTEGER), (''active'', INTEGER),
        (''running'', arr_schema SMALL 200), (''nextWake'', SMALL), (''oldestPending'', SMALL),
        (''approvalsPending'', arr_schema SMALL 200), (''deadLettered'', arr_schema SMALL 200)]) []),
     (''research'', obj_schema (VIEW_HEAD @
       [(''lastAttemptAt'', NSTR 40), (''lastStatus'', TEXT 60), (''lastReason'', NSTR 500),
        (''digest'', obj_schema [(''date'', TEXT 20), (''file'', TEXT 200), (''provider'', TEXT 80), (''model'', TEXT 200),
          (''topics'', ANYSTR 80), (''preview'', TEXT 2000)] [])]) [''digest'']),
     (''safety'', obj_schema (VIEW_HEAD @
       [(''rules'', obj_schema [(''source'', TEXT 200), (''default'', TEXT 60), (''autoApprove'', ANYSTR 80), (''alwaysAsk'', ANYSTR 80),
          (''hardFloor'', ANYSTR 80), (''warnings'', ANYSTR 500)] []),
        (''approvals'', obj_schema [(''total'', INTEGER), (''approved'', INTEGER), (''denied'', INTEGER), (''byCategory'', map_schema SMALL),
          (''recent'', arr_schema SMALL 200)] [])]) [])]"

definition RUN_TASK :: js where
  "RUN_TASK = obj_schema
    [(''id'', TEXT 120), (''title'', TEXT 500), (''aspect'', TEXT 80), (''state'', TEXT 40), (''assignment'', SMALL),
     (''attempts'', arr_schema (map_schema SMALL) 100), (''outputPreview'', NSTR 4000), (''error'', SMALL), (''dependsOn'', ANYSTR 80),
     (''prompt'', TEXT 20000), (''role'', TEXT 80), (''files'', arr_schema SMALL 200)]
    [''error'', ''dependsOn'', ''prompt'', ''role'', ''files'', ''outputPreview'']"

definition RUN :: js where
  "RUN = obj_schema
    [(''runId'', TEXT 120), (''taskId'', TEXT 120), (''taskTitle'', TEXT 500), (''issueUrl'', NSTR 500), (''createdAt'', TS),
     (''durationMs'', NUM), (''state'', TEXT 40), (''actionsRunUrl'', NSTR 500), (''sharedContext'', TEXT 20000),
     (''tasks'', arr_schema RUN_TASK 100), (''files'', arr_schema SMALL 500), (''markdownSummary'', TEXT 60000)]
    [''issueUrl'', ''actionsRunUrl'']"

definition EVENT :: js where
  "EVENT = JObj [ty ''object'', kw_strs ''required'' [''seq'', ''ts'', ''type'', ''pulseId''], (''additionalProperties'', SMALL),
    (''properties'', JObj
     [(''seq'', INTEGER), (''ts'', TS), (''type'', TEXT 80), (''pulseId'', TEXT 120), (''taskId'', NSTR 120), (''runId'', NSTR 120),
      (''attempt'', NINT), (''stepId'', NSTR 120), (''agent'', NSTR 120), (''provider'', NSTR 80), (''toolCallId'', NSTR 200),
      (''parentId'', NSTR 120), (''durationMs'', NNUM), (''outcome'', NSTR 120), (''failureClass'', NSTR 80), (''calls'', NINT),
      (''tokens'', NINT), (''audit'', BOOL)])]"

definition EVENT_ARCHIVE :: js where
  "EVENT_ARCHIVE = obj_schema
    [(''date'', TEXT 20), (''events'', INTEGER), (''byType'', map_schema INTEGER), (''byOutcome'', map_schema INTEGER),
     (''byFailureClass'', map_schema INTEGER), (''calls'', INTEGER), (''tokens'', INTEGER)]
    [''calls'', ''tokens'', ''byFailureClass'', ''byOutcome'']"

definition REVIEW :: js where
  "REVIEW = obj_schema
    [(''ts'', TS), (''toolId'', TEXT 120), (''classification'', TEXT 40), (''verdict'', TEXT 40), (''layer'', INTEGER),
     (''matchedRules'', ANYSTR 80), (''failMode'', NSTR 40), (''reason'', NSTR 2000), (''suggestion'', NSTR 2000)] []"

definition APPROVAL_LOG :: js where
  "APPROVAL_LOG = obj_schema
    [(''v'', INTEGER), (''at'', TEXT 40), (''taskId'', TEXT 120), (''issueNumber'', NINT), (''key'', TEXT 200), (''category'', TEXT 80),
     (''decision'', TEXT 40), (''by'', TEXT 120), (''via'', TEXT 40)] []"

definition LEASE :: js where
  "LEASE = obj_schema [(''owner'', TEXT 200), (''acquiredAt'', TS), (''expiresAt'', TS)] []"

definition ARCHIVED_TASK :: js where
  "ARCHIVED_TASK = jget (jget (jget TASKS ''properties'') ''tasks'') ''items''"

definition OPS_META :: "(string \<times> js) list" where
  "OPS_META = [(''contract'', TEXT 10), (''generated_at'', TEXT 40)]"

definition OPS_health :: js where
  "OPS_health = obj_schema (OPS_META @ [(''providers'', map_schema (map_schema (obj_schema
     [(''status'', TEXT 30), (''latency_ms'', NNUM), (''checked_at'', TEXT 40), (''error_class'', NSTR 80)] [])))]) []"

definition OPS_quota :: js where
  "OPS_quota = obj_schema (OPS_META @ [(''providers'', map_schema (map_schema (obj_schema
     [(''limit_day'', NNUM), (''used_day'', NUM), (''limit_month'', NNUM), (''used_month'', NUM), (''remaining_pct'', NNUM),
      (''resets_at'', NSTR 40), (''exhausted'', BOOL), (''limit_source'', NSTR 500), (''limit_confidence'', TEXT 20)] [])))]) []"

definition OPS_eval :: js where
  "OPS_eval = obj_schema (OPS_META @ [(''eval_version'', TEXT 40), (''models'', map_schema (map_schema (obj_schema
     [(''score'', NUM), (''tasks_run'', INTEGER), (''run_at'', TEXT 40), (''eval_version'', TEXT 40)] [])))]) [''eval_version'']"

definition OPS_hosts :: js where
  "OPS_hosts = obj_schema (OPS_META @ [(''hosts'', map_schema (obj_schema
     [(''status'', TEXT 20), (''last_check'', NSTR 40), (''uptime_24h'', NNUM), (''uptime_7d'', NNUM), (''uptime_30d'', NNUM),
      (''last_pulse_at'', NSTR 40)] [''last_pulse_at'']))]) []"

definition HOSTS_HISTORY :: js where
  "HOSTS_HISTORY = obj_schema [(''version'', INTEGER), (''hosts'', map_schema (arr_schema
     (JObj [ty ''array'', kw_int ''minItems'' 2, kw_int ''maxItems'' 2, (''items'', JObj [ty ''string'', kw_int ''maxLength'' 40])]) 3000))] []"

definition LESSON :: js where
  "LESSON = obj_schema
    [(''id'', TEXT 80), (''signature'', TEXT 200), (''first_seen'', TEXT 40), (''last_seen'', TEXT 40), (''count'', INTEGER),
     (''task_type'', NSTR 80), (''what_failed'', TEXT 2000), (''likely_cause'', TEXT 2000), (''suggested_fix'', TEXT 2000),
     (''source'', TEXT 20), (''run_ids'', ANYSTR 100)] [''task_type'', ''run_ids'']"

definition MAINTENANCE :: js where
  "MAINTENANCE = obj_schema
    [(''version'', INTEGER), (''lastRunAt'', TEXT 40), (''archived'', map_schema INTEGER), (''stateFiles'', INTEGER), (''stateBytes'', INTEGER),
     (''validated'', BOOL), (''note'', NSTR 500)] [''note'']"

datatype file_kind = FJson | FJsonl | FGzJsonl | FText

record state_file =
  sf_id :: string
  sf_kind :: file_kind
  sf_match :: rx
  sf_schema :: "js option"

definition whole :: "rx list \<Rightarrow> rx" where "whole rs = seqs ([Bol] @ rs @ [Eol])"

definition boring :: rx where
  "boring = plus (Cls (\<lambda>c. is_lower c \<or> is_upper c \<or> is_digit c \<or> c = CHR ''.'' \<or> c = CHR ''_'' \<or> c = CHR ''-''))"

definition year_month :: rx where "year_month = seqs [rep 4 digit, lit ''-'', rep 2 digit]"
definition full_date :: rx where "full_date = seqs [year_month, lit ''-'', rep 2 digit]"

definition sfile :: "string \<Rightarrow> file_kind \<Rightarrow> rx \<Rightarrow> js \<Rightarrow> state_file" where
  "sfile i k r s = \<lparr>sf_id = i, sf_kind = k, sf_match = r, sf_schema = Some s\<rparr>"

definition STATE_FILES :: "state_file list" where
  "STATE_FILES =
    [sfile ''tasks'' FJson (whole [opt (lit ''backup/''), lit ''tasks.json'']) TASKS,
     sfile ''control'' FJson (whole [opt (lit ''backup/''), lit ''control.json'']) CONTROL,
     sfile ''heartbeat'' FJson (whole [lit ''heartbeat.json'']) HEARTBEAT,
     sfile ''quota'' FJson (whole [lit ''quota.json'']) QUOTA,
     sfile ''providers'' FJson (whole [lit ''providers.json'']) PROVIDERS,
     sfile ''agents'' FJson (whole [lit ''agents.json'']) AGENTS,
     sfile ''research'' FJson (whole [lit ''research.json'']) RESEARCH,
     sfile ''pulse-history'' FJson (whole [lit ''pulse-history.json'']) PULSE_HISTORY,
     sfile ''maintenance'' FJson (whole [lit ''maintenance.json'']) MAINTENANCE] @
    map (\<lambda>(name, schema). sfile (''view-'' @ name) FJson (whole [lit ''views/'', lit name, lit ''.json'']) schema) VIEWS @
    [sfile ''run'' FJson (whole [lit ''runs/'', boring, lit ''.json'']) RUN,
     sfile ''checkpoint'' FJson (whole [lit ''checkpoints/'', boring, lit ''.json'']) (strictify CHECKPOINT_SCHEMA),
     sfile ''lease'' FJson (whole [lit ''leases/'', boring, lit ''.json'']) LEASE,
     sfile ''event'' FJsonl (whole [lit ''events/'', full_date, lit ''.jsonl'']) EVENT,
     sfile ''event-archive'' FJson (whole [lit ''events/archive/'', full_date, lit ''.json'']) EVENT_ARCHIVE,
     sfile ''review'' FJsonl (whole [lit ''reviews/'', boring, lit ''.jsonl'']) REVIEW,
     sfile ''approval-log'' FJsonl (whole [lit ''approval-log.jsonl'']) APPROVAL_LOG,
     sfile ''archived-task'' FJsonl (whole [lit ''archive/tasks-'', year_month, lit ''.jsonl'']) ARCHIVED_TASK,
     sfile ''archive-tasks'' FGzJsonl (whole [lit ''archive/tasks-'', year_month, lit ''.jsonl.gz'']) ARCHIVED_TASK,
     sfile ''archive-runs'' FGzJsonl (whole [lit ''archive/runs-'', year_month, lit ''.jsonl.gz'']) RUN,
     sfile ''archive-events'' FGzJsonl (whole [lit ''archive/events-summary-'', year_month, lit ''.jsonl.gz'']) EVENT_ARCHIVE,
     sfile ''archive-reviews'' FGzJsonl (whole [lit ''archive/reviews-'', year_month, lit ''.jsonl.gz'']) REVIEW,
     sfile ''archive-digests'' FGzJsonl (whole [lit ''archive/digests-'', year_month, lit ''.jsonl.gz''])
       (obj_schema [(''name'', TEXT 200), (''text'', TEXT 60000)] []),
     sfile ''ops-health'' FJson (whole [lit ''ops/health.json'']) OPS_health,
     sfile ''ops-quota'' FJson (whole [lit ''ops/quota.json'']) OPS_quota,
     sfile ''ops-eval'' FJson (whole [lit ''ops/eval.json'']) OPS_eval,
     sfile ''ops-hosts'' FJson (whole [lit ''ops/hosts.json'']) OPS_hosts,
     sfile ''ops-hosts-history'' FJson (whole [lit ''ops/hosts-history.json'']) HOSTS_HISTORY,
     sfile ''lessons'' FJsonl (whole [lit ''lessons.jsonl'']) LESSON,
     \<lparr>sf_id = ''digest'', sf_kind = FText, sf_match = whole [lit ''digests/'', boring, lit ''.md''], sf_schema = None\<rparr>,
     \<lparr>sf_id = ''keep'', sf_kind = FText, sf_match = seqs [alts [Bol, lit ''/''], lit ''.gitkeep'', Eol], sf_schema = None\<rparr>]"

definition schemaFor :: "string \<Rightarrow> state_file option" where
  "schemaFor relPath =
    (let q = map (\<lambda>c. if c = CHR 0x5C then CHR ''/'' else c) relPath;
         p = (if startsWith q ''./'' then drop 2 q else q)
     in List.find (\<lambda>f. rx_test (sf_match f) p) STATE_FILES)"

section \<open>The registry is closed\<close>

definition tight :: "js \<Rightarrow> bool" where
  "tight s = (\<forall>path. findLooseObjects s path = [])"

lemma loose_path_free: "findLooseObjects s p = [] \<Longrightarrow> findLooseObjects s q = []"
proof (induction s p arbitrary: q rule: findLooseObjects.induct)
  case (1 s path)
  show ?case
  proof (cases "is_object_like s")
    case True
    have here: "\<not> (truthy (jget s ''properties'') \<and> jget s ''additionalProperties'' \<noteq> JBool False \<and>
        \<not> is_object_like (jget s ''additionalProperties''))"
      and ps: "\<And>k v. (k, v) \<in> set (entries (jget s ''properties'')) \<Longrightarrow> findLooseObjects v (dot_path path k) = []"
      and it: "truthy (jget s ''items'') \<Longrightarrow> findLooseObjects (jget s ''items'') (path @ ''[]'') = []"
      and ad: "is_object_like (jget s ''additionalProperties'') \<Longrightarrow>
        findLooseObjects (jget s ''additionalProperties'') (path @ ''.*'') = []"
      and an: "\<And>x. x \<in> set (arr_of (jget s ''anyOf'')) \<Longrightarrow> findLooseObjects x path = []"
      using "1.prems" True by (auto simp: findLooseObjects.simps [of s path] split: if_splits)
    have l: "\<not> \<not> is_object_like s" using True by simp
    show ?thesis
      using here "1.IH"(1) [OF l _ refl ps] "1.IH"(2) [OF l _ it] "1.IH"(3) [OF l _ ad] "1.IH"(4) [OF l _ an]
      by (subst findLooseObjects.simps) auto
  qed (subst findLooseObjects.simps, simp)
qed

lemma tight_iff: "tight s \<longleftrightarrow> findLooseObjects s path = []"
  unfolding tight_def using loose_path_free by blast

lemma tight_parts:
  "tight s \<longleftrightarrow>
    \<not> is_object_like s \<or>
      (truthy (jget s ''properties'') \<longrightarrow> jget s ''additionalProperties'' = JBool False \<or> is_object_like (jget s ''additionalProperties'')) \<and>
      (\<forall>(k, v)\<in>set (entries (jget s ''properties'')). tight v) \<and>
      (truthy (jget s ''items'') \<longrightarrow> tight (jget s ''items'')) \<and>
      (is_object_like (jget s ''additionalProperties'') \<longrightarrow> tight (jget s ''additionalProperties'')) \<and>
      (\<forall>x\<in>set (arr_of (jget s ''anyOf'')). tight x)"
proof -
  have d: "findLooseObjects v p = [] \<longleftrightarrow> tight v" for v p using tight_iff by blast
  show ?thesis
    unfolding tight_iff [of s "[]"] findLooseObjects.simps [of s "[]"]
    by (auto simp: d split: if_splits)
qed

lemma not_object_tight [simp]: "\<not> is_object_like s \<Longrightarrow> tight s"
  by (subst tight_parts) (rule disjI1)

lemma tight_open: "tight s \<Longrightarrow> is_object_like s \<Longrightarrow>
   truthy (jget s ''properties'') \<Longrightarrow> jget s ''additionalProperties'' = JBool False \<or> is_object_like (jget s ''additionalProperties'')"
  by (subst (asm) tight_parts) blast

lemma jget_atom: "\<not> is_object_like s \<Longrightarrow> jget s k = JUndef"
  by (cases s) simp_all

lemma tight_entry: "tight s \<Longrightarrow> (k, v) \<in> set (entries (jget s ''properties'')) \<Longrightarrow> tight v"
proof (cases "is_object_like s")
  case True
  assume "tight s" and "(k, v) \<in> set (entries (jget s ''properties''))"
  with True show ?thesis by (subst (asm) tight_parts) blast
qed (simp add: jget_atom)

lemma tight_any_entry: "tight s \<Longrightarrow> v \<in> set (arr_of (jget s ''anyOf'')) \<Longrightarrow> tight v"
proof (cases "is_object_like s")
  case True
  assume "tight s" and "v \<in> set (arr_of (jget s ''anyOf''))"
  with True show ?thesis by (subst (asm) tight_parts) blast
qed (simp add: jget_atom)

lemma tight_prop: "tight s \<Longrightarrow> tight (jget (jget s ''properties'') k)"
  using jget_cases [of "jget s ''properties''" k] tight_entry [of s] by (auto simp del: jget.simps)

lemma tight_items: "tight s \<Longrightarrow> tight (jget s ''items'')"
proof (cases "is_object_like (jget s ''items'')")
  case True
  assume "tight s"
  moreover have "is_object_like s" using True by (cases s) auto
  moreover have "truthy (jget s ''items'')" using True by (cases "jget s ''items''") auto
  ultimately show ?thesis by (subst (asm) tight_parts) blast
qed simp

lemma tight_addl: "tight s \<Longrightarrow> tight (jget s ''additionalProperties'')"
proof (cases "is_object_like (jget s ''additionalProperties'')")
  case True
  assume "tight s"
  moreover have "is_object_like s" using True by (cases s) auto
  ultimately show ?thesis using True by (subst (asm) tight_parts) blast
qed simp

lemma tight_obj [simp]: "list_all (\<lambda>kv. tight (snd kv)) ps \<Longrightarrow> tight (obj_schema ps opts)"
  by (subst tight_parts) (auto simp: obj_schema_def ty_def kw_strs_def list_all_iff)

lemma tight_map [simp]: "tight v \<Longrightarrow> tight (map_schema v)"
  by (subst tight_parts) (auto simp: map_schema_def ty_def)

lemma tight_arr [simp]: "tight v \<Longrightarrow> tight (arr_schema v n)"
  by (subst tight_parts) (auto simp: arr_schema_def ty_def kw_int_def)

lemma tight_any [simp]: "list_all tight xs \<Longrightarrow> tight (any_schema xs)"
  by (subst tight_parts) (auto simp: any_schema_def list_all_iff)

lemma tight_leaf:
  assumes "list_all (\<lambda>kv. fst kv \<notin> {''properties'', ''items'', ''additionalProperties'', ''anyOf''}) kvs"
  shows "tight (JObj kvs)"
proof -
  have "jget (JObj kvs) k = JUndef" if "k \<in> {''properties'', ''items'', ''additionalProperties'', ''anyOf''}" for k
    using assms that jget_cases [of "JObj kvs" k] by (force simp: list_all_iff)
  then show ?thesis by (subst tight_parts) (simp del: jget.simps)
qed

lemma tight_set_items:
  assumes "tight v" and "tight x"
  shows "tight (set_prop ''items'' x v)"
proof (cases "is_obj v")
  case True
  have l: "is_object_like v" using True by (cases v) auto
  show ?thesis
    using tight_open [OF assms(1) l] tight_entry [OF assms(1)] tight_addl [OF assms(1)] tight_any_entry [OF assms(1)] assms(2) True
    by (subst tight_parts) (auto simp del: jget.simps)
next
  case False
  then show ?thesis using assms(1) by (cases v) (simp_all add: set_prop_def)
qed

lemma entries_set_prop: "(n, w) \<in> set (entries (set_prop k x v)) \<Longrightarrow> w = x \<or> (n, w) \<in> set (entries v)"
proof (cases v)
  case (JObj kvs)
  have "(n, w) \<in> set (assoc_put k x kvs) \<Longrightarrow> w = x \<or> (n, w) \<in> set kvs"
    by (induction k x kvs rule: assoc_put.induct) (auto split: if_splits)
  then show "(n, w) \<in> set (entries (set_prop k x v)) \<Longrightarrow> w = x \<or> (n, w) \<in> set (entries v)"
    using JObj by (simp add: set_prop_def)
qed (simp_all add: set_prop_def)

lemma truthy_set_prop: "truthy (set_prop k x v) = truthy v"
  by (cases v) (simp_all add: set_prop_def)

lemma tight_set_prop:
  assumes "tight v" and "tight x"
  shows "tight (set_prop ''properties'' (set_prop k x (jget v ''properties'')) v)"
proof (cases "is_obj v")
  case True
  have l: "is_object_like v" using True by (cases v) auto
  have e: "tight w" if "(n, w) \<in> set (entries (set_prop k x (jget v ''properties'')))" for n w
    using entries_set_prop [OF that] assms(2) tight_entry [OF assms(1)] by blast
  show ?thesis
    using tight_open [OF assms(1) l] e tight_addl [OF assms(1)] tight_items [OF assms(1)] tight_any_entry [OF assms(1)] True
    by (subst tight_parts) (auto simp: truthy_set_prop simp del: jget.simps)
next
  case False
  then show ?thesis using assms(1) by (cases v) (simp_all add: set_prop_def)
qed

lemma tight_strictify: "says_nothing_open s \<Longrightarrow> tight (strictify s)"
  by (simp add: tight_def strictify_closes)

lemma tight_nullable: "tight v \<Longrightarrow> tight (set_prop ''nullable'' b v)"
proof (cases "is_obj v")
  case True
  assume v: "tight v"
  have l: "is_object_like v" using True by (cases v) auto
  show ?thesis
    using tight_open [OF v l] tight_entry [OF v] tight_addl [OF v] tight_items [OF v] tight_any_entry [OF v] True
    by (subst tight_parts) (auto simp del: jget.simps)
next
  case False
  assume "tight v"
  then show ?thesis using False by (cases v) (simp_all add: set_prop_def)
qed

lemmas leaf_defs = NUM_def NNUM_def INTEGER_def NINT_def BOOL_def TS_def plain_ty_def null_ty_def date_time_def
  ty_def nullable_def kw_int_def

lemma tight_leaves [simp]:
  "tight (TEXT n)" "tight (NSTR n)" "tight NUM" "tight NNUM" "tight INTEGER" "tight NINT" "tight BOOL" "tight TS" "tight (plain_ty t)"
  "tight (null_ty t)" "tight (JObj [ty t, kw_int ''maxLength'' n])"
  unfolding TEXT_def NSTR_def leaf_defs by (rule tight_leaf, simp)+

lemma tight_ANYSTR [simp]: "tight (ANYSTR n)"
  unfolding ANYSTR_def arr_schema_def [symmetric] by simp

lemma tight_SCALAR [simp]: "tight SCALAR"
  unfolding SCALAR_def any_schema_def [symmetric] by simp

lemma tight_small [simp]: "tight SMALL" "tight SMALL_ARRAY" "tight SMALL_OBJECT"
  by (simp_all add: SMALL_def SMALL_ARRAY_def SMALL_OBJECT_def)

lemma tasks_say_nothing_open: "says_nothing_open TASKS_FILE_SCHEMA"
  by code_simp

lemma others_say_nothing_open:
  "says_nothing_open CONTROL_SCHEMA" "says_nothing_open QUOTA_SCHEMA" "says_nothing_open CHECKPOINT_SCHEMA"
  by code_simp+

lemma tight_TASKS [simp]: "tight TASKS"
proof -
  let ?a = "JObj [ty ''object'', nullable, (''additionalProperties'', SMALL)]"
  have a: "tight ?a" by (subst tight_parts) (simp add: ty_def nullable_def)
  have t: "tight (strictify TASKS_FILE_SCHEMA)" by (rule tight_strictify [OF tasks_say_nothing_open])
  show ?thesis
    unfolding TASKS_def set_at.simps
    by (intro tight_set_prop tight_set_items tight_prop tight_items t a)
qed

lemma tight_ARCHIVED_TASK [simp]: "tight ARCHIVED_TASK"
  unfolding ARCHIVED_TASK_def by (intro tight_prop tight_items tight_TASKS)

lemma tight_views: "list_all (\<lambda>(name, s). tight s) VIEWS"
  by (simp add: VIEWS_def VIEW_HEAD_def tight_nullable)

lemma like_SMALL [simp]: "is_object_like SMALL"
  by (simp add: SMALL_def any_schema_def)

lemma tight_EVENT [simp]: "tight EVENT"
  by (subst tight_parts) (simp add: EVENT_def ty_def kw_strs_def)

lemma tight_HOSTS_HISTORY [simp]: "tight HOSTS_HISTORY"
proof -
  have "tight (JObj [ty ''array'', kw_int ''minItems'' 2, kw_int ''maxItems'' 2, (''items'', JObj [ty ''string'', kw_int ''maxLength'' 40])])"
    by (subst tight_parts) (simp add: ty_def kw_int_def tight_leaf)
  then show ?thesis by (simp add: HOSTS_HISTORY_def)
qed

lemma tight_QUOTA [simp]: "tight QUOTA"
  unfolding QUOTA_def set_at.simps QUOTA_WINDOW_def
  by (intro tight_set_prop tight_strictify others_say_nothing_open) simp

lemma tight_strict_files [simp]: "tight CONTROL" "tight (strictify CHECKPOINT_SCHEMA)"
  by (simp_all add: CONTROL_def tight_strictify others_say_nothing_open)

lemma tight_files [simp]:
  "tight HEARTBEAT" "tight PROVIDERS" "tight AGENTS" "tight RESEARCH" "tight PULSE_HISTORY" "tight MAINTENANCE"
  by (simp_all add: HEARTBEAT_def PROVIDERS_def PROVIDER_RECORD_def AGENTS_def AGENT_RECORD_def RESEARCH_def PULSE_HISTORY_def MAINTENANCE_def)

lemma tight_files2 [simp]:
  "tight RUN" "tight LEASE" "tight EVENT_ARCHIVE" "tight REVIEW" "tight APPROVAL_LOG" "tight LESSON"
  by (simp_all add: RUN_def RUN_TASK_def LEASE_def EVENT_ARCHIVE_def REVIEW_def APPROVAL_LOG_def LESSON_def)

lemma tight_ops [simp]:
  "tight OPS_health" "tight OPS_quota" "tight OPS_eval" "tight OPS_hosts"
  by (simp_all add: OPS_health_def OPS_quota_def OPS_eval_def OPS_hosts_def OPS_META_def)

definition closed_file :: "state_file \<Rightarrow> bool" where
  "closed_file f = (case sf_schema f of None \<Rightarrow> True | Some s \<Rightarrow> findLooseObjects s ''$'' = [])"

lemma closed_sfile: "tight s \<Longrightarrow> closed_file (sfile i k r s)"
  by (simp add: closed_file_def sfile_def tight_def)

lemma closed_view_files:
  "list_all (\<lambda>(n, s). tight s) vs \<Longrightarrow> list_all closed_file (map (\<lambda>(n, s). sfile (i n) k (r n) s) vs)"
  by (induction vs) (auto simp: closed_sfile)

text \<open>Every schema of the strict registry is closed: in no file of the state folder may an object
  that lists its keys hold another one; and only the digests and the keep files have no schema.\<close>

theorem registry_closed:
  "list_all closed_file STATE_FILES \<and>
   map sf_id (filter (\<lambda>f. sf_schema f = None) STATE_FILES) = [''digest'', ''keep'']"
proof
  show "list_all closed_file STATE_FILES"
    unfolding STATE_FILES_def list_all_append
    by (intro conjI closed_view_files tight_views) (simp_all add: closed_sfile, simp_all add: closed_file_def)
  have schema: "sf_schema (sfile i k r s) = Some s" for i k r s by (simp add: sfile_def)
  show "map sf_id (filter (\<lambda>f. sf_schema f = None) STATE_FILES) = [''digest'', ''keep'']"
    unfolding STATE_FILES_def by (simp add: schema split_beta)
qed

section \<open>The migration\<close>

definition task_file_ok :: "js \<Rightarrow> bool" where
  "task_file_ok t \<longleftrightarrow> is_priority (jget t ''priority'') \<and> is_arr (jget t ''dependsOn'') \<and> is_arr (jget t ''history'') \<and>
     is_integer (jget t ''attempts'') \<and> is_integer (jget t ''maxAttempts'')"

definition NORMALISED :: "string list" where
  "NORMALISED = [''priority'', ''dependsOn'', ''history'', ''attempts'', ''maxAttempts'']"

lemma is_obj_fix [simp]: "is_obj t \<Longrightarrow> is_obj (fix_field k ok d t)"
  by (cases t) (simp_all add: fix_field_def set_prop_def)

lemma jget_fix: "is_obj t \<Longrightarrow> jget (fix_field k ok d t) j = (if j = k \<and> \<not> ok (jget t k) then d else jget t j)"
  by (auto simp: fix_field_def simp del: jget.simps)

lemma migrate_task_field:
  "k \<notin> set NORMALISED \<Longrightarrow>
   jget (migrate_task m t) k = jget (JObj (spread (taskDefaults m) (entries t))) k"
  by (simp add: migrate_task_def Let_def jget_fix NORMALISED_def del: jget.simps)

lemma migrate_task_ok:
  assumes "is_integer (orNull (dflt m JUndef) (jint 3))"
  shows "task_file_ok (migrate_task m t)"
proof -
  have d: "is_integer (jget (JObj (taskDefaults m)) ''maxAttempts'')"
    using assms by (simp add: taskDefaults_def)
  have c: "is_priority (JStr ''normal'')" "is_integer (jint 0)"
    by (simp_all add: is_priority_def PRIORITIES_def is_integer_def)
  show ?thesis
    unfolding task_file_ok_def using d c
    by (simp add: migrate_task_def Let_def jget_fix del: jget.simps of_int_0)
qed

lemma migrate_task_keeps:
  assumes "wf_js t" and "k \<in> set (own_keys t)" and "k \<notin> set NORMALISED"
  shows "jget (migrate_task m t) k = jget t k"
proof (cases t)
  case (JObj kvs)
  then obtain v where "map_of kvs k = Some v" using assms(2) by (auto simp: own_keys_def dest: weak_map_of_SomeI)
  then show ?thesis
    using assms JObj by (simp add: migrate_task_field) (simp add: map_of_spread)
qed (use assms in \<open>simp_all add: own_keys_def\<close>)

lemma migrateTasks_old:
  "migrateTasks m file =
    (if of_int TASKS_SCHEMA_VERSION \<le> (if is_integer (jget file ''version'') then dflt (num_of (jget file ''version'')) 1 else 1 :: rat)
     then (file, False, if is_integer (jget file ''version'') then dflt (num_of (jget file ''version'')) 1 else 1)
     else (JObj (assoc_put ''tasks'' (JArr (map (migrate_task m) (arr_of (jget file ''tasks''))))
              (assoc_put ''version'' (jint TASKS_SCHEMA_VERSION) (entries file))),
           True, if is_integer (jget file ''version'') then dflt (num_of (jget file ''version'')) 1 else 1))"
  by (simp add: migrateTasks_def Let_def del: jget.simps)

lemma jget_put_other:
  "is_obj v \<Longrightarrow> k \<noteq> a \<Longrightarrow> k \<noteq> b \<Longrightarrow> jget (JObj (assoc_put a x (assoc_put b y (entries v)))) k = jget v k"
  by (cases v) simp_all

text \<open>The migration of the queue: it runs exactly on a file whose version is below 2 (or is no
  integer), and then stamps version 2 and gives each task a known priority, arrays for its
  dependencies and history and integers for its attempts; every other field a task already had is
  kept, no task is dropped, the other fields of the file are kept; and a second load migrates
  nothing.\<close>

theorem migrateTasks_sound:
  assumes "is_integer (orNull (dflt m JUndef) (jint 3))"
    and "migrateTasks m file = (file', migrated, from_ver)"
  shows "(migrated \<longleftrightarrow> from_ver < 2) \<and> (\<not> migrated \<longrightarrow> file' = file) \<and>
    (migrated \<longrightarrow>
      jget file' ''version'' = jint 2 \<and>
      length (arr_of (jget file' ''tasks'')) = length (arr_of (jget file ''tasks'')) \<and>
      list_all task_file_ok (arr_of (jget file' ''tasks'')) \<and>
      (\<forall>i < length (arr_of (jget file ''tasks'')). \<forall>k \<in> set (own_keys (arr_of (jget file ''tasks'') ! i)).
         wf_js (arr_of (jget file ''tasks'') ! i) \<and> k \<notin> set NORMALISED \<longrightarrow>
         jget (arr_of (jget file' ''tasks'') ! i) k = jget (arr_of (jget file ''tasks'') ! i) k) \<and>
      (is_obj file \<longrightarrow> (\<forall>k. k \<notin> {''version'', ''tasks''} \<longrightarrow> jget file' k = jget file k)) \<and>
      migrateTasks m file' = (file', False, 2))"
proof -
  let ?ts = "arr_of (jget file ''tasks'')"
  consider (new) "file' = file" "\<not> migrated" "2 \<le> from_ver"
    | (old) "migrated" "from_ver < 2"
      "file' = JObj (assoc_put ''tasks'' (JArr (map (migrate_task m) ?ts)) (assoc_put ''version'' (jint 2) (entries file)))"
    using assms(2) unfolding migrateTasks_old TASKS_SCHEMA_VERSION_def by (auto simp del: jget.simps split: if_split_asm)
  then show ?thesis
  proof cases
    case new
    then show ?thesis by simp
  next
    case old
    have ts: "jget file' ''tasks'' = JArr (map (migrate_task m) ?ts)" and v: "jget file' ''version'' = jint 2"
      unfolding old(3) by simp_all
    have two: "is_integer (jint 2)" by (simp add: is_integer_def)
    have "migrateTasks m file' = (file', False, 2)"
      unfolding migrateTasks_old v using two by (simp add: TASKS_SCHEMA_VERSION_def)
    moreover have "jget file' k = jget file k" if "is_obj file" "k \<notin> {''version'', ''tasks''}" for k
      using that unfolding old(3) by (simp add: jget_put_other del: jget.simps)
    moreover have "list_all task_file_ok (arr_of (jget file' ''tasks''))"
      unfolding ts using migrate_task_ok [OF assms(1)] by (simp add: list_all_iff)
    moreover have "jget (arr_of (jget file' ''tasks'') ! i) k = jget (?ts ! i) k"
      if "i < length ?ts" "k \<in> set (own_keys (?ts ! i))" "wf_js (?ts ! i) \<and> k \<notin> set NORMALISED" for i k
      using that unfolding ts by (simp add: migrate_task_keeps del: jget.simps)
    ultimately show ?thesis using old(1,2) v unfolding ts by simp
  qed
qed

definition v1_file :: js where
  "v1_file = JObj [(''tasks'', JArr [JObj [(''id'', JStr ''issue-7''), (''priority'', JNull), (''attempts'', jint 2)]])]"

theorem migrateTasks_sound_witness:
  "snd (migrateTasks None v1_file) = (True, 1) \<and> jget (fst (migrateTasks None v1_file)) ''version'' = jint 2"
proof -
  have m: "is_integer (orNull (dflt None JUndef) (jint 3))" by (simp add: orNull_def is_integer_def)
  have s: "snd (migrateTasks None v1_file) = (True, 1)" by code_simp
  have e: "migrateTasks None v1_file = (fst (migrateTasks None v1_file), True, 1)" using s by (simp add: prod_eq_iff)
  show ?thesis
    using s migrateTasks_sound [OF m e, THEN conjunct2, THEN conjunct2, THEN mp, OF TrueI, THEN conjunct1] by (rule conjI)
qed

section \<open>Fresh files\<close>

text \<open>A fresh state folder does not pass its own check: the queue that \<open>ensureLayout\<close> writes satisfies
  its strict schema, but the heartbeat it writes does not: \<open>lastPulseAt\<close>,
  \<open>lastPulseStatus\<close> and \<open>lastPulseDurationMs\<close> are null there, and the strict schema (unlike the one the
  store validates with) does not allow null.\<close>

theorem fresh_heartbeat_fails_the_check:
  "check rxt (defaultTasksFile now) TASKS = (True, []) \<and>
   check rxt defaultHeartbeat HEARTBEAT_SCHEMA = (True, []) \<and>
   check rxt defaultHeartbeat HEARTBEAT =
     (False, [(''$.lastPulseAt'', WrongType), (''$.lastPulseStatus'', WrongType), (''$.lastPulseDurationMs'', WrongType)])"
  by code_simp
end
