(* ===== verification/Redact.thy ===== *)
theory Redact
  imports Json Regex
begin

text \<open>
  Redaction: \<open>src/lib/redact.js\<close> (log values) and \<open>src/lib/secretScrub.js\<close> (everything written
  under \<open>state/\<close>). The patterns are terms of the matcher of theory Regex and the replacement is its
  global replace. Values are trees, so the cycle marker of the two walks cannot occur.
\<close>

section \<open>Patterns\<close>

definition MASK :: string where "MASK = ''[REDACTED]''"

definition is_alnum :: "char \<Rightarrow> bool" where
  "is_alnum c = (is_lower c \<or> is_upper c \<or> is_digit c)"

definition alnum_or :: "string \<Rightarrow> rx" where
  "alnum_or extra = Cls (\<lambda>c. is_alnum c \<or> c \<in> set extra)"

definition upper_digit :: rx where "upper_digit = Cls (\<lambda>c. is_upper c \<or> is_digit c)"
definition letter :: rx where "letter = Cls (\<lambda>c. is_lower c \<or> is_upper c)"
definition hex_char :: rx where
  "hex_char = Cls (\<lambda>c. is_digit c \<or> c \<in> set ''abcdefABCDEF'')"

definition quote_char :: rx where "quote_char = any_of [CHR 0x22, CHR 0x27]"

definition header_value :: rx where
  "header_value = Cls (\<lambda>c. \<not> is_space c \<and> c \<notin> set [CHR 0x22, CHR 0x27, CHR '','', CHR ''}''])"

definition query_value :: rx where
  "query_value = Cls (\<lambda>c. \<not> is_space c \<and> c \<notin> set [CHR ''&'', CHR 0x22, CHR 0x27, CHR ''{'', CHR ''}''])"

definition pref :: "string \<Rightarrow> nat \<Rightarrow> string \<Rightarrow> rx" where
  "pref p n extra = seqs [WordB, lit p, at_least n (alnum_or extra)]"

definition b64_run :: rx where
  "b64_run = seqs [WordB, at_least 32 (alnum_or ''+/''), rep_between 0 2 (lit ''=''), WordB]"

definition SECRET_PATTERNS :: "rx list" where
  "SECRET_PATTERNS =
    [seqs [WordB, lit ''gh'', any_of ''pousr'', lit ''_'', at_least 16 (alnum_or [])],
     pref ''github_pat_'' 20 ''_'',
     pref ''gsk_'' 20 [],
     pref ''hf_'' 16 [],
     pref ''sk-or-v1-'' 16 ''_-'',
     pref ''sk-ant-'' 16 ''_-'',
     pref ''sk-'' 16 ''_-'',
     pref ''AIza'' 16 ''_-'',
     pref ''AQ.'' 20 ''_-'',
     seqs [WordB, lit ''xox'', any_of ''abposr'', lit ''-'', at_least 10 (alnum_or ''-'')],
     seqs [WordB, ilit ''bearer'', plus space, at_least 8 (alnum_or ''._~+/=-'')],
     seqs [WordB, ilit ''authorization'', opt quote_char, Star space, any_of '':='', Star space, opt quote_char, at_least 8 header_value],
     seqs [WordB, alts [seqs [ilit ''api'', opt (any_of ''_-''), ilit ''key''], seqs [ilit ''access'', opt (any_of ''_-''), ilit ''token''],
       ilit ''token'', ilit ''secret''], lit ''='', at_least 8 query_value],
     seqs [WordB, rep_between 8 10 digit, lit '':'', rep 35 (alnum_or ''_-''), WordB],
     seqs [WordB, lit ''secret_'', rep 43 (alnum_or []), WordB],
     seqs [WordB, lit ''ntn_'', at_least 30 (alnum_or []), WordB],
     seqs [WordB, lit ''lin_'', alts [lit ''api'', lit ''oauth''], lit ''_'', at_least 32 (alnum_or []), WordB],
     seqs [lit ''https://hooks.slack.com/services/T'', plus upper_digit, lit ''/B'', plus upper_digit, lit ''/'', at_least 16 (alnum_or [])],
     seqs [lit ''https://'', opt (alts [lit ''ptb.'', lit ''canary.'']), lit ''discord'', opt (lit ''app''), lit ''.com/api/webhooks/'',
       at_least 15 digit, lit ''/'', at_least 20 (alnum_or ''_-'')],
     seqs [lit ''http'', opt (lit ''s''), lit ''://ntfy.sh/'', at_least 6 (alnum_or ''_-'')],
     pref ''GOCSPX-'' 20 ''_-'',
     pref ''titan_mcp_'' 40 ''_-'',
     seqs [WordB, lit ''rnd_'', at_least 20 (alnum_or []), WordB],
     seqs [WordB, plus (alnum_or ''._%+-''), lit ''@'', plus (alnum_or ''.-''), lit ''.'', at_least 2 letter, WordB],
     b64_run,
     seqs [WordB, at_least 32 hex_char, WordB]]"

definition redactString :: "string \<Rightarrow> string" where
  "redactString s = fold (\<lambda>r out. rx_replace r (\<lambda>_. MASK) out) SECRET_PATTERNS s"

section \<open>Field names\<close>

definition REDACTED_FIELDS :: "string list" where
  "REDACTED_FIELDS = [''prompt'', ''messages'', ''response'', ''text'', ''body'', ''content'', ''completion'', ''choices'',
     ''input'', ''output'']"

definition SENSITIVE_KEY_PATTERN :: rx where
  "SENSITIVE_KEY_PATTERN = alts [ilit ''key'', ilit ''token'', ilit ''secret'', ilit ''password'', ilit ''authorization'',
     ilit ''credential'', seqs [ilit ''pat'', WordB]]"

definition isSensitiveKey :: "string \<Rightarrow> bool" where
  "isSensitiveKey key = (toLowerCase key \<in> set (map toLowerCase REDACTED_FIELDS) \<or> rx_test SENSITIVE_KEY_PATTERN key)"

section \<open>Values of a log line\<close>

text \<open>What a log call can be given: the JSON kinds, and the objects the walk tells apart. An \<open>Error\<close>
  has a name, a message, an optional stack, its other own properties and an optional cause.\<close>

datatype rval =
    RUndef | RNull | RBool bool | RNum num | RStr string | RBig string | RSym | RFun
  | RArr "rval list" | RDate string | RRegExp string
  | RMap "(rval \<times> rval) list" | RSet "rval list" | RObj "(string \<times> rval) list"
  | RErr string string "string option" "(string \<times> rval) list" "rval option"
  | RInst string

definition MAX_DEPTH :: nat where "MAX_DEPTH = 8"

fun str_key :: "rval \<Rightarrow> string option" where
  "str_key (RStr s) = Some s"
| "str_key _ = None"

definition err_extras :: "(string \<times> 'v) list \<Rightarrow> (string \<times> 'v) list" where
  "err_extras kvs = filter (\<lambda>kv. fst kv \<notin> {''name'', ''message'', ''stack''}) kvs"

function (sequential) walk :: "nat \<Rightarrow> rval \<Rightarrow> rval" where
  "walk d (RStr s) = RStr (redactString s)"
| "walk d (RBig n) = RStr (n @ ''n'')"
| "walk d RSym = RStr ''[Symbol]''"
| "walk d RFun = RStr ''[Function]''"
| "walk d (RErr n m st kvs cause) =
     (if MAX_DEPTH \<le> d then RStr ''[MaxDepth]''
      else RObj ([(''name'', RStr n), (''message'', RStr (redactString m)),
             (''stack'', case st of None \<Rightarrow> RUndef | Some s \<Rightarrow> RStr (redactString s))] @
           map (\<lambda>(k, v). (k, if isSensitiveKey k then RStr MASK else walk (Suc d) v)) (err_extras kvs) @
           (case cause of
              Some c \<Rightarrow> if ''cause'' \<in> fst ` set (err_extras kvs) then [] else [(''cause'', walk (Suc d) c)]
            | None \<Rightarrow> [])))"
| "walk d (RArr xs) = (if MAX_DEPTH \<le> d then RStr ''[MaxDepth]'' else RArr (map (walk (Suc d)) xs))"
| "walk d (RDate t) = (if MAX_DEPTH \<le> d then RStr ''[MaxDepth]'' else RStr t)"
| "walk d (RRegExp t) = (if MAX_DEPTH \<le> d then RStr ''[MaxDepth]'' else RStr t)"
| "walk d (RMap kvs) =
     (if MAX_DEPTH \<le> d then RStr ''[MaxDepth]''
      else RArr (map (\<lambda>(k, v). RArr [walk (Suc d) k,
             if (case str_key k of None \<Rightarrow> False | Some s \<Rightarrow> isSensitiveKey s) then RStr MASK else walk (Suc d) v]) kvs))"
| "walk d (RSet xs) = (if MAX_DEPTH \<le> d then RStr ''[MaxDepth]'' else RArr (map (walk (Suc d)) xs))"
| "walk d (RObj kvs) =
     (if MAX_DEPTH \<le> d then RStr ''[MaxDepth]''
      else RObj (map (\<lambda>(k, v). (k, if isSensitiveKey k then RStr MASK else walk (Suc d) v)) kvs))"
| "walk d (RInst c) = (if MAX_DEPTH \<le> d then RStr ''[MaxDepth]'' else RStr (''[Object '' @ c @ '']''))"
| "walk d v = v"
  by pat_completeness auto
termination
  by (relation "measure (\<lambda>(d, _). MAX_DEPTH - d)") (auto simp: MAX_DEPTH_def)

definition redact :: "rval \<Rightarrow> rval" where
  "redact v = walk 0 v"

definition previewPrompt :: "string \<Rightarrow> nat \<Rightarrow> string" where
  "previewPrompt s mx =
    (if s = [] then []
     else (let cleaned = js_trim (rx_replace (plus space) (\<lambda>_. '' '') (redactString s)) in
       if length cleaned \<le> mx then cleaned else take mx cleaned @ ''...''))"

section \<open>Values written to the state folder\<close>

definition SCRUB_DEPTH :: nat where "SCRUB_DEPTH = 12"

function (sequential) scrub :: "nat \<Rightarrow> js \<Rightarrow> js" where
  "scrub d (JStr s) = JStr (redactString s)"
| "scrub d (JArr xs) = (if SCRUB_DEPTH \<le> d then JStr ''[MaxDepth]'' else JArr (map (scrub (Suc d)) xs))"
| "scrub d (JObj kvs) =
     (if SCRUB_DEPTH \<le> d then JStr ''[MaxDepth]'' else JObj (map (\<lambda>(k, v). (k, scrub (Suc d) v)) kvs))"
| "scrub d v = v"
  by pat_completeness auto
termination
  by (relation "measure (\<lambda>(d, _). SCRUB_DEPTH - d)") (auto simp: SCRUB_DEPTH_def)

definition scrubForState :: "js \<Rightarrow> js" where
  "scrubForState v = scrub 0 v"

section \<open>What is hidden\<close>

text \<open>A value a log line may hold: JSON kinds only, at most \<open>n\<close> levels of nesting, and under a
  sensitive key nothing but the mask.\<close>

fun log_safe :: "nat \<Rightarrow> rval \<Rightarrow> bool" where
  "log_safe n (RArr xs) = (case n of 0 \<Rightarrow> False | Suc m \<Rightarrow> list_all (log_safe m) xs)"
| "log_safe n (RObj kvs) =
     (case n of 0 \<Rightarrow> False
      | Suc m \<Rightarrow> list_all (\<lambda>(k, v). if isSensitiveKey k then v = RStr MASK else log_safe m v) kvs)"
| "log_safe n (RStr s) = True"
| "log_safe n RUndef = True"
| "log_safe n RNull = True"
| "log_safe n (RBool b) = True"
| "log_safe n (RNum r) = True"
| "log_safe n v = False"

lemma plain_keys: "\<not> isSensitiveKey ''name''" "\<not> isSensitiveKey ''message''" "\<not> isSensitiveKey ''stack''" "\<not> isSensitiveKey ''cause''"
  by code_simp+

text \<open>A \<open>Map\<close> becomes pairs, two levels deep, so a walk that starts \<open>d\<close> deep stays within twice the
  levels left.\<close>

lemma log_safe_mono: "log_safe n v \<Longrightarrow> n \<le> m \<Longrightarrow> log_safe m v"
proof (induction n v arbitrary: m rule: log_safe.induct)
  case (1 n xs)
  then obtain n' where n: "n = Suc n'" by (cases n) auto
  then obtain m' where m: "m = Suc m'" "n' \<le> m'" using "1.prems"(2) by (cases m) auto
  have "log_safe m' x" if "x \<in> set xs" for x
    using "1.IH" [OF n that _ m(2)] "1.prems"(1) that by (simp add: n list_all_iff)
  then show ?case by (simp add: m(1) list_all_iff)
next
  case (2 n kvs)
  then obtain n' where n: "n = Suc n'" by (cases n) auto
  then obtain m' where m: "m = Suc m'" "n' \<le> m'" using "2.prems"(2) by (cases m) auto
  have "if isSensitiveKey k then v = RStr MASK else log_safe m' v" if "(k, v) \<in> set kvs" for k v
    using "2.IH" [OF n that refl _ _ m(2)] "2.prems"(1) that by (auto simp: n list_all_iff)
  then show ?case by (auto simp: m(1) list_all_iff)
qed simp_all

lemma log_safe_MASK [simp]: "log_safe n (RStr s)" by simp

lemma levels_left: "\<not> MAX_DEPTH \<le> d \<Longrightarrow> \<exists>m. 2 * (MAX_DEPTH - d) = Suc (Suc m) \<and> m = 2 * (MAX_DEPTH - Suc d)"
  by (intro exI [of _ "2 * (MAX_DEPTH - Suc d)"]) auto

lemma walk_log_safe: "log_safe (2 * (MAX_DEPTH - d)) (walk d v)"
proof (induction d v rule: walk.induct)
  case (5 d n m st kvs cause)
  show ?case
  proof (cases "MAX_DEPTH \<le> d")
    case False
    then obtain k where k: "2 * (MAX_DEPTH - d) = Suc (Suc k)" "k = 2 * (MAX_DEPTH - Suc d)"
      using levels_left by blast
    have "log_safe (Suc k) (walk (Suc d) v)" if "(i, v) \<in> set (err_extras kvs)" "\<not> isSensitiveKey i" for i v
      using "5.IH"(1) [OF False that(1) refl that(2)] log_safe_mono k(2) by (metis Suc_n_not_le_n nat_le_linear)
    moreover have "log_safe (Suc k) (walk (Suc d) c)" if "cause = Some c" "''cause'' \<notin> fst ` set (err_extras kvs)" for c
      using "5.IH"(2) [OF False that] log_safe_mono k(2) by (metis Suc_n_not_le_n nat_le_linear)
    ultimately show ?thesis
      using False k(1) plain_keys by (auto simp: list_all_iff split: option.splits)
  qed simp
next
  case (6 d xs)
  show ?case
  proof (cases "MAX_DEPTH \<le> d")
    case False
    then obtain k where k: "2 * (MAX_DEPTH - d) = Suc (Suc k)" "k = 2 * (MAX_DEPTH - Suc d)"
      using levels_left by blast
    have "log_safe (Suc k) (walk (Suc d) x)" if "x \<in> set xs" for x
      using "6.IH" [OF False that] log_safe_mono [of k _ "Suc k"] k(2) by simp
    then show ?thesis using False k(1) by (simp add: list_all_iff)
  qed simp
next
  case (9 d kvs)
  show ?case
  proof (cases "MAX_DEPTH \<le> d")
    case False
    then obtain k where k: "2 * (MAX_DEPTH - d) = Suc (Suc k)" "k = 2 * (MAX_DEPTH - Suc d)"
      using levels_left by blast
    have "log_safe k (walk (Suc d) i)" if "(i, v) \<in> set kvs" for i v
      using "9.IH"(1) [OF False that refl] k(2) by simp
    moreover have "log_safe k (walk (Suc d) v)"
      if "(i, v) \<in> set kvs" "\<not> (case str_key i of None \<Rightarrow> False | Some s \<Rightarrow> isSensitiveKey s)" for i v
      using "9.IH"(2) [OF False that(1) refl that(2)] k(2) by simp
    ultimately show ?thesis using False k(1) by (auto simp: list_all_iff)
  qed simp
next
  case (10 d xs)
  show ?case
  proof (cases "MAX_DEPTH \<le> d")
    case False
    then obtain k where k: "2 * (MAX_DEPTH - d) = Suc (Suc k)" "k = 2 * (MAX_DEPTH - Suc d)"
      using levels_left by blast
    have "log_safe (Suc k) (walk (Suc d) x)" if "x \<in> set xs" for x
      using "10.IH" [OF False that] log_safe_mono [of k _ "Suc k"] k(2) by simp
    then show ?thesis using False k(1) by (simp add: list_all_iff)
  qed simp
next
  case (11 d kvs)
  show ?case
  proof (cases "MAX_DEPTH \<le> d")
    case False
    then obtain k where k: "2 * (MAX_DEPTH - d) = Suc (Suc k)" "k = 2 * (MAX_DEPTH - Suc d)"
      using levels_left by blast
    have "log_safe (Suc k) (walk (Suc d) v)" if "(i, v) \<in> set kvs" "\<not> isSensitiveKey i" for i v
      using "11.IH" [OF False that(1) refl that(2)] log_safe_mono [of k _ "Suc k"] k(2) by simp
    then show ?thesis using False k(1) by (auto simp: list_all_iff)
  qed simp
qed auto


section \<open>What is kept in the state folder\<close>

definition no_secret :: "string \<Rightarrow> bool" where
  "no_secret s = list_all (\<lambda>r. \<not> rx_test r s) SECRET_PATTERNS"

lemma fold_no_match: "list_all (\<lambda>r. \<not> rx_test r s) rs \<Longrightarrow> fold (\<lambda>r out. rx_replace r (\<lambda>_. m) out) rs s = s"
  by (induction rs) (simp_all add: rx_replace_no_match)

lemma redactString_clean: "no_secret s \<Longrightarrow> redactString s = s"
  by (simp add: no_secret_def redactString_def fold_no_match)

fun state_clean :: "nat \<Rightarrow> js \<Rightarrow> bool" where
  "state_clean n (JStr s) = no_secret s"
| "state_clean n (JArr xs) = (case n of 0 \<Rightarrow> False | Suc m \<Rightarrow> list_all (state_clean m) xs)"
| "state_clean n (JObj kvs) = (case n of 0 \<Rightarrow> False | Suc m \<Rightarrow> list_all (\<lambda>kv. state_clean m (snd kv)) kvs)"
| "state_clean n v = True"

lemma map_idem: "(\<And>x. x \<in> set xs \<Longrightarrow> f x = x) \<Longrightarrow> map f xs = xs"
  by (induction xs) auto

lemma scrub_clean: "state_clean (SCRUB_DEPTH - d) v \<Longrightarrow> scrub d v = v"
proof (induction d v rule: scrub.induct)
  case (2 d xs)
  show ?case
  proof (cases "SCRUB_DEPTH \<le> d")
    case False
    then have "SCRUB_DEPTH - d = Suc (SCRUB_DEPTH - Suc d)" by simp
    then have "list_all (state_clean (SCRUB_DEPTH - Suc d)) xs" using "2.prems" by simp
    then show ?thesis using False "2.IH" by (auto simp: list_all_iff intro: map_idem)
  qed (use "2.prems" in simp)
next
  case (3 d kvs)
  show ?case
  proof (cases "SCRUB_DEPTH \<le> d")
    case False
    then have "SCRUB_DEPTH - d = Suc (SCRUB_DEPTH - Suc d)" by simp
    then have "list_all (\<lambda>kv. state_clean (SCRUB_DEPTH - Suc d) (snd kv)) kvs" using "3.prems" by simp
    then show ?thesis using False "3.IH" by (auto simp: list_all_iff intro!: map_idem)
  qed (use "3.prems" in simp)
qed (auto intro: redactString_clean)

text \<open>What holds nothing shaped like a secret and nests at most twelve levels is written to the
  state folder exactly as it is.\<close>

theorem scrubForState_keeps_clean:
  assumes "state_clean 12 v"
  shows "scrubForState v = v"
  using assms scrub_clean [of 0 v] by (simp add: scrubForState_def SCRUB_DEPTH_def)

theorem scrubForState_keeps_clean_witness:
  "scrubForState (JObj [(''id'', JStr ''issue-7''), (''attempts'', jint 1)]) = JObj [(''id'', JStr ''issue-7''), (''attempts'', jint 1)]"
proof -
  have "no_secret ''issue-7''" by code_simp
  then have "state_clean 12 (JObj [(''id'', JStr ''issue-7''), (''attempts'', jint 1)])" by (simp add: numeral_eq_Suc)
  then show ?thesis by (rule scrubForState_keeps_clean)
qed

text \<open>But not everything that is shaped like one is a secret: a prompt that names a file thirty-two
  letters deep loses the name when the queue is saved, and the task goes on with the mask in its
  place.\<close>

theorem scrub_masks_a_file_path:
  "scrubForState (JObj [(''prompt'', JStr ''fix src/components/dashboard/widgets/Chart.tsx'')]) =
   JObj [(''prompt'', JStr ''fix [REDACTED].tsx'')]"
  by code_simp

end
