(* ===== verification/Archive.thy ===== *)
theory Archive
  imports Json
begin

text \<open>
  Monthly archives, \<open>src/state/archive.js\<close>. An archive file is its list of records: gzip and one
  line of JSON for each record lose nothing. The folder is a map from file paths to record lists.
  \<open>Date.parse\<close> and \<open>toISOString\<close> are the arguments \<open>dparse\<close> and \<open>isostr\<close>.
\<close>

type_synonym archive_dir = "string \<rightharpoonup> js list"

fun js_text :: "js \<Rightarrow> string" where
  "js_text (JStr s) = s"
| "js_text _ = []"

definition date_of :: "(string \<Rightarrow> int option) \<Rightarrow> js \<Rightarrow> int option" where
  "date_of dparse v = (case v of JNum (Fin r) \<Rightarrow> Some \<lfloor>r\<rfloor> | JStr s \<Rightarrow> dparse s | _ \<Rightarrow> None)"

definition monthOf :: "(string \<Rightarrow> int option) \<Rightarrow> (int \<Rightarrow> string) \<Rightarrow> js \<Rightarrow> string option" where
  "monthOf dparse isostr v = (case date_of dparse v of None \<Rightarrow> None | Some ms \<Rightarrow> Some (take 7 (isostr ms)))"

definition archivePath :: "string \<Rightarrow> string \<Rightarrow> string" where
  "archivePath name month = ''archive/'' @ name @ ''-'' @ month @ ''.jsonl.gz''"

definition readArchive :: "string \<Rightarrow> archive_dir \<Rightarrow> js list" where
  "readArchive path a = (case a path of None \<Rightarrow> [] | Some rs \<Rightarrow> rs)"

record archive_report =
  ar_path :: string
  ar_total :: nat
  ar_added :: int
  ar_changed :: bool

definition keyed :: "(js \<Rightarrow> 'k) \<Rightarrow> js list \<Rightarrow> ('k \<times> js) list \<Rightarrow> ('k \<times> js) list" where
  "keyed idOf rs m = fold (\<lambda>r. assoc_put (idOf r) r) rs m"

definition writeMonthlyArchive ::
  "string \<Rightarrow> string \<Rightarrow> js list \<Rightarrow> (js \<Rightarrow> string) \<Rightarrow> (js \<Rightarrow> string) \<Rightarrow> archive_dir \<Rightarrow> archive_dir \<times> archive_report" where
  "writeMonthlyArchive name month records idOf sortKey a =
    (let path = archivePath name month;
         old = keyed idOf (readArchive path a) [];
         merged = keyed idOf records old;
         out = sort_key sortKey (map snd merged);
         same = (a path = Some out)
     in (if same then a else a(path \<mapsto> out),
         \<lparr>ar_path = path, ar_total = length merged, ar_added = int (length merged) - int (length old), ar_changed = \<not> same\<rparr>))"

section \<open>Rolling the old files of a folder\<close>

text \<open>A file of the folder: its name, whether it is a regular file, what reading it gives (\<open>None\<close> when
  that throws or answers null) and the time of its last change.\<close>

record dir_file =
  df_name :: string
  df_isFile :: bool
  df_record :: "js option"
  df_mtime :: int

record roll_opts =
  ro_name :: string
  ro_keepDays :: int
  ro_accept :: "string \<Rightarrow> bool"
  ro_dateOf :: "js \<Rightarrow> string \<Rightarrow> int \<Rightarrow> js"
  ro_idOf :: "js \<Rightarrow> string"
  ro_keepNewest :: nat
  ro_maxFiles :: "nat option"

definition roll_entry :: "(string \<Rightarrow> int option) \<Rightarrow> roll_opts \<Rightarrow> dir_file \<Rightarrow> (string \<times> js \<times> int) option" where
  "roll_entry dparse opts f =
    (if \<not> df_isFile f then None
     else case df_record f of
       None \<Rightarrow> None
     | Some r \<Rightarrow>
         if \<not> truthy r then None
         else case date_of dparse (ro_dateOf opts r (df_name f) (df_mtime f)) of
           None \<Rightarrow> None
         | Some ms \<Rightarrow> Some (df_name f, r, ms))"

definition roll_entries :: "(string \<Rightarrow> int option) \<Rightarrow> roll_opts \<Rightarrow> dir_file list \<Rightarrow> (string \<times> js \<times> int) list" where
  "roll_entries dparse opts files =
    sort_key (\<lambda>e. - snd (snd e)) (List.map_filter (roll_entry dparse opts) (filter (\<lambda>f. ro_accept opts (df_name f)) files))"

definition is_old :: "roll_opts \<Rightarrow> int \<Rightarrow> nat \<Rightarrow> int \<Rightarrow> bool" where
  "is_old opts now i ms =
    (ro_keepNewest opts \<le> i \<and>
     (ms < now - ro_keepDays opts * 24 * 3600000 \<or> (case ro_maxFiles opts of None \<Rightarrow> False | Some m \<Rightarrow> m \<le> i)))"

definition old_entries :: "roll_opts \<Rightarrow> int \<Rightarrow> (string \<times> js \<times> int) list \<Rightarrow> (string \<times> js \<times> int) list" where
  "old_entries opts now es = map snd (filter (\<lambda>(i, e). is_old opts now i (snd (snd e))) (enumerate 0 es))"

fun group_put :: "'k \<Rightarrow> 'v \<Rightarrow> ('k \<times> 'v list) list \<Rightarrow> ('k \<times> 'v list) list" where
  "group_put k v [] = [(k, [v])]"
| "group_put k v ((j, vs) # gs) = (if j = k then (j, vs @ [v]) # gs else (j, vs) # group_put k v gs)"

text \<open>One month after the other is written, and then its files are deleted.\<close>

fun roll_months ::
  "roll_opts \<Rightarrow> (string \<times> (string \<times> js \<times> int) list) list \<Rightarrow> dir_file list \<times> archive_dir \<times> string list \<Rightarrow>
   dir_file list \<times> archive_dir \<times> string list" where
  "roll_months opts [] st = st"
| "roll_months opts ((month, es) # gs) (files, a, done) =
     (let a1 = fst (writeMonthlyArchive (ro_name opts) month (map (\<lambda>e. fst (snd e)) es) (ro_idOf opts) (ro_idOf opts) a);
          names = map fst es
      in roll_months opts gs (filter (\<lambda>f. df_name f \<notin> set names) files, a1, done @ names))"

definition rollOldFiles ::
  "(string \<Rightarrow> int option) \<Rightarrow> (int \<Rightarrow> string) \<Rightarrow> roll_opts \<Rightarrow> int \<Rightarrow> dir_file list \<Rightarrow> archive_dir \<Rightarrow>
   dir_file list \<times> archive_dir \<times> string list" where
  "rollOldFiles dparse isostr opts now files a =
    (let es = roll_entries dparse opts files;
         byMonth = fold (\<lambda>e. group_put (take 7 (isostr (snd (snd e)))) e) (old_entries opts now es) []
     in roll_months opts byMonth (files, a, []))"

section \<open>Nothing is lost\<close>

definition last_with :: "(js \<Rightarrow> 'k) \<Rightarrow> 'k \<Rightarrow> js list \<Rightarrow> js option" where
  "last_with idOf k rs = List.find (\<lambda>r. idOf r = k) (rev rs)"

lemma find_append: "List.find P (xs @ ys) = (case List.find P xs of None \<Rightarrow> List.find P ys | Some x \<Rightarrow> Some x)"
  by (induction xs) auto

lemma last_with_simps [simp]:
  "last_with idOf k [] = None"
  "last_with idOf k (rs @ [r]) = (if idOf r = k then Some r else last_with idOf k rs)"
  by (simp_all add: last_with_def)

lemma last_with_mem: "last_with idOf k rs = Some r \<Longrightarrow> r \<in> set rs \<and> idOf r = k"
  unfolding last_with_def by (drule find_Some_iff_mem) simp

lemma last_with_None: "last_with idOf k rs = None \<longleftrightarrow> k \<notin> idOf ` set rs"
  by (auto simp: last_with_def find_None_iff)

lemma last_with_distinct:
  assumes "distinct (map idOf rs)" and "r \<in> set rs"
  shows "last_with idOf (idOf r) rs = Some r"
proof (cases "last_with idOf (idOf r) rs")
  case None
  then show ?thesis using assms(2) by (auto simp: last_with_None)
next
  case (Some q)
  then have "q \<in> set rs" "idOf q = idOf r" using last_with_mem by fastforce+
  then show ?thesis using Some assms by (auto simp: distinct_map inj_on_def)
qed

lemma keyed_snoc: "keyed idOf (rs @ [r]) m = assoc_put (idOf r) r (keyed idOf rs m)"
  by (simp add: keyed_def)

lemma map_of_keyed:
  "map_of (keyed idOf rs m) k = (case last_with idOf k rs of None \<Rightarrow> map_of m k | Some r \<Rightarrow> Some r)"
proof (induction rs rule: rev_induct)
  case Nil
  then show ?case by (simp add: keyed_def)
next
  case (snoc r rs)
  then show ?case by (simp add: keyed_snoc)
qed

lemma keyed_keys: "distinct (map fst m) \<Longrightarrow> distinct (map fst (keyed idOf rs m))"
  by (induction rs rule: rev_induct) (simp_all add: keyed_snoc distinct_assoc_put keyed_def)

lemma entries_assoc_put: "(k, v) \<in> set (assoc_put i x m) \<Longrightarrow> (k, v) = (i, x) \<or> (k, v) \<in> set m"
  by (induction i x m rule: assoc_put.induct) (auto split: if_splits)

definition own_ids :: "(js \<Rightarrow> 'k) \<Rightarrow> ('k \<times> js) list \<Rightarrow> bool" where
  "own_ids idOf m = (distinct (map fst m) \<and> (\<forall>(k, v)\<in>set m. idOf v = k))"

lemma own_ids_keyed: "own_ids idOf m \<Longrightarrow> own_ids idOf (keyed idOf rs m)"
proof (induction rs rule: rev_induct)
  case Nil
  then show ?case by (simp add: keyed_def)
next
  case (snoc r rs)
  then have "own_ids idOf (keyed idOf rs m)" by blast
  then show ?case
    by (auto simp: own_ids_def keyed_snoc distinct_assoc_put dest!: entries_assoc_put)
qed

lemma own_ids_Nil [simp]: "own_ids idOf []"
  by (simp add: own_ids_def)

lemma own_ids_map: "own_ids idOf m \<Longrightarrow> map idOf (map snd m) = map fst m"
  by (auto simp: own_ids_def)

lemma own_ids_mem:
  assumes "own_ids idOf m"
  shows "r \<in> set (map snd m) \<longleftrightarrow> map_of m (idOf r) = Some r"
proof
  assume "r \<in> set (map snd m)"
  then obtain k where k: "(k, r) \<in> set m" by auto
  then show "map_of m (idOf r) = Some r" using assms by (auto simp: own_ids_def)
qed (force dest!: map_of_SomeD)

lemma keyed_of_distinct:
  assumes "distinct (map idOf rs)"
  shows "keyed idOf rs [] = map (\<lambda>r. (idOf r, r)) rs"
  using assms
proof (induction rs rule: rev_induct)
  case Nil
  then show ?case by (simp add: keyed_def)
next
  case (snoc r rs)
  have new: "assoc_put k x m = m @ [(k, x)]" if "k \<notin> fst ` set m" for k and x :: js and m
    using that by (induction k x m rule: assoc_put.induct) auto
  have "keyed idOf rs [] = map (\<lambda>r. (idOf r, r)) rs" using snoc by simp
  moreover have "idOf r \<notin> fst ` set (map (\<lambda>r. (idOf r, r)) rs)" using snoc.prems by (simp add: image_image)
  ultimately show ?case by (simp add: keyed_snoc new)
qed

lemma assoc_put_order: "map fst (assoc_put k v m) = (if k \<in> fst ` set m then map fst m else map fst m @ [k])"
  by (induction k v m rule: assoc_put.induct) auto

lemma keyed_order: "idOf ` set rs \<subseteq> fst ` set m \<Longrightarrow> map fst (keyed idOf rs m) = map fst m"
proof (induction rs rule: rev_induct)
  case Nil
  then show ?case by (simp add: keyed_def)
next
  case (snoc r rs)
  then have same: "map fst (keyed idOf rs m) = map fst m" by simp
  then have "fst ` set (keyed idOf rs m) = fst ` set m" by (metis set_map)
  with snoc.prems same show ?case by (simp add: keyed_snoc assoc_put_order)
qed

lemma alist_eqI: "map fst xs = map fst ys \<Longrightarrow> map_of xs = map_of ys \<Longrightarrow> distinct (map fst xs) \<Longrightarrow> xs = ys"
proof (induction xs arbitrary: ys)
  case (Cons x xs)
  then obtain y ys' where ys: "ys = y # ys'" by (cases ys) auto
  have fst_eq: "fst x = fst y" and keys: "map fst xs = map fst ys'" using Cons.prems(1) ys by auto
  have "Some (snd x) = Some (snd y)" using fun_cong [OF Cons.prems(2), of "fst x"] fst_eq ys by (cases x; cases y) simp
  moreover have "map_of xs = map_of ys'"
  proof
    fix k
    have "fst x \<notin> set (map fst xs)" "fst x \<notin> set (map fst ys')" using Cons.prems(3) keys by auto
    then show "map_of xs k = map_of ys' k"
      using fun_cong [OF Cons.prems(2), of k] fst_eq ys
      by (cases "k = fst x"; cases x; cases y) (auto simp: map_of_eq_None_iff [THEN iffD2])
  qed
  ultimately show ?case using Cons.IH [OF keys] Cons.prems(3) fst_eq ys by (cases x; cases y) auto
qed simp

definition merged_records :: "(js \<Rightarrow> string) \<Rightarrow> js list \<Rightarrow> js list \<Rightarrow> (string \<times> js) list" where
  "merged_records idOf records old = keyed idOf records (keyed idOf old [])"

lemma own_ids_merged: "own_ids idOf (merged_records idOf records old)"
  by (simp add: merged_records_def own_ids_keyed)

lemma written_at:
  "fst (writeMonthlyArchive name month records idOf sortKey a) (archivePath name month) =
   Some (sort_key sortKey (map snd (merged_records idOf records (readArchive (archivePath name month) a))))"
  by (simp add: writeMonthlyArchive_def Let_def merged_records_def)

lemma read_written:
  "readArchive (archivePath name month) (fst (writeMonthlyArchive name month records idOf sortKey a)) =
   sort_key sortKey (map snd (merged_records idOf records (readArchive (archivePath name month) a)))"
  unfolding readArchive_def [of _ "fst (writeMonthlyArchive name month records idOf sortKey a)"] written_at by simp

lemma sort_key_sorted: "sorted (map f xs) \<Longrightarrow> sort_key f xs = xs"
  by (induction xs) (simp_all add: insort_is_Cons)

lemma written_other:
  "p \<noteq> archivePath name month \<Longrightarrow> fst (writeMonthlyArchive name month records idOf sortKey a) p = a p"
  by (simp add: writeMonthlyArchive_def Let_def)

lemma map_of_merged:
  "map_of (merged_records idOf records old) k =
    (case last_with idOf k records of None \<Rightarrow> last_with idOf k old | Some r \<Rightarrow> Some r)"
  by (auto simp: merged_records_def map_of_keyed split: option.splits)

lemma mem_written:
  "r \<in> set (readArchive (archivePath name month) (fst (writeMonthlyArchive name month records idOf sortKey a))) \<longleftrightarrow>
   (case last_with idOf (idOf r) records of
      None \<Rightarrow> last_with idOf (idOf r) (readArchive (archivePath name month) a) = Some r
    | Some q \<Rightarrow> q = r)"
  using own_ids_mem [OF own_ids_merged, of r idOf records "readArchive (archivePath name month) a"]
  by (auto simp: read_written map_of_merged split: option.splits)

lemma distinct_written:
  "distinct (map idOf (readArchive (archivePath name month) (fst (writeMonthlyArchive name month records idOf sortKey a))))"
proof -
  let ?m = "merged_records idOf records (readArchive (archivePath name month) a)"
  have "distinct (map idOf (map snd ?m))"
    using own_ids_map [OF own_ids_merged] own_ids_merged unfolding own_ids_def by metis
  moreover have "mset (map idOf (sort_key sortKey (map snd ?m))) = mset (map idOf (map snd ?m))"
    by (simp only: mset_map mset_sort)
  ultimately show ?thesis
    unfolding read_written using mset_eq_imp_distinct_iff by blast
qed

lemma rewrite_unchanged:
  assumes "a (archivePath name month) = Some out" and "distinct (map idOf out)" and "sort_key sortKey out = out"
    and "\<And>r. r \<in> set records \<Longrightarrow> idOf r \<in> idOf ` set out"
    and "\<And>k r. last_with idOf k records = Some r \<Longrightarrow> r \<in> set out"
  shows "writeMonthlyArchive name month records idOf sortKey a =
    (a, \<lparr>ar_path = archivePath name month, ar_total = length out, ar_added = 0, ar_changed = False\<rparr>)"
proof -
  let ?old = "map (\<lambda>r. (idOf r, r)) out"
  have old: "keyed idOf out [] = ?old" by (rule keyed_of_distinct [OF assms(2)])
  have m: "map_of ?old k = last_with idOf k out" for k
    using map_of_keyed [of idOf out "[]" k] old by (auto split: option.splits)
  have "keyed idOf records ?old = ?old"
  proof (rule alist_eqI)
    show "map fst (keyed idOf records ?old) = map fst ?old"
      using assms(4) by (intro keyed_order) force
    then show "distinct (map fst (keyed idOf records ?old))" using assms(2) by (simp add: comp_def)
    show "map_of (keyed idOf records ?old) = map_of ?old"
    proof
      fix k
      have "last_with idOf k out = Some r" if "last_with idOf k records = Some r" for r
        using last_with_distinct [OF assms(2) assms(5) [OF that]] last_with_mem [OF that] by simp
      then show "map_of (keyed idOf records ?old) k = map_of ?old k"
        by (simp add: map_of_keyed m split: option.split)
    qed
  qed
  then show ?thesis
    using assms(1,3) old by (simp add: writeMonthlyArchive_def readArchive_def Let_def comp_def fun_upd_idem)
qed

text \<open>The monthly archive loses nothing and settles: after a write each given record is in the file
  (of several with one id the last), and so is each earlier record whose id was not given again; no
  id occurs twice, the file is sorted, the other files are untouched, and writing the same records
  again changes nothing.\<close>

theorem writeMonthlyArchive_keeps:
  fixes a :: archive_dir and name month :: string and records :: "js list" and idOf sortKey :: "js \<Rightarrow> string"
  defines "path \<equiv> archivePath name month"
    and "a' \<equiv> fst (writeMonthlyArchive name month records idOf sortKey a)"
  shows "(\<forall>r. r \<in> set (readArchive path a') \<longleftrightarrow>
        last_with idOf (idOf r) records = Some r \<or>
        (idOf r \<notin> idOf ` set records \<and> last_with idOf (idOf r) (readArchive path a) = Some r)) \<and>
    distinct (map idOf (readArchive path a')) \<and> sorted (map sortKey (readArchive path a')) \<and>
    (\<forall>p. p \<noteq> path \<longrightarrow> a' p = a p) \<and>
    fst (writeMonthlyArchive name month records idOf sortKey a') = a' \<and>
    \<not> ar_changed (snd (writeMonthlyArchive name month records idOf sortKey a'))"
proof -
  let ?out = "readArchive path a'"
  have mem: "r \<in> set ?out \<longleftrightarrow> (case last_with idOf (idOf r) records of
      None \<Rightarrow> last_with idOf (idOf r) (readArchive path a) = Some r | Some q \<Rightarrow> q = r)" for r
    unfolding path_def a'_def by (rule mem_written)
  have srt: "?out = sort_key sortKey (map snd (merged_records idOf records (readArchive path a)))"
    unfolding path_def a'_def by (rule read_written)
  have at_path: "a' path = Some ?out"
    unfolding srt by (simp add: path_def a'_def written_at)
  have last: "r \<in> set ?out" if "last_with idOf k records = Some r" for k r
    using that last_with_mem [OF that] mem [of r] by simp
  have ids: "idOf r \<in> idOf ` set ?out" if r: "r \<in> set records" for r
  proof -
    obtain q where "last_with idOf (idOf r) records = Some q"
      using r last_with_None [of idOf "idOf r" records] by (cases "last_with idOf (idOf r) records") auto
    then show ?thesis using last [of "idOf r" q] last_with_mem [of idOf "idOf r" records q] by (metis image_eqI)
  qed
  have "writeMonthlyArchive name month records idOf sortKey a' =
    (a', \<lparr>ar_path = archivePath name month, ar_total = length ?out, ar_added = 0, ar_changed = False\<rparr>)"
  proof (rule rewrite_unchanged)
    show "a' (archivePath name month) = Some ?out" using at_path by (simp add: path_def)
    show "distinct (map idOf ?out)" unfolding path_def a'_def by (rule distinct_written)
    show "sort_key sortKey ?out = ?out" unfolding srt by (rule sort_key_sorted) (rule sorted_sort_key)
  qed (use ids last in blast)+
  moreover have "r \<in> set ?out \<longleftrightarrow> last_with idOf (idOf r) records = Some r \<or>
        (idOf r \<notin> idOf ` set records \<and> last_with idOf (idOf r) (readArchive path a) = Some r)" for r
    using mem [of r] last_with_None [of idOf "idOf r" records] by (auto split: option.splits)
  ultimately show ?thesis
    using distinct_written [of idOf name month records sortKey a, folded path_def a'_def]
      written_other [of _ name month records idOf sortKey a, folded path_def a'_def]
    by (simp add: srt)
qed

section \<open>A file is deleted only after its record is in the archive\<close>

abbreviation rec_of :: "string \<times> js \<times> int \<Rightarrow> js" where "rec_of e \<equiv> fst (snd e)"

definition stored :: "string \<Rightarrow> (js \<Rightarrow> string) \<Rightarrow> archive_dir \<Rightarrow> js \<Rightarrow> bool" where
  "stored name idOf a r = (\<exists>month. last_with idOf (idOf r) (readArchive (archivePath name month) a) = Some r)"

lemma stored_mem: "stored name idOf a r \<Longrightarrow> \<exists>month. r \<in> set (readArchive (archivePath name month) a)"
  unfolding stored_def by (blast dest: last_with_mem)

lemma written_stored:
  assumes "last_with idOf (idOf r) records = Some r"
  shows "stored name idOf (fst (writeMonthlyArchive name month records idOf key a)) r"
  unfolding stored_def
  by (intro exI [of _ month] last_with_distinct distinct_written) (simp add: mem_written assms)

lemma written_keeps_stored:
  assumes "stored name idOf a r" and "idOf r \<notin> idOf ` set records"
  shows "stored name idOf (fst (writeMonthlyArchive name month records idOf key a)) r"
proof -
  let ?a' = "fst (writeMonthlyArchive name month records idOf key a)"
  obtain m where m: "last_with idOf (idOf r) (readArchive (archivePath name m) a) = Some r"
    using assms(1) by (auto simp: stored_def)
  show ?thesis
  proof (cases "archivePath name m = archivePath name month")
    case True
    have "r \<in> set (readArchive (archivePath name month) ?a')"
      using m True assms(2) last_with_None [of idOf "idOf r" records] by (simp add: mem_written)
    then show ?thesis
      unfolding stored_def by (intro exI [of _ month] last_with_distinct distinct_written)
  next
    case False
    then show ?thesis
      unfolding stored_def using m by (intro exI [of _ m]) (simp add: readArchive_def written_other)
  qed
qed

definition month_records :: "(string \<times> 'e list) list \<Rightarrow> 'e list" where
  "month_records gs = concat (map snd gs)"

lemma roll_months_spec:
  assumes "distinct (map (\<lambda>e. ro_idOf opts (rec_of e)) (month_records gs))"
    and "roll_months opts gs (files, a, done) = (files', a', done')"
  shows "files' = filter (\<lambda>f. df_name f \<notin> set (map fst (month_records gs))) files \<and>
    done' = done @ map fst (month_records gs) \<and>
    (\<forall>e\<in>set (month_records gs). stored (ro_name opts) (ro_idOf opts) a' (rec_of e)) \<and>
    (\<forall>r. stored (ro_name opts) (ro_idOf opts) a r \<and> ro_idOf opts r \<notin> (\<lambda>e. ro_idOf opts (rec_of e)) ` set (month_records gs) \<longrightarrow> stored (ro_name opts) (ro_idOf opts) a' r)"
  using assms
proof (induction gs arbitrary: files a "done")
  case Nil
  then show ?case by (simp add: month_records_def)
next
  case (Cons g gs)
  obtain month es where g: "g = (month, es)" by (cases g)
  let ?a1 = "fst (writeMonthlyArchive (ro_name opts) month (map rec_of es) (ro_idOf opts) (ro_idOf opts) a)"
  have parts: "month_records (g # gs) = es @ month_records gs" by (simp add: month_records_def g)
  have d: "distinct (map (\<lambda>e. ro_idOf opts (rec_of e)) (month_records gs))"
    "distinct (map (ro_idOf opts) (map rec_of es))"
    "(\<lambda>e. ro_idOf opts (rec_of e)) ` set es \<inter> (\<lambda>e. ro_idOf opts (rec_of e)) ` set (month_records gs) = {}"
    using Cons.prems(1) by (simp_all add: parts comp_def)
  have run: "roll_months opts gs (filter (\<lambda>f. df_name f \<notin> set (map fst es)) files, ?a1, done @ map fst es) = (files', a', done')"
    using Cons.prems(2) by (simp add: g Let_def)
  note IH = Cons.IH [OF d(1) run]
  have "stored (ro_name opts) (ro_idOf opts) a' (rec_of e)" if "e \<in> set es" for e
  proof -
    have "last_with (ro_idOf opts) (ro_idOf opts (rec_of e)) (map rec_of es) = Some (rec_of e)"
      using that d(2) by (intro last_with_distinct) auto
    then have "stored (ro_name opts) (ro_idOf opts) ?a1 (rec_of e)" by (rule written_stored)
    moreover have "ro_idOf opts (rec_of e) \<notin> (\<lambda>e. ro_idOf opts (rec_of e)) ` set (month_records gs)"
      using that d(3) by blast
    ultimately show ?thesis using IH by blast
  qed
  moreover have "stored (ro_name opts) (ro_idOf opts) a' r"
    if "stored (ro_name opts) (ro_idOf opts) a r" "ro_idOf opts r \<notin> (\<lambda>e. ro_idOf opts (rec_of e)) ` set (month_records (g # gs))" for r
  proof -
    have "ro_idOf opts r \<notin> ro_idOf opts ` set (map rec_of es)" using that(2) by (auto simp: parts)
    then have "stored (ro_name opts) (ro_idOf opts) ?a1 r" using that(1) by (intro written_keeps_stored)
    moreover have "ro_idOf opts r \<notin> (\<lambda>e. ro_idOf opts (rec_of e)) ` set (month_records gs)"
      using that(2) by (auto simp: parts)
    ultimately show ?thesis using IH by blast
  qed
  moreover have "files' = filter (\<lambda>f. df_name f \<notin> set (map fst (month_records (g # gs)))) files"
    using IH by (simp add: parts conj_commute)
  moreover have "done' = done @ map fst (month_records (g # gs))" using IH by (simp add: parts)
  ultimately show ?case using IH by (auto simp: parts)
qed

lemma mset_group_put: "mset (concat (map snd (group_put k v gs))) = add_mset v (mset (concat (map snd gs)))"
  by (induction k v gs rule: group_put.induct) simp_all

lemma mset_grouped:
  "mset (month_records (fold (\<lambda>e. group_put (f e) e) es gs)) = mset es + mset (month_records gs)"
  unfolding month_records_def
  by (induction es arbitrary: gs) (simp_all add: mset_group_put del: mset_concat)

lemma old_entries_nth: "e \<in> set (old_entries opts now es) \<Longrightarrow> \<exists>i<length es. ro_keepNewest opts \<le> i \<and> es ! i = e"
  by (auto simp: old_entries_def is_old_def in_set_enumerate_eq)

lemma distinct_old_entries: "distinct (map f es) \<Longrightarrow> distinct (map f (old_entries opts now es))"
proof -
  assume "distinct (map f es)"
  then have "distinct (map (f \<circ> snd) (enumerate 0 es))" by (simp flip: map_map)
  then have "distinct (map (f \<circ> snd) (filter (\<lambda>(i, e). is_old opts now i (snd (snd e))) (enumerate 0 es)))"
    by (rule distinct_map_filter)
  then show ?thesis by (simp add: old_entries_def)
qed

lemma roll_entry_Some: "roll_entry dparse opts f = Some e \<Longrightarrow> fst e = df_name f \<and> df_record f = Some (rec_of e)"
  by (auto simp: roll_entry_def split: option.splits if_splits)

lemma roll_entries_from:
  "e \<in> set (roll_entries dparse opts files) \<Longrightarrow> \<exists>f\<in>set files. df_name f = fst e \<and> df_record f = Some (rec_of e)"
  by (auto simp: roll_entries_def mem_map_filter dest!: roll_entry_Some)

lemma roll_entries_names:
  "distinct (map df_name files) \<Longrightarrow> distinct (map fst (roll_entries dparse opts files))"
proof -
  assume d: "distinct (map df_name files)"
  have names: "map fst (List.map_filter (roll_entry dparse opts) fs) = map df_name (filter (\<lambda>f. roll_entry dparse opts f \<noteq> None) fs)" for fs
    by (induction fs) (auto simp: map_filter_simps dest: roll_entry_Some split: option.splits)
  have "distinct (map fst (List.map_filter (roll_entry dparse opts) (filter (\<lambda>f. ro_accept opts (df_name f)) files)))"
    unfolding names by (intro distinct_map_filter d)
  then show ?thesis
    unfolding roll_entries_def using mset_eq_imp_distinct_iff by (metis mset_map mset_sort)
qed

text \<open>Rolling a folder deletes a file only after its record is in a monthly archive: when the records
  have distinct ids, the record of every deleted file is there afterwards, the other files stay as
  they are, and the newest \<open>keepNewest\<close> entries are never deleted.\<close>

theorem rollOldFiles_keeps:
  assumes "distinct (map df_name files)"
    and "distinct (map (\<lambda>e. ro_idOf opts (fst (snd e))) (roll_entries dparse opts files))"
    and "rollOldFiles dparse isostr opts now files a = (files', a', done)"
  shows "files' = filter (\<lambda>f. df_name f \<notin> set done) files \<and>
    (\<forall>f\<in>set files. df_name f \<in> set done \<longrightarrow>
       (\<exists>r month. df_record f = Some r \<and> r \<in> set (readArchive (archivePath (ro_name opts) month) a'))) \<and>
    set done \<inter> fst ` set (take (ro_keepNewest opts) (roll_entries dparse opts files)) = {}"
proof -
  let ?es = "roll_entries dparse opts files"
  let ?old = "old_entries opts now ?es"
  let ?gs = "fold (\<lambda>e. group_put (take 7 (isostr (snd (snd e)))) e) ?old []"
  have run: "roll_months opts ?gs (files, a, []) = (files', a', done)"
    using assms(3) by (simp add: rollOldFiles_def Let_def)
  have ms: "mset (month_records ?gs) = mset ?old"
    by (simp add: mset_grouped) (simp add: month_records_def)
  have set_gs: "set (month_records ?gs) = set ?old" using mset_eq_setD [OF ms] .
  have "distinct (map (\<lambda>e. ro_idOf opts (rec_of e)) (month_records ?gs))"
  proof -
    have "mset (map (\<lambda>e. ro_idOf opts (rec_of e)) (month_records ?gs)) = mset (map (\<lambda>e. ro_idOf opts (rec_of e)) ?old)"
      by (simp only: mset_map ms)
    then show ?thesis using distinct_old_entries [OF assms(2)] mset_eq_imp_distinct_iff by blast
  qed
  note spec = roll_months_spec [OF this run]
  then have dn: "set done = fst ` set ?old" using set_gs by simp
  have "\<exists>r month. df_record f = Some r \<and> r \<in> set (readArchive (archivePath (ro_name opts) month) a')"
    if f: "f \<in> set files" "df_name f \<in> set done" for f
  proof -
    obtain e where e: "e \<in> set ?old" "fst e = df_name f" using f(2) dn by auto
    then have "e \<in> set ?es" using old_entries_nth nth_mem by blast
    then obtain f' where f': "f' \<in> set files" "df_name f' = fst e" "df_record f' = Some (rec_of e)"
      using roll_entries_from by blast
    then have "f' = f" using f(1) e(2) assms(1) by (auto simp: distinct_map inj_on_def)
    moreover have "stored (ro_name opts) (ro_idOf opts) a' (rec_of e)" using spec e(1) set_gs by blast
    ultimately show ?thesis using f'(3) stored_mem by blast
  qed
  moreover have "set done \<inter> fst ` set (take (ro_keepNewest opts) ?es) = {}"
  proof (rule ccontr)
    assume "set done \<inter> fst ` set (take (ro_keepNewest opts) ?es) \<noteq> {}"
    then obtain n where n: "n \<in> fst ` set ?old" "n \<in> fst ` set (take (ro_keepNewest opts) ?es)" using dn by blast
    from n(1) obtain e where 1: "n = fst e" "e \<in> set ?old" by (rule imageE)
    from n(2) obtain e' where 2: "n = fst e'" "e' \<in> set (take (ro_keepNewest opts) ?es)" by (rule imageE)
    from 1 2 have e: "e \<in> set ?old" "e' \<in> set (take (ro_keepNewest opts) ?es)" "fst e = fst e'" by simp_all
    obtain i where i: "i < length ?es" "ro_keepNewest opts \<le> i" "?es ! i = e" using old_entries_nth [OF e(1)] by blast
    obtain j where j: "j < length ?es" "j < ro_keepNewest opts" "?es ! j = e'"
      using e(2) by (auto simp: in_set_conv_nth)
    have "map fst ?es ! i = map fst ?es ! j" using i j e(3) by simp
    then have "i = j"
      using nth_eq_iff_index_eq [OF roll_entries_names [OF assms(1), of dparse opts], of i j] i(1) j(1) by simp
    then show False using i(2) j(2) by simp
  qed
  ultimately show ?thesis using spec dn set_gs by simp
qed

definition roll_example :: roll_opts where
  "roll_example = \<lparr>ro_name = ''runs'', ro_keepDays = 30, ro_accept = (\<lambda>_. True), ro_dateOf = (\<lambda>r _ _. jget r ''at''),
     ro_idOf = (\<lambda>r. js_text (jget r ''runId'')), ro_keepNewest = 0, ro_maxFiles = None\<rparr>"

definition roll_files :: "dir_file list" where
  "roll_files = [\<lparr>df_name = ''a.json'', df_isFile = True,
     df_record = Some (JObj [(''runId'', JStr ''r1''), (''at'', jint 0)]), df_mtime = 0\<rparr>]"

theorem rollOldFiles_keeps_witness:
  "''a.json'' \<in> set (snd (snd (rollOldFiles (\<lambda>_. None) (\<lambda>_. ''1970-01'') roll_example 4000000000 roll_files Map.empty))) \<and>
   (\<exists>r month. df_record (hd roll_files) = Some r \<and>
      r \<in> set (readArchive (archivePath ''runs'' month)
        (fst (snd (rollOldFiles (\<lambda>_. None) (\<lambda>_. ''1970-01'') roll_example 4000000000 roll_files Map.empty)))))"
proof -
  let ?r = "rollOldFiles (\<lambda>_. None) (\<lambda>_. ''1970-01'') roll_example 4000000000 roll_files Map.empty"
  have es: "roll_entries (\<lambda>_. None) roll_example roll_files = [(''a.json'', JObj [(''runId'', JStr ''r1''), (''at'', jint 0)], 0)]"
    by (simp add: roll_entries_def roll_entry_def roll_example_def roll_files_def date_of_def map_filter_simps)
  have dn: "snd (snd ?r) = [''a.json'']"
    unfolding rollOldFiles_def es by (simp add: old_entries_def is_old_def roll_example_def Let_def)
  have 1: "distinct (map df_name roll_files)" by (simp add: roll_files_def)
  have 2: "distinct (map (\<lambda>e. ro_idOf roll_example (fst (snd e))) (roll_entries (\<lambda>_. None) roll_example roll_files))" by (simp add: es)
  have 3: "?r = (fst ?r, fst (snd ?r), snd (snd ?r))" by simp
  have h: "hd roll_files \<in> set roll_files" "df_name (hd roll_files) = ''a.json''" "ro_name roll_example = ''runs''"
    by (simp_all add: roll_files_def roll_example_def)
  have "\<forall>f\<in>set roll_files. df_name f \<in> set (snd (snd ?r)) \<longrightarrow>
     (\<exists>r month. df_record f = Some r \<and> r \<in> set (readArchive (archivePath (ro_name roll_example) month) (fst (snd ?r))))"
    by (rule rollOldFiles_keeps [OF 1 2 3, THEN conjunct2, THEN conjunct1])
  from bspec [OF this h(1)] show ?thesis unfolding h(2,3) dn by simp
qed

theorem writeMonthlyArchive_keeps_witness:
  "distinct (map js_text (readArchive (archivePath ''tasks'' ''2026-01'')
     (fst (writeMonthlyArchive ''tasks'' ''2026-01'' [JStr ''a'', JStr ''a''] js_text js_text Map.empty))))"
  by (rule writeMonthlyArchive_keeps [THEN conjunct2, THEN conjunct1])

end
