(* ===== verification/Store.thy ===== *)
theory Store
  imports State_Schema Redact Archive Reconcile
begin

text \<open>
  The state store, \<open>src/state/store.js\<close>. A file is either text the store printed, given by the value
  it prints, or any other text, given with what \<open>JSON.parse\<close> makes of it; two printed texts are equal
  exactly when the values are. Files are addressed by their path below the state folder. The calls of
  the file system succeed; \<open>Date.parse\<close>, \<open>toISOString\<close> and the \<open>RegExp\<close> constructor are arguments.
\<close>

section \<open>Files\<close>

datatype content = Printed js | Foreign string "js option"

fun parse :: "content \<Rightarrow> js option" where
  "parse (Printed v) = Some v"
| "parse (Foreign t p) = p"

text \<open>What \<open>JSON.stringify\<close> keeps of a value.\<close>

fun json_norm :: "js \<Rightarrow> js" where
  "json_norm (JNum (Fin r)) = JNum (Fin r)"
| "json_norm (JNum _) = JNull"
| "json_norm (JArr xs) = JArr (map (\<lambda>x. if x = JUndef then JNull else json_norm x) xs)"
| "json_norm (JObj kvs) = JObj (map (\<lambda>kv. (fst kv, json_norm (snd kv))) (filter (\<lambda>kv. snd kv \<noteq> JUndef) kvs))"
| "json_norm v = v"

datatype repair_reason = ParseError | SchemaError "verr list"

datatype store_event = Migrated string rat js | Repaired string repair_reason string | Merged "string list"

record store =
  st_now :: int
  st_files :: "(string \<times> content) list"
  st_archive :: archive_dir
  st_written :: "string list"
  st_repairs :: "(string \<times> repair_reason \<times> string option) list"
  st_events :: "store_event list"
  st_baseline :: "content option"

definition file_at :: "store \<Rightarrow> string \<Rightarrow> content option" where
  "file_at s p = map_of (st_files s) p"

definition put_file :: "string \<Rightarrow> content \<Rightarrow> store \<Rightarrow> store" where
  "put_file p c s = s\<lparr>st_files := assoc_put p c (st_files s)\<rparr>"

definition unlink :: "string \<Rightarrow> store \<Rightarrow> store" where
  "unlink p s = s\<lparr>st_files := filter (\<lambda>f. fst f \<noteq> p) (st_files s)\<rparr>"

definition tasks_path :: string where "tasks_path = ''tasks.json''"
definition control_path :: string where "control_path = ''control.json''"
definition heartbeat_path :: string where "heartbeat_path = ''heartbeat.json''"

definition BACKED_UP :: "string list" where "BACKED_UP = [''tasks.json'', ''control.json'']"

definition basename :: "string \<Rightarrow> string" where
  "basename p = last (split_on (\<lambda>c. c = CHR ''/'') p)"

definition backup_path :: "string \<Rightarrow> string" where "backup_path p = ''backup/'' @ basename p"

definition quarantine_path :: "(int \<Rightarrow> string) \<Rightarrow> string \<Rightarrow> int \<Rightarrow> string" where
  "quarantine_path isostr p now =
    ''quarantine/'' @ basename p @ ''.'' @ map (\<lambda>c. if c = CHR '':'' \<or> c = CHR ''.'' then CHR ''-'' else c) (isostr now) @ ''.corrupt''"

section \<open>Reading\<close>

datatype attempt = Bad repair_reason | Good js bool rat

definition attempt_read :: "(string \<Rightarrow> string \<Rightarrow> bool) \<Rightarrow> js \<Rightarrow> bool \<Rightarrow> content \<Rightarrow> attempt" where
  "attempt_read rxt schema migrate c =
    (case parse c of
       None \<Rightarrow> Bad ParseError
     | Some raw \<Rightarrow>
         (let (v, migrated, from_ver) = (if migrate then migrateTasks None raw else (raw, False, 0));
              (ok, errors) = check rxt v schema
          in if ok then Good v migrated from_ver else Bad (SchemaError errors)))"

definition log_store :: "store_event \<Rightarrow> store \<Rightarrow> store" where
  "log_store e s = s\<lparr>st_events := st_events s @ [e]\<rparr>"

definition quarantine :: "(int \<Rightarrow> string) \<Rightarrow> string \<Rightarrow> content \<Rightarrow> store \<Rightarrow> store" where
  "quarantine isostr path c s = put_file (quarantine_path isostr path (st_now s)) c s"

definition readValidated ::
  "(string \<Rightarrow> string \<Rightarrow> bool) \<Rightarrow> (int \<Rightarrow> string) \<Rightarrow> string \<Rightarrow> js \<Rightarrow> js \<Rightarrow> bool \<Rightarrow> store \<Rightarrow> js \<times> store" where
  "readValidated rxt isostr path schema fallback migrate s =
    (case file_at s path of
       None \<Rightarrow> (fallback, s)
     | Some c \<Rightarrow>
         (case attempt_read rxt schema migrate c of
            Good v migrated from_ver \<Rightarrow>
              (v, if migrated then log_store (Migrated (basename path) from_ver (jget v ''version'')) s else s)
          | Bad reason \<Rightarrow>
              (let s1 = quarantine isostr path c s;
                   repair = (\<lambda>b src st. log_store (Repaired (basename path) reason src)
                     (st\<lparr>st_repairs := st_repairs st @ [(basename path, reason, b)]\<rparr>)) in
               case (case file_at s1 (backup_path path) of None \<Rightarrow> Bad ParseError | Some b \<Rightarrow> attempt_read rxt schema migrate b) of
                 Good v _ _ \<Rightarrow> (v, repair (Some ''backup'') ''backup'' s1)
               | Bad _ \<Rightarrow> (fallback, repair None ''default'' s1))))"

section \<open>Writing\<close>

text \<open>\<open>Inl\<close> is the exception of a payload that does not satisfy its schema.\<close>

definition writeJson ::
  "(string \<Rightarrow> string \<Rightarrow> bool) \<Rightarrow> string \<Rightarrow> js \<Rightarrow> js option \<Rightarrow> bool option \<Rightarrow> store \<Rightarrow> verr list + bool \<times> store" where
  "writeJson rxt path data schema backup s =
    (let payload = scrubForState data;
         errors = (case schema of None \<Rightarrow> [] | Some sch \<Rightarrow> snd (check rxt payload sch));
         new = Printed (json_norm payload);
         backed = dflt backup (basename path \<in> set BACKED_UP) in
     if errors \<noteq> [] then Inl errors
     else (case file_at s path of
        None \<Rightarrow> Inr (True, (put_file path new s)\<lparr>st_written := st_written s @ [path]\<rparr>)
      | Some current \<Rightarrow>
          if current = new then Inr (False, s)
          else
            (let s1 = (if backed then put_file (backup_path path) current s else s)
             in Inr (True, (put_file path new s1)\<lparr>st_written := st_written s @ [path]\<rparr>))))"

section \<open>The queue\<close>

text \<open>\<open>stripUpdatedAt\<close>: the first \<open>updatedAt\<close> of the printed text, in the order it is printed, is blanked.\<close>

fun strip_js :: "js \<Rightarrow> js option" and strip_items :: "js list \<Rightarrow> js list option"
  and strip_fields :: "(string \<times> js) list \<Rightarrow> (string \<times> js) list option" where
  "strip_js (JArr xs) = map_option JArr (strip_items xs)"
| "strip_js (JObj kvs) = map_option JObj (strip_fields kvs)"
| "strip_js v = None"
| "strip_items [] = None"
| "strip_items (x # xs) =
     (case strip_js x of Some y \<Rightarrow> Some (y # xs) | None \<Rightarrow> map_option (\<lambda>ys. x # ys) (strip_items xs))"
| "strip_fields [] = None"
| "strip_fields ((k, v) # kvs) =
     (case (if k = ''updatedAt'' then str_of v else None) of
        Some _ \<Rightarrow> Some ((k, JStr []) # kvs)
      | None \<Rightarrow> (case strip_js v of
          Some y \<Rightarrow> Some ((k, y) # kvs)
        | None \<Rightarrow> map_option (\<lambda>r. (k, v) # r) (strip_fields kvs)))"

definition stripUpdatedAt :: "content \<Rightarrow> content" where
  "stripUpdatedAt c = (case c of Printed v \<Rightarrow> Printed (dflt (strip_js v) v) | Foreign t p \<Rightarrow> Foreign t p)"

definition id_of :: "js \<Rightarrow> js" where "id_of t = jget t ''id''"

text \<open>\<open>new Map(pairs).get(k)\<close>: the last pair with the key.\<close>

definition last_by_id :: "js \<Rightarrow> js list \<Rightarrow> js option" where
  "last_by_id i ts = List.find (\<lambda>t. id_of t = i) (rev ts)"

definition merge_one :: "js list \<Rightarrow> js list \<Rightarrow> js list \<Rightarrow> js \<Rightarrow> js" where
  "merge_one ours loaded owned theirTask =
    (case last_by_id (id_of theirTask) ours of
       None \<Rightarrow> theirTask
     | Some mine \<Rightarrow>
         (let theirsUnchanged = (map_option json_norm (last_by_id (id_of theirTask) loaded) = Some (json_norm theirTask))
          in if id_of theirTask \<in> set owned \<or> theirsUnchanged then mine else theirTask))"

definition mergeTasksByOwnership :: "js list \<Rightarrow> js list \<Rightarrow> js option \<Rightarrow> js list \<Rightarrow> js list" where
  "mergeTasksByOwnership ours theirs loadedSnapshot owned =
    (let loaded = arr_of (dflt loadedSnapshot (JArr []))
     in map (merge_one ours loaded owned) theirs @ filter (\<lambda>t. id_of t \<notin> id_of ` set theirs) ours)"

definition loadTasks :: "(string \<Rightarrow> string \<Rightarrow> bool) \<Rightarrow> (int \<Rightarrow> string) \<Rightarrow> store \<Rightarrow> js \<times> store" where
  "loadTasks rxt isostr s =
    (let (file, s1) = readValidated rxt isostr tasks_path TASKS_FILE_SCHEMA (defaultTasksFile (isostr (st_now s))) True s
     in (file, s1\<lparr>st_baseline := file_at s1 tasks_path\<rparr>))"

definition with_field :: "string \<Rightarrow> js \<Rightarrow> js \<Rightarrow> js" where
  "with_field k v file = JObj (assoc_put k v (entries file))"

definition saveTasks ::
  "(string \<Rightarrow> string \<Rightarrow> bool) \<Rightarrow> (int \<Rightarrow> string) \<Rightarrow> js \<Rightarrow> js option \<Rightarrow> js list \<Rightarrow> store \<Rightarrow> verr list + bool \<times> js \<times> store" where
  "saveTasks rxt isostr file loadedSnapshot owned s =
    (let candidate = with_field ''version'' (jint TASKS_SCHEMA_VERSION) file;
         previous = file_at s tasks_path;
         foreign = (loadedSnapshot \<noteq> None \<and> previous \<noteq> None \<and> previous \<noteq> st_baseline s);
         (file1, candidate1, s1) =
           (if foreign then
              (let (onDisk, s') = readValidated rxt isostr tasks_path TASKS_FILE_SCHEMA JNull True s in
               if truthy onDisk \<and> Some (json_norm (jget onDisk ''tasks'')) \<noteq> loadedSnapshot then
                 (let merged = JArr (mergeTasksByOwnership (arr_of (jget file ''tasks'')) (arr_of (jget onDisk ''tasks'')) loadedSnapshot owned)
                  in (with_field ''tasks'' merged file, with_field ''tasks'' merged candidate,
                      log_store (Merged (List.map_filter str_of owned)) s'))
               else (file, candidate, s'))
            else (file, candidate, s));
         text = Printed (json_norm (scrubForState candidate1)) in
     if map_option stripUpdatedAt previous = Some (stripUpdatedAt text) then Inr (False, file1, s1)
     else (case writeJson rxt tasks_path (with_field ''updatedAt'' (JStr (isostr (st_now s))) candidate1) (Some TASKS_FILE_SCHEMA) None s1 of
        Inl e \<Rightarrow> Inl e
      | Inr (written, s2) \<Rightarrow> Inr (written, file1, if written then s2\<lparr>st_baseline := file_at s2 tasks_path\<rparr> else s2)))"

section \<open>Retention\<close>

definition ARCHIVABLE :: "string list" where
  "ARCHIVABLE = [''complete'', ''failed'', ''blocked'', ''cancelled'', ''expired'', ''dead-lettered'']"

definition done_at :: "(string \<Rightarrow> int option) \<Rightarrow> js \<Rightarrow> int option" where
  "done_at dparse t = (case orNull (jget t ''completedAt'') (JStr []) of JStr d \<Rightarrow> dparse d | _ \<Rightarrow> None)"

definition archivable :: "(string \<Rightarrow> int option) \<Rightarrow> int \<Rightarrow> int \<Rightarrow> js \<Rightarrow> bool" where
  "archivable dparse maxAgeMs nowMs t =
    ((case str_of (jget t ''status'') of None \<Rightarrow> False | Some st \<Rightarrow> st \<in> set ARCHIVABLE) \<and>
     (case done_at dparse t of None \<Rightarrow> False | Some d \<Rightarrow> maxAgeMs < nowMs - d))"

definition task_sort_key :: "js \<Rightarrow> string" where
  "task_sort_key t = js_text (jget t ''completedAt'') @ ''|'' @ js_text (jget t ''id'')"

fun archive_months :: "(string \<times> js list) list \<Rightarrow> store \<Rightarrow> store" where
  "archive_months [] s = s"
| "archive_months ((month, rows) # gs) s =
     (let (a, rep) = writeMonthlyArchive ''tasks'' month (map scrubForState rows) (\<lambda>t. js_text (id_of t)) task_sort_key (st_archive s)
      in archive_months gs (s\<lparr>st_archive := a, st_written := st_written s @ [ar_path rep]\<rparr>))"

definition archiveOldTasks ::
  "(string \<Rightarrow> int option) \<Rightarrow> int option \<Rightarrow> nat option \<Rightarrow> js \<Rightarrow> store \<Rightarrow> nat \<times> js \<times> store" where
  "archiveOldTasks dparse maxAgeDays keepMin file s =
    (let old = archivable dparse (dflt maxAgeDays 30 * 86400000) (st_now s);
         tasks = arr_of (jget file ''tasks'');
         keep = filter (\<lambda>t. \<not> old t) tasks;
         archived = filter old tasks in
     if archived = [] \<or> length tasks - length archived < dflt keepMin 20 then (0, file, s)
     else
       (let byMonth = fold (\<lambda>t. group_put (take 7 (js_text (jget t ''completedAt''))) t) archived []
        in (length archived, with_field ''tasks'' (JArr keep) file, archive_months byMonth s)))"

section \<open>The other files\<close>

definition ensureLayout :: "(string \<Rightarrow> string \<Rightarrow> bool) \<Rightarrow> (int \<Rightarrow> string) \<Rightarrow> store \<Rightarrow> store" where
  "ensureLayout rxt isostr s =
    (let lay = (\<lambda>path v st. if file_at st path = None
                            then (case writeJson rxt path v None None st of Inl _ \<Rightarrow> st | Inr (_, st') \<Rightarrow> st') else st);
         now = isostr (st_now s)
     in lay control_path (defaultControl now)
         (lay ''agents.json'' (JObj []) (lay heartbeat_path defaultHeartbeat (lay tasks_path (defaultTasksFile now) s))))"

definition loadHeartbeat :: "(string \<Rightarrow> string \<Rightarrow> bool) \<Rightarrow> (int \<Rightarrow> string) \<Rightarrow> store \<Rightarrow> js \<times> store" where
  "loadHeartbeat rxt isostr s = readValidated rxt isostr heartbeat_path HEARTBEAT_SCHEMA defaultHeartbeat False s"

definition saveHeartbeat :: "(string \<Rightarrow> string \<Rightarrow> bool) \<Rightarrow> js \<Rightarrow> store \<Rightarrow> verr list + bool \<times> store" where
  "saveHeartbeat rxt hb s = writeJson rxt heartbeat_path hb (Some HEARTBEAT_SCHEMA) None s"

definition loadControl :: "(string \<Rightarrow> string \<Rightarrow> bool) \<Rightarrow> (int \<Rightarrow> string) \<Rightarrow> store \<Rightarrow> js \<times> store" where
  "loadControl rxt isostr s =
    readValidated rxt isostr control_path CONTROL_SCHEMA (defaultControl (isostr (st_now s))) False s"

definition saveControl :: "(string \<Rightarrow> string \<Rightarrow> bool) \<Rightarrow> js \<Rightarrow> store \<Rightarrow> verr list + bool \<times> store" where
  "saveControl rxt control s =
    writeJson rxt control_path (with_field ''version'' (jint CONTROL_VERSION) control) (Some CONTROL_SCHEMA) None s"

definition checkpointPath :: "string \<Rightarrow> string" where
  "checkpointPath taskId = ''checkpoints/'' @ safeName taskId @ ''.json''"

definition loadCheckpoint :: "(string \<Rightarrow> string \<Rightarrow> bool) \<Rightarrow> (int \<Rightarrow> string) \<Rightarrow> string \<Rightarrow> store \<Rightarrow> js \<times> store" where
  "loadCheckpoint rxt isostr taskId s =
    (if file_at s (checkpointPath taskId) = None then (JNull, s)
     else readValidated rxt isostr (checkpointPath taskId) CHECKPOINT_SCHEMA JNull False s)"

definition saveCheckpoint :: "(string \<Rightarrow> string \<Rightarrow> bool) \<Rightarrow> (int \<Rightarrow> string) \<Rightarrow> js \<Rightarrow> store \<Rightarrow> verr list + bool \<times> store" where
  "saveCheckpoint rxt isostr cp s =
    writeJson rxt (checkpointPath (js_text (jget cp ''taskId'')))
      (with_field ''updatedAt'' (JStr (isostr (st_now s))) (with_field ''version'' (jint 1) cp))
      (Some CHECKPOINT_SCHEMA) (Some False) s"

definition delete_checkpoint :: "string \<Rightarrow> store \<Rightarrow> store" where
  "delete_checkpoint taskId s =
    (if file_at s (checkpointPath taskId) \<noteq> None
     then (unlink (checkpointPath taskId) s)\<lparr>st_written := st_written s @ [checkpointPath taskId]\<rparr> else s)"

definition listCheckpoints :: "store \<Rightarrow> string list" where
  "listCheckpoints s =
    List.map_filter (\<lambda>f. if startsWith (fst f) ''checkpoints/'' \<and> endsWith (fst f) ''.json''
                        then Some (take (length (fst f) - 17) (drop 12 (fst f))) else None) (st_files s)"

definition writeView :: "(string \<Rightarrow> string \<Rightarrow> bool) \<Rightarrow> string \<Rightarrow> js \<Rightarrow> store \<Rightarrow> verr list + bool \<times> store" where
  "writeView rxt name data s =
    (let path = ''views/'' @ name;
         next' = Printed (json_norm (scrubForState data)) in
     if map_option stripUpdatedAt (file_at s path) = Some (stripUpdatedAt next') then Inr (False, s)
     else writeJson rxt path data None (Some False) s)"

section \<open>The merge of two queues\<close>

lemma last_by_id_with: "last_by_id i ts = last_with id_of i ts"
  by (simp add: last_by_id_def last_with_def)

lemma last_by_id_mem: "last_by_id i ts = Some t \<Longrightarrow> t \<in> set ts \<and> id_of t = i"
  unfolding last_by_id_with by (rule last_with_mem)

lemma last_by_id_distinct: "distinct (map id_of ts) \<Longrightarrow> t \<in> set ts \<Longrightarrow> last_by_id (id_of t) ts = Some t"
  unfolding last_by_id_with by (rule last_with_distinct)

lemma last_by_id_None: "last_by_id i ts = None \<longleftrightarrow> i \<notin> id_of ` set ts"
  unfolding last_by_id_with by (rule last_with_None)

lemma id_of_merge_one: "id_of (merge_one ours loaded owned t) = id_of t"
  by (auto simp: merge_one_def Let_def split: option.splits dest: last_by_id_mem)

lemma ids_of_merge:
  "map id_of (mergeTasksByOwnership ours theirs snap owned) =
   map id_of theirs @ map id_of (filter (\<lambda>t. id_of t \<notin> id_of ` set theirs) ours)"
  by (simp add: mergeTasksByOwnership_def Let_def id_of_merge_one comp_def)

lemma merge_one_theirs:
  "id_of t \<notin> set owned \<Longrightarrow> map_option json_norm (last_by_id (id_of t) loaded) \<noteq> Some (json_norm t) \<Longrightarrow>
   merge_one ours loaded owned t = t"
  "id_of t \<notin> id_of ` set ours \<Longrightarrow> merge_one ours loaded owned t = t"
  by (auto simp: merge_one_def Let_def last_by_id_None [THEN iffD2] split: option.split)


definition queue_task :: "string \<Rightarrow> string \<Rightarrow> js" where
  "queue_task i st = JObj [(''id'', JStr i), (''status'', JStr st)]"


section \<open>Reading and writing a file\<close>

lemma file_at_put [simp]: "file_at (put_file p c s) q = (if q = p then Some c else file_at s q)"
  by (simp add: file_at_def put_file_def)

lemma file_at_frame [simp]:
  "file_at (s\<lparr>st_written := w\<rparr>) p = file_at s p" "file_at (s\<lparr>st_repairs := r\<rparr>) p = file_at s p"
  "file_at (s\<lparr>st_baseline := b\<rparr>) p = file_at s p" "file_at (s\<lparr>st_archive := a\<rparr>) p = file_at s p"
  "file_at (log_store e s) p = file_at s p"
  by (simp_all add: file_at_def log_store_def)

lemma st_frame [simp]:
  "st_now (put_file p c s) = st_now s" "st_now (log_store e s) = st_now s" "st_baseline (put_file p c s) = st_baseline s"
  "st_baseline (log_store e s) = st_baseline s" "st_written (put_file p c s) = st_written s"
  "st_repairs (put_file p c s) = st_repairs s" "st_repairs (log_store e s) = st_repairs s"
  by (simp_all add: put_file_def log_store_def)

lemma quarantine_frame [simp]:
  "file_at (quarantine isostr path c s) p = (if p = quarantine_path isostr path (st_now s) then Some c else file_at s p)"
  "st_now (quarantine isostr path c s) = st_now s" "st_baseline (quarantine isostr path c s) = st_baseline s"
  "st_repairs (quarantine isostr path c s) = st_repairs s"
  by (simp_all add: quarantine_def)

lemma quarantine_elsewhere:
  "p \<in> {tasks_path, control_path, heartbeat_path} \<Longrightarrow> p \<noteq> quarantine_path isostr path now"
  "backup_path q \<noteq> quarantine_path isostr path now"
  by (auto simp: tasks_path_def control_path_def heartbeat_path_def quarantine_path_def backup_path_def)

definition accepted :: "(string \<Rightarrow> string \<Rightarrow> bool) \<Rightarrow> js \<Rightarrow> bool \<Rightarrow> content \<Rightarrow> js \<Rightarrow> bool" where
  "accepted rxt schema migrate c v = (\<exists>m n. attempt_read rxt schema migrate c = Good v m n)"

lemma accepted_valid: "accepted rxt schema migrate c v \<Longrightarrow> check rxt v schema = (True, [])"
  by (auto simp: accepted_def attempt_read_def check_def Let_def split: option.splits prod.splits if_splits)

lemma not_accepted: "(\<nexists>v. accepted rxt schema migrate c v) \<longleftrightarrow> (\<exists>r. attempt_read rxt schema migrate c = Bad r)"
  by (cases "attempt_read rxt schema migrate c") (auto simp: accepted_def)

text \<open>Reading never throws and never loses bytes. A missing file gives the default; a file that parses
  and validates (after its migration) gives its value; for any other the bytes are set aside
  unchanged, the repair is on record, the file itself stays as it is, and the answer is the backup's
  value if the backup is good and the default otherwise. So what comes back satisfies the schema or is
  the default.\<close>

theorem readValidated_total:
  fixes rxt and isostr and path and schema and fallback and migrate and s
  defines "r \<equiv> readValidated rxt isostr path schema fallback migrate s"
  assumes "path \<in> {tasks_path, control_path, heartbeat_path}"
  shows "(fst r = fallback \<or> check rxt (fst r) schema = (True, [])) \<and>
    file_at (snd r) path = file_at s path \<and> file_at (snd r) (backup_path path) = file_at s (backup_path path) \<and>
    (file_at s path = None \<longrightarrow> r = (fallback, s)) \<and>
    (\<forall>c v. file_at s path = Some c \<and> accepted rxt schema migrate c v \<longrightarrow> fst r = v \<and> st_repairs (snd r) = st_repairs s) \<and>
    (\<forall>c. file_at s path = Some c \<and> (\<nexists>v. accepted rxt schema migrate c v) \<longrightarrow>
       file_at (snd r) (quarantine_path isostr path (st_now s)) = Some c \<and>
       length (st_repairs (snd r)) = Suc (length (st_repairs s)) \<and>
       (\<forall>b v. file_at s (backup_path path) = Some b \<and> accepted rxt schema migrate b v \<longrightarrow> fst r = v))"
proof (cases "file_at s path")
  case None
  then show ?thesis by (simp add: r_def readValidated_def)
next
  case (Some c)
  note elsewhere = quarantine_elsewhere(1) [OF assms(2), of isostr path "st_now s"]
    quarantine_elsewhere(2) [of path isostr path "st_now s"]
  show ?thesis
  proof (cases "attempt_read rxt schema migrate c")
    case (Good v m n)
    then have v: "accepted rxt schema migrate c v" by (auto simp: accepted_def)
    have "r = (v, if m then log_store (Migrated (basename path) n (jget v ''version'')) s else s)"
      using Some Good by (simp add: r_def readValidated_def)
    then show ?thesis using Some Good v accepted_valid [OF v] by (auto simp: accepted_def)
  next
    case (Bad reason)
    then have no: "\<not> accepted rxt schema migrate c v" for v by (simp add: accepted_def)
    let ?s1 = "quarantine isostr path c s"
    show ?thesis
    proof (cases "case file_at ?s1 (backup_path path) of None \<Rightarrow> attempt.Bad ParseError | Some b \<Rightarrow> attempt_read rxt schema migrate b")
      case (Good v m n)
      then obtain b where b: "file_at s (backup_path path) = Some b" "accepted rxt schema migrate b v"
        using elsewhere(2) by (auto simp: accepted_def split: option.splits)
      have "r = (v, log_store (Repaired (basename path) reason ''backup'')
          (?s1\<lparr>st_repairs := st_repairs ?s1 @ [(basename path, reason, Some ''backup'')]\<rparr>))"
        using Some Bad Good by (simp add: r_def readValidated_def Let_def)
      then show ?thesis using Some no b accepted_valid [OF b(2)] elsewhere by (auto simp: accepted_def)
    next
      case (Bad reason2)
      then have b: "\<not> accepted rxt schema migrate b v" if "file_at s (backup_path path) = Some b" for b v
        using elsewhere(2) that by (auto simp: accepted_def split: option.splits)
      have "r = (fallback, log_store (Repaired (basename path) reason ''default'')
          (?s1\<lparr>st_repairs := st_repairs ?s1 @ [(basename path, reason, None)]\<rparr>))"
        using Some \<open>attempt_read rxt schema migrate c = attempt.Bad reason\<close> Bad by (simp add: r_def readValidated_def Let_def)
      then show ?thesis using Some no b elsewhere by auto
    qed
  qed
qed

theorem readValidated_total_witness:
  "file_at (snd (readValidated (\<lambda>_ _. True) (\<lambda>_. ''t'') tasks_path TASKS_FILE_SCHEMA JNull True
     \<lparr>st_now = 0, st_files = [(tasks_path, Foreign ''{'' None)], st_archive = Map.empty, st_written = [], st_repairs = [],
      st_events = [], st_baseline = None\<rparr>)) tasks_path = Some (Foreign ''{'' None)"
proof -
  let ?s = "\<lparr>st_now = 0, st_files = [(tasks_path, Foreign ''{'' None)], st_archive = Map.empty, st_written = [], st_repairs = [],
      st_events = [], st_baseline = None\<rparr>"
  have p: "tasks_path \<in> {tasks_path, control_path, heartbeat_path}" by simp
  show ?thesis
    using readValidated_total [OF p, of "\<lambda>_ _. True" "\<lambda>_. ''t''" TASKS_FILE_SCHEMA JNull True ?s, THEN conjunct2, THEN conjunct1]
    by (simp add: file_at_def)
qed

lemma writeJson_result:
  assumes "writeJson rxt path data (Some schema) backup s = Inr (w, s')"
  shows "check rxt (scrubForState data) schema = (True, []) \<and>
    file_at s' path = Some (Printed (json_norm (scrubForState data))) \<and>
    (w \<longleftrightarrow> file_at s path \<noteq> Some (Printed (json_norm (scrubForState data)))) \<and>
    st_baseline s' = st_baseline s \<and> st_now s' = st_now s \<and>
    (\<not> w \<longrightarrow> s' = s) \<and>
    (w \<and> path \<noteq> backup_path path \<and> dflt backup (basename path \<in> set BACKED_UP) \<and> file_at s path \<noteq> None \<longrightarrow>
       file_at s' (backup_path path) = file_at s path)"
proof -
  have "snd (check rxt (scrubForState data) schema) = []"
    using assms by (auto simp: writeJson_def Let_def split: if_splits)
  moreover from this have "check rxt (scrubForState data) schema = (True, [])" by (simp add: check_def Let_def)
  ultimately show ?thesis
    using assms by (auto simp: writeJson_def Let_def split: if_splits option.splits)
qed

lemma jget_with_field: "jget (with_field k v f) j = (if j = k then v else jget (JObj (entries f)) j)"
  by (simp add: with_field_def)

lemma jget_entries [simp]: "jget (JObj (entries f)) j = jget f j"
  by (cases f) simp_all

lemma jget_scrub: "d < SCRUB_DEPTH \<Longrightarrow> jget (scrub d (JObj kvs)) k = scrub (Suc d) (jget (JObj kvs) k)"
proof -
  assume d: "d < SCRUB_DEPTH"
  have "map_of (map (\<lambda>(k, v). (k, scrub (Suc d) v)) kvs) k = map_option (scrub (Suc d)) (map_of kvs k)"
    by (induction kvs) auto
  then show ?thesis using d by (auto simp: dflt_def split: option.splits)
qed

lemma readValidated_file:
  "p \<in> {tasks_path, control_path, heartbeat_path} \<Longrightarrow>
   file_at (snd (readValidated rxt isostr path schema fallback migrate s)) p = file_at s p"
  using quarantine_elsewhere(1) [of p isostr path "st_now s"]
  by (auto simp: readValidated_def Let_def split: option.split attempt.split)

lemma readValidated_frame [simp]:
  "st_now (snd (readValidated rxt isostr path schema fallback migrate s)) = st_now s"
  "st_baseline (snd (readValidated rxt isostr path schema fallback migrate s)) = st_baseline s"
  by (auto simp: readValidated_def Let_def split: option.split attempt.split)

text \<open>Saving the queue: when another process wrote since, and its file is sound and differs, the
  tasks become the merge of the two; otherwise they stay ours. Whatever is then on disk after a write
  satisfies the schema and holds those tasks, scrubbed; without a write the file is as it was.\<close>

theorem saveTasks_outcome:
  assumes "saveTasks rxt isostr file snap owned s = Inr (w, file', s')"
  shows "(if snap \<noteq> None \<and> file_at s tasks_path \<noteq> None \<and> file_at s tasks_path \<noteq> st_baseline s \<and>
        (let d = fst (readValidated rxt isostr tasks_path TASKS_FILE_SCHEMA JNull True s)
         in truthy d \<and> Some (json_norm (jget d ''tasks'')) \<noteq> snap)
      then jget file' ''tasks'' = JArr (mergeTasksByOwnership (arr_of (jget file ''tasks''))
        (arr_of (jget (fst (readValidated rxt isostr tasks_path TASKS_FILE_SCHEMA JNull True s)) ''tasks'')) snap owned)
      else file' = file) \<and>
    (w \<longrightarrow> (\<exists>v. check rxt v TASKS_FILE_SCHEMA = (True, []) \<and> file_at s' tasks_path = Some (Printed (json_norm v)) \<and>
       jget v ''tasks'' = scrub 1 (jget file' ''tasks'') \<and> st_baseline s' = file_at s' tasks_path)) \<and>
    (\<not> w \<longrightarrow> file_at s' tasks_path = file_at s tasks_path)"
proof -
  let ?rv = "readValidated rxt isostr tasks_path TASKS_FILE_SCHEMA JNull True s"
  let ?foreign = "snap \<noteq> None \<and> file_at s tasks_path \<noteq> None \<and> file_at s tasks_path \<noteq> st_baseline s"
  let ?differs = "truthy (fst ?rv) \<and> Some (json_norm (jget (fst ?rv) ''tasks'')) \<noteq> snap"
  let ?merged = "JArr (mergeTasksByOwnership (arr_of (jget file ''tasks'')) (arr_of (jget (fst ?rv) ''tasks'')) snap owned)"
  let ?cand = "with_field ''version'' (jint TASKS_SCHEMA_VERSION) file"
  define file1 where "file1 = (if ?foreign \<and> ?differs then with_field ''tasks'' ?merged file else file)"
  define cand1 where "cand1 = (if ?foreign \<and> ?differs then with_field ''tasks'' ?merged ?cand else ?cand)"
  define s1 where "s1 = (if ?foreign then if ?differs then log_store (Merged (List.map_filter str_of owned)) (snd ?rv) else snd ?rv else s)"
  let ?text = "Printed (json_norm (scrubForState cand1))"
  let ?data = "with_field ''updatedAt'' (JStr (isostr (st_now s))) cand1"
  have shape: "saveTasks rxt isostr file snap owned s =
    (if map_option stripUpdatedAt (file_at s tasks_path) = Some (stripUpdatedAt ?text) then Inr (False, file1, s1)
     else (case writeJson rxt tasks_path ?data (Some TASKS_FILE_SCHEMA) None s1 of
        Inl e \<Rightarrow> Inl e
      | Inr a \<Rightarrow> Inr (fst a, file1, if fst a then (snd a)\<lparr>st_baseline := file_at (snd a) tasks_path\<rparr> else snd a)))"
  proof (cases ?foreign)
    case False
    then have fo: "?foreign = False" by (rule iffD2 [OF eq_False])
    show ?thesis
      unfolding saveTasks_def Let_def file1_def cand1_def s1_def fo split_beta
      by (simp only: if_False simp_thms fst_conv snd_conv)
  next
    case True
    then have fo: "?foreign = True" by (rule iffD2 [OF eq_True])
    show ?thesis
    proof (cases ?differs)
      case False
      then have di: "?differs = False" by (rule iffD2 [OF eq_False])
      show ?thesis
        unfolding saveTasks_def Let_def file1_def cand1_def s1_def fo split_beta
        by (simp only: if_True if_False prod.case simp_thms split_beta di fst_conv snd_conv)
    next
      case True
      then have di: "?differs = True" by (rule iffD2 [OF eq_True])
      show ?thesis
        unfolding saveTasks_def Let_def file1_def cand1_def s1_def fo split_beta
        by (simp only: if_True prod.case simp_thms split_beta di fst_conv snd_conv)
    qed
  qed
  have s1: "file_at s1 tasks_path = file_at s tasks_path" by (simp add: s1_def readValidated_file)
  have tasks: "jget (scrubForState ?data) ''tasks'' = scrub 1 (jget file1 ''tasks'')"
  proof -
    have d: "?data = JObj (entries ?data)" by (simp add: with_field_def)
    have "jget (scrubForState ?data) ''tasks'' = scrub 1 (jget ?data ''tasks'')"
      unfolding scrubForState_def by (subst d, subst jget_scrub) (simp_all add: SCRUB_DEPTH_def with_field_def)
    also have "jget ?data ''tasks'' = jget file1 ''tasks''"
    proof (cases "?foreign \<and> ?differs")
      case True
      show ?thesis unfolding cand1_def file1_def if_P [OF True] by (simp add: jget_with_field del: jget.simps)
    next
      case False
      show ?thesis unfolding cand1_def file1_def if_not_P [OF False] by (simp add: jget_with_field del: jget.simps)
    qed
    finally show ?thesis .
  qed
  have f1: "if ?foreign \<and> ?differs then jget file1 ''tasks'' = ?merged else file1 = file"
  proof (cases "?foreign \<and> ?differs")
    case True
    show ?thesis unfolding file1_def if_P [OF True] by (simp add: jget_with_field del: jget.simps)
  next
    case False
    show ?thesis unfolding file1_def if_not_P [OF False] by (rule refl)
  qed
  consider (same) "w = False" "file' = file1" "s' = s1"
    | (wrote) s2 where "writeJson rxt tasks_path ?data (Some TASKS_FILE_SCHEMA) None s1 = Inr (w, s2)" "file' = file1"
        "s' = (if w then s2\<lparr>st_baseline := file_at s2 tasks_path\<rparr> else s2)"
    using assms unfolding shape by (auto split: if_splits sum.splits)
  then show ?thesis
  proof cases
    case same
    then show ?thesis using f1 s1 by (simp add: Let_def)
  next
    case wrote
    note wr = writeJson_result [OF wrote(1)]
    have "\<exists>v. check rxt v TASKS_FILE_SCHEMA = (True, []) \<and> file_at s' tasks_path = Some (Printed (json_norm v)) \<and>
       jget v ''tasks'' = scrub 1 (jget file' ''tasks'') \<and> st_baseline s' = file_at s' tasks_path" if w
      using that wr tasks wrote(2,3) by (intro exI [of _ "scrubForState ?data"]) simp
    moreover have "file_at s' tasks_path = file_at s tasks_path" if "\<not> w"
      using that wr s1 wrote(3) by simp
    ultimately show ?thesis using f1 wrote(2) by (simp add: Let_def)
  qed
qed

definition empty_queue :: "string \<Rightarrow> js" where
  "empty_queue t = JObj [(''version'', jint 2), (''updatedAt'', JStr t), (''tasks'', JArr [])]"

definition one_file :: "string \<Rightarrow> content \<Rightarrow> content option \<Rightarrow> store" where
  "one_file p c b = \<lparr>st_now = 0, st_files = [(p, c)], st_archive = Map.empty, st_written = [], st_repairs = [],
     st_events = [], st_baseline = b\<rparr>"

theorem saveTasks_outcome_witness:
  "\<exists>f s'. saveTasks (\<lambda>_ _. True) (\<lambda>_. ''v'') (empty_queue ''u'') None [] (one_file tasks_path (Printed (empty_queue ''t'')) None)
     = Inr (False, f, s') \<and> file_at s' tasks_path = Some (Printed (empty_queue ''t''))"
proof -
  let ?s = "one_file tasks_path (Printed (empty_queue ''t'')) None"
  have "case saveTasks (\<lambda>_ _. True) (\<lambda>_. ''v'') (empty_queue ''u'') None [] ?s of Inl _ \<Rightarrow> False | Inr r \<Rightarrow> \<not> fst r"
    by code_simp
  then obtain f s' where run: "saveTasks (\<lambda>_ _. True) (\<lambda>_. ''v'') (empty_queue ''u'') None [] ?s = Inr (False, f, s')"
    by (auto split: sum.splits)
  have "file_at s' tasks_path = file_at ?s tasks_path"
    using saveTasks_outcome [OF run] by blast
  then show ?thesis using run by (simp add: one_file_def file_at_def)
qed

section \<open>A repair spoils the backup\<close>

lemma loadTasks_disk:
  "file_at (snd (loadTasks rxt isostr s)) tasks_path = file_at s tasks_path"
  "st_baseline (snd (loadTasks rxt isostr s)) = file_at s tasks_path"
  "st_now (snd (loadTasks rxt isostr s)) = st_now s"
  using readValidated_file [of tasks_path rxt isostr tasks_path]
  by (simp_all add: loadTasks_def split_beta)

lemma own_save:
  assumes "file_at s tasks_path = st_baseline s"
  shows "saveTasks rxt isostr file snap owned s =
    (let candidate = with_field ''version'' (jint TASKS_SCHEMA_VERSION) file in
     if map_option stripUpdatedAt (file_at s tasks_path) = Some (stripUpdatedAt (Printed (json_norm (scrubForState candidate))))
     then Inr (False, file, s)
     else (case writeJson rxt tasks_path (with_field ''updatedAt'' (JStr (isostr (st_now s))) candidate) (Some TASKS_FILE_SCHEMA) None s of
        Inl e \<Rightarrow> Inl e
      | Inr (written, s2) \<Rightarrow> Inr (written, file, if written then s2\<lparr>st_baseline := file_at s2 tasks_path\<rparr> else s2)))"
  unfolding saveTasks_def Let_def using assms by simp

text \<open>The backup survives a repair only until the next save. When the queue's bytes on disk are
  corrupt, loading answers with the good backup and leaves the bytes there; the first save that
  writes copies those corrupt bytes over the backup before it replaces them, so that a second
  corruption finds no good copy and the queue becomes the empty default.\<close>

theorem repair_spoils_the_backup:
  assumes "file_at s tasks_path = Some c" and "attempt_read rxt TASKS_FILE_SCHEMA True c = Bad reason"
    and "saveTasks rxt isostr file snap owned (snd (loadTasks rxt isostr s)) = Inr (True, file', s2)"
  shows "file_at s2 (backup_path tasks_path) = Some c \<and>
    fst (loadTasks rxt isostr (put_file tasks_path c s2)) = defaultTasksFile (isostr (st_now s2))"
proof -
  let ?s1 = "snd (loadTasks rxt isostr s)"
  have other: "backup_path tasks_path \<noteq> tasks_path" and base: "basename tasks_path \<in> set BACKED_UP"
    by (code_simp, code_simp)
  have s1: "file_at ?s1 tasks_path = Some c" "st_baseline ?s1 = Some c"
    using assms(1) by (simp_all add: loadTasks_disk)
  obtain s3 where w: "writeJson rxt tasks_path
      (with_field ''updatedAt'' (JStr (isostr (st_now ?s1))) (with_field ''version'' (jint TASKS_SCHEMA_VERSION) file))
      (Some TASKS_FILE_SCHEMA) None ?s1 = Inr (True, s3)" "s2 = s3\<lparr>st_baseline := file_at s3 tasks_path\<rparr>"
    using assms(3) s1 by (auto simp: own_save Let_def split: if_splits sum.splits)
  have b: "file_at s2 (backup_path tasks_path) = Some c"
    using writeJson_result [OF w(1)] w(2) s1(1) other base by simp
  have "readValidated rxt isostr tasks_path TASKS_FILE_SCHEMA fb True (put_file tasks_path c s2) =
      (fb, snd (readValidated rxt isostr tasks_path TASKS_FILE_SCHEMA fb True (put_file tasks_path c s2)))" for fb
    using assms(2) b other quarantine_elsewhere(2) [of tasks_path isostr tasks_path "st_now s2"]
    by (simp add: readValidated_def Let_def)
  then have "fst (loadTasks rxt isostr (put_file tasks_path c s2)) = defaultTasksFile (isostr (st_now s2))"
    unfolding loadTasks_def split_beta by (metis fst_conv st_frame(1))
  with b show ?thesis by blast
qed

definition torn_store :: store where
  "torn_store = \<lparr>st_now = 0, st_files = [(tasks_path, Foreign ''{'' None), (backup_path tasks_path, Printed (empty_queue ''t''))],
     st_archive = Map.empty, st_written = [], st_repairs = [], st_events = [], st_baseline = None\<rparr>"

theorem repair_spoils_the_backup_witness:
  "\<exists>f s2. saveTasks (\<lambda>_ _. True) (\<lambda>_. ''v'') (empty_queue ''u'') None [] (snd (loadTasks (\<lambda>_ _. True) (\<lambda>_. ''v'') torn_store)) =
     Inr (True, f, s2) \<and> file_at s2 (backup_path tasks_path) = Some (Foreign ''{'' None)"
proof -
  have f: "file_at torn_store tasks_path = Some (Foreign ''{'' None)" by (simp add: torn_store_def file_at_def)
  have b: "attempt_read (\<lambda>_ _. True) TASKS_FILE_SCHEMA True (Foreign ''{'' None) = Bad ParseError" by (simp add: attempt_read_def)
  have "case saveTasks (\<lambda>_ _. True) (\<lambda>_. ''v'') (empty_queue ''u'') None [] (snd (loadTasks (\<lambda>_ _. True) (\<lambda>_. ''v'') torn_store)) of
      Inl _ \<Rightarrow> False | Inr r \<Rightarrow> fst r"
    by code_simp
  then obtain g s2 where run: "saveTasks (\<lambda>_ _. True) (\<lambda>_. ''v'') (empty_queue ''u'') None []
      (snd (loadTasks (\<lambda>_ _. True) (\<lambda>_. ''v'') torn_store)) = Inr (True, g, s2)"
    by (auto split: sum.splits)
  show ?thesis using run repair_spoils_the_backup [OF f b run] by blast
qed

section \<open>Retention and checkpoints\<close>

lemma archive_months_stored:
  assumes "distinct (map (\<lambda>t. js_text (id_of (scrubForState t))) (concat (map snd gs)))"
  shows "(\<forall>t\<in>set (concat (map snd gs)). stored ''tasks'' (\<lambda>t. js_text (id_of t)) (st_archive (archive_months gs s)) (scrubForState t)) \<and>
    (\<forall>r. stored ''tasks'' (\<lambda>t. js_text (id_of t)) (st_archive s) r \<and>
       js_text (id_of r) \<notin> (\<lambda>t. js_text (id_of (scrubForState t))) ` set (concat (map snd gs)) \<longrightarrow>
       stored ''tasks'' (\<lambda>t. js_text (id_of t)) (st_archive (archive_months gs s)) r)"
  using assms
proof (induction gs arbitrary: s)
  case Nil
  then show ?case by simp
next
  case (Cons g gs)
  obtain month rows where g: "g = (month, rows)" by (cases g)
  let ?k = "\<lambda>t. js_text (id_of t)"
  let ?w = "writeMonthlyArchive ''tasks'' month (map scrubForState rows) ?k task_sort_key (st_archive s)"
  let ?s1 = "s\<lparr>st_archive := fst ?w, st_written := st_written s @ [ar_path (snd ?w)]\<rparr>"
  have run: "archive_months (g # gs) s = archive_months gs ?s1" by (simp add: g split_beta)
  have d: "distinct (map (\<lambda>t. ?k (scrubForState t)) (concat (map snd gs)))"
    "distinct (map ?k (map scrubForState rows))"
    "(\<lambda>t. ?k (scrubForState t)) ` set rows \<inter> (\<lambda>t. ?k (scrubForState t)) ` set (concat (map snd gs)) = {}"
    using Cons.prems by (simp_all add: g comp_def)
  note IH = Cons.IH [OF d(1), of ?s1]
  have "stored ''tasks'' ?k (st_archive (archive_months gs ?s1)) (scrubForState t)" if "t \<in> set rows" for t
  proof -
    have "last_with ?k (?k (scrubForState t)) (map scrubForState rows) = Some (scrubForState t)"
      using that d(2) by (intro last_with_distinct) auto
    then have "stored ''tasks'' ?k (st_archive ?s1) (scrubForState t)"
      using written_stored [of ?k "scrubForState t"] by simp
    then show ?thesis using IH d(3) that by blast
  qed
  moreover have "stored ''tasks'' ?k (st_archive (archive_months gs ?s1)) r"
    if "stored ''tasks'' ?k (st_archive s) r" "?k r \<notin> (\<lambda>t. ?k (scrubForState t)) ` set (concat (map snd (g # gs)))" for r
  proof -
    have "?k r \<notin> ?k ` set (map scrubForState rows)" using that(2) by (auto simp: g)
    then have "stored ''tasks'' ?k (st_archive ?s1) r" using written_keeps_stored [OF that(1)] by simp
    moreover have "?k r \<notin> (\<lambda>t. ?k (scrubForState t)) ` set (concat (map snd gs))"
      using that(2) by (simp add: g image_Un)
    ultimately show ?thesis by (intro IH [THEN conjunct2, rule_format] conjI)
  qed
  moreover have "set (concat (map snd (g # gs))) = set rows \<union> set (concat (map snd gs))" by (simp add: g)
  ultimately show ?case using IH [THEN conjunct1] unfolding run by blast
qed

text \<open>Retention moves tasks, it does not drop them: what leaves the queue is terminal and older than
  the limit, and a scrubbed copy of each is in a monthly archive; everything else stays in order, and
  nothing moves while fewer than \<open>keepMin\<close> tasks would remain.\<close>

theorem archiveOldTasks_moves:
  assumes "distinct (map (\<lambda>t. js_text (id_of (scrubForState t))) (arr_of (jget file ''tasks'')))"
    and "archiveOldTasks dparse maxAgeDays keepMin file s = (n, file', s')"
  shows "(\<forall>t\<in>set (arr_of (jget file ''tasks'')).
      t \<in> set (arr_of (jget file' ''tasks'')) \<or>
      (archivable dparse (dflt maxAgeDays 30 * 86400000) (st_now s) t \<and>
       (\<exists>month. scrubForState t \<in> set (readArchive (archivePath ''tasks'' month) (st_archive s'))))) \<and>
    (n = 0 \<longrightarrow> file' = file \<and> s' = s) \<and>
    (0 < n \<longrightarrow> dflt keepMin 20 \<le> length (arr_of (jget file' ''tasks'')) \<and>
      arr_of (jget file' ''tasks'') =
        filter (\<lambda>t. \<not> archivable dparse (dflt maxAgeDays 30 * 86400000) (st_now s) t) (arr_of (jget file ''tasks'')))"
proof -
  let ?old = "archivable dparse (dflt maxAgeDays 30 * 86400000) (st_now s)"
  let ?ts = "arr_of (jget file ''tasks'')"
  let ?gs = "fold (\<lambda>t. group_put (take 7 (js_text (jget t ''completedAt''))) t) (filter ?old ?ts) []"
  consider (idle) "n = 0" "file' = file" "s' = s"
    | (moved) "n = length (filter ?old ?ts)" "filter ?old ?ts \<noteq> []" "dflt keepMin 20 \<le> length ?ts - length (filter ?old ?ts)"
        "file' = with_field ''tasks'' (JArr (filter (\<lambda>t. \<not> ?old t) ?ts)) file" "s' = archive_months ?gs s"
  proof (cases "filter ?old ?ts = [] \<or> length ?ts - length (filter ?old ?ts) < dflt keepMin 20")
    case True
    then have "archiveOldTasks dparse maxAgeDays keepMin file s = (0, file, s)"
      unfolding archiveOldTasks_def Let_def by (rule if_P)
    then show ?thesis using assms(2) idle by simp
  next
    case False
    then have "archiveOldTasks dparse maxAgeDays keepMin file s =
        (length (filter ?old ?ts), with_field ''tasks'' (JArr (filter (\<lambda>t. \<not> ?old t) ?ts)) file, archive_months ?gs s)"
      unfolding archiveOldTasks_def Let_def by (rule if_not_P)
    moreover have "filter ?old ?ts \<noteq> []" "dflt keepMin 20 \<le> length ?ts - length (filter ?old ?ts)"
      using False by (simp_all only: de_Morgan_disj not_less simp_thms)
    ultimately show ?thesis using assms(2) moved by (simp only: prod.inject simp_thms)
  qed
  then show ?thesis
  proof cases
    case idle
    then show ?thesis by simp
  next
    case moved
    have kept: "arr_of (jget file' ''tasks'') = filter (\<lambda>t. \<not> ?old t) ?ts"
      unfolding moved(4) by (simp add: jget_with_field del: jget.simps)
    have ms: "mset (concat (map snd ?gs)) = mset (filter ?old ?ts)"
      using mset_grouped [of "\<lambda>t. take 7 (js_text (jget t ''completedAt''))" "filter ?old ?ts" "[]"]
      by (simp only: month_records_def list.map concat.simps mset.simps add_0_right)
    have "distinct (map (\<lambda>t. js_text (id_of (scrubForState t))) (concat (map snd ?gs)))"
    proof -
      have "mset (map (\<lambda>t. js_text (id_of (scrubForState t))) (concat (map snd ?gs))) =
          mset (map (\<lambda>t. js_text (id_of (scrubForState t))) (filter ?old ?ts))"
        by (simp only: mset_map ms)
      then show ?thesis using distinct_map_filter [OF assms(1)] mset_eq_imp_distinct_iff by blast
    qed
    from archive_months_stored [OF this, of s]
    have "stored ''tasks'' (\<lambda>t. js_text (id_of t)) (st_archive s') (scrubForState t)" if "t \<in> set ?ts" "?old t" for t
      unfolding moved(5) using mset_eq_setD [OF ms] that by auto
    then have "\<exists>month. scrubForState t \<in> set (readArchive (archivePath ''tasks'' month) (st_archive s'))"
      if "t \<in> set ?ts" "?old t" for t
      using that stored_mem by blast
    moreover have "n \<noteq> 0" using moved(1,2) by simp
    moreover have "length (filter (\<lambda>t. \<not> ?old t) ?ts) = length ?ts - length (filter ?old ?ts)"
      using filter_length_partition [of ?old ?ts] by simp
    ultimately show ?thesis unfolding kept using moved(3) by auto
  qed
qed

definition old_task :: js where
  "old_task = JObj [(''id'', JStr ''a''), (''status'', JStr ''complete''), (''completedAt'', JStr ''d'')]"

theorem archiveOldTasks_moves_witness:
  "\<exists>month. scrubForState old_task \<in> set (readArchive (archivePath ''tasks'' month)
     (st_archive (snd (snd (archiveOldTasks (\<lambda>_. Some (- 1)) (Some 0) (Some 0) (JObj [(''tasks'', JArr [old_task])])
        (one_file tasks_path (Foreign [] None) None))))))"
proof -
  let ?f = "JObj [(''tasks'', JArr [old_task])]"
  let ?r = "archiveOldTasks (\<lambda>_. Some (- 1)) (Some 0) (Some 0) ?f (one_file tasks_path (Foreign [] None) None)"
  have ts: "arr_of (jget ?f ''tasks'') = [old_task]" by simp
  have d: "distinct (map (\<lambda>t. js_text (id_of (scrubForState t))) (arr_of (jget ?f ''tasks'')))" unfolding ts by simp
  have r: "?r = (fst ?r, fst (snd ?r), snd (snd ?r))" by simp
  have gone: "old_task \<notin> set (arr_of (jget (fst (snd ?r)) ''tasks''))" by code_simp
  show ?thesis
    using archiveOldTasks_moves [OF d r, THEN conjunct1, THEN bspec, of old_task, unfolded ts] gone by simp
qed

text \<open>A checkpoint comes back as it was written: what saves under a task's id and holds nothing
  secret-shaped is what the next pulse loads under that id.\<close>

theorem checkpoint_roundtrip:
  fixes cp and isostr and s
  defines "cp' \<equiv> with_field ''updatedAt'' (JStr (isostr (st_now s))) (with_field ''version'' (jint 1) cp)"
  assumes "saveCheckpoint rxt isostr cp s = Inr (w, s')" and "state_clean 12 cp'" and "json_norm cp' = cp'"
  shows "loadCheckpoint rxt isostr (js_text (jget cp ''taskId'')) s' = (cp', s')"
proof -
  let ?p = "checkpointPath (js_text (jget cp ''taskId''))"
  have clean: "scrubForState cp' = cp'"
    using assms(3) scrub_clean [of 0 cp'] by (simp add: scrubForState_def SCRUB_DEPTH_def)
  have "writeJson rxt ?p cp' (Some CHECKPOINT_SCHEMA) (Some False) s = Inr (w, s')"
    using assms(2) by (simp add: saveCheckpoint_def cp'_def)
  from writeJson_result [OF this] have "check rxt cp' CHECKPOINT_SCHEMA = (True, [])" "file_at s' ?p = Some (Printed cp')"
    unfolding clean assms(4) by simp_all
  then show ?thesis
    by (simp add: loadCheckpoint_def readValidated_def attempt_read_def)
qed

definition tiny_checkpoint :: js where
  "tiny_checkpoint = JObj [(''version'', jint 1), (''taskId'', JStr ''a''), (''runId'', JStr ''r''), (''phase'', JStr ''done''),
     (''updatedAt'', JStr ''2026-01-01T00:00:00Z'')]"

theorem checkpoint_roundtrip_witness:
  "\<exists>w s'. saveCheckpoint (\<lambda>_ _. True) (\<lambda>_. ''2026-01-01T00:00:00Z'') tiny_checkpoint (one_file tasks_path (Foreign [] None) None) = Inr (w, s') \<and>
     loadCheckpoint (\<lambda>_ _. True) (\<lambda>_. ''2026-01-01T00:00:00Z'') ''a'' s' = (tiny_checkpoint, s')"
proof -
  let ?iso = "\<lambda>_. ''2026-01-01T00:00:00Z''" and ?s = "one_file tasks_path (Foreign [] None) None"
  have same: "with_field ''updatedAt'' (JStr (?iso (st_now ?s))) (with_field ''version'' (jint 1) tiny_checkpoint) = tiny_checkpoint"
    by (simp add: with_field_def tiny_checkpoint_def)
  have i: "js_text (jget tiny_checkpoint ''taskId'') = ''a''" by (simp add: tiny_checkpoint_def)
  have "case saveCheckpoint (\<lambda>_ _. True) ?iso tiny_checkpoint ?s of Inl _ \<Rightarrow> False | Inr _ \<Rightarrow> True" by code_simp
  then obtain w s' where run: "saveCheckpoint (\<lambda>_ _. True) ?iso tiny_checkpoint ?s = Inr (w, s')"
    by (auto split: sum.splits)
  have clean: "state_clean 12 tiny_checkpoint" and norm: "json_norm tiny_checkpoint = tiny_checkpoint"
    by (code_simp, code_simp)
  show ?thesis
    using run checkpoint_roundtrip [OF run, unfolded same i, OF clean norm] by blast
qed

end
