(* ===== verification/Router.thy ===== *)
theory Router
  imports Retry_Policy
begin

text \<open>
  Which model gets a step: the vocabularies of \<open>src/orchestrator/taxonomy.js\<close> and the scoring of
  \<open>src/orchestrator/router.js\<close>. Scores are exact rationals. What the capability registry knows of a
  model and how busy a pool is are arguments, and so is the rendering of a number in a reason.
\<close>

section \<open>Vocabularies\<close>

definition ASPECT_CATEGORIES :: "string list" where
  "ASPECT_CATEGORIES = [''architecture'', ''code-generation'', ''refactoring'', ''testing'', ''debugging'', ''documentation'',
     ''security-review'', ''performance'', ''data-modeling'', ''devops'', ''ui-implementation'', ''research'']"

definition isAspectCategory :: "string \<Rightarrow> bool" where
  "isAspectCategory v = (v \<in> set ASPECT_CATEGORIES)"

definition TASK_STATES :: "string list" where
  "TASK_STATES = [''pending'', ''queued'', ''running'', ''complete'', ''failed'', ''blocked'', ''cancelled'', ''malformed_output'']"

definition isTaskState :: "string \<Rightarrow> bool" where
  "isTaskState v = (v \<in> set TASK_STATES)"

definition COMPLEXITY_LEVELS :: "string list" where
  "COMPLEXITY_LEVELS = [''low'', ''medium'', ''high'']"

definition isComplexityLevel :: "string \<Rightarrow> bool" where
  "isComplexityLevel v = (v \<in> set COMPLEXITY_LEVELS)"

definition AGENT_POOLS :: "string list" where
  "AGENT_POOLS = [''freebuff'', ''opencode'', ''phase2'']"

definition isAgentPool :: "string \<Rightarrow> bool" where
  "isAgentPool v = (v \<in> set AGENT_POOLS)"

definition LATENCY_CLASSES :: "string list" where
  "LATENCY_CLASSES = [''fast'', ''medium'', ''slow'']"

definition RUN_STATES :: "string list" where
  "RUN_STATES = [''pending'', ''running'', ''complete'', ''failed'', ''cancelled'', ''drained'']"

definition isRunState :: "string \<Rightarrow> bool" where
  "isRunState v = (v \<in> set RUN_STATES)"

definition TERMINAL_RUN_STATES :: "string list" where
  "TERMINAL_RUN_STATES = [''complete'', ''failed'', ''cancelled'']"

section \<open>Scoring\<close>

record model_record =
  mr_modelId :: string
  mr_pool :: string
  mr_strengths :: "string list"
  mr_weaknesses :: "string list"
  mr_measured :: "(string \<times> nat \<times> rat) list"
  mr_observed :: "(string \<times> nat \<times> rat) list"
  mr_latencyClass :: string

record candidate =
  ca_modelId :: string
  ca_pool :: string

record ranked =
  rk_modelId :: string
  rk_pool :: string
  rk_score :: rat
  rk_available :: bool
  rk_latencyClass :: string
  rk_latencyTiebreak :: rat
  rk_reason :: string

definition CATEGORY_MATCH_SCORE :: rat where "CATEGORY_MATCH_SCORE = 100"
definition CATEGORY_WEAKNESS_SCORE :: rat where "CATEGORY_WEAKNESS_SCORE = - 50"
definition OBSERVED_MAX_SCORE :: rat where "OBSERVED_MAX_SCORE = 20"

definition LATENCY_RANK :: "string \<Rightarrow> rat option" where
  "LATENCY_RANK = map_of [(''fast'', 2), (''medium'', 1), (''slow'', 0)]"

definition ROUTING_HINT_LATENCY_BONUS :: "string \<Rightarrow> rat option" where
  "ROUTING_HINT_LATENCY_BONUS = map_of [(''fast'', 15), (''careful'', 0), (''cheap'', 0), (''any'', 0)]"

definition ROUTING_HINT_OBSERVED_MULTIPLIER :: "string \<Rightarrow> rat option" where
  "ROUTING_HINT_OBSERVED_MULTIPLIER = map_of [(''fast'', 1), (''careful'', 3 / 2), (''cheap'', 1), (''any'', 1)]"

definition normalizeHint :: "string option \<Rightarrow> string" where
  "normalizeHint hint =
    (case hint of None \<Rightarrow> ''any'' | Some h \<Rightarrow> if h \<noteq> [] \<and> ROUTING_HINT_LATENCY_BONUS h \<noteq> None then h else ''any'')"

text \<open>The measured score of a category counts when the eval ran at least one task.\<close>

definition measured_score :: "model_record \<Rightarrow> string \<Rightarrow> (nat \<times> rat) option" where
  "measured_score r aspect =
    (case map_of (mr_measured r) aspect of None \<Rightarrow> None | Some (n, s) \<Rightarrow> if 0 < n then Some (n, s) else None)"

definition category_score :: "model_record \<Rightarrow> string \<Rightarrow> rat" where
  "category_score r aspect =
    (case measured_score r aspect of
       Some (_, s) \<Rightarrow> (let x = 2 * s - 1 in js_round (x * (if 0 \<le> x then CATEGORY_MATCH_SCORE else - CATEGORY_WEAKNESS_SCORE)))
     | None \<Rightarrow> if aspect \<in> set (mr_strengths r) then CATEGORY_MATCH_SCORE
               else if aspect \<in> set (mr_weaknesses r) then CATEGORY_WEAKNESS_SCORE else 0)"

definition observed_score :: "model_record \<Rightarrow> string \<Rightarrow> string \<Rightarrow> rat" where
  "observed_score r aspect hint =
    (case map_of (mr_observed r) aspect of
       Some (runs, rate) \<Rightarrow> if 0 < runs then rate * OBSERVED_MAX_SCORE * dflt (ROUTING_HINT_OBSERVED_MULTIPLIER hint) 1 else 0
     | None \<Rightarrow> 0)"

definition latency_rank :: "model_record \<Rightarrow> rat" where
  "latency_rank r = dflt (LATENCY_RANK (mr_latencyClass r)) 1"

definition score_reason :: "(rat \<Rightarrow> string) \<Rightarrow> model_record \<Rightarrow> string \<Rightarrow> string \<Rightarrow> bool \<Rightarrow> string" where
  "score_reason sn r aspect hint available =
    (let q = [CHR 0x22];
         category =
           (case measured_score r aspect of
              Some (n, s) \<Rightarrow> ''measured '' @ sn (js_round (s * 100)) @ ''% on the '' @ q @ aspect @ q @ '' eval, '' @ sn (of_nat n)
                 @ '' task'' @ (if n = 1 then [] else ''s'')
            | None \<Rightarrow> if aspect \<in> set (mr_strengths r) then ''strength match on '' @ q @ aspect @ q
                      else if aspect \<in> set (mr_weaknesses r) then ''known weakness in '' @ q @ aspect @ q
                      else ''no recorded strength/weakness for '' @ q @ aspect @ q);
         observed =
           (case map_of (mr_observed r) aspect of
              Some (runs, rate) \<Rightarrow>
                if 0 < runs then [sn (js_round (rate * 100)) @ ''% observed success ('' @ sn (of_nat runs) @ '' runs)''] else []
            | None \<Rightarrow> []);
         hinted = (if hint \<noteq> ''any'' then [''routing hint '' @ q @ hint @ q @ '' applied''] else []);
         full = (if available then [] else [''pool at capacity '' @ [CHR 0xE2, CHR 0x80, CHR 0x94] @ '' excluded''])
     in join_with ''; '' ([category] @ observed @ hinted @ full))"

definition scoreCandidate :: "(rat \<Rightarrow> string) \<Rightarrow> string \<Rightarrow> string option \<Rightarrow> model_record \<Rightarrow> bool \<Rightarrow> ranked" where
  "scoreCandidate sn aspect routingHint r available =
    (let hint = normalizeHint routingHint;
         latencyBonus = latency_rank r / 2 * dflt (ROUTING_HINT_LATENCY_BONUS hint) 0;
         score = (if available then category_score r aspect + observed_score r aspect hint + latencyBonus else 0)
     in \<lparr>rk_modelId = mr_modelId r, rk_pool = mr_pool r, rk_score = score, rk_available = available,
         rk_latencyClass = mr_latencyClass r, rk_latencyTiebreak = latency_rank r,
         rk_reason = score_reason sn r aspect hint available\<rparr>)"

text \<open>A pool's entry is its load: the calls in flight and the most it takes. JavaScript's sort is stable,
  so sorting by the tiebreak first and by the score afterwards is the code's comparison.\<close>

definition score_one ::
  "(rat \<Rightarrow> string) \<Rightarrow> string \<Rightarrow> string option \<Rightarrow> (string \<Rightarrow> (nat \<times> nat) option) \<Rightarrow> (string \<Rightarrow> model_record) \<Rightarrow> string list \<Rightarrow>
   candidate \<Rightarrow> ranked option" where
  "score_one sn aspect routingHint pools registry excludePools c =
    (if ca_pool c \<in> set excludePools then None
     else (case pools (ca_pool c) of
         None \<Rightarrow> None
       | Some (inFlight, maxConcurrency) \<Rightarrow>
           Some (scoreCandidate sn aspect routingHint (registry (ca_modelId c)) (inFlight < maxConcurrency))))"

definition rankModels ::
  "(rat \<Rightarrow> string) \<Rightarrow> string \<Rightarrow> string option \<Rightarrow> candidate list \<Rightarrow> (string \<Rightarrow> (nat \<times> nat) option) \<Rightarrow> (string \<Rightarrow> model_record) \<Rightarrow>
   string list \<Rightarrow> ranked list" where
  "rankModels sn aspect routingHint candidateModels pools registry excludePools =
    (let scored = List.map_filter (score_one sn aspect routingHint pools registry excludePools) candidateModels
     in sort_key (\<lambda>r. - rk_score r) (sort_key (\<lambda>r. - rk_latencyTiebreak r) scored))"

definition selectModel ::
  "(rat \<Rightarrow> string) \<Rightarrow> string \<Rightarrow> string option \<Rightarrow> candidate list \<Rightarrow> (string \<Rightarrow> (nat \<times> nat) option) \<Rightarrow> (string \<Rightarrow> model_record) \<Rightarrow>
   string list \<Rightarrow> ranked option" where
  "selectModel sn aspect routingHint candidateModels pools registry excludePools =
    (case rankModels sn aspect routingHint candidateModels pools registry excludePools of [] \<Rightarrow> None | r # _ \<Rightarrow> Some r)"

section \<open>What the ranking guarantees\<close>

text \<open>A record whose rates are rates.\<close>

definition rates_ok :: "model_record \<Rightarrow> bool" where
  "rates_ok r = (\<forall>a n s. map_of (mr_observed r) a = Some (n, s) \<longrightarrow> 0 \<le> s \<and> s \<le> 1)"

lemma hint_tables:
  "ROUTING_HINT_LATENCY_BONUS ''fast'' = Some 15" "ROUTING_HINT_LATENCY_BONUS ''careful'' = Some 0"
  "ROUTING_HINT_LATENCY_BONUS ''cheap'' = Some 0" "ROUTING_HINT_LATENCY_BONUS ''any'' = Some 0"
  "ROUTING_HINT_OBSERVED_MULTIPLIER ''fast'' = Some 1" "ROUTING_HINT_OBSERVED_MULTIPLIER ''careful'' = Some (3 / 2)"
  "ROUTING_HINT_OBSERVED_MULTIPLIER ''cheap'' = Some 1" "ROUTING_HINT_OBSERVED_MULTIPLIER ''any'' = Some 1"
  by (simp_all add: ROUTING_HINT_LATENCY_BONUS_def ROUTING_HINT_OBSERVED_MULTIPLIER_def)

lemma normalizeHint_cases:
  obtains "normalizeHint h = ''fast''" | "normalizeHint h = ''careful''" | "normalizeHint h = ''cheap''" | "normalizeHint h = ''any''"
proof -
  have "ROUTING_HINT_LATENCY_BONUS x \<noteq> None \<Longrightarrow> x \<in> {''fast'', ''careful'', ''cheap'', ''any''}" for x
    unfolding ROUTING_HINT_LATENCY_BONUS_def by (auto split: if_splits)
  then have "normalizeHint h \<in> {''fast'', ''careful'', ''cheap'', ''any''}"
    by (cases h) (simp_all add: normalizeHint_def)
  then show ?thesis using that by blast
qed

lemma latency_rank_range: "0 \<le> latency_rank r \<and> latency_rank r \<le> 2"
proof -
  have "x \<in> {0, 1, 2}" if "LATENCY_RANK c = Some x" for x c
    using that unfolding LATENCY_RANK_def by (auto split: if_splits)
  then show ?thesis by (cases "LATENCY_RANK (mr_latencyClass r)") (fastforce simp: latency_rank_def)+
qed

text \<open>What each hint makes of the observed rate and of the latency class.\<close>

definition hint_weight :: "string \<Rightarrow> rat" where
  "hint_weight h = dflt (ROUTING_HINT_OBSERVED_MULTIPLIER h) 1"

definition hint_bonus :: "string \<Rightarrow> rat" where
  "hint_bonus h = dflt (ROUTING_HINT_LATENCY_BONUS h) 0"

lemma hint_balance:
  "0 \<le> hint_bonus (normalizeHint h) \<and> 0 \<le> hint_weight (normalizeHint h) \<and>
   hint_bonus (normalizeHint h) + 20 * hint_weight (normalizeHint h) \<le> 35"
  by (cases rule: normalizeHint_cases [of h]) (simp_all add: hint_weight_def hint_bonus_def hint_tables)

lemma observed_range:
  assumes "rates_ok r" and "0 \<le> hint_weight h"
  shows "0 \<le> observed_score r a h \<and> observed_score r a h \<le> 20 * hint_weight h"
proof (cases "map_of (mr_observed r) a")
  case None
  then show ?thesis using assms(2) by (simp add: observed_score_def)
next
  case (Some p)
  obtain n s where p: "p = (n, s)" by (cases p)
  have s: "0 \<le> s" "s \<le> 1" using assms(1) Some p unfolding rates_ok_def by blast+
  then have "0 \<le> s * 20 * hint_weight h" "s * 20 * hint_weight h \<le> 20 * hint_weight h"
    using assms(2) mult_right_mono [of "s * 20" 20 "hint_weight h"] by simp_all
  then show ?thesis using Some assms(2) by (simp add: observed_score_def p OBSERVED_MAX_SCORE_def hint_weight_def)
qed

text \<open>Everything but the category adds at most 35 points to an available candidate.\<close>

lemma score_parts:
  assumes "rates_ok r"
  shows "category_score r a \<le> rk_score (scoreCandidate sn a h r True) \<and>
    rk_score (scoreCandidate sn a h r True) \<le> category_score r a + 35"
proof -
  let ?h = "normalizeHint h"
  have "0 \<le> latency_rank r / 2 * hint_bonus ?h" "latency_rank r / 2 * hint_bonus ?h \<le> hint_bonus ?h"
    using latency_rank_range [of r] hint_balance [of h] mult_right_mono [of "latency_rank r / 2" 1 "hint_bonus ?h"] by simp_all
  moreover have "rk_score (scoreCandidate sn a h r True) = category_score r a + observed_score r a ?h + latency_rank r / 2 * hint_bonus ?h"
    by (simp add: scoreCandidate_def Let_def hint_bonus_def)
  ultimately show ?thesis using observed_range [OF assms, of ?h a] hint_balance [of h] by linarith
qed

lemma mem_ranked:
  "r \<in> set (rankModels sn a h cs pools registry ex) \<longleftrightarrow>
    (\<exists>c\<in>set cs. \<exists>n m. ca_pool c \<notin> set ex \<and> pools (ca_pool c) = Some (n, m) \<and>
       r = scoreCandidate sn a h (registry (ca_modelId c)) (n < m))"
proof -
  have "score_one sn a h pools registry ex c = Some r \<longleftrightarrow>
      (\<exists>n m. ca_pool c \<notin> set ex \<and> pools (ca_pool c) = Some (n, m) \<and>
         r = scoreCandidate sn a h (registry (ca_modelId c)) (n < m))" for c
    by (cases "pools (ca_pool c)") (auto simp: score_one_def)
  then show ?thesis by (simp add: rankModels_def mem_map_filter)
qed

lemma ranked_best:
  assumes "rankModels sn a h cs pools registry ex = r # rs" and "q \<in> set (r # rs)"
  shows "rk_score q \<le> rk_score r"
proof -
  have "sorted (map (\<lambda>r. - rk_score r) (rankModels sn a h cs pools registry ex))"
    unfolding rankModels_def Let_def by (rule sorted_sort_key)
  then show ?thesis using assms by auto
qed

text \<open>A match on the category decides: when the model on top of a ranking is not a match for the step's
  category although an available candidate is (a declared strength, nothing measured), the top one has a
  measured score of the category of its own. Neither the observed rate nor a routing hint can lift a
  model without a match over one with it.\<close>

theorem category_decides:
  assumes "rankModels sn a h cs pools registry ex = r # rs"
    and "c \<in> set cs" and "ca_pool c \<notin> set ex" and "pools (ca_pool c) = Some (n, m)" and "n < m"
    and "\<forall>c\<in>set cs. rates_ok (registry (ca_modelId c))"
    and "measured_score (registry (ca_modelId c)) a = None" and "a \<in> set (mr_strengths (registry (ca_modelId c)))"
  shows "\<exists>d. d \<in> set cs \<and> r = scoreCandidate sn a h (registry (ca_modelId d)) True \<and>
    (measured_score (registry (ca_modelId d)) a = None \<longrightarrow> a \<in> set (mr_strengths (registry (ca_modelId d))))"
proof -
  let ?q = "scoreCandidate sn a h (registry (ca_modelId c)) True"
  have "?q \<in> set (r # rs)" using assms(2-5) unfolding assms(1) [symmetric] mem_ranked by force
  then have le: "rk_score ?q \<le> rk_score r" using ranked_best [OF assms(1)] by blast
  have q: "100 \<le> rk_score ?q"
    using score_parts [of "registry (ca_modelId c)" a sn h] assms(2,6-8) by (simp add: category_score_def CATEGORY_MATCH_SCORE_def)
  have "r \<in> set (rankModels sn a h cs pools registry ex)" using assms(1) by simp
  then obtain d and n' m' :: nat where d: "d \<in> set cs" "r = scoreCandidate sn a h (registry (ca_modelId d)) (n' < m')"
    unfolding mem_ranked by blast
  have av: "n' < m'" using q le d(2) by (rule_tac ccontr) (simp add: scoreCandidate_def Let_def)
  have "a \<in> set (mr_strengths (registry (ca_modelId d)))" if none: "measured_score (registry (ca_modelId d)) a = None"
  proof (rule ccontr)
    assume "a \<notin> set (mr_strengths (registry (ca_modelId d)))"
    then have "category_score (registry (ca_modelId d)) a \<le> 0"
      using none by (simp add: category_score_def CATEGORY_WEAKNESS_SCORE_def)
    then have "rk_score r \<le> 35" using score_parts [of "registry (ca_modelId d)" a sn h] d av assms(6) by fastforce
    then show False using q le by simp
  qed
  then show ?thesis using d av by auto
qed

definition sample_model :: "string \<Rightarrow> string list \<Rightarrow> string list \<Rightarrow> model_record" where
  "sample_model i st wk = \<lparr>mr_modelId = i, mr_pool = ''phase2'', mr_strengths = st, mr_weaknesses = wk, mr_measured = [],
     mr_observed = [], mr_latencyClass = ''fast''\<rparr>"

definition sample_registry :: "string \<Rightarrow> model_record" where
  "sample_registry i = (if i = ''m'' then sample_model ''m'' [''testing''] [] else sample_model i [] [''testing''])"

theorem category_decides_witness:
  "\<exists>r rs d. rankModels (\<lambda>_. ''0'') ''testing'' None [\<lparr>ca_modelId = ''x'', ca_pool = ''p''\<rparr>, \<lparr>ca_modelId = ''m'', ca_pool = ''p''\<rparr>]
     (\<lambda>_. Some (0, 1)) sample_registry [] = r # rs \<and> r = scoreCandidate (\<lambda>_. ''0'') ''testing'' None (sample_registry d) True"
proof -
  let ?cs = "[\<lparr>ca_modelId = ''x'', ca_pool = ''p''\<rparr>, \<lparr>ca_modelId = ''m'', ca_pool = ''p''\<rparr>]"
  let ?ranked = "rankModels (\<lambda>_. ''0'') ''testing'' None ?cs (\<lambda>_. Some (0, 1)) sample_registry []"
  have "?ranked \<noteq> []" by code_simp
  then obtain r rs where r: "?ranked = r # rs" by (cases ?ranked) auto
  have ok: "\<forall>c\<in>set ?cs. rates_ok (sample_registry (ca_modelId c))"
    by (simp add: rates_ok_def sample_registry_def sample_model_def)
  have m: "measured_score (sample_registry (ca_modelId \<lparr>ca_modelId = ''m'', ca_pool = ''p''\<rparr>)) ''testing'' = None"
    "''testing'' \<in> set (mr_strengths (sample_registry (ca_modelId \<lparr>ca_modelId = ''m'', ca_pool = ''p''\<rparr>)))"
    by (code_simp, code_simp)
  show ?thesis using category_decides [OF r _ _ _ _ ok m, of 0 1] r by auto
qed

text \<open>A full pool can still win: an unavailable model scores 0, and a model with a known weakness for the
  category scores below that however idle its pool is, so the ranking, whose first entry the scheduler
  dispatches without looking at availability, puts the full pool first.\<close>

theorem full_pool_outranks_weakness:
  fixes n m k l :: nat
  assumes "n < m" and "k \<le> l" and "rates_ok weak" and "measured_score weak a = None"
    and "a \<notin> set (mr_strengths weak)" and "a \<in> set (mr_weaknesses weak)"
  shows "rk_score (scoreCandidate sn a h weak (n < m)) < rk_score (scoreCandidate sn a h full (l < k))"
proof -
  have "category_score weak a = - 50" using assms(4-6) by (simp add: category_score_def CATEGORY_WEAKNESS_SCORE_def)
  then have "rk_score (scoreCandidate sn a h weak True) < 0" using score_parts [OF assms(3), of a sn h] by simp
  moreover have "rk_score (scoreCandidate sn a h full False) = 0" by (simp add: scoreCandidate_def Let_def)
  moreover have "(n < m) = True" "(l < k) = False" using assms(1,2) by simp_all
  ultimately show ?thesis by simp
qed

theorem full_pool_outranks_weakness_witness:
  "rk_score (scoreCandidate (\<lambda>_. ''0'') ''testing'' None (sample_model ''w'' [] [''testing'']) (0 < (1::nat))) <
   rk_score (scoreCandidate (\<lambda>_. ''0'') ''testing'' None (sample_model ''f'' [''testing''] []) (1 < (1::nat)))"
proof (rule full_pool_outranks_weakness)
  show "measured_score (sample_model ''w'' [] [''testing'']) ''testing'' = None" by code_simp
qed (simp_all add: rates_ok_def sample_model_def)

end
