(* ===== verification/Loop_Detector.thy ===== *)
theory Loop_Detector
  imports Json
begin

text \<open>
  Loop and stall detection, \<open>src/reliability/loopDetector.js\<close>. The SHA-1 digest in hexadecimal and
  the rendering of numbers are arguments; everything else of the fingerprint is written out.
\<close>

definition fingerprint :: "(string \<Rightarrow> string) \<Rightarrow> (rat \<Rightarrow> string) \<Rightarrow> js \<Rightarrow> string option" where
  "fingerprint sha1 sn v =
    (case (case v of JStr s \<Rightarrow> Some s | _ \<Rightarrow> stringify sn (sortKeys v)) of
       None \<Rightarrow> None
     | Some txt \<Rightarrow> Some (take 12 (sha1 txt)))"

record detector =
  ld_maxRepeats :: nat
  ld_noProgressLimit :: nat
  ld_counts :: "(string \<times> nat) list"
  ld_noProgress :: nat
  ld_total :: nat

definition new_detector :: "nat option \<Rightarrow> nat option \<Rightarrow> detector" where
  "new_detector mr np = \<lparr>ld_maxRepeats = dflt mr 3, ld_noProgressLimit = dflt np 6, ld_counts = [],
     ld_noProgress = 0, ld_total = 0\<rparr>"

record observation =
  ob_signature :: string
  ob_repeats :: nat
  ob_looping :: bool
  ob_stalled :: bool

text \<open>The part of \<open>observe\<close> after the signature is known.\<close>

definition observe_sig :: "string \<Rightarrow> bool option \<Rightarrow> detector \<Rightarrow> detector \<times> observation" where
  "observe_sig signature progress d =
    (let repeats = dflt (map_of (ld_counts d) signature) 0 + 1;
         d1 = d\<lparr>ld_counts := assoc_put signature repeats (ld_counts d), ld_total := ld_total d + 1\<rparr>;
         d2 = (if progress = Some False then d1\<lparr>ld_noProgress := ld_noProgress d1 + 1\<rparr>
               else if progress = Some True then d1\<lparr>ld_noProgress := 0\<rparr> else d1)
     in (d2, \<lparr>ob_signature = signature, ob_repeats = repeats, ob_looping = ld_maxRepeats d2 \<le> repeats,
              ob_stalled = ld_noProgressLimit d2 \<le> ld_noProgress d2\<rparr>))"

definition observe :: "(string \<Rightarrow> string) \<Rightarrow> (rat \<Rightarrow> string) \<Rightarrow> js \<Rightarrow> bool option \<Rightarrow> detector \<Rightarrow>
    (detector \<times> observation) option" where
  "observe sha1 sn v progress d =
    (case fingerprint sha1 sn v of None \<Rightarrow> None | Some sg \<Rightarrow> Some (observe_sig sg progress d))"

definition detector_snapshot :: "detector \<Rightarrow> nat \<times> nat \<times> nat" where
  "detector_snapshot d = (ld_total d, length (ld_counts d), ld_noProgress d)"

text \<open>A run: signatures with their progress marks, oldest first, and what each was answered.\<close>

fun observe_all :: "(string \<times> bool option) list \<Rightarrow> detector \<Rightarrow> detector \<times> observation list" where
  "observe_all [] d = (d, [])"
| "observe_all ((sg, p) # os) d =
     (let (d1, r) = observe_sig sg p d; (d2, rs) = observe_all os d1 in (d2, r # rs))"

section \<open>The counters are functions of the history\<close>

text \<open>The specification: how often a signature occurs, and how many observations marked as no
  progress came since the last one marked as progress.\<close>

definition sig_count :: "string \<Rightarrow> (string \<times> bool option) list \<Rightarrow> nat" where
  "sig_count sg os = length (filter (\<lambda>o'. fst o' = sg) os)"

definition stall_count :: "(string \<times> bool option) list \<Rightarrow> nat" where
  "stall_count os = length (filter (\<lambda>o'. snd o' = Some False) (takeWhile (\<lambda>o'. snd o' \<noteq> Some True) (rev os)))"

definition summarises :: "detector \<Rightarrow> (string \<times> bool option) list \<Rightarrow> bool" where
  "summarises d os =
    ((\<forall>sg. dflt (map_of (ld_counts d) sg) 0 = sig_count sg os) \<and>
     fst ` set (ld_counts d) = fst ` set os \<and> distinct (map fst (ld_counts d)) \<and>
     ld_noProgress d = stall_count os \<and> ld_total d = length os)"

lemma sig_count_snoc: "sig_count sg (os @ [o']) = sig_count sg os + (if fst o' = sg then 1 else 0)"
  by (simp add: sig_count_def)

lemma stall_count_snoc:
  "stall_count (os @ [o']) =
    (if snd o' = Some True then 0 else if snd o' = Some False then stall_count os + 1 else stall_count os)"
  by (simp add: stall_count_def)

lemma summarises_new: "summarises (new_detector mr np) []"
  by (simp add: summarises_def new_detector_def sig_count_def stall_count_def)

lemma observe_sig_limits [simp]:
  "ld_maxRepeats (fst (observe_sig sg p d)) = ld_maxRepeats d"
  "ld_noProgressLimit (fst (observe_sig sg p d)) = ld_noProgressLimit d"
  by (simp_all add: observe_sig_def Let_def)

lemma summarises_step:
  assumes "summarises d os"
  shows "summarises (fst (observe_sig sg p d)) (os @ [(sg, p)])"
    and "snd (observe_sig sg p d) =
      \<lparr>ob_signature = sg, ob_repeats = sig_count sg (os @ [(sg, p)]),
       ob_looping = ld_maxRepeats d \<le> sig_count sg (os @ [(sg, p)]),
       ob_stalled = ld_noProgressLimit d \<le> stall_count (os @ [(sg, p)])\<rparr>"
proof -
  have c: "dflt (map_of (ld_counts d) s) 0 = sig_count s os" for s
    using assms by (simp add: summarises_def)
  have ks: "fst ` set (ld_counts d) = fst ` set os" "distinct (map fst (ld_counts d))"
    "ld_noProgress d = stall_count os" "ld_total d = length os"
    using assms by (simp_all add: summarises_def)
  show "summarises (fst (observe_sig sg p d)) (os @ [(sg, p)])"
    using c ks
    by (simp add: summarises_def observe_sig_def Let_def sig_count_snoc stall_count_snoc keys_assoc_put
        distinct_assoc_put del: set_map)
  show "snd (observe_sig sg p d) =
      \<lparr>ob_signature = sg, ob_repeats = sig_count sg (os @ [(sg, p)]),
       ob_looping = ld_maxRepeats d \<le> sig_count sg (os @ [(sg, p)]),
       ob_stalled = ld_noProgressLimit d \<le> stall_count (os @ [(sg, p)])\<rparr>"
    using c ks by (simp add: observe_sig_def Let_def sig_count_snoc stall_count_snoc)
qed

lemma observe_all_spec:
  assumes "summarises d hist"
  shows "summarises (fst (observe_all os d)) (hist @ os) \<and>
    length (snd (observe_all os d)) = length os \<and>
    (\<forall>i<length os. snd (observe_all os d) ! i =
      (let h = hist @ take (Suc i) os; sg = fst (os ! i) in
       \<lparr>ob_signature = sg, ob_repeats = sig_count sg h, ob_looping = ld_maxRepeats d \<le> sig_count sg h,
        ob_stalled = ld_noProgressLimit d \<le> stall_count h\<rparr>))"
  using assms
proof (induction os arbitrary: d hist)
  case Nil
  then show ?case by simp
next
  case (Cons o' os)
  obtain sg p where o': "o' = (sg, p)" by (cases o')
  note st = summarises_step [OF Cons.prems, of sg p]
  note ih = Cons.IH [OF st(1)]
  show ?case
  proof (intro conjI allI impI)
    show "summarises (fst (observe_all (o' # os) d)) (hist @ o' # os)"
      using ih by (simp add: o' split_beta Let_def)
    show "length (snd (observe_all (o' # os) d)) = length (o' # os)"
      using ih by (simp add: o' split_beta Let_def)
    fix i assume i: "i < length (o' # os)"
    show "snd (observe_all (o' # os) d) ! i =
      (let h = hist @ take (Suc i) (o' # os); sg = fst ((o' # os) ! i) in
       \<lparr>ob_signature = sg, ob_repeats = sig_count sg h, ob_looping = ld_maxRepeats d \<le> sig_count sg h,
        ob_stalled = ld_noProgressLimit d \<le> stall_count h\<rparr>)"
    proof (cases i)
      case 0
      then show ?thesis using st(2) by (simp add: o' split_beta Let_def)
    next
      case (Suc j)
      then show ?thesis using ih i by (simp add: o' split_beta Let_def)
    qed
  qed
qed

text \<open>A fresh detector's answers are functions of the history alone: each observation is told how
  often its signature has occurred so far, is called looping exactly when that reaches
  \<open>maxRepeats\<close>, and stalled exactly when \<open>noProgressLimit\<close> observations without progress have come
  since the last progress; the snapshot counts observations and distinct signatures.\<close>

theorem detector_answers_history:
  "length (snd (observe_all os (new_detector mr np))) = length os \<and>
   (\<forall>i<length os.
      let h = take (Suc i) os; sg = fst (os ! i) in
      snd (observe_all os (new_detector mr np)) ! i =
        \<lparr>ob_signature = sg, ob_repeats = sig_count sg h, ob_looping = dflt mr 3 \<le> sig_count sg h,
         ob_stalled = dflt np 6 \<le> stall_count h\<rparr>) \<and>
   detector_snapshot (fst (observe_all os (new_detector mr np))) =
     (length os, card (fst ` set os), stall_count os)"
proof -
  note sp = observe_all_spec [OF summarises_new, of os mr np]
  have s: "summarises (fst (observe_all os (new_detector mr np))) os" using sp by simp
  have "length (ld_counts (fst (observe_all os (new_detector mr np)))) = card (fst ` set os)"
    using s distinct_card [of "map fst (ld_counts (fst (observe_all os (new_detector mr np))))"]
    by (simp add: summarises_def)
  with s sp show ?thesis
    by (simp add: detector_snapshot_def summarises_def Let_def new_detector_def)
qed

theorem detector_answers_history_witness:
  "snd (observe_all [(''a'', None), (''a'', Some False)] (new_detector (Some 2) None)) ! 1 =
    \<lparr>ob_signature = ''a'', ob_repeats = 2, ob_looping = True, ob_stalled = False\<rparr>"
proof -
  have one: "1 < length [(''a'' :: string, None), (''a'', Some False)]" by simp
  show ?thesis
    using detector_answers_history [of "[(''a'', None), (''a'', Some False)]" "Some 2" None, THEN conjunct2, THEN conjunct1,
        rule_format, OF one]
    by (simp add: Let_def sig_count_def stall_count_def)
qed

text \<open>The pigeon-hole bound: signatures from a finite set cannot go on for ever.\<close>

lemma long_run_repeats:
  assumes "fst ` set os \<subseteq> A" and "finite A" and "card A * m < length os"
  shows "\<exists>sg\<in>A. m < sig_count sg os"
proof (rule ccontr)
  assume none: "\<not> (\<exists>sg\<in>A. m < sig_count sg os)"
  have "length os = (\<Sum>sg\<in>A. sig_count sg os)"
    using assms(1)
  proof (induction os)
    case Nil
    then show ?case by (simp add: sig_count_def)
  next
    case (Cons o' os)
    have "(\<Sum>sg\<in>A. sig_count sg (o' # os)) = (\<Sum>sg\<in>A. sig_count sg os + (if fst o' = sg then 1 else 0))"
      by (rule sum.cong) (simp_all add: sig_count_def)
    also have "\<dots> = (\<Sum>sg\<in>A. sig_count sg os) + 1"
      using Cons.prems assms(2) by (simp add: sum.distrib)
    finally show ?case using Cons by simp
  qed
  also have "\<dots> \<le> (\<Sum>sg\<in>A. m)" using none by (intro sum_mono) (meson not_le)
  finally show False using assms(3) by simp
qed

text \<open>No endless loop goes unnoticed: when every observation's signature is one of \<open>n\<close>, a run of
  more than \<open>n * (maxRepeats - 1)\<close> observations has been called looping.\<close>

theorem finite_behaviour_is_caught:
  assumes "fst ` set os \<subseteq> A" and "finite A" and "card A * (dflt mr 3 - 1) < length os" and "0 < dflt mr 3"
  shows "\<exists>r\<in>set (snd (observe_all os (new_detector mr np))). ob_looping r"
proof -
  obtain sg where sg: "sg \<in> A" "dflt mr 3 - 1 < sig_count sg os"
    using long_run_repeats [OF assms(1-3)] by blast
  have "filter (\<lambda>o'. fst o' = sg) os \<noteq> []" using sg(2) by (auto simp: sig_count_def)
  then have "\<exists>x\<in>set os. fst x = sg" by (metis (mono_tags, lifting) filter_False)
  then obtain ys x zs where sp: "os = ys @ x # zs" "fst x = sg" "\<forall>z\<in>set zs. fst z \<noteq> sg"
    using split_list_last_prop [of os "\<lambda>o'. fst o' = sg"] by blast
  have cnt: "sig_count sg (take (Suc (length ys)) os) = sig_count sg os"
    using sp by (simp add: sig_count_def filter_empty_conv)
  have i: "length ys < length os" using sp by simp
  have "snd (observe_all os (new_detector mr np)) ! length ys \<in> set (snd (observe_all os (new_detector mr np)))"
    using i observe_all_spec [OF summarises_new, of os mr np] by (intro nth_mem) simp
  moreover have "ob_looping (snd (observe_all os (new_detector mr np)) ! length ys)"
  proof -
    have "snd (observe_all os (new_detector mr np)) ! length ys =
        (let h = take (Suc (length ys)) os; sg = fst (os ! length ys) in
         \<lparr>ob_signature = sg, ob_repeats = sig_count sg h, ob_looping = dflt mr 3 \<le> sig_count sg h,
          ob_stalled = dflt np 6 \<le> stall_count h\<rparr>)"
      using observe_all_spec [OF summarises_new, of os mr np] i by (simp add: new_detector_def)
    then show ?thesis using sg(2) cnt assms(4) sp by (simp add: Let_def)
  qed
  ultimately show ?thesis by blast
qed

theorem finite_behaviour_is_caught_witness:
  "\<exists>r\<in>set (snd (observe_all [(''a'', None), (''b'', None), (''a'', None)] (new_detector (Some 2) None))). ob_looping r"
  by (rule finite_behaviour_is_caught [of _ "{''a'', ''b''}"]) simp_all

text \<open>The fingerprint of a call does not depend on the order in which its arguments were written,
  at any depth.\<close>

theorem fingerprint_ignores_key_order:
  assumes "same_json v w"
  shows "fingerprint sha1 sn v = fingerprint sha1 sn w"
  using assms sortKeys_same [OF assms]
  by (cases rule: same_json.cases) (simp_all add: fingerprint_def)

theorem fingerprint_ignores_key_order_witness:
  "fingerprint rev (\<lambda>r. []) (JObj [(''a'', JNull), (''b'', JNull)]) =
   fingerprint rev (\<lambda>r. []) (JObj [(''b'', JNull), (''a'', JNull)])"
  by (rule fingerprint_ignores_key_order, rule same_json.obj) (auto intro: same_json.atom)

end
