(* ===== verification/Envelope.thy ===== *)
theory Envelope
  imports Regex Json
begin

text \<open>
  What the engine reads out of a model's answer: the repair primitives of \<open>src/lib/jsonRepair.js\<close>, the
  two parsers of a files envelope, \<open>src/orchestrator/envelopeParser.js\<close> (with which an answer is judged
  usable) and \<open>src/orchestrator/outputParser.js\<close> (with which its files are taken), the judgement itself,
  \<open>src/reliability/outputRepair.js\<close>, and the tool-call parser, \<open>src/tools/callParser.js\<close>.
  \<open>JSON.parse\<close> is an argument, \<open>jp\<close>; \<open>None\<close> is its exception. The regular expressions with lazy groups
  are scanners written out; the others are terms of the matcher of theory Regex.
\<close>

definition tick3 :: string where "tick3 = [CHR 0x60, CHR 0x60, CHR 0x60]"

text \<open>The text before and after the first occurrence.\<close>

fun break_at :: "string \<Rightarrow> string \<Rightarrow> (string \<times> string) option" where
  "break_at p [] = (if p = [] then Some ([], []) else None)"
| "break_at p (c # cs) =
     (if startsWith (c # cs) p then Some ([], drop (length p) (c # cs))
      else map_option (\<lambda>(a, b). (c # a, b)) (break_at p cs))"

lemma break_at_length: "break_at p s = Some (a, b) \<Longrightarrow> length s = length a + length p + length b"
proof (induction s arbitrary: a b)
  case Nil
  then show ?case by (simp split: if_splits)
next
  case (Cons c cs)
  show ?case
  proof (cases "startsWith (c # cs) p")
    case True
    then have "length p \<le> length (c # cs)" unfolding startsWith_def by (metis length_take min.cobounded1)
    then show ?thesis using Cons.prems True by auto
  next
    case False
    then show ?thesis using Cons by auto
  qed
qed

section \<open>Repairing JSON text\<close>

text \<open>\<open>extractBalancedObject\<close>: the scan after the opening brace; the result is the rest of the span.\<close>

fun balanced_from :: "nat \<Rightarrow> bool \<Rightarrow> bool \<Rightarrow> string \<Rightarrow> string option" where
  "balanced_from depth inString escapeNext [] = None"
| "balanced_from depth inString escapeNext (ch # cs) =
     (let more = (\<lambda>d s e. map_option (\<lambda>r. ch # r) (balanced_from d s e cs)) in
      if escapeNext then more depth inString False
      else if ch = CHR 0x5C \<and> inString then more depth inString True
      else if ch = CHR 0x22 then more depth (\<not> inString) False
      else if inString then more depth inString False
      else if ch = CHR 0x7B then more (depth + 1) False False
      else if ch = CHR 0x7D then (if depth = 1 then Some [ch] else more (depth - 1) False False)
      else more depth False False)"

text \<open>From the first opening brace on; answered with the text from that brace, which is where the
  caller's search position is known from.\<close>

definition from_brace :: "string \<Rightarrow> string" where
  "from_brace text = dropWhile (\<lambda>c. c \<noteq> CHR 0x7B) text"

definition extractBalancedObject :: "string \<Rightarrow> string option" where
  "extractBalancedObject text =
    (case from_brace text of [] \<Rightarrow> None | c # cs \<Rightarrow> map_option (\<lambda>r. c # r) (balanced_from 1 False False cs))"

text \<open>The scan of the envelope parser, with its branches in its own order.\<close>

fun env_balanced_from :: "nat \<Rightarrow> bool \<Rightarrow> bool \<Rightarrow> string \<Rightarrow> string option" where
  "env_balanced_from depth inString escaped [] = None"
| "env_balanced_from depth inString escaped (ch # cs) =
     (let more = (\<lambda>d s e. map_option (\<lambda>r. ch # r) (env_balanced_from d s e cs)) in
      if inString then
        (if escaped then more depth True False
         else if ch = CHR 0x5C then more depth True True
         else if ch = CHR 0x22 then more depth False False
         else more depth True False)
      else if ch = CHR 0x22 then more depth True escaped
      else if ch = CHR 0x7B then more (depth + 1) False escaped
      else if ch = CHR 0x7D then (if depth = 1 then Some [ch] else more (depth - 1) False escaped)
      else more depth False escaped)"

definition env_extractBalancedObject :: "string \<Rightarrow> string option" where
  "env_extractBalancedObject text =
    (case from_brace text of [] \<Rightarrow> None | c # cs \<Rightarrow> map_option (\<lambda>r. c # r) (env_balanced_from 1 False False cs))"

text \<open>A comma whose next character that is not white space closes an object or an array goes.\<close>

fun stripTrailingCommas :: "string \<Rightarrow> string" where
  "stripTrailingCommas [] = []"
| "stripTrailingCommas (c # cs) =
     (if c = CHR '','' \<and> (case dropWhile is_space cs of [] \<Rightarrow> False | d # _ \<Rightarrow> d = CHR 0x7D \<or> d = CHR 0x5D)
      then stripTrailingCommas cs else c # stripTrailingCommas cs)"

text \<open>The bodies of the fenced blocks: a fence, a tag up to the line's end, and the shortest body.\<close>

definition fence_at :: "string \<Rightarrow> (string \<times> string) option" where
  "fence_at s =
    (if startsWith s tick3 then
       (case dropWhile (\<lambda>c. c \<noteq> CHR 0x0A \<and> c \<noteq> CHR 0x60) (drop 3 s) of
          [] \<Rightarrow> None
        | c # r \<Rightarrow> if c = CHR 0x0A then break_at tick3 r else None)
     else None)"

lemma fence_at_length: "fence_at s = Some (b, r) \<Longrightarrow> length r < length s"
proof -
  assume f: "fence_at s = Some (b, r)"
  then obtain q where q: "dropWhile (\<lambda>c. c \<noteq> CHR 0x0A \<and> c \<noteq> CHR 0x60) (drop 3 s) = CHR 0x0A # q" "break_at tick3 q = Some (b, r)"
    by (auto simp: fence_at_def split: if_splits list.splits)
  have "length (CHR 0x0A # q) \<le> length (drop 3 s)"
    unfolding q(1) [symmetric] by (rule length_dropWhile_le)
  then have "length q < length s" by simp
  with break_at_length [OF q(2)] show ?thesis by simp
qed

function fences :: "string \<Rightarrow> string list" where
  "fences [] = []"
| "fences (c # cs) = (case fence_at (c # cs) of Some (b, r) \<Rightarrow> b # fences r | None \<Rightarrow> fences cs)"
  by pat_completeness auto
termination
  by (relation "measure length") (auto dest: fence_at_length)

text \<open>The first value \<open>coerce\<close> accepts.\<close>

fun first_some :: "('a \<Rightarrow> 'b option) \<Rightarrow> 'a list \<Rightarrow> 'b option" where
  "first_some f [] = None"
| "first_some f (x # xs) = (case f x of Some y \<Rightarrow> Some y | None \<Rightarrow> first_some f xs)"

definition parse_with :: "(string \<Rightarrow> js option) \<Rightarrow> (js \<Rightarrow> 'b option) \<Rightarrow> string \<Rightarrow> 'b option" where
  "parse_with jp coerce t = (case jp t of None \<Rightarrow> None | Some v \<Rightarrow> coerce v)"

definition tryStrictJson :: "(string \<Rightarrow> js option) \<Rightarrow> (js \<Rightarrow> 'b option) \<Rightarrow> string \<Rightarrow> 'b option" where
  "tryStrictJson jp coerce text =
    first_some (\<lambda>candidate.
        let trimmed = js_trim candidate in
        if startsWith trimmed [CHR 0x7B] then parse_with jp coerce trimmed else None)
      (fences text @ [text])"

text \<open>\<open>searchFrom\<close> moves to just behind the brace the span began with.\<close>

function tryLenientJson :: "(string \<Rightarrow> js option) \<Rightarrow> (js \<Rightarrow> 'b option) \<Rightarrow> string \<Rightarrow> 'b option" where
  "tryLenientJson jp coerce text =
    (case extractBalancedObject text of
       None \<Rightarrow> None
     | Some raw \<Rightarrow>
         (case parse_with jp coerce (stripTrailingCommas raw) of
            Some r \<Rightarrow> Some r
          | None \<Rightarrow> tryLenientJson jp coerce (tl (from_brace text))))"
  by pat_completeness auto
termination
proof (relation "measure (\<lambda>(_, _, s). length s)")
  fix jp :: "string \<Rightarrow> js option" and coerce :: "js \<Rightarrow> 'b option" and s raw
  assume "extractBalancedObject s = Some raw"
  then have "from_brace s \<noteq> []" by (auto simp: extractBalancedObject_def)
  then have "length (tl (from_brace s)) < length (from_brace s)" by simp
  also have "\<dots> \<le> length s" unfolding from_brace_def by (rule length_dropWhile_le)
  finally show "((jp, coerce, tl (from_brace s)), (jp, coerce, s)) \<in> measure (\<lambda>(_, _, s). length s)" by simp
qed simp

declare tryLenientJson.simps [simp del]

section \<open>Paths and files\<close>

record out_file =
  of_path :: string
  of_content :: string

definition normalizePath :: "string \<Rightarrow> string" where
  "normalizePath raw =
    (let clean = map (\<lambda>c. if c = CHR 0x5C then CHR ''/'' else c) raw;
         parts = filter (\<lambda>seg. seg \<noteq> [] \<and> seg \<noteq> ''.'' \<and> seg \<noteq> ''..'') (split_on (\<lambda>c. c = CHR ''/'') clean)
     in if parts \<noteq> [] then join_with ''/'' parts else ''untitled-file.txt'')"

text \<open>The legacy file comment. What the lazy group captures, trimmed: \<open>None\<close> when there is no match.
  A blank name still matches as long as one of its characters is not a carriage return.\<close>

definition captured :: "string \<Rightarrow> string option" where
  "captured r =
    (let t = js_trim r in
     if t = [] then (if list_ex (\<lambda>c. c \<noteq> CHR 0x0D) r then Some [] else None)
     else if CHR 0x0D \<in> set t then None else Some t)"

definition after_file :: "string \<Rightarrow> string option" where
  "after_file s =
    (let t = trimStart s in if toLowerCase (take 5 t) = ''file:'' then Some (drop 5 t) else None)"

definition file_comment :: "string \<Rightarrow> string option" where
  "file_comment line =
    (let t = trimStart line;
         after = (\<lambda>mark. if startsWith t mark then after_file (drop (length mark) t) else None) in
     case first_some after [''//'', ''#'', ''--'', '';'', ''%''] of
       Some r \<Rightarrow> captured r
     | None \<Rightarrow>
         (case after ''<!--'' of
            None \<Rightarrow> None
          | Some r \<Rightarrow>
              (let e = trimEnd r in if endsWith e ''-->'' then captured (take (length e - 3) e) else None)))"

definition legacy_block :: "string \<Rightarrow> out_file option" where
  "legacy_block body =
    (let (firstLine, rest) = (case break_at [CHR 0x0A] body of None \<Rightarrow> (body, []) | Some p \<Rightarrow> p) in
     case file_comment firstLine of
       None \<Rightarrow> None
     | Some rawPath \<Rightarrow> Some \<lparr>of_path = normalizePath rawPath, of_content = rest\<rparr>)"

definition extractFileBlocks :: "string \<Rightarrow> out_file list" where
  "extractFileBlocks text = List.map_filter legacy_block (fences text)"

section \<open>The envelope parser\<close>

record envelope =
  ev_tier :: "nat option"
  ev_files :: "out_file list"
  ev_notes :: string

definition text_prop :: "js \<Rightarrow> string \<Rightarrow> string" where
  "text_prop v k = dflt (str_of (jget v k)) []"

definition file_entry :: "(string \<Rightarrow> bool) \<Rightarrow> js \<Rightarrow> out_file option" where
  "file_entry usable entry =
    (case (jget entry ''path'', jget entry ''content'') of
       (JStr p, JStr c) \<Rightarrow> if usable p then Some \<lparr>of_path = normalizePath p, of_content = c\<rparr> else None
     | _ \<Rightarrow> None)"

definition env_coerce :: "js \<Rightarrow> (out_file list \<times> string) option" where
  "env_coerce candidate =
    (if \<not> is_arr (jget candidate ''files'') then None
     else
       (let files = List.map_filter (file_entry (\<lambda>p. js_trim p \<noteq> [])) (arr_of (jget candidate ''files'')) in
        if files = [] then None else Some (files, text_prop candidate ''notes'')))"

definition env_tryStrict :: "(string \<Rightarrow> js option) \<Rightarrow> string \<Rightarrow> (out_file list \<times> string) option" where
  "env_tryStrict jp text =
    first_some (\<lambda>b. let body = js_trim b in if body = [] then None else parse_with jp env_coerce body) (fences text)"

definition env_tryLenient :: "(string \<Rightarrow> js option) \<Rightarrow> string \<Rightarrow> (out_file list \<times> string) option" where
  "env_tryLenient jp text =
    (let fromSpan = (case env_extractBalancedObject text of
           None \<Rightarrow> None
         | Some raw \<Rightarrow> first_some (parse_with jp env_coerce) [raw, stripTrailingCommas raw]) in
     case fromSpan of
       Some r \<Rightarrow> Some r
     | None \<Rightarrow> (let legacy = extractFileBlocks text in if legacy \<noteq> [] then Some (legacy, []) else None))"

definition parseEnvelope :: "(string \<Rightarrow> js option) \<Rightarrow> string \<Rightarrow> envelope" where
  "parseEnvelope jp text =
    (if text = [] then \<lparr>ev_tier = None, ev_files = [], ev_notes = []\<rparr>
     else (case env_tryStrict jp text of
        Some (fs, n) \<Rightarrow> \<lparr>ev_tier = Some 1, ev_files = fs, ev_notes = n\<rparr>
      | None \<Rightarrow> (case env_tryLenient jp text of
          Some (fs, n) \<Rightarrow> \<lparr>ev_tier = Some 2, ev_files = fs, ev_notes = n\<rparr>
        | None \<Rightarrow> \<lparr>ev_tier = None, ev_files = [], ev_notes = []\<rparr>)))"

section \<open>The output parser\<close>

record parsed_output =
  po_tier :: "nat option"
  po_files :: "out_file list"
  po_notes :: "string option"
  po_malformed :: bool

definition out_coerce :: "js \<Rightarrow> (out_file list \<times> string option) option" where
  "out_coerce candidate =
    (if \<not> is_arr (jget candidate ''files'') then None
     else Some (List.map_filter (file_entry (\<lambda>_. True)) (arr_of (jget candidate ''files'')),
                str_of (jget candidate ''notes'')))"

definition out_tryLenient :: "(string \<Rightarrow> js option) \<Rightarrow> string \<Rightarrow> (out_file list \<times> string option) option" where
  "out_tryLenient jp text =
    (case tryLenientJson jp out_coerce text of
       Some r \<Rightarrow> Some r
     | None \<Rightarrow> (let legacy = extractFileBlocks text in if legacy \<noteq> [] then Some (legacy, None) else None))"

definition quoted_files_re :: rx where
  "quoted_files_re = seqs [any_of [CHR 0x27, CHR 0x22], ilit ''files'', any_of [CHR 0x27, CHR 0x22],
     Star space, lit '':'', Star space, lit ''['']"

definition json_fence_re :: rx where
  "json_fence_re = Seq (lit tick3) (ilit ''json'')"

definition file_colon_re :: rx where
  "file_colon_re = seqs [WordB, ilit ''file:'', Star space, nonspace]"

definition looksLikeAttemptedEnvelope :: "string \<Rightarrow> bool" where
  "looksLikeAttemptedEnvelope text =
    (rx_test quoted_files_re text \<or> rx_test json_fence_re text \<or> rx_test file_colon_re text)"

text \<open>\<open>repair\<close> is the optional third tier: a call that answers a text or throws.\<close>

definition parseTaskOutput :: "(string \<Rightarrow> js option) \<Rightarrow> (string \<Rightarrow> string option) option \<Rightarrow> string \<Rightarrow> parsed_output" where
  "parseTaskOutput jp repair text =
    (let none = (\<lambda>bad. \<lparr>po_tier = None, po_files = [], po_notes = None, po_malformed = bad\<rparr>);
         got = (\<lambda>tier (fs, n). \<lparr>po_tier = Some tier, po_files = fs, po_notes = n, po_malformed = False\<rparr>) in
     if text = [] then none False
     else (case tryStrictJson jp out_coerce text of
        Some r \<Rightarrow> got 1 r
      | None \<Rightarrow> (case out_tryLenient jp text of
          Some r \<Rightarrow> got 2 r
        | None \<Rightarrow>
            if \<not> looksLikeAttemptedEnvelope text then none False
            else (case repair of
               None \<Rightarrow> none True
             | Some f \<Rightarrow> (case f text of
                 None \<Rightarrow> none True
               | Some repaired \<Rightarrow> (case tryStrictJson jp out_coerce repaired of
                   Some r \<Rightarrow> got 3 r
                 | None \<Rightarrow> none True))))))"

section \<open>Judging an answer\<close>

text \<open>The typographic apostrophe is three bytes.\<close>

definition typographic :: string where "typographic = [CHR 0xE2, CHR 0x80, CHR 0x99]"

definition REFUSAL_PATTERNS :: "rx list" where
  "REFUSAL_PATTERNS =
    [seqs [Bol, Star space, alts [seqs [ilit ''i'', alts [lit [CHR 0x27], lit typographic], ilit ''m sorry''],
       ilit ''i am sorry'', ilit ''sorry,'']],
     seqs [WordB, alts [Seq (ilit ''i can'') (alts [ilit ''not'', ilit [CHR 0x27, CHR ''t'']]), ilit ''i cannot'', ilit ''i am unable to'',
         ilit [CHR ''i'', CHR 0x27, CHR ''m'', CHR '' '', CHR ''u'', CHR ''n'', CHR ''a'', CHR ''b'', CHR ''l'', CHR ''e'', CHR '' '', CHR ''t'', CHR ''o''],
         ilit ''unable to''],
       ilit '' '', alts [ilit ''help'', ilit ''assist'', ilit ''comply'', ilit ''do that'', ilit ''provide'']],
     seqs [WordB, ilit ''as an ai '', opt (ilit ''language ''), ilit ''model'', WordB, Star dot, WordB,
       alts [ilit ''cannot'', ilit [CHR ''c'', CHR ''a'', CHR ''n'', CHR 0x27, CHR ''t''], ilit ''unable'']]]"

definition MIN_USEFUL_CHARS :: nat where "MIN_USEFUL_CHARS = 2"

text \<open>The code of an unusable answer; \<open>None\<close> is \<open>{ ok: true }\<close>. An answer that is no string counts as empty.\<close>

definition validateSubtaskOutput :: "(string \<Rightarrow> js option) \<Rightarrow> string option \<Rightarrow> string option" where
  "validateSubtaskOutput jp out =
    (let text = dflt out [] in
     if length (js_trim text) < MIN_USEFUL_CHARS then Some ''EMPTY_OUTPUT''
     else if list_ex (\<lambda>re. rx_test re (take 400 text)) REFUSAL_PATTERNS then Some ''REFUSAL''
     else if looksLikeAttemptedEnvelope text \<and> ev_tier (parseEnvelope jp text) = None then Some ''MALFORMED_OUTPUT''
     else None)"

definition validation_message :: "string \<Rightarrow> string" where
  "validation_message code =
    (if code = ''EMPTY_OUTPUT'' then ''the model returned an empty or near-empty answer''
     else if code = ''REFUSAL'' then ''the model declined the task instead of doing it''
     else ''the output tried to be a files envelope but could not be parsed'')"

section \<open>Tool calls\<close>

definition MAX_ARGS_CHARS :: nat where "MAX_ARGS_CHARS = 8000"

text \<open>The fence of a call: an optional \<open>json\<close> and white space belong to it. The text before the fence,
  its body and the text after it.\<close>

definition call_fence_at :: "string \<Rightarrow> (string \<times> string) option" where
  "call_fence_at s =
    (if startsWith s tick3 then
       (let t = drop 3 s; u = (if startsWith t ''json'' then drop 4 t else t) in break_at tick3 (trimStart u))
     else None)"

lemma call_fence_at_length: "call_fence_at s = Some (b, r) \<Longrightarrow> length r < length s"
proof -
  assume f: "call_fence_at s = Some (b, r)"
  let ?u = "if startsWith (drop 3 s) ''json'' then drop 4 (drop 3 s) else drop 3 s"
  have "break_at tick3 (trimStart ?u) = Some (b, r)" and p: "startsWith s tick3"
    using f by (auto simp: call_fence_at_def Let_def split: if_splits)
  from break_at_length [OF this(1)] have "length r < length (trimStart ?u)" by (simp add: tick3_def)
  also have "\<dots> \<le> length ?u" unfolding trimStart_def by (rule length_dropWhile_le)
  also have "\<dots> \<le> length s" by auto
  finally show ?thesis .
qed

function call_fences :: "string \<Rightarrow> string \<Rightarrow> (string \<times> string \<times> string) list" where
  "call_fences pre0 [] = []"
| "call_fences pre0 (c # cs) =
     (case call_fence_at (c # cs) of
        Some (b, r) \<Rightarrow> (pre0, b, r) # call_fences (pre0 @ take (length (c # cs) - length r) (c # cs)) r
      | None \<Rightarrow> call_fences (pre0 @ [c]) cs)"
  by pat_completeness auto
termination
  by (relation "measure (\<lambda>(_, s). length s)") (auto dest: call_fence_at_length)

definition tool_id_re :: rx where
  "tool_id_re = seqs [Bol, Cls is_lower, rep_between 1 40 (Cls (\<lambda>c. is_lower c \<or> is_digit c \<or> c = CHR ''_'')), Eol]"

definition call_candidate :: "string \<Rightarrow> string option" where
  "call_candidate trimmed =
    (case call_fences [] trimmed of
       [(pre0, body, after)] \<Rightarrow> if js_trim pre0 \<noteq> [] \<or> js_trim after \<noteq> [] then None else Some (js_trim body)
     | [] \<Rightarrow> if startsWith trimmed [CHR 0x7B] \<and> endsWith trimmed [CHR 0x7D] then Some trimmed else None
     | _ \<Rightarrow> None)"

definition parseToolCall :: "(string \<Rightarrow> js option) \<Rightarrow> (rat \<Rightarrow> string) \<Rightarrow> string option \<Rightarrow> (string \<times> js) option" where
  "parseToolCall jp sn out =
    (case out of None \<Rightarrow> None
     | Some text \<Rightarrow>
        (let trimmed = js_trim text in
         if trimmed = [] \<or> MAX_ARGS_CHARS + 200 < length trimmed then None
         else (case call_candidate trimmed of None \<Rightarrow> None
            | Some candidate \<Rightarrow> (case jp candidate of None \<Rightarrow> None
                | Some parsed \<Rightarrow>
                   (let args = orNull (jget parsed ''args'') (JObj []) in
                    case jget parsed ''tool'' of
                      JStr tool \<Rightarrow>
                        if \<not> is_obj parsed \<or> \<not> rx_test tool_id_re tool \<or> map_of (entries parsed) ''files'' \<noteq> None
                           \<or> \<not> is_obj args \<or> MAX_ARGS_CHARS < length (dflt (stringify sn args) []) then None
                        else Some (tool, args)
                    | _ \<Rightarrow> None)))))"


section \<open>Paths never leave the tree\<close>

definition safe_path :: "string \<Rightarrow> bool" where
  "safe_path p =
    (CHR 0x5C \<notin> set p \<and> list_all (\<lambda>seg. seg \<noteq> [] \<and> seg \<noteq> ''.'' \<and> seg \<noteq> ''..'') (split_on (\<lambda>c. c = CHR ''/'') p))"

lemma normalizePath_safe: "safe_path (normalizePath raw)"
proof -
  let ?sep = "\<lambda>c. c = CHR ''/''"
  let ?clean = "map (\<lambda>c. if c = CHR 0x5C then CHR ''/'' else c) raw"
  let ?parts = "filter (\<lambda>seg. seg \<noteq> [] \<and> seg \<noteq> ''.'' \<and> seg \<noteq> ''..'') (split_on ?sep ?clean)"
  show ?thesis
  proof (cases "?parts = []")
    case True
    then have "normalizePath raw = ''untitled-file.txt''" by (simp only: normalizePath_def Let_def simp_thms if_False)
    moreover have "safe_path ''untitled-file.txt''" by code_simp
    ultimately show ?thesis by simp
  next
    case False
    have w: "CHR ''/'' \<notin> set s" "CHR 0x5C \<notin> set s" if "s \<in> set ?parts" for s
    proof -
      from that have s: "s \<in> set (split_on ?sep ?clean)" by simp
      show "CHR ''/'' \<notin> set s" using split_on_no_sep [OF s] by blast
      show "CHR 0x5C \<notin> set s" using split_on_chars [OF s] by auto
    qed
    have "split_on ?sep (join_with ''/'' ?parts) = ?parts"
      using False w(1) by (intro split_join) auto
    moreover have "CHR 0x5C \<notin> set (join_with ''/'' ?parts)"
      using set_join [of "''/''" ?parts] w(2) by auto
    moreover have "normalizePath raw = join_with ''/'' ?parts"
      using False by (simp only: normalizePath_def Let_def if_True simp_thms)
    ultimately show ?thesis by (auto simp: safe_path_def list_all_iff)
  qed
qed

lemma normalizePath_id: "safe_path p \<Longrightarrow> normalizePath p = p"
proof -
  assume s: "safe_path p"
  then have "map (\<lambda>c. if c = CHR 0x5C then CHR ''/'' else c) p = p" by (auto simp: safe_path_def intro!: map_idI)
  moreover have "filter (\<lambda>seg. seg \<noteq> [] \<and> seg \<noteq> ''.'' \<and> seg \<noteq> ''..'') (split_on (\<lambda>c. c = CHR ''/'') p) = split_on (\<lambda>c. c = CHR ''/'') p"
    using s unfolding safe_path_def by (intro filter_True) (simp add: list_all_iff)
  ultimately show ?thesis by (simp add: normalizePath_def join_split)
qed

abbreviation safe_files :: "out_file list \<Rightarrow> bool" where
  "safe_files fs \<equiv> list_all (\<lambda>f. safe_path (of_path f)) fs"

lemma safe_map_filter: "(\<And>x f. h x = Some f \<Longrightarrow> safe_path (of_path f)) \<Longrightarrow> safe_files (List.map_filter h xs)"
  by (induction xs) (auto simp: List.map_filter_simps split: option.splits)

lemma legacy_safe: "safe_files (extractFileBlocks text)"
  unfolding extractFileBlocks_def
  by (rule safe_map_filter) (auto simp: legacy_block_def normalizePath_safe Let_def split: option.splits prod.splits)

lemma file_entry_safe: "file_entry u e = Some f \<Longrightarrow> safe_path (of_path f)"
  by (auto simp: file_entry_def normalizePath_safe split: js.splits if_splits)

lemma coerce_safe:
  "env_coerce v = Some r \<Longrightarrow> safe_files (fst r)" "out_coerce v = Some r' \<Longrightarrow> safe_files (fst r')"
  by (auto simp: env_coerce_def out_coerce_def Let_def safe_map_filter [OF file_entry_safe] split: if_splits)

lemma first_some_prop: "first_some f xs = Some y \<Longrightarrow> \<exists>x. x \<in> set xs \<and> f x = Some y"
  by (induction xs) (auto split: option.splits)

lemma parse_with_prop: "parse_with jp coerce s = Some y \<Longrightarrow> \<exists>v. coerce v = Some y"
  by (auto simp: parse_with_def split: option.splits)

lemma strict_prop: "tryStrictJson jp coerce s = Some y \<Longrightarrow> \<exists>v. coerce v = Some y"
  unfolding tryStrictJson_def by (auto simp: Let_def dest!: first_some_prop parse_with_prop split: if_splits)

lemma lenient_prop: "tryLenientJson jp coerce s = Some y \<Longrightarrow> \<exists>v. coerce v = Some y"
proof (induction jp coerce s rule: tryLenientJson.induct)
  case (1 jp coerce s)
  show ?case
    using 1 parse_with_prop [of jp coerce] unfolding tryLenientJson.simps [of jp coerce s]
    by (auto split: option.splits)
qed

lemma env_strict_prop: "env_tryStrict jp s = Some y \<Longrightarrow> \<exists>v. env_coerce v = Some y"
  unfolding env_tryStrict_def by (auto simp: Let_def dest!: first_some_prop parse_with_prop split: if_splits)

text \<open>C36. Whatever a model answers, no path taken from it leaves the run's tree: every file of an
  envelope, of the output parser on any tier (the repair call's answer included) and of the legacy
  blocks has a path without a backslash whose segments are none of empty, \<open>.\<close> and \<open>..\<close>.\<close>

theorem extracted_paths_are_safe:
  "safe_files (ev_files (parseEnvelope jp text)) \<and> safe_files (po_files (parseTaskOutput jp repair text)) \<and>
   safe_files (extractFileBlocks text)"
proof (intro conjI)
  have "safe_files (fst r)" if "env_tryLenient jp text = Some r" for r
    using that unfolding env_tryLenient_def Let_def
    by (auto simp: legacy_safe dest!: first_some_prop parse_with_prop coerce_safe split: option.splits if_splits)
  moreover have "safe_files (fst r)" if "env_tryStrict jp text = Some r" for r
    using env_strict_prop [OF that] coerce_safe(1) by blast
  ultimately show "safe_files (ev_files (parseEnvelope jp text))"
    by (fastforce simp: parseEnvelope_def split: option.splits prod.splits)
  have "safe_files (fst r)" if "tryStrictJson jp out_coerce t = Some r" for r t
    using strict_prop [OF that] coerce_safe(2) by blast
  moreover have "safe_files (fst r)" if "out_tryLenient jp text = Some r" for r
    using that unfolding out_tryLenient_def Let_def
    by (auto simp: legacy_safe dest!: lenient_prop coerce_safe split: option.splits if_splits)
  ultimately show "safe_files (po_files (parseTaskOutput jp repair text))"
    unfolding parseTaskOutput_def Let_def by (auto split: option.splits prod.splits)
qed (rule legacy_safe)

section \<open>The brace scanners\<close>

lemma scanners_agree_from:
  "(\<not> inString \<longrightarrow> \<not> esc) \<Longrightarrow> env_balanced_from d inString esc s = balanced_from d inString esc s"
  by (induction d inString esc s rule: balanced_from.induct) (auto simp: Let_def)

lemma scanners_agree: "env_extractBalancedObject s = extractBalancedObject s"
  by (simp add: env_extractBalancedObject_def extractBalancedObject_def scanners_agree_from split: list.split)

text \<open>The two copies of the balanced-brace scanner, written with their branches in different orders,
  find the same span in every text.\<close>

theorem brace_scanners_agree: "env_extractBalancedObject text = extractBalancedObject text"
  by (rule scanners_agree)

text \<open>Text the scanner passes over at the depth it came with.\<close>

definition skips :: "string \<Rightarrow> bool" where
  "skips w = (\<forall>d rest. 0 < d \<longrightarrow> balanced_from d False False (w @ rest) = map_option ((@) w) (balanced_from d False False rest))"

lemma map_app [simp]:
  "map_option ((@) []) x = x"
  "map_option ((@) (c # w)) x = map_option ((#) c) (map_option ((@) w) x)"
  "map_option ((@) (u @ v)) x = map_option ((@) u) (map_option ((@) v) x)"
  by (cases x; simp)+

lemma skips_Nil: "skips []"
  by (simp add: skips_def)

lemma skips_append: "skips u \<Longrightarrow> skips v \<Longrightarrow> skips (u @ v)"
  by (simp add: skips_def)

definition plain_char :: "char \<Rightarrow> bool" where
  "plain_char c = (c \<noteq> CHR 0x22 \<and> c \<noteq> CHR 0x7B \<and> c \<noteq> CHR 0x7D)"

lemma skips_plain: "\<forall>c\<in>set w. plain_char c \<Longrightarrow> skips w"
proof (induction w)
  case (Cons c w)
  have "skips [c]" using Cons.prems by (simp add: skips_def plain_char_def Let_def)
  with Cons skips_append [of "[c]" w] show ?case by simp
qed (rule skips_Nil)

lemma hex_digit_quiet: "n < 16 \<Longrightarrow> hex_digit n \<noteq> CHR 0x22 \<and> hex_digit n \<noteq> CHR 0x5C"
proof -
  assume "n < 16"
  then have "n \<in> set [0..<16]" by simp
  moreover have "list_all (\<lambda>n. hex_digit n \<noteq> CHR 0x22 \<and> hex_digit n \<noteq> CHR 0x5C) [0..<16]" by code_simp
  ultimately show ?thesis by (simp add: list_all_iff)
qed

lemma in_string_quiet:
  "\<forall>c\<in>set w. c \<noteq> CHR 0x22 \<and> c \<noteq> CHR 0x5C \<Longrightarrow> balanced_from d True False (w @ rest) = map_option ((@) w) (balanced_from d True False rest)"
  by (induction w) (simp_all add: Let_def)

lemma in_string_pair:
  "balanced_from d True False (CHR 0x5C # c # w @ rest) = map_option ((@) (CHR 0x5C # c # w)) (balanced_from d True False rest)"
  if "\<forall>c\<in>set w. c \<noteq> CHR 0x22 \<and> c \<noteq> CHR 0x5C"
  using in_string_quiet [OF that] by (simp add: Let_def)

lemma esc_char_cases:
  obtains (pair) k w where "esc_char c = CHR 0x5C # k # w" "\<forall>x\<in>set w. x \<noteq> CHR 0x22 \<and> x \<noteq> CHR 0x5C"
    | (same) "esc_char c = [c]" "c \<noteq> CHR 0x22" "c \<noteq> CHR 0x5C"
proof -
  have h: "code_of c < 32 \<Longrightarrow> hex_digit (code_of c div 16) \<noteq> CHR 0x22 \<and> hex_digit (code_of c div 16) \<noteq> CHR 0x5C"
    "hex_digit (code_of c mod 16) \<noteq> CHR 0x22 \<and> hex_digit (code_of c mod 16) \<noteq> CHR 0x5C"
    by (rule hex_digit_quiet, simp)+
  have codes: "code_of (CHR 0x22) = 34" "code_of (CHR 0x5C) = 92" by (simp_all add: code_of_def)
  consider "code_of c \<in> {34, 92, 8, 12, 10, 13, 9}" | "code_of c \<notin> {34, 92, 8, 12, 10, 13, 9}" "code_of c < 32"
    | "code_of c \<notin> {34, 92, 8, 12, 10, 13, 9}" "\<not> code_of c < 32" by blast
  then show ?thesis
  proof cases
    case 1
    then show ?thesis by (intro pair [of "hd (tl (esc_char c))" "[]"]) (auto simp: esc_char_def Let_def)
  next
    case 2
    then show ?thesis using h
      by (intro pair [of "CHR ''u''" "[CHR ''0'', CHR ''0'', hex_digit (code_of c div 16), hex_digit (code_of c mod 16)]"])
        (simp_all add: esc_char_def Let_def)
  next
    case 3
    then have "c \<noteq> CHR 0x22" "c \<noteq> CHR 0x5C" using codes by auto
    with 3 show ?thesis by (intro same) (simp_all add: esc_char_def Let_def)
  qed
qed

lemma in_string_esc:
  "balanced_from d True False (esc_char c @ rest) = map_option ((@) (esc_char c)) (balanced_from d True False rest)"
proof (cases rule: esc_char_cases [of c])
  case (pair k w)
  then show ?thesis using in_string_pair [OF pair(2), of d k rest] by simp
next
  case same
  then show ?thesis using in_string_quiet [of "[c]" d rest] by simp
qed

lemma in_string_text:
  "balanced_from d True False (concat (map esc_char s) @ rest) = map_option ((@) (concat (map esc_char s))) (balanced_from d True False rest)"
proof (induction s)
  case Nil
  show ?case by (simp add: option.map_ident)
next
  case (Cons c s)
  have "balanced_from d True False (concat (map esc_char (c # s)) @ rest) =
      map_option ((@) (esc_char c)) (map_option ((@) (concat (map esc_char s))) (balanced_from d True False rest))"
    by (simp only: list.map concat.simps append_assoc in_string_esc Cons)
  then show ?case by (cases "balanced_from d True False rest") simp_all
qed

lemma skips_quote: "skips (quote s)"
  unfolding skips_def quote_def by (simp add: Let_def in_string_text)

lemma skips_join: "skips sep \<Longrightarrow> \<forall>w\<in>set ws. skips w \<Longrightarrow> skips (join_with sep ws)"
  by (induction sep ws rule: join_with.induct) (simp_all add: skips_Nil skips_append)

lemma skips_braces: "skips w \<Longrightarrow> skips ([CHR 0x7B] @ w @ [CHR 0x7D])"
  unfolding skips_def by (simp add: Let_def)

definition plain_numbers :: "(rat \<Rightarrow> string) \<Rightarrow> bool" where
  "plain_numbers sn = (\<forall>r. \<forall>c\<in>set (sn r). plain_char c \<and> c \<noteq> CHR 0x0A)"

definition fields_text :: "(rat \<Rightarrow> string) \<Rightarrow> (string \<times> js) list \<Rightarrow> string" where
  "fields_text sn kvs = join_with '',''
     (concat (map (\<lambda>kv. case stringify sn (snd kv) of None \<Rightarrow> [] | Some t \<Rightarrow> [quote (fst kv) @ '':'' @ t]) kvs))"

lemma stringify_object: "stringify sn (JObj kvs) = Some (''{'' @ fields_text sn kvs @ ''}'')"
  by (simp add: fields_text_def)

lemma skips_lit: "list_all plain_char w \<Longrightarrow> skips w"
  by (rule skips_plain) (simp add: list_all_iff)

lemma skips_literals:
  "skips ''null''" "skips ''true''" "skips ''false''" "skips '',''" "skips '':''" "skips ''[''" "skips '']''"
  by (rule skips_lit, code_simp)+

lemma fields_skips:
  assumes "\<And>k v u. (k, v) \<in> set kvs \<Longrightarrow> stringify sn v = Some u \<Longrightarrow> skips u"
  shows "skips (fields_text sn kvs)"
proof -
  have "skips (quote k @ '':'' @ u)" if "(k, v) \<in> set kvs" "stringify sn v = Some u" for k v u
    by (intro skips_append skips_quote skips_literals assms [OF that])
  then have "\<forall>w\<in>set (concat (map (\<lambda>kv. case stringify sn (snd kv) of None \<Rightarrow> [] | Some t \<Rightarrow> [quote (fst kv) @ '':'' @ t]) kvs)). skips w"
    by (auto split: option.splits)
  then show ?thesis unfolding fields_text_def by (intro skips_join skips_literals)
qed

lemma stringify_skips:
  assumes num: "plain_numbers sn"
  shows "stringify sn v = Some t \<Longrightarrow> skips t"
proof (induction v arbitrary: t)
  case (JNum n)
  show ?case
  proof (cases n)
    case (Fin r)
    then have "t = sn r" using JNum by simp
    then show ?thesis using num by (intro skips_plain) (simp add: plain_numbers_def)
  qed (use JNum skips_literals in simp_all)
next
  case (JStr s)
  then show ?case by (auto simp: skips_quote)
next
  case (JArr xs)
  have "skips (dflt (stringify sn x) ''null'')" if "x \<in> set xs" for x
    using JArr.IH [OF that] skips_literals by (cases "stringify sn x") simp_all
  then have "skips (join_with '','' (map (\<lambda>x. dflt (stringify sn x) ''null'') xs))"
    by (intro skips_join skips_literals) simp
  then have "skips (''['' @ join_with '','' (map (\<lambda>x. dflt (stringify sn x) ''null'') xs) @ '']'')"
    by (intro skips_append skips_literals)
  then show ?case using JArr.prems by simp
next
  case (JObj kvs)
  have "skips (fields_text sn kvs)"
  proof (rule fields_skips)
    fix k v u assume "(k, v) \<in> set kvs" "stringify sn v = Some u"
    then show "skips u" using JObj.IH [of "(k, v)" v u] by simp
  qed
  from skips_braces [OF this] show ?case using JObj.prems by (simp only: stringify_object option.inject)
qed (use skips_literals in \<open>simp_all split: if_splits\<close>)

lemma fields_skip: "plain_numbers sn \<Longrightarrow> skips (fields_text sn kvs)"
  by (rule fields_skips) (rule stringify_skips)

lemma from_brace_skip: "CHR 0x7B \<notin> set pre \<Longrightarrow> from_brace (pre @ s) = from_brace s"
  unfolding from_brace_def by (rule dropWhile_append2) auto

lemma object_span:
  assumes "plain_numbers sn" and "CHR 0x7B \<notin> set pre" and "stringify sn (JObj kvs) = Some json"
  shows "extractBalancedObject (pre @ json @ rest) = Some json"
proof -
  have json: "json = CHR 0x7B # fields_text sn kvs @ [CHR 0x7D]" using assms(3) by (simp add: stringify_object del: stringify.simps)
  have "balanced_from 1 False False (fields_text sn kvs @ CHR 0x7D # rest) = Some (fields_text sn kvs @ [CHR 0x7D])"
    using fields_skip [OF assms(1), of kvs] by (simp add: skips_def Let_def)
  then show ?thesis
    by (simp add: extractBalancedObject_def from_brace_skip [OF assms(2)] json) (simp add: from_brace_def)
qed

text \<open>Texts without a line break hold no fenced block, and compact JSON has no line break.\<close>

lemma no_fences: "CHR 0x0A \<notin> set s \<Longrightarrow> fences s = []"
proof (induction s rule: fences.induct)
  case (2 c cs)
  have "fence_at (c # cs) = None"
  proof (rule ccontr)
    assume "fence_at (c # cs) \<noteq> None"
    then obtain r where "dropWhile (\<lambda>c. c \<noteq> CHR 0x0A \<and> c \<noteq> CHR 0x60) (drop 3 (c # cs)) = CHR 0x0A # r"
      by (auto simp: fence_at_def split: if_splits list.splits)
    then have "CHR 0x0A \<in> set (drop 3 (c # cs))" by (metis list.set_intros(1) set_dropWhileD)
    then show False using "2.prems" by (meson in_set_dropD)
  qed
  with 2 show ?case by simp
qed simp

lemma hex_digit_line: "n < 16 \<Longrightarrow> hex_digit n \<noteq> CHR 0x0A"
proof -
  assume "n < 16"
  then have "n \<in> set [0..<16]" by simp
  moreover have "list_all (\<lambda>n. hex_digit n \<noteq> CHR 0x0A) [0..<16]" by code_simp
  ultimately show ?thesis by (simp add: list_all_iff)
qed

lemma quote_one_line: "CHR 0x0A \<notin> set (quote s)"
proof -
  have "CHR 0x0A \<notin> set (esc_char c)" for c
  proof -
    have "c \<noteq> CHR 0x0A" if "code_of c \<noteq> 10" using that by (auto simp: code_of_def)
    moreover have "hex_digit (code_of c mod 16) \<noteq> CHR 0x0A" "code_of c < 32 \<Longrightarrow> hex_digit (code_of c div 16) \<noteq> CHR 0x0A"
      by (rule hex_digit_line, simp)+
    ultimately show ?thesis by (auto simp: esc_char_def Let_def)
  qed
  then show ?thesis by (auto simp: quote_def)
qed

lemma join_one_line: "CHR 0x0A \<notin> set sep \<Longrightarrow> \<forall>w\<in>set ws. CHR 0x0A \<notin> set w \<Longrightarrow> CHR 0x0A \<notin> set (join_with sep ws)"
  using set_join [of sep ws] by blast

lemma stringify_one_line:
  assumes num: "plain_numbers sn"
  shows "stringify sn v = Some t \<Longrightarrow> CHR 0x0A \<notin> set t"
proof (induction v arbitrary: t)
  case (JNum n)
  show ?case
  proof (cases n)
    case (Fin r)
    then show ?thesis using JNum num by (auto simp: plain_numbers_def)
  qed (use JNum in auto)
next
  case (JStr s)
  then show ?case by (auto simp: quote_one_line)
next
  case (JArr xs)
  have "CHR 0x0A \<notin> set (dflt (stringify sn x) ''null'')" if "x \<in> set xs" for x
    using JArr.IH [OF that] by (cases "stringify sn x") simp_all
  then have "CHR 0x0A \<notin> set (join_with '','' (map (\<lambda>x. dflt (stringify sn x) ''null'') xs))"
    by (intro join_one_line) simp_all
  then show ?case using JArr.prems by auto
next
  case (JObj kvs)
  have "CHR 0x0A \<notin> set (quote (fst kv) @ '':'' @ u)" if "kv \<in> set kvs" "Some u = stringify sn (snd kv)" for kv u
    using JObj.IH [of kv "snd kv" u] that quote_one_line by (cases kv) simp
  then have "CHR 0x0A \<notin> set (fields_text sn kvs)"
    unfolding fields_text_def by (intro join_one_line) (simp, force split: option.splits)
  moreover have "t = ''{'' @ fields_text sn kvs @ ''}''" using JObj.prems by (simp only: stringify_object option.inject)
  ultimately show ?case by simp
qed (auto split: if_splits)

section \<open>What an envelope survives\<close>

definition env_js :: "out_file list \<Rightarrow> string \<Rightarrow> js" where
  "env_js fs nts =
    JObj [(''files'', JArr (map (\<lambda>f. JObj [(''path'', JStr (of_path f)), (''content'', JStr (of_content f))]) fs)),
          (''notes'', JStr nts)]"

definition env_text :: "(rat \<Rightarrow> string) \<Rightarrow> out_file list \<Rightarrow> string \<Rightarrow> string" where
  "env_text sn fs nts = dflt (stringify sn (env_js fs nts)) []"

lemma env_text_eq: "stringify sn (env_js fs nts) = Some (env_text sn fs nts)"
  by (simp add: env_text_def env_js_def)

lemma coerce_env:
  assumes "safe_files fs"
  shows "out_coerce (env_js fs nts) = Some (fs, Some nts)"
    and "fs \<noteq> [] \<Longrightarrow> list_all (\<lambda>f. js_trim (of_path f) \<noteq> []) fs \<Longrightarrow> env_coerce (env_js fs nts) = Some (fs, nts)"
proof -
  have "List.map_filter (file_entry u) (map (\<lambda>f. JObj [(''path'', JStr (of_path f)), (''content'', JStr (of_content f))]) fs) = fs"
    if "list_all (\<lambda>f. u (of_path f)) fs" for u
    using assms that by (induction fs) (simp_all add: List.map_filter_simps file_entry_def normalizePath_id)
  then show "out_coerce (env_js fs nts) = Some (fs, Some nts)"
    "fs \<noteq> [] \<Longrightarrow> list_all (\<lambda>f. js_trim (of_path f) \<noteq> []) fs \<Longrightarrow> env_coerce (env_js fs nts) = Some (fs, nts)"
    by (simp_all add: out_coerce_def env_coerce_def env_js_def text_prop_def list_all_iff)
qed

lemma env_span:
  assumes "plain_numbers sn" and "CHR 0x7B \<notin> set pre"
  shows "extractBalancedObject (pre @ env_text sn fs nts @ rest) = Some (env_text sn fs nts)"
  using object_span [OF assms, of _ "env_text sn fs nts"] env_text_eq [of sn fs nts] unfolding env_js_def by blast

lemma env_one_line: "plain_numbers sn \<Longrightarrow> CHR 0x0A \<notin> set (env_text sn fs nts)"
  using stringify_one_line env_text_eq by blast

lemma env_text_brace: "\<exists>r. env_text sn fs nts = CHR 0x7B # r"
  using env_text_eq [of sn fs nts] unfolding env_js_def stringify_object by simp (rule exI, erule sym)

lemma buried_envelope:
  assumes "plain_numbers sn" and "jp (env_text sn fs nts) = Some (env_js fs nts)"
    and "fs \<noteq> []" and "safe_files fs" and "list_all (\<lambda>f. js_trim (of_path f) \<noteq> []) fs"
    and "CHR 0x7B \<notin> set pre" and "CHR 0x0A \<notin> set (pre @ rest)"
  shows "parseEnvelope jp (pre @ env_text sn fs nts @ rest) = \<lparr>ev_tier = Some 2, ev_files = fs, ev_notes = nts\<rparr>"
proof -
  let ?t = "pre @ env_text sn fs nts @ rest"
  have "fences ?t = []" using assms(7) env_one_line [OF assms(1)] by (intro no_fences) auto
  then have "env_tryStrict jp ?t = None" by (simp add: env_tryStrict_def)
  moreover have "env_tryLenient jp ?t = Some (fs, nts)"
    using assms(2) coerce_env(2) [OF assms(4,3,5)] env_span [OF assms(1,6), of fs nts rest]
    by (simp add: env_tryLenient_def scanners_agree parse_with_def)
  moreover have "?t \<noteq> []" using env_text_brace [of sn fs nts] by auto
  ultimately show ?thesis by (simp add: parseEnvelope_def)
qed



text \<open>The output parser repairs first and parses afterwards. What it makes of a buried envelope is what
  the repaired text says.\<close>

lemma no_legacy: "CHR 0x0A \<notin> set s \<Longrightarrow> extractFileBlocks s = []"
  by (simp add: extractFileBlocks_def no_fences)

lemma strict_needs_brace:
  assumes "CHR 0x0A \<notin> set s" and "\<not> startsWith (js_trim s) [CHR 0x7B]"
  shows "tryStrictJson jp coerce s = None"
  using assms by (simp add: tryStrictJson_def no_fences)

lemma buried_output:
  assumes "plain_numbers sn" and "CHR 0x7B \<notin> set pre" and "CHR 0x0A \<notin> set (pre @ rest)"
    and "\<not> startsWith (js_trim (pre @ env_text sn fs nts @ rest)) [CHR 0x7B]"
    and "jp (stripTrailingCommas (env_text sn fs nts)) = Some v" and "out_coerce v = Some (fs', n')"
  shows "parseTaskOutput jp repair (pre @ env_text sn fs nts @ rest) =
    \<lparr>po_tier = Some 2, po_files = fs', po_notes = n', po_malformed = False\<rparr>"
proof -
  let ?t = "pre @ env_text sn fs nts @ rest"
  have line: "CHR 0x0A \<notin> set ?t" using assms(3) env_one_line [OF assms(1)] by auto
  have "tryLenientJson jp out_coerce ?t = Some (fs', n')"
    using assms(5,6) by (subst tryLenientJson.simps) (simp add: env_span [OF assms(1,2)] parse_with_def)
  moreover have "?t \<noteq> []" using env_text_brace [of sn fs nts] by auto
  ultimately show ?thesis
    using strict_needs_brace [OF line assms(4), of jp out_coerce] by (simp add: parseTaskOutput_def out_tryLenient_def Let_def)
qed

abbreviation one_json :: "string \<Rightarrow> out_file list" where
  "one_json c \<equiv> [\<lparr>of_path = ''a.json'', of_content = c\<rparr>]"

text \<open>A file's own commas are lost on the way to the deliverable: an answer that announces an envelope in
  a line of prose and whose file holds the text \<open>[1,]\<close> (a JavaScript array) is judged usable with that
  text, but the output parser, which takes the files, strips commas inside string literals too before it
  parses, and delivers \<open>[1]\<close>.\<close>

theorem output_parser_edits_content:
  assumes "jp (env_text sn (one_json ''[1,]'') []) = Some (env_js (one_json ''[1,]'') [])"
    and "jp (env_text sn (one_json ''[1]'') []) = Some (env_js (one_json ''[1]'') [])"
  shows "ev_files (parseEnvelope jp (''Here: '' @ env_text sn (one_json ''[1,]'') [])) = one_json ''[1,]'' \<and>
    parseTaskOutput jp repair (''Here: '' @ env_text sn (one_json ''[1,]'') []) =
      \<lparr>po_tier = Some 2, po_files = one_json ''[1]'', po_notes = Some [], po_malformed = False\<rparr>"
proof -
  have sn: "env_text sn (one_json c) [] = env_text (\<lambda>_. ''0'') (one_json c) []" for c
    by (simp add: env_text_def env_js_def)
  have num: "plain_numbers (\<lambda>_. ''0'')"
  proof -
    have "list_all plain_char ''0''" by code_simp
    then show ?thesis by (simp add: plain_numbers_def)
  qed
  have safe: "safe_files (one_json ''[1,]'')" "safe_files (one_json ''[1]'')" by (code_simp, code_simp)
  have strip: "stripTrailingCommas (env_text (\<lambda>_. ''0'') (one_json ''[1,]'') []) = env_text (\<lambda>_. ''0'') (one_json ''[1]'') []"
    by code_simp
  have prose: "\<not> startsWith (js_trim (''Here: '' @ env_text (\<lambda>_. ''0'') (one_json ''[1,]'') [] @ [])) [CHR 0x7B]"
    by code_simp
  have name: "list_all (\<lambda>f. js_trim (of_path f) \<noteq> []) (one_json ''[1,]'')" by code_simp
  have "parseEnvelope jp (''Here: '' @ env_text (\<lambda>_. ''0'') (one_json ''[1,]'') [] @ []) =
      \<lparr>ev_tier = Some 2, ev_files = one_json ''[1,]'', ev_notes = []\<rparr>"
    using assms(1) by (intro buried_envelope num safe(1) name) (simp_all add: sn)
  moreover have "parseTaskOutput jp repair (''Here: '' @ env_text (\<lambda>_. ''0'') (one_json ''[1,]'') [] @ []) =
      \<lparr>po_tier = Some 2, po_files = one_json ''[1]'', po_notes = Some [], po_malformed = False\<rparr>"
    using assms(2) by (intro buried_output [OF num _ _ prose, of _ "env_js (one_json ''[1]'') []"] coerce_env(1) safe(2)) (simp_all add: strip sn)
  ultimately show ?thesis by (simp add: sn)
qed

theorem output_parser_edits_content_witness:
  "\<exists>jp. po_files (parseTaskOutput jp None (''Here: '' @ env_text (\<lambda>_. ''0'') (one_json ''[1,]'') [])) = one_json ''[1]''"
proof -
  let ?jp = "\<lambda>t. if t = env_text (\<lambda>_. ''0'') (one_json ''[1,]'') [] then Some (env_js (one_json ''[1,]'') [])
    else Some (env_js (one_json ''[1]'') [])"
  have "env_text (\<lambda>_. ''0'') (one_json ''[1]'') [] \<noteq> env_text (\<lambda>_. ''0'') (one_json ''[1,]'') []" by code_simp
  then have "po_files (parseTaskOutput ?jp None (''Here: '' @ env_text (\<lambda>_. ''0'') (one_json ''[1,]'') [])) = one_json ''[1]''"
    using output_parser_edits_content [of ?jp "\<lambda>_. ''0''" None] by simp
  then show ?thesis by blast
qed

text \<open>One stray opening brace hides every object after it: in a line of prose with an opening brace that
  nothing closes, both parsers give up at that brace, so a sound envelope further on is not found, the
  answer is judged malformed and no file is delivered.\<close>

theorem stray_brace_hides_envelope:
  assumes "plain_numbers sn" and "list_all plain_char (pre @ mid @ rest)" and "CHR 0x0A \<notin> set (pre @ mid @ rest)"
    and "\<not> startsWith (js_trim (pre @ CHR 0x7B # mid @ env_text sn fs nts @ rest)) [CHR 0x7B]"
  shows "ev_tier (parseEnvelope jp (pre @ CHR 0x7B # mid @ env_text sn fs nts @ rest)) = None \<and>
    po_files (parseTaskOutput jp None (pre @ CHR 0x7B # mid @ env_text sn fs nts @ rest)) = []"
proof -
  let ?t = "pre @ CHR 0x7B # mid @ env_text sn fs nts @ rest"
  have "skips mid" "skips rest" using assms(2) by (auto intro: skips_lit)
  then have "skips (mid @ env_text sn fs nts @ rest)"
    using stringify_skips [OF assms(1) env_text_eq] by (intro skips_append)
  then have "balanced_from 1 False False ((mid @ env_text sn fs nts @ rest) @ []) = None"
    unfolding skips_def by (simp del: append_Nil2 append_assoc)
  moreover have "CHR 0x7B \<notin> set pre" using assms(2) by (auto simp: list_all_iff plain_char_def)
  ultimately have span: "extractBalancedObject ?t = None"
    by (simp add: extractBalancedObject_def from_brace_skip) (simp add: from_brace_def)
  have line: "CHR 0x0A \<notin> set ?t" using assms(3) env_one_line [OF assms(1)] by auto
  have "ev_tier (parseEnvelope jp ?t) = None"
    using span line by (simp add: parseEnvelope_def env_tryStrict_def env_tryLenient_def no_fences no_legacy scanners_agree)
  moreover have "tryLenientJson jp out_coerce ?t = None" by (subst tryLenientJson.simps) (simp add: span)
  ultimately show ?thesis
    using strict_needs_brace [OF line assms(4), of jp out_coerce] no_legacy [OF line]
    by (simp add: parseTaskOutput_def out_tryLenient_def Let_def)
qed

theorem stray_brace_hides_envelope_witness:
  "ev_tier (parseEnvelope (\<lambda>_. Some (env_js (one_json []) [])) (''In C, '' @ CHR 0x7B # '' opens a block: '' @ env_text (\<lambda>_. ''0'') (one_json []) [] @ [])) = None"
proof -
  have l: "list_all plain_char ''0''" by code_simp
  then have num: "plain_numbers (\<lambda>_. ''0'')" by (simp add: plain_numbers_def)
  have a: "list_all plain_char (''In C, '' @ '' opens a block: '' @ [])" by code_simp
  have b: "CHR 0x0A \<notin> set (''In C, '' @ '' opens a block: '' @ [])" by simp
  have c: "\<not> startsWith (js_trim (''In C, '' @ CHR 0x7B # '' opens a block: '' @ env_text (\<lambda>_. ''0'') (one_json []) [] @ [])) [CHR 0x7B]"
    by code_simp
  show ?thesis using stray_brace_hides_envelope [OF num a b c] by blast
qed

end
