(* ===== verification/Step_Run.thy ===== *)
theory Step_Run
  imports Router Loop_Detector Envelope
begin

text \<open>
  One step of a task graph: \<open>#runWithRetry\<close> and \<open>#executeWithDeadline\<close> of
  \<open>src/orchestrator/scheduler.js\<close>, over the failure taxonomy, the retry policy, the loop detector, the
  tool-call parser and the judgement of answers. What the adapters answer, what the tools do, whether the
  run was cancelled meanwhile, the random numbers, \<open>JSON.parse\<close>, SHA-1 and the rendering of numbers are
  arguments, functions of the state the loop is in; waiting leaves no trace.
\<close>

section \<open>Steps and their state\<close>

record gstep =
  gs_id :: string
  gs_title :: string
  gs_aspect :: string
  gs_description :: string
  gs_dependsOn :: "string list"
  gs_complexity :: string
  gs_deliverable :: string
  gs_routingHint :: "string option"
  gs_remediationHint :: "string option"
  gs_parks :: "nat option"

datatype park_why = PolicyWhy retry_why | ToolWhy string

record park =
  pk_reason :: string
  pk_wakeInMs :: rat
  pk_why :: park_why
  pk_approvalKey :: "string option"

record step_error =
  sx_code :: string
  sx_class :: "string option"
  sx_message :: string
  sx_status :: "rat option"
  sx_park :: "park option"

record step_attempt =
  at_modelId :: string
  at_pool :: string
  at_ok :: bool
  at_ms :: int
  at_tokensUsed :: "int option"
  at_error :: "step_error option"

record tool_note =
  tn_tool :: string
  tn_args :: js
  tn_ok :: bool
  tn_output :: string

record answer =
  xr_ok :: bool
  xr_output :: "string option"
  xr_ms :: int
  xr_tokensUsed :: "int option"
  xr_error :: "err option"

record invoked =
  iv_ok :: bool
  iv_output :: string
  iv_code :: "string option"
  iv_message :: "string option"
  iv_approvalKey :: "string option"

datatype step_event =
    AttemptFinished string nat bool
  | AttemptFailed string nat step_error "rat option"
  | ToolRound string nat string bool "string option"
  | RetryDecided string string retry_action rat retry_why

record step_run =
  sr_index :: nat
  sr_same :: nat
  sr_used :: nat
  sr_hops :: nat
  sr_toolRounds :: nat
  sr_loop :: detector
  sr_toolLoop :: detector
  sr_lastError :: "step_error option"
  sr_attempts :: "step_attempt list"
  sr_transcript :: "tool_note list"
  sr_repairHint :: "string option"
  sr_observed :: "(string \<times> string \<times> bool \<times> int) list"
  sr_events :: "step_event list"

record step_cfg =
  cg_maxAttempts :: nat
  cg_maxToolCalls :: nat
  cg_taskTimeoutMs :: nat
  cg_tools :: bool

text \<open>The world of a step: an adapter's answer comes after a time, or never.\<close>

record step_env =
  ev_execute :: "step_run \<Rightarrow> ranked \<Rightarrow> (nat \<times> answer) option"
  ev_invoke :: "step_run \<Rightarrow> string \<Rightarrow> js \<Rightarrow> invoked"
  ev_aborted :: "step_run \<Rightarrow> bool"
  ev_random :: "step_run \<Rightarrow> rat"
  ev_jp :: "string \<Rightarrow> js option"
  ev_sha1 :: "string \<Rightarrow> string"
  ev_sn :: "rat \<Rightarrow> string"

record step_result =
  rs_ok :: bool
  rs_output :: "string option"
  rs_modelId :: string
  rs_error :: "step_error option"

definition MAX_ATTEMPTS :: nat where "MAX_ATTEMPTS = 3"
definition MAX_TOOL_CALLS_PER_STEP :: nat where "MAX_TOOL_CALLS_PER_STEP = 6"
definition TOOL_LOOP_REPEATS :: nat where "TOOL_LOOP_REPEATS = 3"

definition mk_error :: "string \<Rightarrow> string option \<Rightarrow> string \<Rightarrow> step_error" where
  "mk_error code cls msg = \<lparr>sx_code = code, sx_class = cls, sx_message = msg, sx_status = None, sx_park = None\<rparr>"

section \<open>One call under its deadline\<close>

definition timeout_answer :: "nat \<Rightarrow> string \<Rightarrow> answer" where
  "timeout_answer ms stepId =
    \<lparr>xr_ok = False, xr_output = None, xr_ms = int ms, xr_tokensUsed = None,
     xr_error = Some ((message_err (''Task '' @ [CHR 0x22] @ stepId @ [CHR 0x22] @ '' exceeded the '' @ show_nat ms
       @ ''ms wall-clock deadline.''))\<lparr>er_code := Some ''TASK_TIMEOUT''\<rparr>)\<rparr>"

definition executeWithDeadline :: "nat \<Rightarrow> string \<Rightarrow> (nat \<times> answer) option \<Rightarrow> answer" where
  "executeWithDeadline taskTimeoutMs stepId raced =
    (case raced of
       Some (t, a) \<Rightarrow> if t < taskTimeoutMs then a else timeout_answer taskTimeoutMs stepId
     | None \<Rightarrow> timeout_answer taskTimeoutMs stepId)"

section \<open>One turn of the retry loop\<close>

text \<open>What a turn does: return from the function, leave the loop, or go round again.\<close>

datatype turn = Return step_result step_run | Break step_run | Again step_run

definition emit :: "step_event \<Rightarrow> step_run \<Rightarrow> step_run" where
  "emit e s = s\<lparr>sr_events := sr_events s @ [e]\<rparr>"

definition failed :: "string \<Rightarrow> step_error \<Rightarrow> step_result" where
  "failed modelId e = \<lparr>rs_ok = False, rs_output = None, rs_modelId = modelId, rs_error = Some e\<rparr>"

definition observe_in :: "step_env \<Rightarrow> js \<Rightarrow> detector \<Rightarrow> detector \<times> observation" where
  "observe_in env v d = the (observe (ev_sha1 env) (ev_sn env) v (Some False) d)"

definition tool_failure :: "step_cfg \<Rightarrow> string \<Rightarrow> nat \<Rightarrow> observation \<Rightarrow> step_error option" where
  "tool_failure cfg tool rounds seen =
    (if ob_looping seen then
       Some (mk_error ''LOOP_DETECTED'' (Some ''poisoned'')
         (''the step asked for the same tool call ('' @ tool @ '') '' @ show_nat (ob_repeats seen) @ '' times''))
     else if cg_maxToolCalls cfg < rounds then
       Some (mk_error ''TOOL_LIMIT'' (Some ''poisoned'')
         (''the step made more than '' @ show_nat (cg_maxToolCalls cfg) @ '' tool calls without answering''))
     else None)"

definition note_of :: "string \<Rightarrow> js \<Rightarrow> invoked \<Rightarrow> tool_note" where
  "note_of tool args iv =
    \<lparr>tn_tool = tool, tn_args = args, tn_ok = iv_ok iv,
     tn_output = (if iv_ok iv then iv_output iv
       else ''ERROR '' @ dflt (iv_code iv) ''TOOL_ERROR'' @ '': '' @ dflt (iv_message iv) ''failed'')\<rparr>"

definition tool_turn :: "step_cfg \<Rightarrow> step_env \<Rightarrow> ranked \<Rightarrow> answer \<Rightarrow> string \<times> js \<Rightarrow> step_run \<Rightarrow> turn" where
  "tool_turn cfg env current result call s =
    (let (tool, args) = call;
         rounds = sr_toolRounds s + 1;
         (d, seen) = observe_in env (JObj [(''tool'', JStr tool), (''args'', args)]) (sr_toolLoop s);
         s1 = s\<lparr>sr_toolRounds := rounds, sr_toolLoop := d\<rparr> in
     case tool_failure cfg tool rounds seen of
       Some failure \<Rightarrow>
         Return (failed (rk_modelId current) failure)
           (emit (AttemptFailed (rk_modelId current) (sr_used s + 1) failure None)
             (s1\<lparr>sr_attempts := sr_attempts s1 @ [\<lparr>at_modelId = rk_modelId current, at_pool = rk_pool current, at_ok = False,
                  at_ms = xr_ms result, at_tokensUsed = xr_tokensUsed result, at_error = Some failure\<rparr>], sr_repairHint := None\<rparr>))
     | None \<Rightarrow>
         (let iv = ev_invoke env s1 tool args;
              s2 = emit (ToolRound (rk_modelId current) rounds tool (iv_ok iv) (iv_code iv)) s1 in
          if iv_code iv = Some ''APPROVAL_REQUIRED'' then
            Return (failed (rk_modelId current)
              ((mk_error ''APPROVAL_REQUIRED'' (Some ''policy_blocked'') (dflt (iv_message iv) []))\<lparr>sx_park :=
                 Some \<lparr>pk_reason = ''approval'', pk_wakeInMs = 0, pk_why = ToolWhy (dflt (iv_message iv) []), pk_approvalKey = iv_approvalKey iv\<rparr>\<rparr>)) s2
          else Again (s2\<lparr>sr_transcript := sr_transcript s2 @ [note_of tool args iv]\<rparr>)))"

text \<open>The failure of an answer: what the adapter reports, or that the text is not usable.\<close>

definition failure_of :: "step_env \<Rightarrow> answer \<Rightarrow> err option" where
  "failure_of env result =
    (if xr_ok result then
       (case validateSubtaskOutput (ev_jp env) (xr_output result) of
          None \<Rightarrow> None
        | Some code \<Rightarrow> Some ((message_err (validation_message code))\<lparr>er_code := Some code\<rparr>))
     else xr_error result)"

definition error_of :: "classified \<Rightarrow> step_error" where
  "error_of c = \<lparr>sx_code = dflt (cf_code c) ''UPSTREAM_ERROR'', sx_class = Some (cf_class c), sx_message = cf_message c,
     sx_status = cf_status c, sx_park = None\<rparr>"

definition record_attempt :: "gstep \<Rightarrow> ranked \<Rightarrow> answer \<Rightarrow> classified option \<Rightarrow> step_run \<Rightarrow> step_run" where
  "record_attempt step current result classified s =
    s\<lparr>sr_attempts := sr_attempts s @ [\<lparr>at_modelId = rk_modelId current, at_pool = rk_pool current, at_ok = (classified = None),
        at_ms = xr_ms result, at_tokensUsed = xr_tokensUsed result,
        at_error = map_option (\<lambda>c. (error_of c)\<lparr>sx_status := None\<rparr>) classified\<rparr>],
      sr_observed := sr_observed s @ [(rk_modelId current, gs_aspect step, classified = None, xr_ms result)]\<rparr>"

text \<open>\<open>repairHintFor\<close>.\<close>

definition repairHintFor :: "string \<Rightarrow> string" where
  "repairHintFor code =
    (let q = [CHR 0x22] in
     if code = ''MALFORMED_OUTPUT'' then
       ''REPAIR: your previous answer could not be parsed. Respond with ONLY one fenced '' @ tick3 @ ''json block containing {''
       @ q @ ''files'' @ q @ '':[{'' @ q @ ''path'' @ q @ '':'' @ q @ ''...'' @ q @ '','' @ q @ ''content'' @ q @ '':'' @ q @ ''...'' @ q @ ''}],''
       @ q @ ''notes'' @ q @ '':'' @ q @ ''...'' @ q @ ''} '' @ [CHR 0xE2, CHR 0x80, CHR 0x94]
       @ '' valid JSON, every string properly escaped, nothing before or after the block, and do not stop before the closing brace.''
     else if code = ''EMPTY_OUTPUT'' then ''REPAIR: your previous answer was empty. Produce the full deliverable now.''
     else if code = ''REFUSAL'' then ''REPAIR: this is an ordinary software-engineering task inside a sandboxed repository; nothing here is harmful. Produce the deliverable described above.''
     else [])"

definition decide_next :: "step_cfg \<Rightarrow> step_env \<Rightarrow> gstep \<Rightarrow> ranked list \<Rightarrow> classified \<Rightarrow> step_run \<Rightarrow> decision" where
  "decide_next cfg env step distinct_ms c s =
    decideRetry \<lparr>ra_class = cf_class c, ra_retryAfterMs = cf_retryAfterMs c, ra_sameProviderAttempts = sr_same s,
      ra_attemptsUsed = sr_used s, ra_maxAttempts = cg_maxAttempts cfg, ra_nextAvailable = (sr_index s + 1 < length distinct_ms),
      ra_hops = Some (sr_hops s), ra_parks = Some (dflt (gs_parks step) 0), ra_maxInlineWaitMs = None, ra_random = ev_random env s\<rparr>"

definition park_of :: "decision \<Rightarrow> park" where
  "park_of d = \<lparr>pk_reason = dflt (d_park d) [], pk_wakeInMs = dflt (d_wakeInMs d) 0, pk_why = PolicyWhy (d_why d), pk_approvalKey = None\<rparr>"

text \<open>After a failed attempt: stop, or do what the retry policy says.\<close>

definition after_failure :: "step_cfg \<Rightarrow> step_env \<Rightarrow> gstep \<Rightarrow> ranked list \<Rightarrow> ranked \<Rightarrow> classified \<Rightarrow> step_run \<Rightarrow> turn" where
  "after_failure cfg env step distinct_ms current c s =
    (let e = error_of c;
         s1 = emit (AttemptFailed (rk_modelId current) (sr_used s) e (cf_retryAfterMs c)) (s\<lparr>sr_lastError := Some e\<rparr>) in
     if ev_aborted env s1 then Break s1
     else
       (let (d, seen) = observe_in env (JObj [(''class'', JStr (cf_class c)), (''code'', case cf_code c of None \<Rightarrow> JNull | Some k \<Rightarrow> JStr k),
              (''message'', JStr (cf_message c)), (''model'', JStr (rk_modelId current))]) (sr_loop s1);
            s2 = s1\<lparr>sr_loop := d\<rparr> in
        if ob_looping seen \<and> cf_class c \<noteq> ''malformed_output'' \<and> PARKABLE (cf_class c) = None then
          Break (s2\<lparr>sr_lastError := Some (e\<lparr>sx_class := Some ''poisoned'', sx_code := ''NO_PROGRESS'',
            sx_message := ''the same failure recurred '' @ show_nat (ob_repeats seen) @ '' times: '' @ cf_message c\<rparr>)\<rparr>)
        else
          (let dec = decide_next cfg env step distinct_ms c s2;
               s3 = (emit (RetryDecided (rk_modelId current) (cf_class c) (d_action dec) (d_delayMs dec) (d_why dec)) s2)\<lparr>sr_repairHint :=
                 (if cf_class c = ''malformed_output'' then Some (repairHintFor (dflt (cf_code c) ''MALFORMED_OUTPUT'')) else None)\<rparr> in
           case d_action dec of
             RetrySame \<Rightarrow> Again s3
           | RetryNext \<Rightarrow> Again (s3\<lparr>sr_index := sr_index s3 + 1, sr_hops := sr_hops s3 + 1, sr_same := 0\<rparr>)
           | Park \<Rightarrow> Return (failed (rk_modelId current) (e\<lparr>sx_park := Some (park_of dec)\<rparr>)) s3
           | GiveUp \<Rightarrow> Break s3)))"

definition attempt_turn :: "step_cfg \<Rightarrow> step_env \<Rightarrow> gstep \<Rightarrow> ranked list \<Rightarrow> ranked \<Rightarrow> answer \<Rightarrow> step_run \<Rightarrow> turn" where
  "attempt_turn cfg env step distinct_ms current result s =
    (let s1 = s\<lparr>sr_used := sr_used s + 1, sr_same := sr_same s + 1\<rparr>;
         classified = map_option classifyFailure (failure_of env result);
         s2 = record_attempt step current result classified s1 in
     case classified of
       None \<Rightarrow> Return \<lparr>rs_ok = True, rs_output = xr_output result, rs_modelId = rk_modelId current, rs_error = None\<rparr> (s2\<lparr>sr_repairHint := None\<rparr>)
     | Some c \<Rightarrow> after_failure cfg env step distinct_ms current c s2)"

definition one_turn :: "step_cfg \<Rightarrow> step_env \<Rightarrow> gstep \<Rightarrow> ranked list \<Rightarrow> step_run \<Rightarrow> turn" where
  "one_turn cfg env step distinct_ms s =
    (let current = distinct_ms ! sr_index s in
     if ev_aborted env s then
       Return (failed (rk_modelId current) (mk_error ''CANCELLED'' (Some ''cancelled'') ''Run was cancelled'')) s
     else
       (let result = executeWithDeadline (cg_taskTimeoutMs cfg) (gs_id step) (ev_execute env s current);
            s1 = emit (AttemptFinished (rk_modelId current) (sr_used s + 1) (xr_ok result)) s;
            call = (if xr_ok result \<and> cg_tools cfg then parseToolCall (ev_jp env) (ev_sn env) (xr_output result) else None) in
        case call of
          Some tc \<Rightarrow> tool_turn cfg env current result tc s1
        | None \<Rightarrow> attempt_turn cfg env step distinct_ms current result s1))"

text \<open>Each turn uses an attempt or a tool round, and both are bounded.\<close>

lemma tool_turn_again:
  "tool_turn cfg env cur a tc s = Again s' \<Longrightarrow>
     sr_used s' = sr_used s \<and> sr_toolRounds s' = sr_toolRounds s + 1 \<and> sr_toolRounds s' \<le> cg_maxToolCalls cfg"
  by (auto simp: tool_turn_def tool_failure_def emit_def Let_def split: prod.splits if_splits option.splits)

lemma after_failure_again:
  "after_failure cfg env step ds cur c s = Again s' \<Longrightarrow> sr_used s' = sr_used s \<and> sr_toolRounds s' = sr_toolRounds s"
  by (auto simp: after_failure_def emit_def Let_def split: prod.splits if_splits retry_action.splits)

lemma attempt_turn_again:
  "attempt_turn cfg env step ds cur a s = Again s' \<Longrightarrow> sr_used s' = sr_used s + 1 \<and> sr_toolRounds s' = sr_toolRounds s"
  by (auto simp: attempt_turn_def record_attempt_def Let_def dest!: after_failure_again split: option.splits)

lemma one_turn_again:
  assumes "one_turn cfg env step ds s = Again s'"
  shows "(sr_used s' = sr_used s + 1 \<and> sr_toolRounds s' = sr_toolRounds s) \<or>
    (sr_used s' = sr_used s \<and> sr_toolRounds s' = sr_toolRounds s + 1 \<and> sr_toolRounds s' \<le> cg_maxToolCalls cfg)"
  using assms
  by (auto simp: one_turn_def Let_def emit_def dest!: tool_turn_again attempt_turn_again split: if_splits option.splits)

definition give_up_error :: "step_run \<Rightarrow> step_error" where
  "give_up_error s = dflt (sr_lastError s) (mk_error ''UPSTREAM_ERROR'' (Some ''transient'') ''All attempts failed.'')"

definition finish_step :: "ranked list \<Rightarrow> step_run \<Rightarrow> step_result \<times> step_run" where
  "finish_step distinct_ms s = (failed (rk_modelId (distinct_ms ! sr_index s)) (give_up_error s), s\<lparr>sr_repairHint := None\<rparr>)"

function retry_loop :: "step_cfg \<Rightarrow> step_env \<Rightarrow> gstep \<Rightarrow> ranked list \<Rightarrow> step_run \<Rightarrow> step_result \<times> step_run" where
  "retry_loop cfg env step distinct_ms s =
    (if sr_used s < cg_maxAttempts cfg then
       (case one_turn cfg env step distinct_ms s of
          Return r s' \<Rightarrow> (r, s')
        | Break s' \<Rightarrow> finish_step distinct_ms s'
        | Again s' \<Rightarrow> retry_loop cfg env step distinct_ms s')
     else finish_step distinct_ms s)"
  by pat_completeness auto
termination
  by (relation "measure (\<lambda>(cfg, _, _, _, s). (cg_maxAttempts cfg - sr_used s) + (cg_maxToolCalls cfg - sr_toolRounds s))")
    (auto dest!: one_turn_again)

declare retry_loop.simps [simp del]

definition distinct_models :: "ranked list \<Rightarrow> ranked list" where
  "distinct_models rs = fold (\<lambda>r ds. if rk_modelId r \<in> rk_modelId ` set ds then ds else ds @ [r]) rs []"

definition start_run :: "step_attempt list \<Rightarrow> tool_note list \<Rightarrow> step_run" where
  "start_run attempts transcript =
    \<lparr>sr_index = 0, sr_same = 0, sr_used = 0, sr_hops = 0, sr_toolRounds = 0, sr_loop = new_detector (Some 2) None,
     sr_toolLoop = new_detector (Some TOOL_LOOP_REPEATS) None, sr_lastError = None, sr_attempts = attempts,
     sr_transcript = transcript, sr_repairHint = None, sr_observed = [], sr_events = []\<rparr>"

definition runWithRetry ::
  "step_cfg \<Rightarrow> step_env \<Rightarrow> gstep \<Rightarrow> ranked list \<Rightarrow> step_attempt list \<Rightarrow> tool_note list \<Rightarrow> step_result \<times> step_run" where
  "runWithRetry cfg env step rs attempts transcript =
    retry_loop cfg env step (distinct_models rs) (start_run attempts transcript)"

section \<open>How many calls a step makes\<close>

definition is_call :: "step_event \<Rightarrow> bool" where
  "is_call e = (case e of AttemptFinished _ _ _ \<Rightarrow> True | _ \<Rightarrow> False)"

definition calls :: "step_run \<Rightarrow> nat" where
  "calls s = length (filter is_call (sr_events s))"

fun turn_state :: "turn \<Rightarrow> step_run" where
  "turn_state (Return r s) = s"
| "turn_state (Break s) = s"
| "turn_state (Again s) = s"

lemma calls_emit: "calls (emit e s) = calls s + (if is_call e then 1 else 0)"
  by (simp add: calls_def emit_def)

lemma calls_cong: "sr_events s = sr_events s' \<Longrightarrow> calls s = calls s'"
  by (simp add: calls_def)

lemma calls_frame [simp]:
  "calls (s\<lparr>sr_index := a\<rparr>) = calls s" "calls (s\<lparr>sr_same := a\<rparr>) = calls s" "calls (s\<lparr>sr_used := a\<rparr>) = calls s"
  "calls (s\<lparr>sr_hops := a\<rparr>) = calls s" "calls (s\<lparr>sr_toolRounds := a\<rparr>) = calls s" "calls (s\<lparr>sr_loop := d\<rparr>) = calls s"
  "calls (s\<lparr>sr_toolLoop := d\<rparr>) = calls s" "calls (s\<lparr>sr_lastError := e\<rparr>) = calls s" "calls (s\<lparr>sr_attempts := as\<rparr>) = calls s"
  "calls (s\<lparr>sr_transcript := ns\<rparr>) = calls s" "calls (s\<lparr>sr_repairHint := h\<rparr>) = calls s" "calls (s\<lparr>sr_observed := os\<rparr>) = calls s"
  by (simp_all add: calls_def)

lemma not_call [simp]:
  "\<not> is_call (AttemptFailed m n e r)" "\<not> is_call (ToolRound m k u b c)" "\<not> is_call (RetryDecided m cl a d w)"
  "is_call (AttemptFinished m n b)"
  by (simp_all add: is_call_def)

lemma calls_tool_turn: "calls (turn_state (tool_turn cfg env cur a tc s)) = calls s"
  by (simp add: tool_turn_def Let_def calls_emit split: prod.splits option.splits)

lemma calls_after_failure: "calls (turn_state (after_failure cfg env step ds cur c s)) = calls s"
  by (simp add: after_failure_def Let_def calls_emit split: prod.splits retry_action.splits)

lemma calls_attempt_turn: "calls (turn_state (attempt_turn cfg env step ds cur a s)) = calls s"
  by (simp add: attempt_turn_def record_attempt_def Let_def calls_after_failure split: option.splits)

lemma calls_one_turn: "calls (turn_state (one_turn cfg env step ds s)) \<le> calls s + 1"
  by (simp add: one_turn_def Let_def calls_tool_turn calls_attempt_turn calls_emit split: option.splits)

lemma calls_finish: "calls (snd (finish_step ds s)) = calls s"
  by (simp add: finish_step_def)

lemma retry_loop_calls:
  "calls (snd (retry_loop cfg env step ds s)) \<le> calls s + (cg_maxAttempts cfg - sr_used s) + (cg_maxToolCalls cfg - sr_toolRounds s)"
proof (induction cfg env step ds s rule: retry_loop.induct)
  case (1 cfg env step ds s)
  show ?case
  proof (cases "sr_used s < cg_maxAttempts cfg")
    case False
    then show ?thesis by (subst retry_loop.simps) (simp add: calls_finish)
  next
    case True
    note c = calls_one_turn [of cfg env step ds s]
    show ?thesis
    proof (cases "one_turn cfg env step ds s")
      case (Return r s')
      then show ?thesis using True c by (subst retry_loop.simps) simp
    next
      case (Break s')
      then show ?thesis using True c by (subst retry_loop.simps) (simp add: calls_finish)
    next
      case (Again s')
      then show ?thesis using 1 [OF True Again] True c one_turn_again [OF Again]
        by (subst retry_loop.simps) auto
    qed
  qed
qed

text \<open>C30. A step cannot run away: whatever the models answer and the tools do, running it ends, after at most
  as many model calls as it may make attempts and tool calls together (nine with the default ceilings).\<close>

theorem step_calls_bounded:
  "calls (snd (runWithRetry cfg env step rs attempts transcript)) \<le> cg_maxAttempts cfg + cg_maxToolCalls cfg"
  using retry_loop_calls [of cfg env step "distinct_models rs" "start_run attempts transcript"]
  by (simp add: runWithRetry_def start_run_def calls_def)

section \<open>What a step's result means\<close>

text \<open>An adapter that reports a failure says what it is, as \<open>AgentAdapter.execute\<close> does.\<close>

definition honest :: "step_env \<Rightarrow> bool" where
  "honest env = (\<forall>s r n a. ev_execute env s r = Some (n, a) \<longrightarrow> xr_ok a \<or> xr_error a \<noteq> None)"

definition usable :: "step_cfg \<Rightarrow> step_env \<Rightarrow> string option \<Rightarrow> bool" where
  "usable cfg env out =
    (validateSubtaskOutput (ev_jp env) out = None \<and> (cg_tools cfg \<longrightarrow> parseToolCall (ev_jp env) (ev_sn env) out = None))"

definition sound_result :: "step_cfg \<Rightarrow> step_env \<Rightarrow> step_result \<Rightarrow> step_run \<Rightarrow> bool" where
  "sound_result cfg env r s =
    ((rs_ok r \<longrightarrow> usable cfg env (rs_output r) \<and> rs_error r = None \<and> sr_attempts s \<noteq> [] \<and>
        at_ok (last (sr_attempts s)) \<and> at_modelId (last (sr_attempts s)) = rs_modelId r) \<and>
     (\<not> rs_ok r \<longrightarrow> rs_error r \<noteq> None))"

lemma sound_failed: "sound_result cfg env (failed m e) s"
  by (simp add: sound_result_def failed_def)

lemma sound_finish: "sound_result cfg env (fst (finish_step ds s)) s'"
  by (simp add: finish_step_def sound_failed)

lemma sound_one_turn:
  assumes "honest env" and "one_turn cfg env step ds s = Return r s'"
  shows "sound_result cfg env r s'"
proof -
  define cur where "cur = ds ! sr_index s"
  define a where "a = executeWithDeadline (cg_taskTimeoutMs cfg) (gs_id step) (ev_execute env s cur)"
  have err: "xr_ok a \<or> xr_error a \<noteq> None"
    using assms(1) unfolding a_def executeWithDeadline_def honest_def
    by (auto simp: timeout_answer_def split: option.splits prod.splits)
  have tool: "sound_result cfg env r' s2" if "tool_turn cfg env cur a tc s1 = Return r' s2" for tc s1 r' s2
    using that by (auto simp: tool_turn_def Let_def sound_failed split: prod.splits option.splits if_splits)
  have after: "sound_result cfg env r' s2" if "after_failure cfg env step ds cur c s1 = Return r' s2" for c s1 r' s2
    using that by (auto simp: after_failure_def Let_def sound_failed split: prod.splits retry_action.splits if_splits)
  have attempt: "sound_result cfg env r' s2"
    if "attempt_turn cfg env step ds cur a s1 = Return r' s2"
      and "\<not> (xr_ok a \<and> cg_tools cfg) \<or> parseToolCall (ev_jp env) (ev_sn env) (xr_output a) = None" for s1 r' s2
  proof (cases "failure_of env a")
    case None
    then have "xr_ok a" "validateSubtaskOutput (ev_jp env) (xr_output a) = None"
      using err by (auto simp: failure_of_def split: if_splits option.splits)
    then show ?thesis using that None
      by (auto simp: attempt_turn_def record_attempt_def Let_def sound_result_def usable_def)
  next
    case (Some f)
    then show ?thesis using that(1) after by (auto simp: attempt_turn_def Let_def)
  qed
  show ?thesis
    using assms(2) tool attempt
    by (auto simp: one_turn_def Let_def cur_def [symmetric] a_def [symmetric] sound_failed split: if_splits option.splits)
qed

lemma sound_retry_loop:
  assumes "honest env"
  shows "sound_result cfg env (fst (retry_loop cfg env step ds s)) (snd (retry_loop cfg env step ds s))"
  using assms
proof (induction cfg env step ds s rule: retry_loop.induct)
  case (1 cfg env step ds s)
  show ?case
  proof (cases "sr_used s < cg_maxAttempts cfg")
    case False
    then show ?thesis by (subst (1 2) retry_loop.simps) (simp add: sound_finish)
  next
    case True
    show ?thesis
    proof (cases "one_turn cfg env step ds s")
      case (Return r s')
      then show ?thesis using True sound_one_turn [OF "1.prems" Return] by (subst (1 2) retry_loop.simps) simp
    next
      case (Break s')
      then show ?thesis using True by (subst (1 2) retry_loop.simps) (simp add: sound_finish)
    next
      case (Again s')
      then show ?thesis using True "1.IH" [OF True Again "1.prems"] by (subst (1 2) retry_loop.simps) simp
    qed
  qed
qed

text \<open>A call that returned is not yet a step that is done: when running a step answers ok, its output was
  judged usable, is not a tool call in disguise, and belongs to the last recorded attempt, which
  succeeded; when it does not, there is an error to classify.\<close>

theorem step_ok_is_usable:
  assumes "honest env" and "runWithRetry cfg env step rs attempts transcript = (r, s)"
  shows "(rs_ok r \<longrightarrow> usable cfg env (rs_output r) \<and> rs_error r = None \<and> sr_attempts s \<noteq> [] \<and>
      at_ok (last (sr_attempts s)) \<and> at_modelId (last (sr_attempts s)) = rs_modelId r) \<and>
    (\<not> rs_ok r \<longrightarrow> rs_error r \<noteq> None)"
  using sound_retry_loop [OF assms(1), of cfg step "distinct_models rs" "start_run attempts transcript"] assms(2)
  by (simp add: runWithRetry_def sound_result_def)

definition sample_step :: gstep where
  "sample_step = \<lparr>gs_id = ''s'', gs_title = ''t'', gs_aspect = ''testing'', gs_description = ''d'', gs_dependsOn = [],
     gs_complexity = ''low'', gs_deliverable = ''x'', gs_routingHint = None, gs_remediationHint = None, gs_parks = None\<rparr>"

definition sample_ranked :: ranked where
  "sample_ranked = \<lparr>rk_modelId = ''m'', rk_pool = ''p'', rk_score = 0, rk_available = True, rk_latencyClass = ''fast'',
     rk_latencyTiebreak = 2, rk_reason = ''r''\<rparr>"

definition sample_cfg :: step_cfg where
  "sample_cfg = \<lparr>cg_maxAttempts = 3, cg_maxToolCalls = 6, cg_taskTimeoutMs = 10, cg_tools = False\<rparr>"

definition env_answering :: "answer \<Rightarrow> step_env" where
  "env_answering a = \<lparr>ev_execute = \<lambda>_ _. Some (1, a),
     ev_invoke = \<lambda>_ _ _. \<lparr>iv_ok = True, iv_output = [], iv_code = None, iv_message = None, iv_approvalKey = None\<rparr>,
     ev_aborted = \<lambda>_. False, ev_random = \<lambda>_. 0, ev_jp = \<lambda>_. None, ev_sha1 = \<lambda>x. x, ev_sn = \<lambda>_. ''0''\<rparr>"

definition down_answer :: answer where
  "down_answer = \<lparr>xr_ok = False, xr_output = None, xr_ms = 1, xr_tokensUsed = None,
     xr_error = Some ((message_err ''x'')\<lparr>er_status := Some 503\<rparr>)\<rparr>"

theorem step_ok_is_usable_witness:
  "rs_error (fst (runWithRetry sample_cfg (env_answering down_answer) sample_step [sample_ranked] [] [])) \<noteq> None"
proof -
  have h: "honest (env_answering down_answer)" by (simp add: honest_def env_answering_def down_answer_def)
  have n: "\<not> rs_ok (fst (runWithRetry sample_cfg (env_answering down_answer) sample_step [sample_ranked] [] []))" by code_simp
  show ?thesis using step_ok_is_usable [OF h surjective_pairing, THEN conjunct2] n by blast
qed

section \<open>How long a parked step sleeps\<close>

definition silent_servers :: "step_env \<Rightarrow> bool" where
  "silent_servers env = (\<forall>s r n a e. ev_execute env s r = Some (n, a) \<longrightarrow> xr_error a = Some e \<longrightarrow> er_retryAfterMs e = None)"

lemma park_decision:
  assumes "d_action (decideRetry a) = Park"
  obtains r w where "decideRetry a = parkDecision (ra_retryAfterMs a) (ra_parks a) r w"
  using assms by (cases a rule: decideRetry_cases) auto

lemma first_park_wake: "d_wakeInMs (parkDecision None (Some 0) r w) = Some 300000"
  by (simp add: parkDecision_def Let_def PARK_BACKOFF_MS_def)

lemma decided_wake:
  assumes "gs_parks step = None" and "cf_retryAfterMs c = None" and "d_action (decide_next cfg env step ds c s) = Park"
  shows "pk_wakeInMs (park_of (decide_next cfg env step ds c s)) = 300000"
proof -
  from assms(3) obtain r w where "decide_next cfg env step ds c s = parkDecision None (Some 0) r w"
    unfolding decide_next_def by (rule park_decision) (use assms(1,2) in simp)
  then show ?thesis by (simp add: park_of_def first_park_wake)
qed

definition wakes_soon :: "step_result \<Rightarrow> bool" where
  "wakes_soon r = (\<forall>e p. rs_error r = Some e \<longrightarrow> sx_park e = Some p \<longrightarrow> pk_reason p \<noteq> ''approval'' \<longrightarrow> pk_wakeInMs p = 300000)"

lemma error_of_no_park [simp]: "sx_park (error_of c) = None"
  by (simp add: error_of_def)

lemma mk_error_no_park [simp]: "sx_park (mk_error c k m) = None"
  by (simp add: mk_error_def)

lemma wakes_one_turn:
  assumes "silent_servers env" and "gs_parks step = None" and "one_turn cfg env step ds s = Return r s'"
  shows "wakes_soon r"
proof -
  define cur where "cur = ds ! sr_index s"
  define a where "a = executeWithDeadline (cg_taskTimeoutMs cfg) (gs_id step) (ev_execute env s cur)"
  have quiet: "cf_retryAfterMs (classifyFailure f) = None" if "failure_of env a = Some f" for f
    using that assms(1) unfolding a_def executeWithDeadline_def silent_servers_def
    by (auto simp: failure_of_def timeout_answer_def message_err_def classifyFailure_def Let_def split: option.splits prod.splits if_splits)
  have tool: "wakes_soon r'" if "tool_turn cfg env cur a tc s1 = Return r' s2" for tc s1 r' s2
    using that
    by (auto simp: tool_turn_def tool_failure_def Let_def failed_def wakes_soon_def split: prod.splits option.splits if_splits)
  have after: "wakes_soon r'" if "after_failure cfg env step ds cur c s1 = Return r' s2" "cf_retryAfterMs c = None" for c s1 r' s2
    using that decided_wake [OF assms(2) that(2)]
    by (auto simp: after_failure_def Let_def failed_def wakes_soon_def split: prod.splits retry_action.splits if_splits)
  have attempt: "wakes_soon r'" if "attempt_turn cfg env step ds cur a s1 = Return r' s2" for s1 r' s2
    using that after quiet by (cases "failure_of env a") (auto simp: attempt_turn_def Let_def wakes_soon_def)
  show ?thesis
    using assms(3) tool attempt
    by (auto simp: one_turn_def Let_def cur_def [symmetric] a_def [symmetric] failed_def wakes_soon_def split: if_splits option.splits)
qed

definition own_error :: "step_run \<Rightarrow> bool" where
  "own_error s = (\<forall>e. sr_lastError s = Some e \<longrightarrow> sx_park e = None)"

lemma own_error_emit [simp]: "own_error (emit e s) = own_error s"
  by (simp add: own_error_def emit_def)

lemma own_error_cong: "sr_lastError s' = sr_lastError s \<Longrightarrow> own_error s \<Longrightarrow> own_error s'"
  by (simp add: own_error_def)

lemma own_error_tool: "own_error s \<Longrightarrow> own_error (turn_state (tool_turn cfg env cur a tc s))"
  by (erule own_error_cong [rotated]) (simp add: tool_turn_def Let_def emit_def split: prod.splits option.splits)

lemma own_error_after: "own_error (turn_state (after_failure cfg env step ds cur c s))"
  by (simp add: after_failure_def own_error_def emit_def Let_def split: prod.splits retry_action.splits)

lemma own_error_turn: "own_error s \<Longrightarrow> own_error (turn_state (one_turn cfg env step ds s))"
proof -
  assume s: "own_error s"
  have "own_error (turn_state (attempt_turn cfg env step ds cur a s1))" if "own_error s1" for cur a s1
  proof (cases "failure_of env a")
    case None
    show ?thesis by (rule own_error_cong [OF _ that]) (simp add: attempt_turn_def record_attempt_def Let_def None)
  next
    case (Some f)
    then show ?thesis by (simp add: attempt_turn_def Let_def own_error_after)
  qed
  then show ?thesis using s by (simp add: one_turn_def Let_def own_error_tool split: option.splits)
qed

lemma wakes_retry_loop:
  assumes "silent_servers env" and "gs_parks step = None"
  shows "own_error s \<Longrightarrow> wakes_soon (fst (retry_loop cfg env step ds s))"
  using assms
proof (induction cfg env step ds s rule: retry_loop.induct)
  case (1 cfg env step ds s)
  have fin: "wakes_soon (fst (finish_step ds s'))" if "own_error s'" for s'
    using that by (cases "sr_lastError s'")
      (auto simp: finish_step_def failed_def give_up_error_def wakes_soon_def own_error_def)
  show ?case
  proof (cases "sr_used s < cg_maxAttempts cfg")
    case False
    then show ?thesis using fin "1.prems"(1) by (subst retry_loop.simps) simp
  next
    case True
    note own = own_error_turn [OF "1.prems"(1), of cfg env step ds]
    show ?thesis
    proof (cases "one_turn cfg env step ds s")
      case (Return r s')
      then show ?thesis using True wakes_one_turn [OF "1.prems"(2,3) Return] by (subst retry_loop.simps) simp
    next
      case (Break s')
      then show ?thesis using True fin own by (subst retry_loop.simps) simp
    next
      case (Again s')
      then show ?thesis using True "1.IH" [OF True Again _ "1.prems"(2,3)] own by (subst retry_loop.simps) simp
    qed
  qed
qed

text \<open>The ladder of park times is never climbed by a step: the scheduler reads \<open>parks\<close> from the step, where
  nobody counts, and not from the task, so a step parked on an outage without a Retry-After always asks to
  be woken in five minutes, however often its task was parked before (the ladder goes to three hours).\<close>

theorem parked_step_wakes_in_five_minutes:
  assumes "silent_servers env" and "gs_parks step = None"
    and "rs_error (fst (runWithRetry cfg env step rs attempts transcript)) = Some e"
    and "sx_park e = Some p" and "pk_reason p \<noteq> ''approval''"
  shows "pk_wakeInMs p = 300000 \<and> pk_wakeInMs p < last PARK_BACKOFF_MS"
proof -
  have "own_error (start_run attempts transcript)" by (simp add: own_error_def start_run_def)
  from wakes_retry_loop [OF assms(1,2) this, of cfg "distinct_models rs"] have "pk_wakeInMs p = 300000"
    using assms(3-5) by (simp add: runWithRetry_def wakes_soon_def)
  then show ?thesis by (simp add: PARK_BACKOFF_MS_def)
qed

theorem parked_step_wakes_in_five_minutes_witness:
  "\<exists>e p. rs_error (fst (runWithRetry sample_cfg (env_answering down_answer) sample_step [sample_ranked] [] [])) = Some e \<and>
     sx_park e = Some p \<and> pk_wakeInMs p = 300000"
proof -
  let ?r = "fst (runWithRetry sample_cfg (env_answering down_answer) sample_step [sample_ranked] [] [])"
  have q: "silent_servers (env_answering down_answer)"
    by (simp add: silent_servers_def env_answering_def down_answer_def message_err_def)
  have n: "gs_parks sample_step = None" by (simp add: sample_step_def)
  have "case rs_error ?r of None \<Rightarrow> False | Some e \<Rightarrow> (case sx_park e of None \<Rightarrow> False | Some p \<Rightarrow> pk_reason p \<noteq> ''approval'')"
    by code_simp
  then obtain e p where e: "rs_error ?r = Some e" "sx_park e = Some p" "pk_reason p \<noteq> ''approval''"
    by (auto split: option.splits)
  show ?thesis using parked_step_wakes_in_five_minutes [OF q n e] e by blast
qed

end
