(* ===== verification/Scheduler.thy ===== *)
theory Scheduler
  imports Step_Run
begin

text \<open>
  The topological scheduler, \<open>src/orchestrator/scheduler.js\<close> (its retry loop is theory Step_Run). The map
  of steps is an association list in graph order. Calls in flight settle in any order: which of them do
  while the loop waits, whether the pulse wants to drain, whether \<open>cancel()\<close> is called meanwhile, how busy
  the pools are and what the clock says are functions of the scheduler's state, given by the environment.
  A step's outcome is computed when it settles; its dependencies are complete by then and stay as they are.
\<close>

section \<open>State\<close>

datatype step_state = SPending | SQueued | SRunning | SComplete | SFailed | SBlocked | SCancelled | SMalformed

record entry =
  en_step :: gstep
  en_state :: step_state
  en_assignment :: "(string \<times> string \<times> string) option"
  en_attempts :: "step_attempt list"
  en_output :: "string option"
  en_error :: "step_error option"
  en_startedAt :: "stamp option"
  en_completedAt :: "stamp option"
  en_resumed :: bool
  en_transcript :: "tool_note list"

text \<open>What a checkpoint keeps of a step.\<close>

record snapshot =
  sb_state :: step_state
  sb_assignment :: "(string \<times> string \<times> string) option"
  sb_attempts :: "step_attempt list"
  sb_output :: "string option"
  sb_error :: "step_error option"
  sb_startedAt :: "stamp option"
  sb_completedAt :: "stamp option"

record graph =
  gr_sharedContext :: string
  gr_tasks :: "gstep list"

record sched =
  sd_tasks :: "(string \<times> entry) list"
  sd_inFlight :: "(string \<times> ranked list) list"
  sd_cancelled :: bool
  sd_log :: "entry list"

record sched_env =
  sv_cfg :: step_cfg
  sv_shared :: string
  sv_candidates :: "candidate list"
  sv_pools :: "sched \<Rightarrow> string \<Rightarrow> (nat \<times> nat) option"
  sv_registry :: "sched \<Rightarrow> string \<Rightarrow> model_record"
  sv_world :: "sched \<Rightarrow> string \<Rightarrow> step_env"
  sv_drain :: "sched \<Rightarrow> bool"
  sv_settles :: "sched \<Rightarrow> string list"
  sv_cancel :: "sched \<Rightarrow> bool"
  sv_now :: "sched \<Rightarrow> stamp"
  sv_number :: "rat \<Rightarrow> string"

definition complexityRank :: "string \<Rightarrow> nat" where
  "complexityRank level = (if level = ''high'' then 2 else if level = ''medium'' then 1 else 0)"

definition entry_of :: "sched \<Rightarrow> string \<Rightarrow> entry option" where
  "entry_of s i = map_of (sd_tasks s) i"

definition state_in :: "(string \<times> entry) list \<Rightarrow> string \<Rightarrow> step_state option" where
  "state_in ts i = map_option en_state (map_of ts i)"

definition put_entry :: "string \<Rightarrow> entry \<Rightarrow> (string \<times> entry) list \<Rightarrow> (string \<times> entry) list" where
  "put_entry i e ts = map (\<lambda>(k, v). if k = i then (k, e) else (k, v)) ts"

text \<open>\<open>#setState\<close>: the patched entry is stored, and a copy goes to the listener.\<close>

definition setState :: "string \<Rightarrow> entry \<Rightarrow> sched \<Rightarrow> sched" where
  "setState i e s = s\<lparr>sd_tasks := put_entry i e (sd_tasks s), sd_log := sd_log s @ [e]\<rparr>"

section \<open>Starting and resuming\<close>

definition fresh_entry :: "gstep \<Rightarrow> entry" where
  "fresh_entry t = \<lparr>en_step = t, en_state = SPending, en_assignment = None, en_attempts = [], en_output = None, en_error = None,
     en_startedAt = None, en_completedAt = None, en_resumed = False, en_transcript = []\<rparr>"

definition parked_before :: "snapshot \<Rightarrow> bool" where
  "parked_before p = (sb_state p = SFailed \<and> (case sb_error p of None \<Rightarrow> False | Some e \<Rightarrow> sx_park e \<noteq> None))"

definition resume_entry :: "snapshot option \<Rightarrow> gstep \<Rightarrow> entry" where
  "resume_entry prior t =
    (case prior of
       None \<Rightarrow> fresh_entry t
     | Some p \<Rightarrow>
         if \<not> parked_before p \<and> (sb_state p = SComplete \<or> sb_state p = SFailed) then
           (fresh_entry t)\<lparr>en_state := sb_state p, en_assignment := sb_assignment p, en_attempts := sb_attempts p,
             en_output := sb_output p, en_error := sb_error p, en_startedAt := sb_startedAt p,
             en_completedAt := sb_completedAt p, en_resumed := True\<rparr>
         else (fresh_entry t)\<lparr>en_attempts := sb_attempts p\<rparr>)"

definition start_sched :: "graph \<Rightarrow> (string \<Rightarrow> snapshot option) \<Rightarrow> sched" where
  "start_sched g resumeFrom =
    \<lparr>sd_tasks = fold (\<lambda>t. assoc_put (gs_id t) (resume_entry (resumeFrom (gs_id t)) t)) (gr_tasks g) [],
     sd_inFlight = [], sd_cancelled = False, sd_log = []\<rparr>"

section \<open>Blocked steps\<close>

definition blocked_by_dep :: "(string \<times> entry) list \<Rightarrow> entry \<Rightarrow> bool" where
  "blocked_by_dep ts e =
    list_ex (\<lambda>d. case state_in ts d of None \<Rightarrow> False | Some st \<Rightarrow> st = SFailed \<or> st = SBlocked \<or> st = SCancelled)
      (gs_dependsOn (en_step e))"

definition block_one :: "string \<Rightarrow> sched \<Rightarrow> sched" where
  "block_one i s =
    (case entry_of s i of
       None \<Rightarrow> s
     | Some e \<Rightarrow> if en_state e = SPending \<and> blocked_by_dep (sd_tasks s) e then setState i (e\<lparr>en_state := SBlocked\<rparr>) s else s)"

definition block_pass :: "sched \<Rightarrow> sched" where
  "block_pass s = fold block_one (map fst (sd_tasks s)) s"

definition pending_count :: "(string \<times> entry) list \<Rightarrow> nat" where
  "pending_count ts = length (filter (\<lambda>p. en_state (snd p) = SPending) ts)"

lemma put_entry_simps [simp]:
  "put_entry i e [] = []"
  "put_entry i e ((k, v) # ts) = (if k = i then (k, e) else (k, v)) # put_entry i e ts"
  by (simp_all add: put_entry_def)

lemma pending_count_simps [simp]:
  "pending_count [] = 0"
  "pending_count ((k, v) # ts) = (if en_state v = SPending then 1 else 0) + pending_count ts"
  by (simp_all add: pending_count_def)

lemma put_entry_keys [simp]: "map fst (put_entry i e ts) = map fst ts"
  by (induction ts) auto

lemma pending_put: "en_state e \<noteq> SPending \<Longrightarrow> pending_count (put_entry i e ts) \<le> pending_count ts"
  by (induction ts) auto

lemma pending_put_less:
  "map_of ts i = Some e0 \<Longrightarrow> en_state e0 = SPending \<Longrightarrow> en_state e \<noteq> SPending \<Longrightarrow>
   pending_count (put_entry i e ts) < pending_count ts"
proof (induction ts)
  case (Cons p ts)
  then show ?case using pending_put [of e i ts] by (cases p) (auto split: if_splits)
qed simp

lemma setState_tasks [simp]: "sd_tasks (setState i e s) = put_entry i e (sd_tasks s)"
  by (simp add: setState_def)

lemma setState_frame [simp]: "sd_inFlight (setState i e s) = sd_inFlight s" "sd_cancelled (setState i e s) = sd_cancelled s"
  by (simp_all add: setState_def)

lemma block_one_pending: "pending_count (sd_tasks (block_one i s)) \<le> pending_count (sd_tasks s)"
  by (auto simp: block_one_def pending_put split: option.split)

lemma block_one_change: "block_one i s \<noteq> s \<Longrightarrow> pending_count (sd_tasks (block_one i s)) < pending_count (sd_tasks s)"
  by (auto simp: block_one_def entry_of_def intro!: pending_put_less split: option.splits if_splits)

lemma block_pass_change:
  "fold block_one is s \<noteq> s \<Longrightarrow> pending_count (sd_tasks (fold block_one is s)) < pending_count (sd_tasks s)"
proof (induction "is" arbitrary: s)
  case (Cons i "is")
  show ?case
  proof (cases "fold block_one is (block_one i s) = block_one i s")
    case True
    then show ?thesis using Cons.prems block_one_change [of i s] by simp
  next
    case False
    then show ?thesis using Cons.IH [OF False] block_one_pending [of i s] by simp
  qed
qed simp

text \<open>The code repeats its passes until one changes nothing; each that does blocks a pending step.\<close>

function propagateBlocked :: "sched \<Rightarrow> sched" where
  "propagateBlocked s = (let s' = block_pass s in if s' = s then s else propagateBlocked s')"
  by pat_completeness auto
termination
  by (relation "measure (\<lambda>s. pending_count (sd_tasks s))") (auto simp: block_pass_def block_pass_change)

declare propagateBlocked.simps [simp del]

section \<open>Dispatching\<close>

definition deps_complete :: "(string \<times> entry) list \<Rightarrow> gstep \<Rightarrow> bool" where
  "deps_complete ts t = list_all (\<lambda>d. state_in ts d = Some SComplete) (gs_dependsOn t)"

definition readyTasks :: "sched \<Rightarrow> entry list" where
  "readyTasks s =
    filter (\<lambda>e. en_state e = SPending \<and> deps_complete (sd_tasks s) (en_step e)) (map snd (sd_tasks s))"

definition entry_id :: "entry \<Rightarrow> string" where
  "entry_id e = gs_id (en_step e)"

text \<open>The step that may use the scarce pool: the first of the highest complexity.\<close>

definition freebuff_reserved :: "entry list \<Rightarrow> string option" where
  "freebuff_reserved ready =
    (case sort_key (\<lambda>e. - int (complexityRank (gs_complexity (en_step e)))) ready of [] \<Rightarrow> None | e # _ \<Rightarrow> Some (entry_id e))"

definition rank_for :: "sched_env \<Rightarrow> sched \<Rightarrow> gstep \<Rightarrow> string list \<Rightarrow> ranked list" where
  "rank_for env s t excluded =
    rankModels (sv_number env) (gs_aspect t) (gs_routingHint t) (sv_candidates env) (sv_pools env s) (sv_registry env s) excluded"

definition NO_CANDIDATE :: step_error where
  "NO_CANDIDATE = mk_error ''NO_CANDIDATE'' None ''No candidate model available for this task.''"

definition dispatch_one :: "sched_env \<Rightarrow> string option \<Rightarrow> entry \<Rightarrow> sched \<times> nat \<Rightarrow> sched \<times> nat" where
  "dispatch_one env reserved e sn =
    (let (s, n) = sn; i = entry_id e;
         rs = rank_for env s (en_step e) (if Some i = reserved then [] else [''freebuff'']) in
     case rs of
       [] \<Rightarrow> (setState i (e\<lparr>en_state := SFailed, en_error := Some NO_CANDIDATE, en_completedAt := Some (sv_now env s)\<rparr>) s, n)
     | r # _ \<Rightarrow>
         (let e1 = e\<lparr>en_assignment := Some (rk_modelId r, rk_pool r, rk_reason r), en_state := SQueued\<rparr>;
              s1 = setState i e1 s;
              s2 = setState i (e1\<lparr>en_state := SRunning, en_startedAt := Some (sv_now env s1)\<rparr>) s1
          in (s2\<lparr>sd_inFlight := sd_inFlight s2 @ [(i, rs)]\<rparr>, n + 1)))"

definition dispatchReady :: "sched_env \<Rightarrow> sched \<Rightarrow> sched \<times> nat" where
  "dispatchReady env s = (let ready = readyTasks s in fold (dispatch_one env (freebuff_reserved ready)) ready (s, 0))"

section \<open>What a step is told\<close>

definition MAX_DEP_OUTPUT_CHARS :: nat where "MAX_DEP_OUTPUT_CHARS = 8000"
definition MAX_DEP_BLOCK_CHARS :: nat where "MAX_DEP_BLOCK_CHARS = 24000"

definition newline :: string where "newline = [CHR 0x0A]"

definition dep_part :: "entry \<Rightarrow> string \<Rightarrow> string" where
  "dep_part dep sl = ''--- Output of completed upstream task '' @ [CHR 0x22] @ entry_id dep @ [CHR 0x22] @ '' (''
     @ gs_title (en_step dep) @ '') ---'' @ newline @ sl"

text \<open>The outputs a step is shown, each with the slice of it that still fits.\<close>

fun dep_slices :: "(string \<times> entry) list \<Rightarrow> nat \<Rightarrow> string list \<Rightarrow> (entry \<times> string) list" where
  "dep_slices ts budget [] = []"
| "dep_slices ts budget (d # ds) =
     (case map_of ts d of
        None \<Rightarrow> dep_slices ts budget ds
      | Some dep \<Rightarrow>
          (case en_output dep of
             None \<Rightarrow> dep_slices ts budget ds
           | Some out \<Rightarrow>
               if en_state dep \<noteq> SComplete \<or> out = [] then dep_slices ts budget ds
               else if budget = 0 then []
               else (let sl = take (min MAX_DEP_OUTPUT_CHARS budget) out in (dep, sl) # dep_slices ts (budget - length sl) ds)))"

definition context_header :: string where
  "context_header = ''The following are the actual outputs of the tasks this task depends on. '' @
     ''Build on them directly rather than re-deriving their content from the shared context.''"

definition buildTaskContext :: "string \<Rightarrow> (string \<times> entry) list \<Rightarrow> gstep \<Rightarrow> string" where
  "buildTaskContext shared ts t =
    (let parts = map (\<lambda>(dep, sl). dep_part dep sl) (dep_slices ts MAX_DEP_BLOCK_CHARS (gs_dependsOn t));
         block = context_header @ newline @ newline @ join_with (newline @ newline) parts in
     if parts = [] then shared else if shared \<noteq> [] then shared @ newline @ newline @ block else block)"

section \<open>Settling\<close>

definition settle_one :: "sched_env \<Rightarrow> string \<Rightarrow> sched \<Rightarrow> sched" where
  "settle_one env i s =
    (case (map_of (sd_inFlight s) i, entry_of s i) of
       (Some rs, Some e) \<Rightarrow>
         (let (r, run) = runWithRetry (sv_cfg env) (sv_world env s (buildTaskContext (sv_shared env) (sd_tasks s) (en_step e)))
                (en_step e) rs (en_attempts e) (en_transcript e);
              s1 = s\<lparr>sd_inFlight := filter (\<lambda>p. fst p \<noteq> i) (sd_inFlight s)\<rparr>;
              e1 = e\<lparr>en_attempts := sr_attempts run, en_transcript := sr_transcript run, en_completedAt := Some (sv_now env s)\<rparr> in
          if sd_cancelled s then
            setState i (e1\<lparr>en_state := SCancelled,
              en_error := Some (dflt (rs_error r) (mk_error ''CANCELLED'' None ''Run was cancelled''))\<rparr>) s1
          else if rs_ok r then setState i (e1\<lparr>en_state := SComplete, en_output := rs_output r, en_error := None\<rparr>) s1
          else setState i (e1\<lparr>en_state := SFailed, en_error := rs_error r\<rparr>) s1)
     | _ \<Rightarrow> s\<lparr>sd_inFlight := filter (\<lambda>p. fst p \<noteq> i) (sd_inFlight s)\<rparr>)"

definition cancel :: "sched \<Rightarrow> sched" where
  "cancel s =
    (if sd_cancelled s then s
     else fold (\<lambda>i s. case entry_of s i of
            None \<Rightarrow> s
          | Some e \<Rightarrow> if en_state e = SPending \<or> en_state e = SQueued then setState i (e\<lparr>en_state := SCancelled\<rparr>) s else s)
        (map fst (sd_tasks s)) (s\<lparr>sd_cancelled := True\<rparr>))"

text \<open>Waiting: at least one call in flight settles; \<open>cancel()\<close> may come in between.\<close>

definition settled_ids :: "sched_env \<Rightarrow> sched \<Rightarrow> string list" where
  "settled_ids env s =
    (let chosen = filter (\<lambda>i. i \<in> fst ` set (sd_inFlight s)) (sv_settles env s)
     in if chosen = [] then map fst (take 1 (sd_inFlight s)) else chosen)"

definition await_race :: "sched_env \<Rightarrow> sched \<Rightarrow> sched" where
  "await_race env s =
    (let s1 = (if sv_cancel env s then cancel s else s) in fold (settle_one env) (settled_ids env s1) s1)"

section \<open>The dispatch loop\<close>

text \<open>Fuel bounds the rounds; \<open>None\<close> would be running out of it, which does not happen
  (\<open>scheduler_returns\<close> below).\<close>

fun sched_loop :: "nat \<Rightarrow> sched_env \<Rightarrow> sched \<Rightarrow> sched option" where
  "sched_loop 0 env s = None"
| "sched_loop (Suc n) env s =
     (if sd_cancelled s then Some s
      else
        (let s1 = propagateBlocked s in
         if sv_drain env s1 then (if sd_inFlight s1 = [] then Some s1 else sched_loop n env (await_race env s1))
         else
           (let (s2, dispatched) = dispatchReady env s1 in
            if dispatched = 0 \<and> sd_inFlight s2 = [] then Some s2
            else sched_loop n env (if sd_inFlight s2 \<noteq> [] then await_race env s2 else s2))))"

datatype run_state = RunCancelled | RunDrained | RunFailed | RunComplete

definition finalState :: "sched \<Rightarrow> run_state" where
  "finalState s =
    (let sts = map (\<lambda>p. en_state (snd p)) (sd_tasks s) in
     if sd_cancelled s then RunCancelled
     else if list_ex (\<lambda>st. st = SPending \<or> st = SQueued \<or> st = SRunning) sts then RunDrained
     else if SFailed \<in> set sts then RunFailed
     else RunComplete)"

definition run_graph :: "sched_env \<Rightarrow> graph \<Rightarrow> (string \<Rightarrow> snapshot option) \<Rightarrow> (run_state \<times> sched) option" where
  "run_graph env g resumeFrom =
    (let s0 = start_sched g resumeFrom in
     map_option (\<lambda>s. (finalState s, s)) (sched_loop (2 * length (sd_tasks s0) + 1) (env\<lparr>sv_shared := gr_sharedContext g\<rparr>) s0))"

text \<open>\<open>retryTask\<close>: a failed or blocked step is armed again and dispatched with whatever else is ready.\<close>

definition retryTask :: "sched_env \<Rightarrow> string \<Rightarrow> sched \<Rightarrow> sched \<times> bool" where
  "retryTask env i s =
    (case entry_of s i of
       None \<Rightarrow> (s, False)
     | Some e \<Rightarrow>
         if sd_cancelled s \<or> \<not> (en_state e = SFailed \<or> en_state e = SBlocked \<or> en_state e = SMalformed) then (s, False)
         else (fst (dispatchReady env (setState i (e\<lparr>en_attempts := [], en_error := None, en_state := SPending\<rparr>) s)), True))"

section \<open>The invariant\<close>

definition ran :: "entry \<Rightarrow> bool" where
  "ran e = (en_state e \<in> {SRunning, SComplete, SFailed} \<and> \<not> en_resumed e)"

definition sched_inv :: "graph \<Rightarrow> sched \<Rightarrow> bool" where
  "sched_inv g s =
    (distinct (map fst (sd_tasks s)) \<and> fst ` set (sd_tasks s) = gs_id ` set (gr_tasks g) \<and>
     distinct (map fst (sd_inFlight s)) \<and>
     (\<forall>i. i \<in> fst ` set (sd_inFlight s) \<longleftrightarrow> state_in (sd_tasks s) i = Some SRunning) \<and>
     (\<forall>i e. map_of (sd_tasks s) i = Some e \<longrightarrow>
        entry_id e = i \<and> en_step e \<in> set (gr_tasks g) \<and> en_state e \<notin> {SQueued, SMalformed} \<and>
        (ran e \<longrightarrow> deps_complete (sd_tasks s) (en_step e)) \<and>
        (en_state e = SBlocked \<longrightarrow> blocked_by_dep (sd_tasks s) e) \<and>
        (en_state e = SCancelled \<longrightarrow> sd_cancelled s)))"

lemma map_of_put:
  "map_of (put_entry i e ts) k = (if k = i \<and> map_of ts i \<noteq> None then Some e else map_of ts k)"
  by (induction ts) auto

lemma state_put: "map_of ts i = Some e0 \<Longrightarrow> state_in (put_entry i e ts) k = (if k = i then Some (en_state e) else state_in ts k)"
  by (simp add: state_in_def map_of_put)

text \<open>Settled states stay, so what a step waited for stays.\<close>

lemma deps_complete_put:
  assumes "map_of ts i = Some e0" and "en_state e0 \<noteq> SComplete" and "deps_complete ts t"
  shows "deps_complete (put_entry i e ts) t"
proof -
  have "state_in (put_entry i e ts) d = Some SComplete" if "d \<in> set (gs_dependsOn t)" for d
  proof -
    have c: "state_in ts d = Some SComplete" using that assms(3) by (simp add: deps_complete_def list_all_iff)
    then have "d \<noteq> i" using assms(1,2) by (auto simp: state_in_def)
    then show ?thesis using c by (simp add: state_put [OF assms(1)])
  qed
  then show ?thesis by (simp add: deps_complete_def list_all_iff)
qed

lemma blocked_put:
  assumes "map_of ts i = Some e0" and "en_state e0 \<notin> {SFailed, SBlocked, SCancelled}" and "blocked_by_dep ts x"
  shows "blocked_by_dep (put_entry i e ts) x"
proof -
  from assms(3) obtain d st where d: "d \<in> set (gs_dependsOn (en_step x))" "state_in ts d = Some st" "st \<in> {SFailed, SBlocked, SCancelled}"
    by (auto simp: blocked_by_dep_def list_ex_iff split: option.splits)
  then have "d \<noteq> i" using assms(1,2) by (auto simp: state_in_def)
  then have "state_in (put_entry i e ts) d = Some st" using d assms(1) by (simp add: state_put)
  then show ?thesis using d(1,3) unfolding blocked_by_dep_def list_ex_iff by (intro bexI [of _ d]) auto
qed

lemma inv_put:
  assumes inv: "sched_inv g s" and e0: "map_of (sd_tasks s) i = Some e0" "en_state e0 \<in> {SPending, SRunning}"
    and e: "en_step e = en_step e0" "en_state e \<notin> {SQueued, SMalformed}"
    and ran: "ran e \<Longrightarrow> deps_complete (sd_tasks s) (en_step e)" and blk: "en_state e = SBlocked \<Longrightarrow> blocked_by_dep (sd_tasks s) e"
    and can: "en_state e = SCancelled \<Longrightarrow> sd_cancelled s" "sd_cancelled s' = sd_cancelled s"
    and s': "sd_tasks s' = put_entry i e (sd_tasks s)" "distinct (map fst (sd_inFlight s'))"
      "fst ` set (sd_inFlight s') = (if en_state e = SRunning then insert i (fst ` set (sd_inFlight s)) else fst ` set (sd_inFlight s) - {i})"
  shows "sched_inv g s'"
proof -
  note I = inv [unfolded sched_inv_def]
  have keys: "distinct (map fst (sd_tasks s'))" "fst ` set (sd_tasks s') = gs_id ` set (gr_tasks g)"
    using I s'(1) by (simp_all only: put_entry_keys flip: set_map)
  have st: "state_in (sd_tasks s') k = (if k = i then Some (en_state e) else state_in (sd_tasks s) k)" for k
    unfolding s'(1) by (rule state_put [OF e0(1)])
  have fl: "k \<in> fst ` set (sd_inFlight s') \<longleftrightarrow> state_in (sd_tasks s') k = Some SRunning" for k
    using I s'(3) st by auto
  have "entry_id x = k \<and> en_step x \<in> set (gr_tasks g) \<and> en_state x \<notin> {SQueued, SMalformed} \<and>
      (Scheduler.ran x \<longrightarrow> deps_complete (sd_tasks s') (en_step x)) \<and> (en_state x = SBlocked \<longrightarrow> blocked_by_dep (sd_tasks s') x) \<and>
      (en_state x = SCancelled \<longrightarrow> sd_cancelled s')"
    if x: "map_of (sd_tasks s') k = Some x" for k x
  proof (cases "k = i")
    case True
    then have "x = e" using x e0(1) by (simp add: s'(1) map_of_put)
    moreover have "entry_id e = i" "en_step e \<in> set (gr_tasks g)" using I e0(1) e(1) by (simp_all add: entry_id_def)
    ultimately show ?thesis
      using True e(2) ran blk e0 can deps_complete_put [OF e0(1)] blocked_put [OF e0(1)] by (auto simp: s'(1))
  next
    case False
    then have "map_of (sd_tasks s) k = Some x" using x by (simp add: s'(1) map_of_put)
    then show ?thesis using I e0 can deps_complete_put [OF e0(1)] blocked_put [OF e0(1)] by (auto simp: s'(1))
  qed
  then show ?thesis unfolding sched_inv_def using keys fl s'(2) by blast
qed

section \<open>What the operations do to it\<close>

text \<open>The work left: each pending step has to be dispatched and settled, each one in flight settled.\<close>

definition work :: "sched \<Rightarrow> nat" where
  "work s = 2 * pending_count (sd_tasks s) + length (sd_inFlight s)"

lemma inv_block_one:
  assumes "sched_inv g s"
  shows "sched_inv g (block_one i s)"
proof (cases "block_one i s = s")
  case False
  then obtain e where e: "map_of (sd_tasks s) i = Some e" "en_state e = SPending" "blocked_by_dep (sd_tasks s) e"
    "block_one i s = setState i (e\<lparr>en_state := SBlocked\<rparr>) s"
    by (auto simp: block_one_def entry_of_def split: option.splits if_splits)
  have "i \<notin> fst ` set (sd_inFlight s)" using assms e(1,2) unfolding sched_inv_def by (auto simp: state_in_def)
  then show ?thesis unfolding e(4)
    using e(1-3) assms by (intro inv_put [OF assms e(1), of "e\<lparr>en_state := SBlocked\<rparr>"])
      (auto simp: ran_def blocked_by_dep_def sched_inv_def)
qed (use assms in simp)

lemma inv_block_fold: "sched_inv g s \<Longrightarrow> sched_inv g (fold block_one is s)"
  by (induction "is" arbitrary: s) (simp_all add: inv_block_one)

lemma block_one_frame [simp]: "sd_inFlight (block_one i s) = sd_inFlight s" "sd_cancelled (block_one i s) = sd_cancelled s"
  by (auto simp: block_one_def split: option.split)

lemma block_fold_frame [simp]:
  "sd_inFlight (fold block_one is s) = sd_inFlight s" "sd_cancelled (fold block_one is s) = sd_cancelled s"
  by (induction "is" arbitrary: s) simp_all

lemma block_fold_pending: "pending_count (sd_tasks (fold block_one is s)) \<le> pending_count (sd_tasks s)"
  using block_pass_change [of "is" s] by (cases "fold block_one is s = s") simp_all

lemma propagate_spec:
  "block_pass (propagateBlocked s) = propagateBlocked s \<and> sd_inFlight (propagateBlocked s) = sd_inFlight s \<and>
   sd_cancelled (propagateBlocked s) = sd_cancelled s \<and> work (propagateBlocked s) \<le> work s \<and>
   (sched_inv g s \<longrightarrow> sched_inv g (propagateBlocked s))"
proof (induction s rule: propagateBlocked.induct)
  case (1 s)
  show ?case
  proof (cases "block_pass s = s")
    case True
    then show ?thesis by (subst (1 2 3 4 5 6) propagateBlocked.simps) simp
  next
    case False
    have step: "propagateBlocked s = propagateBlocked (block_pass s)"
      using False by (subst propagateBlocked.simps) (simp add: Let_def)
    have "work (block_pass s) \<le> work s" using block_fold_pending by (simp add: work_def block_pass_def)
    moreover have "sched_inv g s \<longrightarrow> sched_inv g (block_pass s)" by (simp add: block_pass_def inv_block_fold)
    ultimately show ?thesis using 1 [OF refl False] unfolding step by (auto simp: block_pass_def)
  qed
qed

lemma block_pass_fix:
  assumes "block_pass s = s" and "map_of (sd_tasks s) i = Some e" and "en_state e = SPending"
  shows "\<not> blocked_by_dep (sd_tasks s) e"
proof
  assume b: "blocked_by_dep (sd_tasks s) e"
  have "block_one i s = s" if "fold block_one is s = s" "i \<in> set is" for "is"
    using that
  proof (induction "is")
    case (Cons j "is")
    have "block_one j s = s"
    proof (rule ccontr)
      assume "block_one j s \<noteq> s"
      from block_one_change [OF this] block_fold_pending [of "is" "block_one j s"] show False using Cons.prems(1) by simp
    qed
    then show ?case using Cons by (cases "i = j") auto
  qed simp
  moreover have "i \<in> set (map fst (sd_tasks s))" using map_of_SomeD [OF assms(2)] by force
  ultimately have "block_one i s = s" using assms(1) unfolding block_pass_def by blast
  then have "setState i (e\<lparr>en_state := SBlocked\<rparr>) s = s" using assms(2,3) b by (simp add: block_one_def entry_of_def)
  then have "sd_log (setState i (e\<lparr>en_state := SBlocked\<rparr>) s) = sd_log s" by (rule arg_cong)
  then show False by (simp add: setState_def)
qed


text \<open>Dispatching a ready step.\<close>

definition ready_in :: "sched \<Rightarrow> entry \<Rightarrow> bool" where
  "ready_in s e = (map_of (sd_tasks s) (entry_id e) = Some e \<and> en_state e = SPending \<and> deps_complete (sd_tasks s) (en_step e))"

definition launched :: "sched_env \<Rightarrow> entry \<Rightarrow> ranked \<Rightarrow> ranked list \<Rightarrow> sched \<Rightarrow> sched" where
  "launched env e r rs s =
    (let i = entry_id e; e1 = e\<lparr>en_assignment := Some (rk_modelId r, rk_pool r, rk_reason r), en_state := SQueued\<rparr>;
         s1 = setState i e1 s; s2 = setState i (e1\<lparr>en_state := SRunning, en_startedAt := Some (sv_now env s1)\<rparr>) s1
     in s2\<lparr>sd_inFlight := sd_inFlight s2 @ [(i, rs)]\<rparr>)"

lemma put_put [simp]: "put_entry i e (put_entry i e' ts) = put_entry i e ts"
  by (induction ts) auto

lemma launched_tasks:
  "\<exists>e'. sd_tasks (launched env e r rs s) = put_entry (entry_id e) e' (sd_tasks s) \<and> en_step e' = en_step e \<and> en_state e' = SRunning \<and>
     en_resumed e' = en_resumed e"
  "sd_inFlight (launched env e r rs s) = sd_inFlight s @ [(entry_id e, rs)]"
  "sd_cancelled (launched env e r rs s) = sd_cancelled s"
  by (auto simp: launched_def Let_def)

lemma idle:
  assumes "sched_inv g s" and "map_of (sd_tasks s) i = Some e" and "en_state e \<noteq> SRunning"
  shows "i \<notin> fst ` set (sd_inFlight s)"
  using assms unfolding sched_inv_def by (auto simp: state_in_def)

lemma inv_distinct: "sched_inv g s \<Longrightarrow> distinct (map fst (sd_inFlight s))"
  by (simp add: sched_inv_def)

lemma inv_launched:
  assumes inv: "sched_inv g s" and e: "ready_in s e"
  shows "sched_inv g (launched env e r rs s) \<and> work (launched env e r rs s) < work s"
proof -
  obtain e' where e': "sd_tasks (launched env e r rs s) = put_entry (entry_id e) e' (sd_tasks s)" "en_step e' = en_step e" "en_state e' = SRunning"
    using launched_tasks(1) by blast
  have e0: "map_of (sd_tasks s) (entry_id e) = Some e" "en_state e = SPending" "deps_complete (sd_tasks s) (en_step e)"
    using e by (simp_all add: ready_in_def)
  have out: "entry_id e \<notin> fst ` set (sd_inFlight s)" using idle [OF inv e0(1)] e0(2) by simp
  have "sched_inv g (launched env e r rs s)"
  proof (rule inv_put [OF inv e0(1) _ e'(2) _ _ _ _ _ e'(1)])
    show "en_state e \<in> {SPending, SRunning}" using e0(2) by simp
    show "en_state e' \<notin> {SQueued, SMalformed}" using e'(3) by simp
    show "deps_complete (sd_tasks s) (en_step e')" using e0(3) e'(2) by simp
    show "distinct (map fst (sd_inFlight (launched env e r rs s)))" using inv_distinct [OF inv] out by (simp add: launched_tasks)
    show "fst ` set (sd_inFlight (launched env e r rs s)) =
        (if en_state e' = SRunning then insert (entry_id e) (fst ` set (sd_inFlight s)) else fst ` set (sd_inFlight s) - {entry_id e})"
      using e'(3) by (simp add: launched_tasks)
  qed (use e'(3) in \<open>simp_all add: launched_tasks\<close>)
  moreover have "pending_count (sd_tasks (launched env e r rs s)) < pending_count (sd_tasks s)"
    using pending_put_less [OF e0(1,2), of e'] e'(1,3) by simp
  ultimately show ?thesis by (simp add: work_def launched_tasks)
qed

definition unroutable :: "sched_env \<Rightarrow> entry \<Rightarrow> sched \<Rightarrow> sched" where
  "unroutable env e s =
    setState (entry_id e) (e\<lparr>en_state := SFailed, en_error := Some NO_CANDIDATE, en_completedAt := Some (sv_now env s)\<rparr>) s"

lemma inv_unroutable:
  assumes inv: "sched_inv g s" and e: "ready_in s e"
  shows "sched_inv g (unroutable env e s) \<and> work (unroutable env e s) < work s"
proof -
  let ?e = "e\<lparr>en_state := SFailed, en_error := Some NO_CANDIDATE, en_completedAt := Some (sv_now env s)\<rparr>"
  have e0: "map_of (sd_tasks s) (entry_id e) = Some e" "en_state e = SPending" "deps_complete (sd_tasks s) (en_step e)"
    using e by (simp_all add: ready_in_def)
  have out: "entry_id e \<notin> fst ` set (sd_inFlight s)" using idle [OF inv e0(1)] e0(2) by simp
  have "sched_inv g (unroutable env e s)"
  proof (rule inv_put [OF inv e0(1), of ?e])
    show "distinct (map fst (sd_inFlight (unroutable env e s)))" using inv_distinct [OF inv] by (simp add: unroutable_def)
    show "fst ` set (sd_inFlight (unroutable env e s)) =
        (if en_state ?e = SRunning then insert (entry_id e) (fst ` set (sd_inFlight s)) else fst ` set (sd_inFlight s) - {entry_id e})"
      using out by (simp add: unroutable_def)
  qed (use e0 in \<open>simp_all add: unroutable_def\<close>)
  moreover have "pending_count (sd_tasks (unroutable env e s)) < pending_count (sd_tasks s)"
    using pending_put_less [OF e0(1,2), of ?e] by (simp add: unroutable_def)
  ultimately show ?thesis by (simp add: work_def unroutable_def)
qed

lemma dispatch_one_cases:
  "dispatch_one env reserved e (s, n) =
    (case rank_for env s (en_step e) (if Some (entry_id e) = reserved then [] else [''freebuff'']) of
       [] \<Rightarrow> (unroutable env e s, n) | r # rs \<Rightarrow> (launched env e r (r # rs) s, n + 1))"
  by (simp add: dispatch_one_def unroutable_def launched_def Let_def split: list.split)

lemma ready_after:
  assumes "ready_in s x" and "ready_in s e" and "entry_id e \<noteq> entry_id x"
    and "sd_tasks s' = put_entry (entry_id e) e' (sd_tasks s)"
  shows "ready_in s' x"
  using assms deps_complete_put [of "sd_tasks s" "entry_id e" e "en_step x" e'] by (auto simp: ready_in_def map_of_put)

lemma dispatch_one_spec:
  assumes inv: "sched_inv g s" and e: "ready_in s e" and eq: "dispatch_one env reserved e (s, n) = (s', n')"
  shows "sched_inv g s' \<and> work s' < work s \<and> sd_cancelled s' = sd_cancelled s \<and>
     (\<exists>e'. sd_tasks s' = put_entry (entry_id e) e' (sd_tasks s)) \<and>
     n \<le> n' \<and> length (sd_inFlight s') + n = length (sd_inFlight s) + n'"
proof (cases "rank_for env s (en_step e) (if Some (entry_id e) = reserved then [] else [''freebuff''])")
  case Nil
  then have "s' = unroutable env e s" "n' = n" using eq by (simp_all add: dispatch_one_cases)
  then show ?thesis using inv_unroutable [OF inv e, of env] by (auto simp: unroutable_def)
next
  case (Cons r rs)
  then have "s' = launched env e r (r # rs) s" "n' = n + 1" using eq by (simp_all add: dispatch_one_cases)
  then show ?thesis using inv_launched [OF inv e, of env r "r # rs"] launched_tasks [of env e r "r # rs" s] by auto
qed

lemma dispatch_fold:
  assumes "sched_inv g s" and "list_all (ready_in s) es" and "distinct (map entry_id es)"
    and "fold (dispatch_one env reserved) es (s, n) = (s', n')"
  shows "sched_inv g s' \<and> work s' + length es \<le> work s \<and> sd_cancelled s' = sd_cancelled s \<and>
     length (sd_inFlight s') + n = length (sd_inFlight s) + n'"
  using assms
proof (induction es arbitrary: s n)
  case (Cons e es)
  obtain s1 n1 where one: "dispatch_one env reserved e (s, n) = (s1, n1)" by fastforce
  have e: "ready_in s e" using Cons.prems(2) by simp
  note sp = dispatch_one_spec [OF Cons.prems(1) e one]
  have "list_all (ready_in s1) es"
    using Cons.prems(2,3) sp ready_after [OF _ e] unfolding list_all_iff by fastforce
  then show ?case using Cons.IH [of s1 n1] Cons.prems(3,4) sp one by auto
qed simp

lemma ready_tasks_ready:
  assumes inv: "sched_inv g s"
  shows "list_all (ready_in s) (readyTasks s) \<and> distinct (map entry_id (readyTasks s))"
proof -
  have d: "distinct (map fst (sd_tasks s))" using inv by (simp add: sched_inv_def)
  have id: "map_of (sd_tasks s) k = Some e \<and> entry_id e = k" if "(k, e) \<in> set (sd_tasks s)" for k e
    using that inv d by (simp add: sched_inv_def)
  have keys: "map (\<lambda>p. entry_id (snd p)) (sd_tasks s) = map fst (sd_tasks s)" using id by (intro map_cong) auto
  have "list_all (ready_in s) (readyTasks s)"
    using id by (auto simp: readyTasks_def list_all_iff ready_in_def)
  moreover have "distinct (map entry_id (map snd (sd_tasks s)))" using d by (simp add: o_def keys)
  then have "distinct (map entry_id (readyTasks s))" unfolding readyTasks_def by (rule distinct_map_filter)
  ultimately show ?thesis by simp
qed

lemma dispatchReady_spec:
  assumes "sched_inv g s" and "dispatchReady env s = (s', n)"
  shows "sched_inv g s' \<and> work s' + length (readyTasks s) \<le> work s \<and> sd_cancelled s' = sd_cancelled s \<and>
     length (sd_inFlight s') = length (sd_inFlight s) + n"
proof -
  note rt = ready_tasks_ready [OF assms(1)]
  show ?thesis
    using dispatch_fold [OF assms(1) rt [THEN conjunct1] rt [THEN conjunct2], of env _ 0 s' n] assms(2)
    by (simp add: dispatchReady_def Let_def)
qed

text \<open>Settling a call, and cancelling.\<close>

definition landed :: "sched_env \<Rightarrow> entry \<Rightarrow> ranked list \<Rightarrow> sched \<Rightarrow> entry" where
  "landed env e rs s =
    (let (r, run) = runWithRetry (sv_cfg env) (sv_world env s (buildTaskContext (sv_shared env) (sd_tasks s) (en_step e)))
           (en_step e) rs (en_attempts e) (en_transcript e);
         e1 = e\<lparr>en_attempts := sr_attempts run, en_transcript := sr_transcript run, en_completedAt := Some (sv_now env s)\<rparr> in
     if sd_cancelled s then
       e1\<lparr>en_state := SCancelled, en_error := Some (dflt (rs_error r) (mk_error ''CANCELLED'' None ''Run was cancelled''))\<rparr>
     else if rs_ok r then e1\<lparr>en_state := SComplete, en_output := rs_output r, en_error := None\<rparr>
     else e1\<lparr>en_state := SFailed, en_error := rs_error r\<rparr>)"

lemma landed_frame:
  "en_step (landed env e rs s) = en_step e" "en_state (landed env e rs s) \<in> {SComplete, SFailed, SCancelled}"
  by (simp_all add: landed_def Let_def split: prod.split)

lemma settle_one_cases:
  "settle_one env i s =
    (case (map_of (sd_inFlight s) i, entry_of s i) of
       (Some rs, Some e) \<Rightarrow> setState i (landed env e rs s) (s\<lparr>sd_inFlight := filter (\<lambda>p. fst p \<noteq> i) (sd_inFlight s)\<rparr>)
     | _ \<Rightarrow> s\<lparr>sd_inFlight := filter (\<lambda>p. fst p \<noteq> i) (sd_inFlight s)\<rparr>)"
  by (simp add: settle_one_def landed_def Let_def split: option.split prod.split)

lemma filter_absent: "i \<notin> fst ` set xs \<Longrightarrow> filter (\<lambda>p. fst p \<noteq> i) xs = xs"
  by (induction xs) auto

lemma filter_present: "i \<in> fst ` set xs \<Longrightarrow> length (filter (\<lambda>p. fst p \<noteq> i) xs) < length xs"
  by (auto intro: length_filter_less)

lemma settle_one_spec:
  assumes inv: "sched_inv g s"
  shows "sched_inv g (settle_one env i s) \<and> sd_cancelled (settle_one env i s) = sd_cancelled s \<and>
     work (settle_one env i s) + (if i \<in> fst ` set (sd_inFlight s) then 1 else 0) \<le> work s"
proof (cases "i \<in> fst ` set (sd_inFlight s)")
  case False
  then have "map_of (sd_inFlight s) i = None" by (simp add: map_of_eq_None_iff)
  then have "settle_one env i s = s" using False by (simp add: settle_one_cases filter_absent)
  then show ?thesis using inv False by simp
next
  case True
  then obtain rs where rs: "map_of (sd_inFlight s) i = Some rs" by (cases "map_of (sd_inFlight s) i") (auto simp: map_of_eq_None_iff)
  have st: "state_in (sd_tasks s) i = Some SRunning" using inv True unfolding sched_inv_def by blast
  then obtain e where e: "map_of (sd_tasks s) i = Some e" "en_state e = SRunning" by (auto simp: state_in_def)
  have deps: "\<not> en_resumed e \<Longrightarrow> deps_complete (sd_tasks s) (en_step e)" using inv e by (simp add: sched_inv_def ran_def)
  define s' where "s' = s\<lparr>sd_inFlight := filter (\<lambda>p. fst p \<noteq> i) (sd_inFlight s)\<rparr>"
  have out: "settle_one env i s = setState i (landed env e rs s) s'"
    using rs e(1) by (simp add: settle_one_cases entry_of_def s'_def)
  have res: "en_resumed (landed env e rs s) = en_resumed e" by (simp add: landed_def Let_def split: prod.split)
  have "sched_inv g (setState i (landed env e rs s) s')"
  proof (rule inv_put [OF inv e(1) _ landed_frame(1)])
    show "distinct (map fst (sd_inFlight (setState i (landed env e rs s) s')))"
      using inv_distinct [OF inv] by (simp add: s'_def distinct_map_filter)
    show "fst ` set (sd_inFlight (setState i (landed env e rs s) s')) =
        (if en_state (landed env e rs s) = SRunning then insert i (fst ` set (sd_inFlight s)) else fst ` set (sd_inFlight s) - {i})"
      using landed_frame(2) [of env e rs s] by (auto simp: s'_def)
    show "ran (landed env e rs s) \<Longrightarrow> deps_complete (sd_tasks s) (en_step (landed env e rs s))"
      using deps res by (simp add: ran_def landed_frame)
    show "sd_tasks (setState i (landed env e rs s) s') = put_entry i (landed env e rs s) (sd_tasks s)" by (simp add: s'_def)
      show "en_state (landed env e rs s) = SCancelled \<Longrightarrow> sd_cancelled s" by (simp add: landed_def Let_def split: prod.splits if_splits)
  qed (use e(2) landed_frame(2) [of env e rs s] in \<open>auto simp: s'_def\<close>)
  moreover have "pending_count (sd_tasks (setState i (landed env e rs s) s')) \<le> pending_count (sd_tasks s)"
    using pending_put [of "landed env e rs s"] landed_frame(2) [of env e rs s] by (auto simp: s'_def)
  moreover have "length (sd_inFlight s') < length (sd_inFlight s)" using filter_present [OF True] by (simp add: s'_def)
  ultimately show ?thesis using True unfolding out by (simp add: work_def) (simp add: s'_def)
qed

lemma settle_fold:
  assumes "sched_inv g s"
  shows "sched_inv g (fold (settle_one env) is s) \<and> sd_cancelled (fold (settle_one env) is s) = sd_cancelled s \<and>
     work (fold (settle_one env) is s) \<le> work s"
  using assms
proof (induction "is" arbitrary: s)
  case (Cons i "is")
  note one = settle_one_spec [OF Cons.prems, of env i]
  show ?case using one Cons.IH [OF one [THEN conjunct1]] by simp
qed simp

definition cancel_one :: "string \<Rightarrow> sched \<Rightarrow> sched" where
  "cancel_one i s = (case entry_of s i of
     None \<Rightarrow> s
   | Some e \<Rightarrow> if en_state e = SPending \<or> en_state e = SQueued then setState i (e\<lparr>en_state := SCancelled\<rparr>) s else s)"

lemma cancel_one_spec:
  assumes inv: "sched_inv g s" and c: "sd_cancelled s"
  shows "sd_cancelled (cancel_one i s) \<and> sched_inv g (cancel_one i s) \<and> work (cancel_one i s) \<le> work s \<and> sd_inFlight (cancel_one i s) = sd_inFlight s"
proof (cases "cancel_one i s = s")
  case False
  then obtain e where e: "map_of (sd_tasks s) i = Some e" "en_state e = SPending"
    "cancel_one i s = setState i (e\<lparr>en_state := SCancelled\<rparr>) s"
    using inv unfolding sched_inv_def cancel_one_def entry_of_def by (auto split: option.splits if_splits)
  have "i \<notin> fst ` set (sd_inFlight s)" using idle [OF inv e(1)] e(2) by simp
  then have "sched_inv g (setState i (e\<lparr>en_state := SCancelled\<rparr>) s)"
    using e(2) inv_distinct [OF inv] c by (intro inv_put [OF inv e(1), of "e\<lparr>en_state := SCancelled\<rparr>"]) (simp_all add: ran_def)
  then show ?thesis using e(3) pending_put [of "e\<lparr>en_state := SCancelled\<rparr>" i "sd_tasks s"] c by (simp add: work_def)
qed (use inv c in simp)

lemma cancel_fold:
  assumes "sched_inv g s" and "sd_cancelled s"
  shows "sched_inv g (fold cancel_one is s) \<and> work (fold cancel_one is s) \<le> work s \<and> sd_inFlight (fold cancel_one is s) = sd_inFlight s"
  using assms
proof (induction "is" arbitrary: s)
  case (Cons i "is")
  note one = cancel_one_spec [OF Cons.prems, of i]
  then show ?case using Cons.IH [of "cancel_one i s"] by auto
qed simp

lemma cancel_fold_def: "cancel s = (if sd_cancelled s then s else fold cancel_one (map fst (sd_tasks s)) (s\<lparr>sd_cancelled := True\<rparr>))"
  by (simp add: cancel_def cancel_one_def [abs_def])

lemma cancel_spec:
  assumes "sched_inv g s"
  shows "sched_inv g (cancel s) \<and> work (cancel s) \<le> work s \<and> sd_inFlight (cancel s) = sd_inFlight s"
proof -
  have c: "sched_inv g (s\<lparr>sd_cancelled := True\<rparr>)" using assms by (simp add: sched_inv_def)
  note cf = cancel_fold [OF this, of "map fst (sd_tasks s)"]
  then have
    "work (fold cancel_one (map fst (sd_tasks s)) (s\<lparr>sd_cancelled := True\<rparr>)) \<le> work (s\<lparr>sd_cancelled := True\<rparr>)" by simp
  also have "work (s\<lparr>sd_cancelled := True\<rparr>) = work s" by (simp add: work_def)
  finally show ?thesis using assms cf by (simp add: cancel_fold_def)
qed

lemma settled_ids_in: "list_all (\<lambda>i. i \<in> fst ` set (sd_inFlight s)) (settled_ids env s)"
  by (cases "sd_inFlight s") (auto simp: settled_ids_def Let_def list_all_iff)

lemma settled_ids_some: "sd_inFlight s \<noteq> [] \<Longrightarrow> settled_ids env s \<noteq> []"
  by (simp add: settled_ids_def Let_def)

lemma await_spec:
  assumes inv: "sched_inv g s" and busy: "sd_inFlight s \<noteq> []"
  shows "sched_inv g (await_race env s) \<and> work (await_race env s) < work s \<and>
     (\<not> sv_cancel env s \<longrightarrow> sd_cancelled (await_race env s) = sd_cancelled s)"
proof -
  define s1 where "s1 = (if sv_cancel env s then cancel s else s)"
  have s1: "sched_inv g s1" "work s1 \<le> work s" "sd_inFlight s1 = sd_inFlight s" "\<not> sv_cancel env s \<Longrightarrow> s1 = s"
    using inv cancel_spec [OF inv] by (simp_all add: s1_def)
  obtain i "is" where ids: "settled_ids env s1 = i # is" using settled_ids_some [of s1 env] busy s1(3) by (cases "settled_ids env s1") auto
  have i: "i \<in> fst ` set (sd_inFlight s1)" using settled_ids_in [of s1 env] ids by simp
  note one = settle_one_spec [OF s1(1), of env i]
  note rest = settle_fold [OF one [THEN conjunct1], of env "is"]
  have "await_race env s = fold (settle_one env) is (settle_one env i s1)" by (simp add: await_race_def Let_def ids flip: s1_def)
  then show ?thesis using one rest i s1(2,4) by auto
qed

section \<open>Running a graph\<close>

lemma start_fold:
  assumes "distinct (map fst ts)" and "set us \<subseteq> T"
    and "list_all (\<lambda>p. fst p = entry_id (snd p) \<and> en_step (snd p) \<in> T \<and>
      (en_state (snd p) = SPending \<or> en_resumed (snd p) \<and> (en_state (snd p) = SComplete \<or> en_state (snd p) = SFailed))) ts"
  shows "let ts' = fold (\<lambda>t. assoc_put (gs_id t) (resume_entry (r (gs_id t)) t)) us ts in
    distinct (map fst ts') \<and> fst ` set ts' = fst ` set ts \<union> gs_id ` set us \<and>
    list_all (\<lambda>p. fst p = entry_id (snd p) \<and> en_step (snd p) \<in> T \<and>
      (en_state (snd p) = SPending \<or> en_resumed (snd p) \<and> (en_state (snd p) = SComplete \<or> en_state (snd p) = SFailed))) ts'"
  (is "let ts' = ?F us ts in ?Q us ts ts'")
  using assms
proof (induction us arbitrary: ts)
  case (Cons u us)
  let ?e = "resume_entry (r (gs_id u)) u"
  have e: "entry_id ?e = gs_id u \<and> en_step ?e = u \<and>
      (en_state ?e = SPending \<or> en_resumed ?e \<and> (en_state ?e = SComplete \<or> en_state ?e = SFailed))"
    by (auto simp: resume_entry_def fresh_entry_def entry_id_def split: option.split)
  have "(k, v) = (gs_id u, ?e) \<or> (k, v) \<in> set ts" if "(k, v) \<in> set (assoc_put (gs_id u) ?e ts)" for k v
    using that by (induction "gs_id u" ?e ts rule: assoc_put.induct) (auto split: if_splits)
  then have "list_all (\<lambda>p. fst p = entry_id (snd p) \<and> en_step (snd p) \<in> T \<and>
      (en_state (snd p) = SPending \<or> en_resumed (snd p) \<and> (en_state (snd p) = SComplete \<or> en_state (snd p) = SFailed)))
      (assoc_put (gs_id u) ?e ts)"
    using Cons.prems(2,3) e unfolding list_all_iff by fastforce
  moreover have "distinct (map fst (assoc_put (gs_id u) ?e ts))" using Cons.prems(1) by (rule distinct_assoc_put)
  ultimately show ?case
    using Cons.IH [of "assoc_put (gs_id u) ?e ts"] Cons.prems(2) keys_assoc_put [of "gs_id u" ?e ts] by (simp add: Let_def)
qed simp

lemma start_sched_spec:
  "sched_inv g (start_sched g r) \<and> work (start_sched g r) \<le> 2 * length (sd_tasks (start_sched g r))"
proof -
  define ts where "ts = sd_tasks (start_sched g r)"
  have ts: "distinct (map fst ts)" "fst ` set ts = gs_id ` set (gr_tasks g)"
    "list_all (\<lambda>p. fst p = entry_id (snd p) \<and> en_step (snd p) \<in> set (gr_tasks g) \<and>
      (en_state (snd p) = SPending \<or> en_resumed (snd p) \<and> (en_state (snd p) = SComplete \<or> en_state (snd p) = SFailed))) ts"
    using start_fold [of "[]" "gr_tasks g" "set (gr_tasks g)" r] by (simp_all add: Let_def ts_def start_sched_def)
  have e: "entry_id x = k \<and> en_step x \<in> set (gr_tasks g) \<and> en_state x \<notin> {SQueued, SMalformed, SRunning, SBlocked, SCancelled} \<and> \<not> ran x"
    if "map_of ts k = Some x" for k x
    using bspec [OF ts(3) [unfolded list_all_iff] map_of_SomeD [OF that]] by (auto simp: ran_def)
  then have "state_in ts k \<noteq> Some SRunning" for k by (auto simp: state_in_def)
  then have "sched_inv g (start_sched g r)" using ts(1,2) e
    by (simp add: sched_inv_def flip: ts_def) (simp add: start_sched_def)
  moreover have "work (start_sched g r) \<le> 2 * length ts"
    by (simp add: work_def pending_count_def start_sched_def flip: ts_def) (simp add: ts_def start_sched_def)
  ultimately show ?thesis by (simp add: ts_def)
qed

text \<open>One round of the loop either ends it or leaves less work.\<close>

definition round_next :: "sched_env \<Rightarrow> sched \<Rightarrow> sched + sched" where
  "round_next env s =
    (let s1 = propagateBlocked s in
     if sd_cancelled s then Inl s
     else if sv_drain env s1 then (if sd_inFlight s1 = [] then Inl s1 else Inr (await_race env s1))
     else (let (s2, dispatched) = dispatchReady env s1 in
       if dispatched = 0 \<and> sd_inFlight s2 = [] then Inl s2
       else Inr (if sd_inFlight s2 \<noteq> [] then await_race env s2 else s2)))"

lemma sched_loop_round:
  "sched_loop (Suc n) env s = (case round_next env s of Inl s' \<Rightarrow> Some s' | Inr s' \<Rightarrow> sched_loop n env s')"
  by (simp add: round_next_def Let_def split: prod.split)

lemma round_inl:
  assumes "sched_inv g s" and "round_next env s = Inl s'"
  shows "sched_inv g s'"
proof -
  have s1: "sched_inv g (propagateBlocked s)" using propagate_spec [of s g] assms(1) by blast
  obtain s2 n where s2: "dispatchReady env (propagateBlocked s) = (s2, n)" by fastforce
  have "s' \<in> {s, propagateBlocked s, s2}" using assms(2) s2 by (simp add: round_next_def Let_def split: if_splits)
  then show ?thesis using assms(1) s1 dispatchReady_spec [OF s1 s2] by blast
qed

lemma round_inr:
  assumes inv: "sched_inv g s" and r: "round_next env s = Inr s'"
  shows "sched_inv g s' \<and> work s' < work s \<and> ((\<forall>t. \<not> sv_cancel env t) \<longrightarrow> sd_cancelled s' = sd_cancelled s)"
proof -
  define s1 where "s1 = propagateBlocked s"
  have s1: "sched_inv g s1" "work s1 \<le> work s" "sd_cancelled s1 = sd_cancelled s"
    using propagate_spec [of s g] inv by (simp_all add: s1_def)
  obtain s2 n where s2: "dispatchReady env s1 = (s2, n)" by fastforce
  note d = dispatchReady_spec [OF s1(1) s2]
  have run: "\<not> sd_cancelled s" using r by (auto simp: round_next_def)
  have "(sv_drain env s1 \<and> sd_inFlight s1 \<noteq> [] \<and> s' = await_race env s1) \<or>
      (sd_inFlight s2 \<noteq> [] \<and> s' = await_race env s2)"
    using r d s2 run by (auto simp: round_next_def Let_def s1_def [symmetric] split: if_splits)
  then show ?thesis
    using await_spec [OF s1(1), of env] await_spec [OF d [THEN conjunct1], of env] s1 d by auto
qed

lemma loop_returns:
  assumes "sched_inv g s" and "work s < n"
  shows "\<exists>s'. sched_loop n env s = Some s' \<and> sched_inv g s'"
  using assms
proof (induction n arbitrary: s)
  case (Suc n)
  show ?case
  proof (cases "round_next env s")
    case (Inl s')
    then show ?thesis using round_inl [OF Suc.prems(1) Inl] by (simp only: sched_loop_round) simp
  next
    case (Inr s')
    note step = round_inr [OF Suc.prems(1) Inr]
    then have "\<exists>s''. sched_loop n env s' = Some s'' \<and> sched_inv g s''" using Suc.prems(2) by (intro Suc.IH) auto
    then show ?thesis by (simp only: sched_loop_round Inr) simp
  qed
qed simp

lemma run_graph_returns: "\<exists>s. run_graph env g r = Some (finalState s, s) \<and> sched_inv g s"
proof -
  have "work (start_sched g r) < 2 * length (sd_tasks (start_sched g r)) + 1" using start_sched_spec [of g r] by simp
  from loop_returns [OF start_sched_spec [THEN conjunct1] this, of "env\<lparr>sv_shared := gr_sharedContext g\<rparr>"]
  show ?thesis by (auto simp: run_graph_def Let_def)
qed

text \<open>C17. The scheduler always returns, whatever the graph (cycles, unknown or repeated ids included), the checkpoint,
  the order in which calls settle, draining and cancelling; every step of the graph is accounted for. No step
  ran before all its dependencies were complete, and no step is blocked without a failed, blocked or cancelled
  dependency.\<close>

theorem scheduler_returns:
  "\<exists>s. run_graph env g resumeFrom = Some (finalState s, s) \<and>
     distinct (map fst (sd_tasks s)) \<and> fst ` set (sd_tasks s) = gs_id ` set (gr_tasks g) \<and>
     list_all (\<lambda>e. deps_complete (sd_tasks s) (en_step e)) (filter ran (map snd (sd_tasks s))) \<and>
     list_all (blocked_by_dep (sd_tasks s)) (filter (\<lambda>e. en_state e = SBlocked) (map snd (sd_tasks s)))"
proof -
  obtain s where s: "run_graph env g resumeFrom = Some (finalState s, s)" "sched_inv g s" using run_graph_returns by blast
  have "map_of (sd_tasks s) k = Some e" if "(k, e) \<in> set (sd_tasks s)" for k e using that s(2) by (simp add: sched_inv_def)
  then show ?thesis using s by (intro exI [of _ s]) (auto simp: sched_inv_def list_all_iff)
qed

section \<open>A run that is neither drained nor cancelled settles every step\<close>

definition closed_graph :: "graph \<Rightarrow> (string \<Rightarrow> nat) \<Rightarrow> bool" where
  "closed_graph g rk =
    list_all (\<lambda>t. list_all (\<lambda>d. d \<in> gs_id ` set (gr_tasks g) \<and> rk d < rk (gs_id t)) (gs_dependsOn t)) (gr_tasks g)"

definition settled :: "entry \<Rightarrow> bool" where
  "settled e = (en_state e \<in> {SComplete, SFailed, SBlocked})"

text \<open>A model outside the scarce pool, whose pool is there.\<close>

definition routable :: "sched_env \<Rightarrow> bool" where
  "routable env = list_ex (\<lambda>c. ca_pool c \<noteq> ''freebuff'' \<and> (\<forall>s. sv_pools env s (ca_pool c) \<noteq> None)) (sv_candidates env)"

lemma routable_ranks:
  assumes "routable env"
  shows "rank_for env s t (if b then [] else [''freebuff'']) \<noteq> []"
proof -
  obtain c where c: "c \<in> set (sv_candidates env)" "ca_pool c \<noteq> ''freebuff''" "sv_pools env s (ca_pool c) \<noteq> None"
    using assms by (auto simp: routable_def list_ex_iff)
  then obtain r where "score_one (sv_number env) (gs_aspect t) (gs_routingHint t) (sv_pools env s) (sv_registry env s)
      (if b then [] else [''freebuff'']) c = Some r"
    by (auto simp: score_one_def)
  then have "r \<in> set (List.map_filter (score_one (sv_number env) (gs_aspect t) (gs_routingHint t) (sv_pools env s)
      (sv_registry env s) (if b then [] else [''freebuff''])) (sv_candidates env))"
    using c(1) mem_map_filter by fastforce
  then show ?thesis unfolding rank_for_def rankModels_def Let_def
    by (metis empty_iff empty_set set_sort)
qed

lemma dispatch_routable:
  assumes "routable env"
  shows "snd (fold (dispatch_one env reserved) es (s, n)) = n + length es"
proof (induction es arbitrary: s n)
  case (Cons e es)
  obtain r rs where "rank_for env s (en_step e) (if Some (entry_id e) = reserved then [] else [''freebuff'']) = r # rs"
    using routable_ranks [OF assms] by (metis list.exhaust)
  then show ?case using Cons by (simp add: dispatch_one_cases)
qed simp

lemma routable_end:
  assumes inv: "sched_inv g s" and routable: "routable env" and quiet: "\<And>s. \<not> sv_drain env s"
    and live: "\<not> sd_cancelled s" and stop: "round_next env s = Inl s'"
  shows "block_pass s' = s' \<and> readyTasks s' = [] \<and> sd_inFlight s' = [] \<and> \<not> sd_cancelled s'"
proof -
  define s1 where "s1 = propagateBlocked s"
  obtain s2 n where s2: "dispatchReady env s1 = (s2, n)" by fastforce
  have n: "n = length (readyTasks s1)"
    using dispatch_routable [OF routable, of "freebuff_reserved (readyTasks s1)" "readyTasks s1" s1 0] s2
    by (simp add: dispatchReady_def Let_def)
  have fin: "n = 0" "sd_inFlight s2 = []" "s' = s2"
    using stop live quiet s2 by (auto simp: round_next_def Let_def s1_def [symmetric] split: if_splits)
  then have "readyTasks s1 = []" using n by simp
  then have "s2 = s1" using s2 by (simp add: dispatchReady_def Let_def)
  then show ?thesis using fin \<open>readyTasks s1 = []\<close> propagate_spec [of s g] live by (simp add: s1_def)
qed

lemma end_settled:
  assumes inv: "sched_inv g s" and stable: "block_pass s = s" and idle: "readyTasks s = []" "sd_inFlight s = []"
    and live: "list_all (\<lambda>e. en_state e \<noteq> SCancelled) (map snd (sd_tasks s))" and closed: "closed_graph g rk"
  shows "map_of (sd_tasks s) i = Some e \<Longrightarrow> settled e"
proof (induction "rk i" arbitrary: i e rule: less_induct)
  case less
  note I = inv [unfolded sched_inv_def]
  have e: "entry_id e = i" "en_step e \<in> set (gr_tasks g)" "en_state e \<notin> {SQueued, SMalformed}" using I less.prems by simp_all
  have notrun: "en_state e \<noteq> SRunning" using I idle(2) less.prems by (auto simp: state_in_def)
  have notcan: "en_state e \<noteq> SCancelled" using live map_of_SomeD [OF less.prems] by (auto simp: list_all_iff)
  have "en_state e \<noteq> SPending"
  proof
    assume pend: "en_state e = SPending"
    have "\<not> deps_complete (sd_tasks s) (en_step e)"
      using idle(1) pend map_of_SomeD [OF less.prems] by (force simp: readyTasks_def filter_empty_conv)
    then obtain d where d: "d \<in> set (gs_dependsOn (en_step e))" "state_in (sd_tasks s) d \<noteq> Some SComplete"
      by (auto simp: deps_complete_def list_all_iff)
    have "d \<in> gs_id ` set (gr_tasks g)" "rk d < rk i"
      using closed e(1,2) d(1) by (auto simp: closed_graph_def list_all_iff entry_id_def)
    moreover then obtain x where x: "map_of (sd_tasks s) d = Some x"
      using I by (cases "map_of (sd_tasks s) d") (auto simp: map_of_eq_None_iff)
    ultimately have "settled x" using less.hyps by blast
    then have "blocked_by_dep (sd_tasks s) e"
      using d x unfolding blocked_by_dep_def list_ex_iff by (intro bexI [of _ d]) (auto simp: settled_def state_in_def)
    then show False using block_pass_fix [OF stable less.prems pend] by simp
  qed
  then show ?case using e(3) notrun notcan by (cases "en_state e") (auto simp: settled_def)
qed

lemma loop_settles:
  assumes "sched_inv g s" and "work s < n" and "routable env" and "\<And>s. \<not> sv_drain env s" and "\<And>s. \<not> sv_cancel env s"
    and "\<not> sd_cancelled s" and "sched_loop n env s = Some s'"
  shows "sched_inv g s' \<and> block_pass s' = s' \<and> readyTasks s' = [] \<and> sd_inFlight s' = [] \<and> \<not> sd_cancelled s'"
  using assms
proof (induction n arbitrary: s)
  case (Suc n)
  show ?case
  proof (cases "round_next env s")
    case (Inl s1)
    then have "s1 = s'" using Suc.prems(7) by (simp only: sched_loop_round) simp
    then show ?thesis
      using round_inl [OF Suc.prems(1) Inl] routable_end [OF Suc.prems(1,3,4,6) Inl] by simp
  next
    case (Inr s1)
    note step = round_inr [OF Suc.prems(1) Inr]
    have "sched_loop n env s1 = Some s'" using Suc.prems(7) by (simp only: sched_loop_round Inr) simp
    then show ?thesis using Suc.IH [of s1] step Suc.prems(2-6) by simp
  qed
qed simp

lemma routable_shared [simp]: "routable (env\<lparr>sv_shared := x\<rparr>) = routable env"
  by (simp add: routable_def)

lemma complete_without_failure:
  assumes inv: "sched_inv g s" and closed: "closed_graph g rk" and nofail: "SFailed \<notin> set (map (\<lambda>p. en_state (snd p)) (sd_tasks s))"
    and st: "\<And>k x. map_of (sd_tasks s) k = Some x \<Longrightarrow> settled x"
  shows "map_of (sd_tasks s) i = Some e \<Longrightarrow> en_state e = SComplete"
proof (induction "rk i" arbitrary: i e rule: less_induct)
  case less
  note I = inv [unfolded sched_inv_def]
  have e: "entry_id e = i" "en_step e \<in> set (gr_tasks g)" using I less.prems by simp_all
  have "en_state e \<noteq> SFailed" using nofail map_of_SomeD [OF less.prems] by force
  moreover have "en_state e \<noteq> SBlocked"
  proof
    assume "en_state e = SBlocked"
    then have "blocked_by_dep (sd_tasks s) e" using I less.prems by simp
    then obtain d x where d: "d \<in> set (gs_dependsOn (en_step e))" "map_of (sd_tasks s) d = Some x" "en_state x \<noteq> SComplete"
      by (auto simp: blocked_by_dep_def list_ex_iff state_in_def split: option.splits)
    have "rk d < rk i" using closed e d(1) by (auto simp: closed_graph_def list_all_iff entry_id_def)
    then show False using less.hyps d(2,3) by blast
  qed
  ultimately show ?case using st [OF less.prems] by (simp add: settled_def)
qed

lemma graph_settles:
  assumes "closed_graph g rk" and "routable env" and "\<forall>s. \<not> sv_drain env s \<and> \<not> sv_cancel env s"
    and "run_graph env g resumeFrom = Some (fs, s)"
  shows "(fs = RunComplete \<and> list_all (\<lambda>p. en_state (snd p) = SComplete) (sd_tasks s)) \<or>
    (fs = RunFailed \<and> list_all (settled \<circ> snd) (sd_tasks s))"
proof -
  let ?env = "env\<lparr>sv_shared := gr_sharedContext g\<rparr>"
  have loop: "sched_loop (2 * length (sd_tasks (start_sched g resumeFrom)) + 1) ?env (start_sched g resumeFrom) = Some s"
    and fs: "fs = finalState s" using assms(4) by (auto simp: run_graph_def Let_def)
  have "\<not> sd_cancelled (start_sched g resumeFrom)" by (simp add: start_sched_def)
  note fin = loop_settles [OF start_sched_spec [THEN conjunct1] _ _ _ _ this loop]
  have fin: "sched_inv g s" "block_pass s = s" "readyTasks s = []" "sd_inFlight s = []" "\<not> sd_cancelled s"
    using fin start_sched_spec [of g resumeFrom] assms(2,3) by simp_all
  have mo: "(k, e) \<in> set (sd_tasks s) \<longleftrightarrow> map_of (sd_tasks s) k = Some e" for k e
    using fin(1) by (auto simp: sched_inv_def dest: map_of_SomeD)
  have can: "list_all (\<lambda>e. en_state e \<noteq> SCancelled) (map snd (sd_tasks s))"
    using fin(1,5) mo by (auto simp: sched_inv_def list_all_iff)
  have st: "map_of (sd_tasks s) k = Some x \<Longrightarrow> settled x" for k x
    by (rule end_settled [OF fin(1-4) can assms(1)])
  then have all: "list_all (settled \<circ> snd) (sd_tasks s)" using mo by (auto simp: list_all_iff)
  show ?thesis
  proof (cases "SFailed \<in> set (map (\<lambda>p. en_state (snd p)) (sd_tasks s))")
    case True
    then have "fs = RunFailed" using fin(5) all by (auto simp: fs finalState_def Let_def list_ex_iff list_all_iff settled_def)
    then show ?thesis using all by simp
  next
    case False
    have "list_all (\<lambda>p. en_state (snd p) = SComplete) (sd_tasks s)"
      using complete_without_failure [OF fin(1) assms(1) False st] mo by (auto simp: list_all_iff)
    moreover have "fs = RunComplete" using fin(5) all False by (auto simp: fs finalState_def Let_def list_ex_iff list_all_iff settled_def)
    ultimately show ?thesis by simp
  qed
qed

text \<open>C18. When the graph is closed and acyclic, some model can always be ranked, and the run is neither drained nor
  cancelled, then every step is settled when it returns: the run is \<open>complete\<close> with all steps complete, or
  \<open>failed\<close> with every step complete, failed, or blocked behind a failure.\<close>

theorem run_settles:
  assumes "closed_graph g rk" and "routable env" and "\<forall>s. \<not> sv_drain env s \<and> \<not> sv_cancel env s"
    and "run_graph env g resumeFrom = Some (fs, s)"
  shows "(fs = RunComplete \<and> list_all (\<lambda>p. en_state (snd p) = SComplete) (sd_tasks s)) \<or>
    (fs = RunFailed \<and> list_all (settled \<circ> snd) (sd_tasks s))"
  using graph_settles [OF assms] .

definition pair_graph :: graph where
  "pair_graph = \<lparr>gr_sharedContext = [], gr_tasks =
     [sample_step\<lparr>gs_id := ''build'', gs_dependsOn := [''plan'']\<rparr>, sample_step\<lparr>gs_id := ''plan'', gs_dependsOn := []\<rparr>]\<rparr>"

definition one_pool :: "step_env \<Rightarrow> candidate list \<Rightarrow> sched_env" where
  "one_pool world cs = \<lparr>sv_cfg = sample_cfg, sv_shared = [], sv_candidates = cs, sv_pools = (\<lambda>s p. Some (0, 1)),
     sv_registry = (\<lambda>s m. \<lparr>mr_modelId = m, mr_pool = [], mr_strengths = [], mr_weaknesses = [], mr_measured = [], mr_observed = [],
       mr_latencyClass = ''fast''\<rparr>),
     sv_world = (\<lambda>s c. world), sv_drain = (\<lambda>s. False), sv_settles = (\<lambda>s. []), sv_cancel = (\<lambda>s. False),
     sv_now = (\<lambda>s. Iso 0), sv_number = (\<lambda>r. [])\<rparr>"

definition pair_rank :: "string \<Rightarrow> nat" where
  "pair_rank i = (if i = ''plan'' then 0 else 1)"

theorem run_settles_witness:
  "\<exists>fs s. run_graph (one_pool (env_answering down_answer) [\<lparr>ca_modelId = ''m'', ca_pool = ''p''\<rparr>]) pair_graph (\<lambda>_. None) = Some (fs, s) \<and>
     (fs = RunComplete \<and> list_all (\<lambda>p. en_state (snd p) = SComplete) (sd_tasks s) \<or>
      fs = RunFailed \<and> list_all (settled \<circ> snd) (sd_tasks s))"
proof -
  let ?env = "one_pool (env_answering down_answer) [\<lparr>ca_modelId = ''m'', ca_pool = ''p''\<rparr>]"
  have c: "closed_graph pair_graph pair_rank"
    by (simp add: closed_graph_def pair_graph_def pair_rank_def)
  have r: "routable ?env" by (simp add: routable_def one_pool_def)
  have q: "\<forall>s. \<not> sv_drain ?env s \<and> \<not> sv_cancel ?env s" by (simp add: one_pool_def)
  obtain s where s: "run_graph ?env pair_graph (\<lambda>_. None) = Some (finalState s, s)" using run_graph_returns by blast
  from run_settles [OF c r q s] show ?thesis using s by blast
qed

section \<open>Without a model\<close>

text \<open>When no model can be ranked for the steps that are ready, the loop ends right after failing them, before
  their dependents are blocked: these stay pending, and the run reports \<open>drained\<close>, as if the pulse's budget had
  run out, though it never drains and nothing is left that could run.\<close>

theorem no_candidate_looks_drained:
  assumes "sv_candidates env = []" and "\<forall>s. \<not> sv_drain env s"
  shows "map_option (\<lambda>(fs, s). (fs, map (\<lambda>p. en_state (snd p)) (sd_tasks s))) (run_graph env pair_graph (\<lambda>_. None)) =
    Some (RunDrained, [SPending, SFailed])"
proof -
  let ?env = "env\<lparr>sv_shared := gr_sharedContext pair_graph\<rparr>"
  define b where "b = fresh_entry (sample_step\<lparr>gs_id := ''build'', gs_dependsOn := [''plan'']\<rparr>)"
  define p where "p = fresh_entry (sample_step\<lparr>gs_id := ''plan'', gs_dependsOn := []\<rparr>)"
  define s0 where "s0 = start_sched pair_graph (\<lambda>_. None)"
  have none: "rank_for ?env s t ex = []" for s t ex
    using assms(1) by (simp add: rank_for_def rankModels_def List.map_filter_def)
  have bp: "en_state b = SPending" "en_state p = SPending" "gs_dependsOn (en_step b) = [''plan'']" "gs_dependsOn (en_step p) = []"
    "entry_id b = ''build''" "entry_id p = ''plan''"
    by (simp_all add: b_def p_def fresh_entry_def entry_id_def)
  have s0: "sd_tasks s0 = [(''build'', b), (''plan'', p)]" "sd_inFlight s0 = []" "\<not> sd_cancelled s0"
    by (simp_all add: s0_def start_sched_def pair_graph_def b_def p_def resume_entry_def)
  have blk: "block_pass s0 = s0"
    using s0 bp by (simp add: block_pass_def block_one_def entry_of_def blocked_by_dep_def state_in_def)
  then have blocked: "propagateBlocked s0 = s0" by (subst propagateBlocked.simps) simp
  have ready: "readyTasks s0 = [p]" using s0 bp by (simp add: readyTasks_def deps_complete_def state_in_def)
  have disp: "dispatchReady ?env s0 = (unroutable ?env p s0, 0)"
    by (simp add: dispatchReady_def ready Let_def dispatch_one_cases none)
  have "round_next ?env s0 = Inl (unroutable ?env p s0)"
    using assms(2) by (simp add: round_next_def s0 blocked disp) (simp add: unroutable_def s0)
  then have "run_graph env pair_graph (\<lambda>_. None) = Some (finalState (unroutable ?env p s0), unroutable ?env p s0)"
    by (simp add: run_graph_def Let_def s0(1) sched_loop_round eval_nat_numeral flip: s0_def del: sched_loop.simps)
  then show ?thesis using s0 bp by (simp add: unroutable_def finalState_def Let_def setState_def put_entry_def)
qed

theorem no_candidate_looks_drained_witness:
  "map_option (\<lambda>(fs, s). (fs, map (\<lambda>p. en_state (snd p)) (sd_tasks s)))
     (run_graph (one_pool (env_answering down_answer) []) pair_graph (\<lambda>_. None)) = Some (RunDrained, [SPending, SFailed])"
  by (rule no_candidate_looks_drained) (simp_all add: one_pool_def)

section \<open>What a step is told is bounded\<close>

lemma dep_slices_step:
  "\<exists>k \<le> budget. k \<le> MAX_DEP_OUTPUT_CHARS \<and>
     (dep_slices ts budget (d # ds) = dep_slices ts budget ds \<or> dep_slices ts budget (d # ds) = [] \<or>
      (\<exists>dep out rest. en_state dep = SComplete \<and> en_output dep = Some (out @ rest) \<and> length out = k \<and>
         dep_slices ts budget (d # ds) = (dep, out) # dep_slices ts (budget - k) ds))"
proof (cases "dep_slices ts budget (d # ds) = dep_slices ts budget ds \<or> dep_slices ts budget (d # ds) = []")
  case False
  then obtain dep out where dep: "map_of ts d = Some dep" "en_output dep = Some out" "en_state dep = SComplete" "out \<noteq> []" "budget \<noteq> 0"
    by (auto split: option.splits if_splits)
  let ?sl = "take (min MAX_DEP_OUTPUT_CHARS budget) out"
  have "dep_slices ts budget (d # ds) = (dep, ?sl) # dep_slices ts (budget - length ?sl) ds"
    using dep by (simp add: Let_def)
  moreover have "out = ?sl @ drop (min MAX_DEP_OUTPUT_CHARS budget) out" by simp
  moreover have "length ?sl \<le> budget \<and> length ?sl \<le> MAX_DEP_OUTPUT_CHARS" by (simp add: min_le_iff_disj)
  ultimately show ?thesis using dep(2,3) by metis
qed (auto intro: exI [of _ 0])

text \<open>The outputs a step is shown are prefixes of the outputs of completed dependencies, each at most 8000
  characters and together at most 24000.\<close>

theorem context_is_bounded:
  "sum_list (map (length \<circ> snd) (dep_slices ts budget ds)) \<le> budget \<and>
   list_all (\<lambda>(dep, sl). en_state dep = SComplete \<and> length sl \<le> MAX_DEP_OUTPUT_CHARS \<and>
     (\<exists>out rest. en_output dep = Some out \<and> out = sl @ rest)) (dep_slices ts budget ds)"
proof (induction ds arbitrary: budget)
  case (Cons d ds)
  obtain k where k: "k \<le> budget" "k \<le> MAX_DEP_OUTPUT_CHARS" and
    step: "dep_slices ts budget (d # ds) = dep_slices ts budget ds \<or> dep_slices ts budget (d # ds) = [] \<or>
      (\<exists>dep out rest. en_state dep = SComplete \<and> en_output dep = Some (out @ rest) \<and> length out = k \<and>
         dep_slices ts budget (d # ds) = (dep, out) # dep_slices ts (budget - k) ds)"
    using dep_slices_step [of budget ts d ds] by blast
  show ?case using step Cons.IH [of budget] Cons.IH [of "budget - k"] k by (elim disjE exE conjE) (simp_all del: dep_slices.simps)
qed simp

end
