(* ===== verification/Capability.thy ===== *)
theory Capability
  imports Router Envelope
begin

text \<open>
  What each model is good at, \<open>src/orchestrator/capabilityRegistry.js\<close>: the seed table, the defensive
  reading of a model's own description, and the registry with its cache file. A record read from the
  file may lack any of its lists (the code checks only that an entry is an object), so these are
  options: \<open>None\<close> is an absent property, on which \<open>includes\<close> or an index throws. \<open>JSON.parse\<close>, \<open>Number\<close> of a
  text, the clock and what the adapters answer are arguments; a cache file that is missing or does not parse
  is \<open>None\<close>, and writing it succeeds.
\<close>

section \<open>Records and the seed table\<close>

record obs_stats =
  os_runs :: nat
  os_rate :: rat
  os_avgMs :: rat

record eval_score =
  es_score :: rat
  es_tasksRun :: rat
  es_runAt :: string
  es_evalVersion :: string

datatype cap_source = FromSeed | FromProbe

record cap_record =
  cr_modelId :: string
  cr_pool :: string
  cr_strengths :: "string list option"
  cr_weaknesses :: "string list option"
  cr_latencyClass :: string
  cr_contextWindow :: rat
  cr_source :: cap_source
  cr_probedAt :: "stamp option"
  cr_observed :: "(string \<times> obs_stats) list option"
  cr_measured :: "(string \<times> eval_score) list option"

record seed_row =
  sd_pool :: string
  sd_strengths :: "string list"
  sd_weaknesses :: "string list"
  sd_latencyClass :: string
  sd_contextWindow :: rat

definition STALE_MS :: int where "STALE_MS = 2592000000"

definition SEED_TABLE :: "(string \<times> seed_row) list" where
  "SEED_TABLE =
    [(''phase2:groq'', \<lparr>sd_pool = ''phase2'', sd_strengths = [''code-generation'', ''debugging'', ''refactoring'', ''performance''],
        sd_weaknesses = [''documentation''], sd_latencyClass = ''fast'', sd_contextWindow = 32768\<rparr>),
     (''phase2:openrouter'', \<lparr>sd_pool = ''phase2'', sd_strengths = [''architecture'', ''research'', ''documentation''],
        sd_weaknesses = [], sd_latencyClass = ''medium'', sd_contextWindow = 32768\<rparr>),
     (''phase2:together'', \<lparr>sd_pool = ''phase2'', sd_strengths = [''code-generation'', ''testing'', ''data-modeling''],
        sd_weaknesses = [], sd_latencyClass = ''medium'', sd_contextWindow = 32768\<rparr>),
     (''phase2:gemini'', \<lparr>sd_pool = ''phase2'', sd_strengths = [''architecture'', ''research'', ''security-review'', ''documentation''],
        sd_weaknesses = [], sd_latencyClass = ''medium'', sd_contextWindow = 1048576\<rparr>),
     (''phase2:huggingface'', \<lparr>sd_pool = ''phase2'', sd_strengths = [''code-generation'', ''ui-implementation''],
        sd_weaknesses = [''architecture'', ''security-review''], sd_latencyClass = ''slow'', sd_contextWindow = 8192\<rparr>),
     (''freebuff:default'', \<lparr>sd_pool = ''freebuff'', sd_strengths = [''architecture'', ''research'', ''security-review'', ''data-modeling''],
        sd_weaknesses = [], sd_latencyClass = ''slow'', sd_contextWindow = 128000\<rparr>),
     (''opencode:default'', \<lparr>sd_pool = ''opencode'', sd_strengths = [''code-generation'', ''refactoring'', ''testing'', ''ui-implementation'',
        ''devops'', ''documentation'', ''security-review''], sd_weaknesses = [''research''], sd_latencyClass = ''medium'', sd_contextWindow = 32768\<rparr>)]"

definition pool_of_id :: "string \<Rightarrow> string" where
  "pool_of_id modelId = hd (split_on (\<lambda>c. c = CHR '':'') modelId)"

definition seedRecordFor :: "string \<Rightarrow> cap_record" where
  "seedRecordFor modelId =
    (let pool = pool_of_id modelId;
         row = (case map_of SEED_TABLE modelId of
                  Some x \<Rightarrow> x
                | None \<Rightarrow> dflt (map_of SEED_TABLE (pool @ '':default''))
                    \<lparr>sd_pool = (if isAgentPool pool then pool else ''opencode''), sd_strengths = [], sd_weaknesses = [],
                     sd_latencyClass = ''medium'', sd_contextWindow = 8192\<rparr>)
     in \<lparr>cr_modelId = modelId, cr_pool = sd_pool row, cr_strengths = Some (sd_strengths row), cr_weaknesses = Some (sd_weaknesses row),
         cr_latencyClass = sd_latencyClass row, cr_contextWindow = sd_contextWindow row, cr_source = FromSeed, cr_probedAt = None,
         cr_observed = Some [], cr_measured = None\<rparr>)"

section \<open>Probing a model\<close>

definition buildProbePrompt :: "string \<Rightarrow> bool \<Rightarrow> string" where
  "buildProbePrompt modelId strict =
    (let q = [CHR 0x22]; categories = join_with '', '' ASPECT_CATEGORIES;
         base = ''You are describing your own capabilities as an AI coding model (id: '' @ modelId @ ''). ''
           @ ''Respond with STRICT JSON ONLY, matching exactly this shape: {'' @ q @ ''strengths'' @ q @ '': string[], '' @ q @ ''weaknesses'' @ q
           @ '': string[], '' @ q @ ''latencyClass'' @ q @ '': '' @ q @ ''fast'' @ q @ ''|'' @ q @ ''medium'' @ q @ ''|'' @ q @ ''slow'' @ q @ '', ''
           @ q @ ''contextWindow'' @ q @ '': number}. '' @ q @ ''strengths'' @ q @ '' and '' @ q @ ''weaknesses'' @ q
           @ '' must only contain values from this fixed list: '' @ categories @ ''. Pick 2-5 strengths and 0-3 weaknesses. ''
           @ q @ ''contextWindow'' @ q @ '' is your context window in tokens.''
     in if \<not> strict then base
        else base @ '' Your previous response could not be parsed as JSON. This time, output ONLY the JSON object and nothing else ''
           @ [CHR 0xE2, CHR 0x80, CHR 0x94] @ '' no explanation, no markdown code fence, no leading or trailing text of any kind.'')"

text \<open>The body of the first fenced block, an optional \<open>json\<close> in any case dropped.\<close>

fun probe_fence :: "string \<Rightarrow> string option" where
  "probe_fence [] = None"
| "probe_fence (c # cs) =
     (let inside = (if startsWith (c # cs) tick3
          then (let t = drop 3 (c # cs); u = (if toLowerCase (take 4 t) = ''json'' then drop 4 t else t) in break_at tick3 (trimStart u))
          else None)
      in case inside of Some (b, _) \<Rightarrow> Some b | None \<Rightarrow> probe_fence cs)"

text \<open>From the first opening brace to the last closing one.\<close>

definition widest_object :: "string \<Rightarrow> string option" where
  "widest_object s =
    (let r = rev (dropWhile (\<lambda>c. c \<noteq> CHR 0x7D) (rev (from_brace s))) in if r = [] then None else Some r)"

definition parseProbeJson :: "(string \<Rightarrow> js option) \<Rightarrow> string option \<Rightarrow> js" where
  "parseProbeJson jp raw =
    (case raw of None \<Rightarrow> JNull
     | Some t \<Rightarrow>
         if js_trim t = [] then JNull
         else
           (let text = (case probe_fence (js_trim t) of None \<Rightarrow> js_trim t | Some b \<Rightarrow> js_trim b) in
            case jp text of Some v \<Rightarrow> v
            | None \<Rightarrow> (case widest_object text of None \<Rightarrow> JNull | Some o' \<Rightarrow> dflt (jp o') JNull)))"

text \<open>\<open>Number(v)\<close> of a value; \<open>nt\<close> reads a text. An array is read through its text: that of an array of one element
  is the element's, and one with a comma is no number.\<close>

fun js_Number :: "(string \<Rightarrow> num) \<Rightarrow> js \<Rightarrow> num" where
  "js_Number nt (JNum n) = n"
| "js_Number nt (JStr s) = nt s"
| "js_Number nt (JBool b) = Fin (if b then 1 else 0)"
| "js_Number nt JNull = Fin 0"
| "js_Number nt JUndef = NaN"
| "js_Number nt (JArr []) = nt []"
| "js_Number nt (JArr [x]) = (case x of JBool _ \<Rightarrow> NaN | JNull \<Rightarrow> nt [] | JUndef \<Rightarrow> nt [] | y \<Rightarrow> js_Number nt y)"
| "js_Number nt (JArr (x # y # zs)) = NaN"
| "js_Number nt (JObj _) = NaN"

definition categories_in :: "js \<Rightarrow> string list" where
  "categories_in v = filter isAspectCategory (List.map_filter str_of (arr_of v))"

definition context_window :: "(string \<Rightarrow> num) \<Rightarrow> js \<Rightarrow> rat option" where
  "context_window nt v = (case js_Number nt v of Fin r \<Rightarrow> if 0 < r then Some (js_round r) else None | _ \<Rightarrow> None)"

definition sanitizeProbeResult :: "(string \<Rightarrow> num) \<Rightarrow> stamp \<Rightarrow> js \<Rightarrow> string \<Rightarrow> string \<Rightarrow> cap_record option" where
  "sanitizeProbeResult nt now parsed modelId pool =
    (if \<not> (is_obj parsed \<or> is_arr parsed) then None
     else
       (let strengths = categories_in (jget parsed ''strengths''); weaknesses = categories_in (jget parsed ''weaknesses'');
            latencyClass = (case jget parsed ''latencyClass'' of JStr s \<Rightarrow> if s \<in> set LATENCY_CLASSES then s else ''medium'' | _ \<Rightarrow> ''medium'');
            contextWindow = context_window nt (jget parsed ''contextWindow'') in
        if strengths = [] \<and> weaknesses = [] \<and> contextWindow = None then None
        else Some \<lparr>cr_modelId = modelId, cr_pool = pool, cr_strengths = Some strengths, cr_weaknesses = Some weaknesses,
               cr_latencyClass = latencyClass, cr_contextWindow = dflt contextWindow (cr_contextWindow (seedRecordFor modelId)),
               cr_source = FromProbe, cr_probedAt = Some now, cr_observed = Some [], cr_measured = None\<rparr>))"

text \<open>What an adapter's probe answers, for the plain and for the strict prompt; \<open>None\<close> is a throw.\<close>

record cap_env =
  ce_jp :: "string \<Rightarrow> js option"
  ce_nt :: "string \<Rightarrow> num"
  ce_now :: stamp
  ce_probe :: "string \<Rightarrow> bool \<Rightarrow> string option"

definition probe_once :: "cap_env \<Rightarrow> string \<Rightarrow> string \<Rightarrow> bool \<Rightarrow> cap_record option" where
  "probe_once env modelId pool strict =
    (case ce_probe env modelId strict of
       None \<Rightarrow> None
     | Some raw \<Rightarrow> sanitizeProbeResult (ce_nt env) (ce_now env) (parseProbeJson (ce_jp env) (Some raw)) modelId pool)"

definition probeModel :: "cap_env \<Rightarrow> string \<Rightarrow> string \<Rightarrow> cap_record" where
  "probeModel env modelId pool =
    (case probe_once env modelId pool False of
       Some r \<Rightarrow> r
     | None \<Rightarrow>
         (case probe_once env modelId pool True of
            Some r \<Rightarrow> r
          | None \<Rightarrow> (seedRecordFor modelId)\<lparr>cr_pool := pool, cr_probedAt := Some (ce_now env)\<rparr>))"

section \<open>The registry\<close>

record cap_registry =
  rg_path :: string
  rg_loaded :: bool
  rg_records :: "(string \<times> cap_record) list"
  rg_files :: "string \<Rightarrow> (string \<times> cap_record option) list option"

definition new_registry :: "string \<Rightarrow> (string \<Rightarrow> (string \<times> cap_record option) list option) \<Rightarrow> cap_registry" where
  "new_registry path files = \<lparr>rg_path = path, rg_loaded = False, rg_records = [], rg_files = files\<rparr>"

definition usePath :: "string \<Rightarrow> cap_registry \<Rightarrow> cap_registry" where
  "usePath path r = (if path = rg_path r then r else r\<lparr>rg_path := path, rg_records := [], rg_loaded := False\<rparr>)"

definition load_entry :: "string \<times> cap_record option \<Rightarrow> (string \<times> cap_record) list \<Rightarrow> (string \<times> cap_record) list" where
  "load_entry e rs = (case snd e of None \<Rightarrow> rs | Some x \<Rightarrow> assoc_put (fst e) x rs)"

definition load :: "cap_registry \<Rightarrow> cap_registry" where
  "load r =
    (if rg_loaded r then r
     else (case rg_files r (rg_path r) of
        None \<Rightarrow> r\<lparr>rg_loaded := True\<rparr>
      | Some es \<Rightarrow> r\<lparr>rg_loaded := True, rg_records := fold load_entry es (rg_records r)\<rparr>))"

definition save_cache :: "cap_registry \<Rightarrow> cap_registry" where
  "save_cache r = r\<lparr>rg_files := (rg_files r)(rg_path r := Some (map (\<lambda>(k, x). (k, Some x)) (rg_records r)))\<rparr>"

definition put_record :: "string \<Rightarrow> cap_record \<Rightarrow> cap_registry \<Rightarrow> cap_registry" where
  "put_record i x r = r\<lparr>rg_records := assoc_put i x (rg_records r)\<rparr>"

definition get_record :: "string \<Rightarrow> cap_registry \<Rightarrow> cap_record \<times> cap_registry" where
  "get_record i r =
    (let r1 = load r in
     case map_of (rg_records r1) i of
       Some x \<Rightarrow> (x, r1)
     | None \<Rightarrow> (seedRecordFor i, put_record i (seedRecordFor i) r1))"

definition list_one :: "string \<Rightarrow> cap_registry \<Rightarrow> cap_registry" where
  "list_one key r = (if \<not> endsWith key '':default'' \<and> map_of (rg_records r) key = None then snd (get_record key r) else r)"

definition list_records :: "cap_registry \<Rightarrow> cap_record list \<times> cap_registry" where
  "list_records r = (let r1 = fold list_one (map fst SEED_TABLE) (load r) in (map snd (rg_records r1), r1))"

definition isStale :: "int \<Rightarrow> cap_record \<Rightarrow> bool" where
  "isStale nowMs x =
    (case cr_probedAt x of None \<Rightarrow> True | Some s \<Rightarrow> (case date_parse s of None \<Rightarrow> True | Some m \<Rightarrow> STALE_MS < nowMs - m))"

definition setRecord :: "cap_record \<Rightarrow> cap_registry \<Rightarrow> cap_record \<times> cap_registry" where
  "setRecord x r =
    (let r1 = load r; existing = map_of (rg_records r1) (cr_modelId x);
         observed = (case Option.bind existing cr_observed of Some o' \<Rightarrow> o' | None \<Rightarrow> dflt (cr_observed x) []);
         measured = (case Option.bind existing cr_measured of Some m \<Rightarrow> Some m | None \<Rightarrow> cr_measured x);
         merged = x\<lparr>cr_observed := Some observed\<rparr>;
         merged = (case measured of None \<Rightarrow> merged | Some m \<Rightarrow> if m \<noteq> [] then merged\<lparr>cr_measured := Some m\<rparr> else merged)
     in (merged, put_record (cr_modelId x) merged r1))"

record raw_score =
  rw_score :: num
  rw_tasksRun :: rat
  rw_runAt :: string
  rw_evalVersion :: string

definition clean_score :: "string \<times> raw_score \<Rightarrow> (string \<times> eval_score) option" where
  "clean_score cv =
    (let (category, v) = cv in
     case rw_score v of
       Fin s \<Rightarrow>
         if \<not> isAspectCategory category \<or> \<not> 0 < rw_tasksRun v then None
         else Some (category, \<lparr>es_score = min 1 (max 0 (js_round (s * 1000) / 1000)), es_tasksRun = js_round (rw_tasksRun v),
                es_runAt = rw_runAt v, es_evalVersion = rw_evalVersion v\<rparr>)
     | _ \<Rightarrow> None)"

definition setMeasured :: "string \<Rightarrow> (string \<times> raw_score) list \<Rightarrow> cap_registry \<Rightarrow> cap_record \<times> cap_registry" where
  "setMeasured i scores r =
    (let (x, r1) = get_record i r;
         x1 = x\<lparr>cr_measured := Some (spread (dflt (cr_measured x) []) (List.map_filter clean_score scores))\<rparr>
     in (x1, put_record i x1 r1))"

definition refresh :: "cap_env \<Rightarrow> string \<Rightarrow> string \<Rightarrow> cap_registry \<Rightarrow> cap_record \<times> cap_registry" where
  "refresh env i pool r = (let (x, r1) = setRecord (probeModel env i pool) r in (x, save_cache r1))"

text \<open>The adapters: pool, and the ids of its models; \<open>None\<close> when there is no \<open>listModels\<close> or it throws.\<close>

definition refresh_pool :: "cap_env \<Rightarrow> string \<times> string list option \<Rightarrow> cap_record list \<times> cap_registry \<Rightarrow> cap_record list \<times> cap_registry" where
  "refresh_pool env pa st =
    (case snd pa of
       None \<Rightarrow> st
     | Some models \<Rightarrow> fold (\<lambda>i (out, r). let (x, r1) = refresh env i (fst pa) r in (out @ [x], r1)) models st)"

definition refreshAll :: "cap_env \<Rightarrow> (string \<times> string list option) list \<Rightarrow> cap_registry \<Rightarrow> cap_record list \<times> cap_registry" where
  "refreshAll env adapters r = fold (refresh_pool env) adapters ([], r)"

definition refreshStale :: "cap_env \<Rightarrow> int \<Rightarrow> string list \<Rightarrow> cap_registry \<Rightarrow> cap_record list \<times> cap_registry" where
  "refreshStale env nowMs adapters r =
    (let (xs, r1) = list_records r in
     fold (\<lambda>x (out, r). if cr_pool x \<in> set adapters then (let (y, r2) = refresh env (cr_modelId x) (cr_pool x) r in (out @ [y], r2)) else (out, r))
       (filter (isStale nowMs) xs) ([], r1))"

definition observe_stats :: "obs_stats option \<Rightarrow> bool \<Rightarrow> num \<Rightarrow> obs_stats" where
  "observe_stats prior success ms =
    (let p = dflt prior \<lparr>os_runs = 0, os_rate = 0, os_avgMs = 0\<rparr>; runs = os_runs p + 1 in
     \<lparr>os_runs = runs,
      os_rate = (os_rate p * of_nat (os_runs p) + (if success then 1 else 0)) / of_nat runs,
      os_avgMs = (case ms of Fin m \<Rightarrow> js_round ((os_avgMs p * of_nat (os_runs p) + m) / of_nat runs) | _ \<Rightarrow> os_avgMs p)\<rparr>)"

text \<open>\<open>None\<close>: the record read from the cache has no \<open>observed\<close>, and indexing it throws.\<close>

definition recordObservation :: "string \<Rightarrow> string \<Rightarrow> bool \<Rightarrow> num \<Rightarrow> cap_registry \<Rightarrow> (cap_record \<times> cap_registry) option" where
  "recordObservation i category success ms r =
    (let (x, r1) = get_record i r in
     if \<not> isAspectCategory category then Some (x, r1)
     else (case cr_observed x of
        None \<Rightarrow> None
      | Some obs \<Rightarrow>
          (let x1 = x\<lparr>cr_observed := Some (assoc_put category (observe_stats (map_of obs category) success ms) obs)\<rparr>
           in Some (x1, save_cache (put_record i x1 r1)))))"

definition resetForTests :: "cap_registry \<Rightarrow> cap_registry" where
  "resetForTests r = r\<lparr>rg_records := [], rg_loaded := True, rg_files := (rg_files r)(rg_path r := Some [])\<rparr>"

text \<open>What the router reads of a record; \<open>None\<close> when a list is missing and \<open>includes\<close> throws.\<close>

definition routing_view :: "cap_record \<Rightarrow> model_record option" where
  "routing_view x =
    (case (cr_strengths x, cr_weaknesses x) of
       (Some st, Some wk) \<Rightarrow>
         Some \<lparr>mr_modelId = cr_modelId x, mr_pool = cr_pool x, mr_strengths = st, mr_weaknesses = wk,
           mr_measured = map (\<lambda>(k, v). (k, nat \<lfloor>es_tasksRun v\<rfloor>, es_score v)) (dflt (cr_measured x) []),
           mr_observed = map (\<lambda>(k, v). (k, os_runs v, os_rate v)) (dflt (cr_observed x) []),
           mr_latencyClass = cr_latencyClass x\<rparr>
     | _ \<Rightarrow> None)"

section \<open>The registry keeps its records usable\<close>

definition score_ok :: "string \<times> eval_score \<Rightarrow> bool" where
  "score_ok kv = (0 \<le> es_score (snd kv) \<and> es_score (snd kv) \<le> 1)"

definition stats_ok :: "string \<times> obs_stats \<Rightarrow> bool" where
  "stats_ok kv = (isAspectCategory (fst kv) \<and> 0 < os_runs (snd kv) \<and> 0 \<le> os_rate (snd kv) \<and> os_rate (snd kv) \<le> 1)"

definition cap_ok :: "cap_record \<Rightarrow> bool" where
  "cap_ok x =
    ((case cr_strengths x of None \<Rightarrow> False | Some l \<Rightarrow> list_all isAspectCategory l) \<and>
     (case cr_weaknesses x of None \<Rightarrow> False | Some l \<Rightarrow> list_all isAspectCategory l) \<and>
     (case cr_observed x of None \<Rightarrow> False | Some l \<Rightarrow> list_all stats_ok l) \<and>
     list_all score_ok (dflt (cr_measured x) []))"

definition file_ok :: "(string \<times> cap_record option) list \<Rightarrow> bool" where
  "file_ok es = list_all (\<lambda>e. case snd e of None \<Rightarrow> True | Some x \<Rightarrow> cap_ok x) es"

definition registry_ok :: "cap_registry \<Rightarrow> bool" where
  "registry_ok r = (list_all (\<lambda>p. cap_ok (snd p)) (rg_records r) \<and> (\<forall>p es. rg_files r p = Some es \<longrightarrow> file_ok es))"

lemma set_assoc_put: "set (assoc_put k v xs) \<subseteq> insert (k, v) (set xs)"
  by (induction k v xs rule: assoc_put.induct) auto

lemma list_all_assoc_put: "list_all P xs \<Longrightarrow> P (k, v) \<Longrightarrow> list_all P (assoc_put k v xs)"
  using set_assoc_put by (fastforce simp: list_all_iff)

lemma list_all_spread: "list_all P base \<Longrightarrow> list_all P over \<Longrightarrow> list_all P (spread base over)"
  unfolding spread_def by (induction over arbitrary: base) (auto simp: list_all_assoc_put)

lemma seed_rows_ok:
  "list_all (\<lambda>kv. list_all isAspectCategory (sd_strengths (snd kv)) \<and> list_all isAspectCategory (sd_weaknesses (snd kv))) SEED_TABLE"
  by code_simp

lemma seed_ok: "cap_ok (seedRecordFor i)"
proof -
  have row: "list_all isAspectCategory (sd_strengths w) \<and> list_all isAspectCategory (sd_weaknesses w)" if "map_of SEED_TABLE k = Some w" for k w
    using bspec [OF seed_rows_ok [unfolded list_all_iff [of _ SEED_TABLE]] map_of_SomeD [OF that]] by simp
  show ?thesis
    using row by (cases "map_of SEED_TABLE i"; cases "map_of SEED_TABLE (pool_of_id i @ '':default'')")
      (simp_all add: seedRecordFor_def Let_def cap_ok_def)
qed

lemma categories_in_ok: "list_all isAspectCategory (categories_in v)"
  by (simp add: categories_in_def list_all_iff)

lemma sanitized_ok: "sanitizeProbeResult nt now v i p = Some x \<Longrightarrow> cap_ok x \<and> cr_modelId x = i \<and> cr_probedAt x = Some now"
  by (auto simp: sanitizeProbeResult_def Let_def cap_ok_def categories_in_ok split: if_splits)

lemma probe_ok: "cap_ok (probeModel env i p) \<and> cr_modelId (probeModel env i p) = i \<and> cr_probedAt (probeModel env i p) = Some (ce_now env)"
proof -
  have once: "cap_ok x \<and> cr_modelId x = i \<and> cr_probedAt x = Some (ce_now env)" if "probe_once env i p b = Some x" for b x
    using that by (auto simp: probe_once_def dest: sanitized_ok split: option.splits)
  have "cr_modelId (seedRecordFor i) = i" by (simp add: seedRecordFor_def Let_def)
  then have seed: "cap_ok ((seedRecordFor i)\<lparr>cr_pool := p, cr_probedAt := Some (ce_now env)\<rparr>)" using seed_ok [of i] by (simp add: cap_ok_def)
  show ?thesis
  proof (cases "probe_once env i p False")
    case (Some x)
    then show ?thesis using once [OF Some] by (simp add: probeModel_def)
  next
    case None
    show ?thesis
    proof (cases "probe_once env i p True")
      case (Some x)
      then show ?thesis using once [OF Some] None by (simp add: probeModel_def)
    next
      case n: None
      show ?thesis using seed \<open>cr_modelId (seedRecordFor i) = i\<close> unfolding probeModel_def None n by simp
    qed
  qed
qed

lemma load_ok [inv_rules]:
  assumes "registry_ok r"
  shows "registry_ok (load r)"
proof -
  have "list_all (\<lambda>p. cap_ok (snd p)) (fold load_entry es rs)" if "file_ok es" "list_all (\<lambda>p. cap_ok (snd p)) rs" for es rs
    using that
  proof (induction es arbitrary: rs)
    case (Cons e es)
    have "list_all (\<lambda>p. cap_ok (snd p)) (load_entry e rs)"
      using Cons.prems by (cases "snd e") (simp_all add: load_entry_def file_ok_def list_all_assoc_put)
    then show ?case using Cons by (simp add: file_ok_def)
  qed simp
  then show ?thesis using assms by (auto simp: load_def registry_ok_def split: option.split)
qed

lemma save_ok [inv_rules]: "registry_ok r \<Longrightarrow> registry_ok (save_cache r)"
  by (auto simp: registry_ok_def save_cache_def file_ok_def list_all_iff)

lemma put_ok [inv_rules]: "registry_ok r \<Longrightarrow> cap_ok x \<Longrightarrow> registry_ok (put_record i x r)"
  by (simp add: registry_ok_def put_record_def list_all_assoc_put)

lemma record_ok: "registry_ok r \<Longrightarrow> map_of (rg_records r) i = Some x \<Longrightarrow> cap_ok x"
  by (auto simp: registry_ok_def list_all_iff dest!: map_of_SomeD)

lemma get_ok [inv_rules]: "registry_ok r \<Longrightarrow> cap_ok (fst (get_record i r)) \<and> registry_ok (snd (get_record i r))"
  using load_ok [of r] record_ok [of "load r" i] by (auto simp: get_record_def Let_def put_ok seed_ok split: option.split)

lemma list_ok [inv_rules]: "registry_ok r \<Longrightarrow> list_all cap_ok (fst (list_records r)) \<and> registry_ok (snd (list_records r))"
proof -
  assume "registry_ok r"
  have "registry_ok (fold list_one ks r)" if "registry_ok r" for ks r
    using that by (induction ks arbitrary: r) (simp_all add: list_one_def get_ok)
  then have "registry_ok (fold list_one (map fst SEED_TABLE) (load r))" using load_ok [OF \<open>registry_ok r\<close>] by blast
  then show ?thesis by (simp add: list_records_def Let_def registry_ok_def list_all_iff)
qed

lemma setRecord_ok [inv_rules]:
  assumes "registry_ok r" and "cap_ok x"
  shows "cap_ok (fst (setRecord x r)) \<and> registry_ok (snd (setRecord x r))"
proof -
  have m: "cap_ok (fst (setRecord x r))"
  proof (cases "map_of (rg_records (load r)) (cr_modelId x)")
    case None
    then show ?thesis using assms(2) by (auto simp: setRecord_def Let_def cap_ok_def split: option.splits)
  next
    case (Some y)
    then have "cap_ok y" using record_ok [OF load_ok [OF assms(1)]] by blast
    then show ?thesis using assms(2) Some by (auto simp: setRecord_def Let_def cap_ok_def split: option.splits)
  qed
  moreover have "snd (setRecord x r) = put_record (cr_modelId x) (fst (setRecord x r)) (load r)" by (simp add: setRecord_def Let_def)
  ultimately show ?thesis using put_ok [OF load_ok [OF assms(1)]] by simp
qed

lemma refresh_ok [inv_rules]: "registry_ok r \<Longrightarrow> cap_ok (fst (refresh env i p r)) \<and> registry_ok (snd (refresh env i p r))"
  using setRecord_ok [of r "probeModel env i p"] probe_ok [of env i p] save_ok by (simp add: refresh_def split_beta)

lemma clean_score_ok: "clean_score cv = Some kv \<Longrightarrow> score_ok kv"
  by (auto simp: clean_score_def score_ok_def Let_def split: prod.splits num.splits if_splits)

lemma setMeasured_ok [inv_rules]: "registry_ok r \<Longrightarrow> cap_ok (fst (setMeasured i sc r)) \<and> registry_ok (snd (setMeasured i sc r))"
proof -
  assume r: "registry_ok r"
  obtain x r1 where g: "get_record i r = (x, r1)" by fastforce
  have ok: "cap_ok x" "registry_ok r1" using get_ok [OF r, of i] g by simp_all
  have "list_all score_ok (List.map_filter clean_score sc)" by (auto simp: list_all_iff mem_map_filter dest: clean_score_ok)
  then have "cap_ok (x\<lparr>cr_measured := Some (spread (dflt (cr_measured x) []) (List.map_filter clean_score sc))\<rparr>)"
    using ok(1) by (simp add: cap_ok_def list_all_spread)
  then show ?thesis using ok(2) by (simp add: setMeasured_def g put_ok Let_def)
qed

lemma observe_stats_ok:
  assumes "\<forall>p. prior = Some p \<longrightarrow> 0 \<le> os_rate p \<and> os_rate p \<le> 1"
  shows "0 < os_runs (observe_stats prior b ms) \<and> 0 \<le> os_rate (observe_stats prior b ms) \<and> os_rate (observe_stats prior b ms) \<le> 1"
proof -
  define p where "p = dflt prior \<lparr>os_runs = 0, os_rate = 0, os_avgMs = 0\<rparr>"
  have p: "0 \<le> os_rate p" "os_rate p \<le> 1" using assms by (cases prior; simp add: p_def)+
  define n :: rat where "n = of_nat (os_runs p)"
  have n: "0 \<le> n" by (simp add: n_def)
  have "0 \<le> os_rate p * n" "os_rate p * n \<le> n" using p n mult_right_mono [of "os_rate p" 1 n] by simp_all
  then have "0 \<le> (os_rate p * n + w) / (n + 1) \<and> (os_rate p * n + w) / (n + 1) \<le> 1" if "w = 0 \<or> w = 1" for w
    using n that by (auto simp: divide_le_eq)
  from this [of "if b then 1 else 0"] have "0 \<le> os_rate (observe_stats prior b ms) \<and> os_rate (observe_stats prior b ms) \<le> 1"
    unfolding observe_stats_def Let_def p_def [symmetric] by (simp add: n_def add.commute)
  then show ?thesis by (simp add: observe_stats_def Let_def)
qed

lemma recordObservation_ok [inv_rules]:
  assumes "registry_ok r"
  shows "\<exists>x r'. recordObservation i a b ms r = Some (x, r') \<and> cap_ok x \<and> registry_ok r'"
proof -
  obtain x r1 where g: "get_record i r = (x, r1)" by fastforce
  have ok: "cap_ok x" "registry_ok r1" using get_ok [OF assms, of i] g by simp_all
  then obtain obs where obs: "cr_observed x = Some obs" "list_all stats_ok obs" by (auto simp: cap_ok_def split: option.splits)
  have "\<forall>p. map_of obs a = Some p \<longrightarrow> 0 \<le> os_rate p \<and> os_rate p \<le> 1"
    using obs(2) by (fastforce simp: list_all_iff stats_ok_def dest!: map_of_SomeD)
  from observe_stats_ok [OF this, of b ms] have "isAspectCategory a \<Longrightarrow> stats_ok (a, observe_stats (map_of obs a) b ms)"
    by (simp add: stats_ok_def)
  then have "isAspectCategory a \<Longrightarrow> cap_ok (x\<lparr>cr_observed := Some (assoc_put a (observe_stats (map_of obs a) b ms) obs)\<rparr>)"
    using ok(1) obs by (simp add: cap_ok_def list_all_assoc_put)
  then show ?thesis using ok obs(1) by (auto simp: recordObservation_def g save_ok put_ok Let_def)
qed

lemma refresh_pool_ok:
  assumes "registry_ok (snd st)"
  shows "registry_ok (snd (refresh_pool env pa st))"
proof -
  have "registry_ok (snd (fold (\<lambda>i (out, r). let (x, r1) = refresh env i p r in (out @ [x], r1)) ms st))"
    if "registry_ok (snd st)" for ms p and st :: "cap_record list \<times> cap_registry"
    using that
  proof (induction ms arbitrary: st)
    case (Cons i ms)
    then show ?case using refresh_ok [of "snd st" env i p] by (cases st) (simp add: split_beta Let_def)
  qed simp
  then show ?thesis using assms by (cases "snd pa") (simp_all add: refresh_pool_def)
qed

lemma refreshAll_ok [inv_rules]: "registry_ok r \<Longrightarrow> registry_ok (snd (refreshAll env as r))"
proof -
  have "registry_ok (snd (fold (refresh_pool env) as st))" if "registry_ok (snd st)" for st
    using that by (induction as arbitrary: st) (simp_all add: refresh_pool_ok)
  then show "registry_ok r \<Longrightarrow> registry_ok (snd (refreshAll env as r))" by (simp add: refreshAll_def)
qed

lemma refreshStale_ok [inv_rules]: "registry_ok r \<Longrightarrow> registry_ok (snd (refreshStale env n as r))"
proof -
  let ?f = "\<lambda>x (out, r). if cr_pool x \<in> set as then (let (y, r2) = refresh env (cr_modelId x) (cr_pool x) r in (out @ [y], r2)) else (out, r)"
  have f: "registry_ok (snd (fold ?f xs st))" if "registry_ok (snd st)" for xs and st :: "cap_record list \<times> cap_registry"
    using that
  proof (induction xs arbitrary: st)
    case (Cons x xs)
    have "registry_ok (snd (?f x st))" using refresh_ok [of "snd st" env "cr_modelId x" "cr_pool x"] Cons.prems by (cases st) (simp add: split_beta Let_def)
    then show ?case using Cons.IH by simp
  qed simp
  assume "registry_ok r"
  then have "registry_ok (snd (list_records r))" using list_ok by blast
  then show ?thesis using f [of "([], snd (list_records r))"] by (simp add: refreshStale_def split_beta)
qed

lemma view_rates:
  assumes "cap_ok x"
  shows "\<exists>m. routing_view x = Some m \<and> rates_ok m \<and> list_all isAspectCategory (mr_strengths m)"
proof -
  obtain st wk obs where x: "cr_strengths x = Some st" "cr_weaknesses x = Some wk" "cr_observed x = Some obs"
    "list_all isAspectCategory st" "list_all stats_ok obs"
    using assms by (auto simp: cap_ok_def split: option.splits)
  have "map_of (map (\<lambda>(k, v). (k, os_runs v, os_rate v)) obs) a = Some (n, s) \<Longrightarrow> 0 \<le> s \<and> s \<le> 1" for a n s
    using x(5) by (fastforce simp: list_all_iff stats_ok_def dest!: map_of_SomeD)
  then show ?thesis using x by (simp add: routing_view_def rates_ok_def)
qed

text \<open>Every operation of the registry keeps it usable: its records have their lists, name only known categories,
  and carry rates and scores between 0 and 1; and what the router reads of any model, known or not, is then
  well-formed (the hypothesis of \<open>category_decides\<close>).\<close>

theorem registry_stays_usable:
  assumes "registry_ok r" and "cap_ok x"
  shows "registry_ok (snd (get_record i r)) \<and> registry_ok (snd (list_records r)) \<and> registry_ok (snd (setRecord x r)) \<and>
    registry_ok (snd (setMeasured i scores r)) \<and> registry_ok (snd (refresh env i pool r)) \<and>
    registry_ok (snd (refreshAll env adapters r)) \<and> registry_ok (snd (refreshStale env nowMs pools r)) \<and>
    registry_ok (usePath path r) \<and> registry_ok (resetForTests r) \<and>
    (\<exists>y r'. recordObservation i a b ms r = Some (y, r') \<and> registry_ok r') \<and>
    (\<exists>m. routing_view (fst (get_record i r)) = Some m \<and> rates_ok m)"
proof -
  have "registry_ok (usePath path r)" "registry_ok (resetForTests r)"
    using assms(1) by (simp_all add: registry_ok_def usePath_def resetForTests_def file_ok_def)
  moreover have "\<exists>m. routing_view (fst (get_record i r)) = Some m \<and> rates_ok m"
    using view_rates get_ok [OF assms(1)] by blast
  ultimately show ?thesis
    using recordObservation_ok [OF assms(1), of i a b ms] get_ok [OF assms(1)] list_ok [OF assms(1)] setRecord_ok [OF assms]
      setMeasured_ok [OF assms(1)] refresh_ok [OF assms(1)] refreshAll_ok [OF assms(1)] refreshStale_ok [OF assms(1)]
    by blast
qed

definition quiet_env :: cap_env where
  "quiet_env = \<lparr>ce_jp = \<lambda>_. None, ce_nt = \<lambda>_. NaN, ce_now = Iso 0, ce_probe = \<lambda>_ _. None\<rparr>"

theorem registry_stays_usable_witness:
  "\<exists>m. routing_view (fst (get_record ''phase2:groq'' (new_registry ''agents.json'' (\<lambda>_. None)))) = Some m \<and> rates_ok m"
proof -
  have "registry_ok (new_registry ''agents.json'' (\<lambda>_. None))" by (simp add: registry_ok_def new_registry_def)
  from registry_stays_usable [OF this seed_ok [of "''x''"], of "''phase2:groq''" "[]" quiet_env "''phase2''" "[]" "0" "[]" "''p''" "''testing''" True NaN]
  show ?thesis by blast
qed

section \<open>The observed rate is the success rate\<close>

fun history_stats :: "obs_stats option \<Rightarrow> (bool \<times> num) list \<Rightarrow> obs_stats option" where
  "history_stats p [] = p"
| "history_stats p ((b, ms) # h) = history_stats (Some (observe_stats p b ms)) h"

fun record_history :: "string \<Rightarrow> string \<Rightarrow> (bool \<times> num) list \<Rightarrow> cap_registry \<Rightarrow> cap_registry option" where
  "record_history i a [] r = Some r"
| "record_history i a ((b, ms) # h) r =
     (case recordObservation i a b ms r of None \<Rightarrow> None | Some (_, r') \<Rightarrow> record_history i a h r')"

definition wins :: "(bool \<times> num) list \<Rightarrow> nat" where
  "wins h = length (filter fst h)"

lemma observe_total:
  "os_runs (observe_stats (Some p) b ms) = os_runs p + 1 \<and>
   os_rate (observe_stats (Some p) b ms) * of_nat (os_runs p + 1) = os_rate p * of_nat (os_runs p) + (if b then 1 else 0)"
proof -
  have "(1 + of_nat (os_runs p) :: rat) \<noteq> 0" by (metis of_nat_0_eq_iff of_nat_Suc old.nat.distinct(2))
  then show ?thesis by (simp add: observe_stats_def Let_def)
qed

lemma history_total:
  "\<exists>q. history_stats (Some p) h = Some q \<and> os_runs q = os_runs p + length h \<and>
     os_rate q * of_nat (os_runs q) = os_rate p * of_nat (os_runs p) + of_nat (wins h)"
proof (induction h arbitrary: p)
  case (Cons x h)
  obtain b ms where x: "x = (b, ms)" by (cases x)
  obtain q where "history_stats (Some (observe_stats (Some p) b ms)) h = Some q"
    "os_runs q = os_runs (observe_stats (Some p) b ms) + length h"
    "os_rate q * of_nat (os_runs q) = os_rate (observe_stats (Some p) b ms) * of_nat (os_runs (observe_stats (Some p) b ms)) + of_nat (wins h)"
    using Cons.IH by blast
  then show ?case using observe_total [of p b ms] by (auto simp: x wins_def add.commute add.left_commute)
qed (simp add: wins_def)

lemma history_mean:
  assumes "h \<noteq> []"
  shows "\<exists>q. history_stats None h = Some q \<and> os_runs q = length h \<and> os_rate q = of_nat (wins h) / of_nat (length h)"
proof -
  let ?z = "\<lparr>os_runs = 0, os_rate = 0, os_avgMs = 0\<rparr>"
  obtain b ms g where h: "h = (b, ms) # g" using assms by (cases h) auto
  have "history_stats None h = history_stats (Some ?z) h" by (simp add: h observe_stats_def)
  then show ?thesis using history_total [of ?z h] assms by (auto simp: nonzero_eq_divide_eq)
qed

lemma get_after_put:
  "map_of (rg_records (save_cache (put_record i x (snd (get_record i r))))) i = Some x \<and> rg_loaded (save_cache (put_record i x (snd (get_record i r))))"
  by (auto simp: get_record_def load_def put_record_def save_cache_def Let_def split: option.split)

lemma record_history_stats:
  assumes "isAspectCategory a" and "cr_observed (fst (get_record i r)) = Some obs"
  shows "\<exists>r' obs'. record_history i a h r = Some r' \<and> cr_observed (fst (get_record i r')) = Some obs' \<and>
    map_of obs' a = history_stats (map_of obs a) h \<and> (\<forall>b. b \<noteq> a \<longrightarrow> map_of obs' b = map_of obs b)"
  using assms(2)
proof (induction h arbitrary: r obs)
  case (Cons w h)
  obtain b ms where w: "w = (b, ms)" by (cases w)
  let ?x = "fst (get_record i r)"
  let ?obs = "assoc_put a (observe_stats (map_of obs a) b ms) obs"
  let ?r = "save_cache (put_record i (?x\<lparr>cr_observed := Some ?obs\<rparr>) (snd (get_record i r)))"
  have rec: "recordObservation i a b ms r = Some (?x\<lparr>cr_observed := Some ?obs\<rparr>, ?r)"
    using assms(1) Cons.prems by (simp add: recordObservation_def split_beta Let_def)
  have "cr_observed (fst (get_record i ?r)) = Some ?obs"
    using get_after_put [of i "?x\<lparr>cr_observed := Some ?obs\<rparr>" r] by (simp add: get_record_def load_def)
  from Cons.IH [OF this] show ?case unfolding w by (auto simp: rec)
qed simp

text \<open>The rate the registry keeps for a model and a category is exactly the share of successes among all
  observations recorded, whatever their order, and other categories are not touched.\<close>

theorem observed_rate_is_success_rate:
  assumes "isAspectCategory a" and "cr_observed (fst (get_record i r)) = Some obs" and "map_of obs a = None" and "h \<noteq> []"
  shows "\<exists>r' obs' q. record_history i a h r = Some r' \<and> cr_observed (fst (get_record i r')) = Some obs' \<and> map_of obs' a = Some q \<and>
    os_runs q = length h \<and> os_rate q = of_nat (wins h) / of_nat (length h) \<and> (\<forall>b. b \<noteq> a \<longrightarrow> map_of obs' b = map_of obs b)"
  using record_history_stats [OF assms(1,2), of h] history_mean [OF assms(4)] unfolding assms(3) by metis

theorem observed_rate_is_success_rate_witness:
  "\<exists>r' obs' q. record_history ''phase2:groq'' ''testing'' [(True, Fin 10), (False, Fin 20)] (new_registry ''a'' (\<lambda>_. None)) = Some r' \<and>
     cr_observed (fst (get_record ''phase2:groq'' r')) = Some obs' \<and> map_of obs' ''testing'' = Some q \<and> os_rate q = 1 / 2"
proof -
  have a: "isAspectCategory ''testing''" by code_simp
  have o: "cr_observed (fst (get_record ''phase2:groq'' (new_registry ''a'' (\<lambda>_. None)))) = Some []"
    by (simp add: get_record_def load_def new_registry_def Let_def seedRecordFor_def)
  from observed_rate_is_success_rate [OF a o, of "[(True, Fin 10), (False, Fin 20)]"] show ?thesis by (fastforce simp: wins_def)
qed

section \<open>A malformed cache entry\<close>

text \<open>The cache is meant to degrade to the seed table when it is corrupt, but only the syntax is checked: an entry
  that is an object without its lists is taken as the model's record, and the router then throws on it.\<close>

theorem malformed_entry_breaks_routing:
  assumes "\<not> rg_loaded r" and "rg_files r (rg_path r) = Some [(i, Some x)]" and "cr_strengths x = None"
  shows "routing_view (fst (get_record i r)) = None \<and> routing_view (seedRecordFor i) \<noteq> None"
proof -
  have "fst (get_record i r) = x"
    using assms(1,2) by (simp add: get_record_def load_def load_entry_def Let_def)
  moreover have "routing_view (seedRecordFor i) \<noteq> None" using view_rates [OF seed_ok [of i]] by auto
  ultimately show ?thesis using assms(3) by (simp add: routing_view_def)
qed

theorem malformed_entry_breaks_routing_witness:
  "routing_view (fst (get_record ''m'' (new_registry ''a'' (\<lambda>_. Some [(''m'', Some ((seedRecordFor ''m'')\<lparr>cr_strengths := None\<rparr>))])))) = None"
  using malformed_entry_breaks_routing
    [of "new_registry ''a'' (\<lambda>_. Some [(''m'', Some ((seedRecordFor ''m'')\<lparr>cr_strengths := None\<rparr>))])" "''m''" "(seedRecordFor ''m'')\<lparr>cr_strengths := None\<rparr>"]
  by (simp add: new_registry_def)

section \<open>A refresh is not repeated for thirty days\<close>

text \<open>Whatever the probe answered or threw, the refreshed record is stamped, keeps what was observed, and is not
  stale within thirty days, so that a model that cannot be probed is not asked again at every start.\<close>

theorem refresh_backs_off:
  assumes "ce_now env = Iso t" and "nowMs \<le> t + STALE_MS"
  shows "\<not> isStale nowMs (fst (refresh env i pool r)) \<and>
    cr_observed (fst (refresh env i pool r)) =
      Some (case Option.bind (map_of (rg_records (load r)) i) cr_observed of Some obs \<Rightarrow> obs | None \<Rightarrow> dflt (cr_observed (probeModel env i pool)) [])"
proof -
  have "cr_probedAt (fst (setRecord (probeModel env i pool) r)) = Some (Iso t)"
    using probe_ok [of env i pool] assms(1) by (simp add: setRecord_def Let_def split: option.split)
  moreover have "cr_observed (fst (setRecord x r)) = Some (case Option.bind (map_of (rg_records (load r)) (cr_modelId x)) cr_observed of
      Some obs \<Rightarrow> obs | None \<Rightarrow> dflt (cr_observed x) [])" for x
    by (simp add: setRecord_def Let_def split: option.split)
  ultimately show ?thesis using assms(2) probe_ok [of env i pool] by (simp add: refresh_def split_beta isStale_def)
qed

theorem refresh_backs_off_witness:
  "\<not> isStale 1000 (fst (refresh quiet_env ''m'' ''phase2'' (new_registry ''a'' (\<lambda>_. None))))"
  using refresh_backs_off [of quiet_env "0" "1000" "''m''" "''phase2''" "new_registry ''a'' (\<lambda>_. None)"] by (simp add: quiet_env_def STALE_MS_def)

end
