(* ===== verification/Decomposer.thy ===== *)
theory Decomposer
  imports Scheduler Capability
begin

text \<open>
  From a prompt to a task graph, \<open>src/orchestrator/decomposer.js\<close>: the planning prompt, the validation of
  what the model answers (with the search for a dependency cycle), the single-step fallback, the offline
  sample, the choice of a pool and the two attempts. Tasks are JSON values until they are valid; the
  rendering of a value inside a message (\<open>str\<close>), \<open>JSON.parse\<close> and the adapter's answers are arguments.
\<close>

section \<open>The planning prompt\<close>

definition DECOMPOSER_POOL_ORDER :: "string list" where
  "DECOMPOSER_POOL_ORDER = [''freebuff'', ''phase2'', ''opencode'']"

definition dquote :: string where "dquote = [CHR 0x22]"

definition em_dash :: string where "em_dash = [CHR 0xE2, CHR 0x80, CHR 0x94]"

definition buildDecomposePrompt :: "string \<Rightarrow> nat \<Rightarrow> string list option \<Rightarrow> string \<Rightarrow> string" where
  "buildDecomposePrompt masterPrompt maxTasks retryErrors lessons =
    (let base = ''You are the decomposer for a multi-agent build system. Break the following master prompt ''
       @ ''into an ordered task graph. Respond with STRICT JSON ONLY '' @ em_dash @ '' no prose, no markdown code fences ''
       @ em_dash @ '' matching exactly this shape:'' @ newline
       @ ''{'' @ dquote @ ''sharedContext'' @ dquote @ '': string, '' @ dquote @ ''tasks'' @ dquote @ '': [{'' @ dquote @ ''id'' @ dquote @ '': string, '' @ dquote @ ''title'' @ dquote
       @ '': string, '' @ dquote @ ''aspect'' @ dquote @ '': string, '' @ dquote @ ''description'' @ dquote @ '': string, '' @ dquote @ ''dependsOn'' @ dquote @ '': string[], ''
       @ dquote @ ''estimatedComplexity'' @ dquote @ '': '' @ dquote @ ''low'' @ dquote @ ''|'' @ dquote @ ''medium'' @ dquote @ ''|'' @ dquote @ ''high'' @ dquote @ '', ''
       @ dquote @ ''deliverable'' @ dquote @ '': string}]}'' @ newline @ newline @ ''Rules:'' @ newline
       @ ''- '' @ dquote @ ''aspect'' @ dquote @ '' must be exactly one of: '' @ join_with '', '' ASPECT_CATEGORIES @ ''.'' @ newline
       @ ''- '' @ dquote @ ''dependsOn'' @ dquote @ '' lists ids of other tasks in this same array that must complete first; use [] for none.'' @ newline
       @ ''- Generate at most '' @ show_nat maxTasks @ '' tasks.'' @ newline
       @ ''- '' @ dquote @ ''sharedContext'' @ dquote @ '' is written ONCE, covering the project'' @ [CHR 0x27] @ ''s overall goal, the tech stack, naming ''
       @ ''conventions, and any interfaces/contracts that cross task boundaries '' @ em_dash @ '' every agent sees only ''
       @ ''this shared context plus its own task, so it must carry everything needed to keep every agent'' @ [CHR 0x27] @ ''s ''
       @ ''output consistent with every other agent'' @ [CHR 0x27] @ ''s.'' @ newline
       @ ''- The dependency graph must have no cycles, and every id in '' @ dquote @ ''dependsOn'' @ dquote @ '' must exist in '' @ dquote @ ''tasks'' @ dquote @ ''.''
       @ newline @ newline
       @ (if lessons \<noteq> [] then ''Lessons from earlier failed runs of this system. Plan so that you do not repeat them:'' @ newline @ lessons @ newline @ newline else [])
       @ ''Master prompt:'' @ newline @ masterPrompt in
     case retryErrors of
       None \<Rightarrow> base
     | Some es \<Rightarrow>
         if es = [] then base
         else base @ newline @ newline @ ''Your previous response failed validation for these reasons:'' @ newline
           @ join_with newline (map (\<lambda>e. ''- '' @ e) es) @ newline
           @ ''Fix these issues and respond again with ONLY the corrected JSON object.'')"

section \<open>Validation\<close>

text \<open>A task as the scheduler takes it.\<close>

definition graph_step :: "js \<Rightarrow> gstep" where
  "graph_step t =
    \<lparr>gs_id = text_prop t ''id'', gs_title = text_prop t ''title'', gs_aspect = text_prop t ''aspect'', gs_description = text_prop t ''description'',
     gs_dependsOn = List.map_filter str_of (arr_of (jget t ''dependsOn'')), gs_complexity = text_prop t ''estimatedComplexity'',
     gs_deliverable = text_prop t ''deliverable'', gs_routingHint = str_of (jget t ''routingHint''),
     gs_remediationHint = str_of (jget t ''remediationHint''), gs_parks = map_option (\<lambda>r. nat \<lfloor>r\<rfloor>) (num_of (jget t ''parks''))\<rparr>"

definition step_by_id :: "gstep list \<Rightarrow> string \<Rightarrow> gstep option" where
  "step_by_id ts i = map_of (rev (map (\<lambda>t. (gs_id t, t)) ts)) i"

definition deps_of :: "gstep list \<Rightarrow> string \<Rightarrow> string list" where
  "deps_of ts i = (case step_by_id ts i of None \<Rightarrow> [] | Some t \<Rightarrow> gs_dependsOn t)"

text \<open>The depth-first search: 1 marks a step in progress, 2 one that is done. The fuel bounds the depth, which
  the number of steps bounds (\<open>search_decides_cycles\<close> below); out of fuel the search would report a cycle.\<close>

record dfs =
  df_mark :: "string \<Rightarrow> nat"
  df_stack :: "string list"

fun visit :: "nat \<Rightarrow> gstep list \<Rightarrow> string \<Rightarrow> dfs \<Rightarrow> string list option \<times> dfs"
and visit_deps :: "nat \<Rightarrow> gstep list \<Rightarrow> string list \<Rightarrow> dfs \<Rightarrow> string list option \<times> dfs" where
  "visit 0 ts i s = (Some [], s)"
| "visit (Suc n) ts i s =
     (let s1 = s\<lparr>df_mark := (df_mark s)(i := 1), df_stack := df_stack s @ [i]\<rparr>;
          (found, s2) = visit_deps n ts (deps_of ts i) s1 in
      case found of
        Some c \<Rightarrow> (Some c, s2)
      | None \<Rightarrow> (None, s2\<lparr>df_mark := (df_mark s2)(i := 2), df_stack := butlast (df_stack s2)\<rparr>))"
| "visit_deps n ts [] s = (None, s)"
| "visit_deps n ts (d # ds) s =
     (if df_mark s d = 1 then (Some (dropWhile (\<lambda>x. x \<noteq> d) (df_stack s) @ [d]), s)
      else if df_mark s d \<noteq> 2 \<and> step_by_id ts d \<noteq> None then
        (let (found, s1) = visit n ts d s in
         case found of Some c \<Rightarrow> (Some c, s1) | None \<Rightarrow> visit_deps n ts ds s1)
      else visit_deps n ts ds s)"

fun search_from :: "nat \<Rightarrow> gstep list \<Rightarrow> gstep list \<Rightarrow> dfs \<Rightarrow> string list option" where
  "search_from n ts [] s = None"
| "search_from n ts (t # us) s =
     (if df_mark s (gs_id t) = 0 then
        (let (found, s1) = visit n ts (gs_id t) s in case found of Some c \<Rightarrow> Some c | None \<Rightarrow> search_from n ts us s1)
      else search_from n ts us s)"

definition findCycle :: "gstep list \<Rightarrow> string list option" where
  "findCycle ts = search_from (length ts + 1) ts ts \<lparr>df_mark = \<lambda>_. 0, df_stack = []\<rparr>"

text \<open>The first pass: ids.\<close>

fun id_pass :: "js list \<Rightarrow> string list \<Rightarrow> string list \<times> string list" where
  "id_pass [] ids = ([], ids)"
| "id_pass (t # ts) ids =
     (case jget t ''id'' of
        JStr i \<Rightarrow>
          if js_trim i = [] then
            (let (es, ids') = id_pass ts ids in ((''every task needs a non-empty string '' @ dquote @ ''id'' @ dquote) # es, ids'))
          else
            (let (es, ids') = id_pass ts (ids @ [i])
             in ((if i \<in> set ids then [''duplicate task id '' @ dquote @ i @ dquote] else []) @ es, ids'))
      | _ \<Rightarrow> (let (es, ids') = id_pass ts ids in ((''every task needs a non-empty string '' @ dquote @ ''id'' @ dquote) # es, ids')))"

definition blank_prop :: "js \<Rightarrow> string \<Rightarrow> bool" where
  "blank_prop t k = (case jget t k of JStr s \<Rightarrow> js_trim s = [] | _ \<Rightarrow> True)"

definition bad_choice :: "(string \<Rightarrow> bool) \<Rightarrow> js \<Rightarrow> bool" where
  "bad_choice known v = (case v of JStr s \<Rightarrow> \<not> known s | _ \<Rightarrow> True)"

definition dep_errors :: "(js \<Rightarrow> string) \<Rightarrow> string list \<Rightarrow> string \<Rightarrow> js \<Rightarrow> string list" where
  "dep_errors str ids i d =
    (if bad_choice (\<lambda>s. s \<in> set ids) d then [''task '' @ dquote @ i @ dquote @ '' depends on unknown id '' @ dquote @ str d @ dquote] else [])"

definition step_errors :: "(js \<Rightarrow> string) \<Rightarrow> string list \<Rightarrow> js \<Rightarrow> string list" where
  "step_errors str ids t =
    (case jget t ''id'' of
       JStr i \<Rightarrow>
         (let task = ''task '' @ dquote @ i @ dquote in
          (if bad_choice isAspectCategory (jget t ''aspect'')
           then [task @ '' has an invalid '' @ dquote @ ''aspect'' @ dquote @ '': '' @ dquote @ str (jget t ''aspect'') @ dquote] else [])
          @ (if bad_choice isComplexityLevel (jget t ''estimatedComplexity'')
             then [task @ '' has an invalid '' @ dquote @ ''estimatedComplexity'' @ dquote @ '': '' @ dquote @ str (jget t ''estimatedComplexity'') @ dquote] else [])
          @ (if blank_prop t ''title'' then [task @ '' needs a non-empty '' @ dquote @ ''title'' @ dquote] else [])
          @ (if blank_prop t ''description'' then [task @ '' needs a non-empty '' @ dquote @ ''description'' @ dquote] else [])
          @ (if blank_prop t ''deliverable'' then [task @ '' needs a non-empty '' @ dquote @ ''deliverable'' @ dquote] else [])
          @ (if \<not> is_arr (jget t ''dependsOn'')
             then [task @ '' needs '' @ dquote @ ''dependsOn'' @ dquote @ '' to be an array (use [] for none)'']
             else concat (map (dep_errors str ids i) (arr_of (jget t ''dependsOn'')))))
     | _ \<Rightarrow> [])"

text \<open>The errors; the graph is valid when there are none.\<close>

definition validateTaskGraph :: "(js \<Rightarrow> string) \<Rightarrow> js \<Rightarrow> nat \<Rightarrow> string list" where
  "validateTaskGraph str tasks maxTasks =
    (if \<not> is_arr tasks \<or> arr_of tasks = [] then [dquote @ ''tasks'' @ dquote @ '' must be a non-empty array'']
     else
       (let ts = arr_of tasks; (es1, ids) = id_pass ts [];
            errors = (if maxTasks < length ts
                then [''graph has '' @ show_nat (length ts) @ '' tasks, which exceeds maxTasks='' @ show_nat maxTasks] else [])
              @ es1 @ concat (map (step_errors str ids) ts) in
        if errors = [] then
          (case findCycle (map graph_step ts) of None \<Rightarrow> [] | Some c \<Rightarrow> [''dependency cycle detected: '' @ join_with '' -> '' c])
        else errors))"

section \<open>The fallback and the offline sample\<close>

definition plain_step :: "string \<Rightarrow> string \<Rightarrow> string \<Rightarrow> string \<Rightarrow> string list \<Rightarrow> string \<Rightarrow> string \<Rightarrow> gstep" where
  "plain_step i title aspect description dependsOn complexity deliverable =
    \<lparr>gs_id = i, gs_title = title, gs_aspect = aspect, gs_description = description, gs_dependsOn = dependsOn,
     gs_complexity = complexity, gs_deliverable = deliverable, gs_routingHint = None, gs_remediationHint = None, gs_parks = None\<rparr>"

definition singleTaskFallback :: "string \<Rightarrow> graph" where
  "singleTaskFallback masterPrompt =
    \<lparr>gr_sharedContext = ''Decomposition was not available (no reasoning model could produce a valid task graph). ''
       @ ''This run has a single task carrying the entire master prompt verbatim.'',
     gr_tasks = [plain_step ''task-1'' ''Complete the master prompt as a single task'' ''architecture''
       (if js_trim masterPrompt \<noteq> [] then masterPrompt else ''(empty master prompt)'') [] ''high''
       ''A complete solution addressing the master prompt in full.'']\<rparr>"

definition offlineSampleGraph :: graph where
  "offlineSampleGraph =
    \<lparr>gr_sharedContext = ''Project: a task-manager web app '' @ em_dash @ '' a small Express + SQLite REST API behind a React ''
       @ ''frontend. Tech stack: Node.js 20, Express 5, SQLite, React 18, Vite, plain CSS (no UI ''
       @ ''framework). Naming: REST routes are kebab-case plural nouns (/api/tasks, /api/task-lists); ''
       @ ''JS/TS identifiers are camelCase; SQL columns are snake_case. Cross-task interface: every ''
       @ ''task record is {id: number, title: string, done: boolean, listId: number, createdAt: string ''
       @ ''(ISO 8601)} '' @ em_dash @ '' the backend task and the frontend task must agree on this shape exactly.'',
     gr_tasks =
      [plain_step ''schema'' ''Design the SQLite schema'' ''data-modeling''
         ''Design tables for task lists and tasks, with foreign keys and indexes for the common queries (tasks by list, tasks by done state).''
         [] ''medium'' ''A migrations/*.sql file defining the schema.'',
       plain_step ''api'' ''Build the REST API'' ''code-generation''
         (''Implement CRUD routes for task lists and tasks per the shared interface contract above, on top of the schema from the '' @ dquote @ ''schema'' @ dquote @ '' task.'')
         [''schema''] ''high'' ''Express route handlers plus a small data-access layer.'',
       plain_step ''frontend'' ''Build the React frontend'' ''ui-implementation''
         (''A single-page task list view: add/complete/delete tasks, switch between lists, calling the API from the '' @ dquote @ ''api'' @ dquote @ '' task.'')
         [''api''] ''high'' ''React components plus a small API client module.'',
       plain_step ''tests'' ''Write API integration tests'' ''testing''
         (''Cover the CRUD routes from the '' @ dquote @ ''api'' @ dquote @ '' task: create, list, update, delete, and the two common query filters.'')
         [''api''] ''medium'' ''A test file exercising every route with both success and error cases.'',
       plain_step ''security'' ''Security review of the API layer'' ''security-review''
         (''Review the '' @ dquote @ ''api'' @ dquote @ '' task'' @ [CHR 0x27] @ ''s routes for injection, missing input validation, and unbounded query results.'')
         [''api''] ''low'' ''A short written list of findings, each with a concrete fix.'',
       plain_step ''docs'' ''Write the README'' ''documentation''
         (''Document how to run the app locally, the API routes from the '' @ dquote @ ''api'' @ dquote @ '' task, and the schema from the '' @ dquote @ ''schema'' @ dquote @ '' task.'')
         [''api'', ''frontend''] ''low'' ''A README.md covering setup, the API surface, and the schema.'']\<rparr>"

text \<open>A step as the value it is, for the validator.\<close>

definition step_js :: "gstep \<Rightarrow> js" where
  "step_js t = JObj [(''id'', JStr (gs_id t)), (''title'', JStr (gs_title t)), (''aspect'', JStr (gs_aspect t)),
     (''description'', JStr (gs_description t)), (''dependsOn'', JArr (map JStr (gs_dependsOn t))),
     (''estimatedComplexity'', JStr (gs_complexity t)), (''deliverable'', JStr (gs_deliverable t))]"

section \<open>Planning\<close>

record pool_load =
  pl_inFlight :: nat
  pl_maxConcurrency :: nat

text \<open>The pool whose adapter answers.\<close>

definition pickDecomposerAdapter :: "(string \<Rightarrow> pool_load option) \<Rightarrow> string option" where
  "pickDecomposerAdapter pools =
    (case List.find (\<lambda>p. case pools p of None \<Rightarrow> False | Some l \<Rightarrow> pl_inFlight l < pl_maxConcurrency l) DECOMPOSER_POOL_ORDER of
       Some p \<Rightarrow> Some p
     | None \<Rightarrow> List.find (\<lambda>p. pools p \<noteq> None) DECOMPOSER_POOL_ORDER)"

record plan =
  pn_graph :: graph
  pn_plannedBy :: "string option"

datatype plan_attempt = PlanOk plan | PlanBad "string list" "classified option"

text \<open>The adapter's answer to a prompt, and the model that gave it.\<close>

definition attemptDecompose ::
  "(string \<Rightarrow> js option) \<Rightarrow> (js \<Rightarrow> string) \<Rightarrow> (string \<Rightarrow> answer \<times> string option) \<Rightarrow> string \<Rightarrow> nat \<Rightarrow> string list option \<Rightarrow> string \<Rightarrow> plan_attempt" where
  "attemptDecompose jp str execute masterPrompt maxTasks retryErrors lessons =
    (let (result, modelId) = execute (buildDecomposePrompt masterPrompt maxTasks retryErrors lessons) in
     if \<not> xr_ok result then
       (let e = dflt (xr_error result) (message_err ''decomposition call failed'') in PlanBad [er_message e] (Some (classifyFailure e)))
     else
       (let parsed = parseProbeJson jp (xr_output result) in
        if \<not> (is_obj parsed \<or> is_arr parsed) then PlanBad [''response was not parsable JSON''] None
        else
          (let tasks = (if is_arr (jget parsed ''tasks'') then jget parsed ''tasks'' else JNull);
               errors = validateTaskGraph str tasks maxTasks in
           if errors \<noteq> [] then PlanBad errors None
           else PlanOk \<lparr>pn_graph = \<lparr>gr_sharedContext = text_prop parsed ''sharedContext'', gr_tasks = map graph_step (arr_of tasks)\<rparr>,
                  pn_plannedBy = modelId\<rparr>)))"

text \<open>The error of a planning call the engine should park on.\<close>

definition throwIfParkable :: "plan_attempt \<Rightarrow> err option" where
  "throwIfParkable a =
    (case a of
       PlanBad _ (Some f) \<Rightarrow>
         if PARKABLE (cf_class f) = None then None
         else Some \<lparr>er_code = Some ''PLAN_FAILED'', er_status = cf_status f, er_statusCode = None, er_responseStatus = None,
                er_message = ''planning call failed ('' @ cf_class f @ ''): '' @ cf_message f, er_name = Some ''Error'',
                er_class = Some (cf_class f), er_retryAfterMs = cf_retryAfterMs f, er_failureClass = None\<rparr>
     | _ \<Rightarrow> None)"

definition unplanned :: "graph \<Rightarrow> plan" where
  "unplanned g = \<lparr>pn_graph = g, pn_plannedBy = None\<rparr>"

text \<open>\<open>decompose\<close>: a plan, or the error it throws.\<close>

definition decompose ::
  "bool \<Rightarrow> (string \<Rightarrow> js option) \<Rightarrow> (js \<Rightarrow> string) \<Rightarrow> (string \<Rightarrow> pool_load option) \<Rightarrow> (string \<Rightarrow> string \<Rightarrow> answer \<times> string option) \<Rightarrow>
   string \<Rightarrow> nat \<Rightarrow> string \<Rightarrow> err + plan" where
  "decompose dryRun jp str pools execute masterPrompt maxTasks lessons =
    (if dryRun then
       Inr (unplanned (if validateTaskGraph str (JArr (map step_js (gr_tasks offlineSampleGraph))) maxTasks = []
              then offlineSampleGraph else singleTaskFallback masterPrompt))
     else (case pickDecomposerAdapter pools of
        None \<Rightarrow> Inr (unplanned (singleTaskFallback masterPrompt))
      | Some p \<Rightarrow>
          (let first = attemptDecompose jp str (execute p) masterPrompt maxTasks None lessons in
           case first of
             PlanOk g \<Rightarrow> Inr g
           | PlanBad errors _ \<Rightarrow>
               (case throwIfParkable first of
                  Some e \<Rightarrow> Inl e
                | None \<Rightarrow>
                    (let retry = attemptDecompose jp str (execute p) masterPrompt maxTasks (Some errors) lessons in
                     case retry of
                       PlanOk g \<Rightarrow> Inr g
                     | PlanBad _ _ \<Rightarrow> (case throwIfParkable retry of Some e \<Rightarrow> Inl e | None \<Rightarrow> Inr (unplanned (singleTaskFallback masterPrompt))))))))"

section \<open>The search for a cycle is right\<close>

lemmas dfs_induct = visit_visit_deps.induct [case_names out_of_fuel visit no_deps dep]

definition finished_ok :: "gstep list \<Rightarrow> dfs \<Rightarrow> bool" where
  "finished_ok ts s =
    ((\<forall>x. df_mark s x \<le> 2) \<and> (\<exists>rk :: string \<Rightarrow> nat. \<forall>x. df_mark s x = 2 \<longrightarrow>
       (\<forall>d\<in>set (deps_of ts x). step_by_id ts d \<noteq> None \<longrightarrow> df_mark s d = 2 \<and> rk d < rk x)))"

definition grows :: "dfs \<Rightarrow> dfs \<Rightarrow> bool" where
  "grows s s' =
    ((\<forall>x. df_mark s x = 2 \<longrightarrow> df_mark s' x = 2) \<and> (\<forall>x. df_mark s' x = 1 \<longleftrightarrow> df_mark s x = 1) \<and>
     (\<forall>x. df_mark s x \<noteq> 0 \<longrightarrow> df_mark s' x \<noteq> 0))"

lemma search_grows_refl [simp]: "grows s s"
  by (simp add: grows_def)

lemma search_grows_trans: "grows a b \<Longrightarrow> grows b c \<Longrightarrow> grows a c"
  by (simp add: grows_def)

lemma finished_start: "finished_ok ts s \<Longrightarrow> df_mark s i \<noteq> 2 \<Longrightarrow> finished_ok ts (s\<lparr>df_mark := (df_mark s)(i := 1), df_stack := st\<rparr>)"
proof -
  assume f: "finished_ok ts s" and i: "df_mark s i \<noteq> 2"
  obtain rk :: "string \<Rightarrow> nat" where
    rk: "\<And>x d. df_mark s x = 2 \<Longrightarrow> d \<in> set (deps_of ts x) \<Longrightarrow> step_by_id ts d \<noteq> None \<Longrightarrow> df_mark s d = 2 \<and> rk d < rk x"
    and m: "\<And>x. df_mark s x \<le> 2" using f unfolding finished_ok_def by blast
  have "((df_mark s)(i := 1)) d = 2 \<and> rk d < rk x"
    if "((df_mark s)(i := 1)) x = 2" "d \<in> set (deps_of ts x)" "step_by_id ts d \<noteq> None" for x d
    using rk [of x d] that i by (cases "x = i"; cases "d = i") auto
  then show ?thesis unfolding finished_ok_def by (intro conjI exI [of _ rk]) (use m in auto)
qed

lemma finished_done:
  assumes "finished_ok ts s" and "df_mark s i = 1" and "\<And>d. d \<in> set (deps_of ts i) \<Longrightarrow> step_by_id ts d \<noteq> None \<Longrightarrow> df_mark s d = 2"
  shows "finished_ok ts (s\<lparr>df_mark := (df_mark s)(i := 2), df_stack := st\<rparr>)"
proof -
  obtain rk :: "string \<Rightarrow> nat" where
    rk: "\<And>x d. df_mark s x = 2 \<Longrightarrow> d \<in> set (deps_of ts x) \<Longrightarrow> step_by_id ts d \<noteq> None \<Longrightarrow> df_mark s d = 2 \<and> rk d < rk x"
    and m: "\<And>x. df_mark s x \<le> 2" using assms(1) unfolding finished_ok_def by blast
  let ?rk = "rk(i := Suc (sum_list (map rk (deps_of ts i))))"
  have new: "?rk d < ?rk x \<and> ((df_mark s)(i := 2)) d = 2"
    if "((df_mark s)(i := 2)) x = 2" "d \<in> set (deps_of ts x)" "step_by_id ts d \<noteq> None" for x d
  proof (cases "x = i")
    case True
    then have d: "df_mark s d = 2" using assms(3) that(2,3) by blast
    then have "d \<noteq> i" using assms(2) by auto
    moreover have "rk d \<le> sum_list (map rk (deps_of ts i))" using that(2) True by (intro member_le_sum_list) auto
    ultimately show ?thesis using True d by simp
  next
    case False
    then have "df_mark s d = 2 \<and> rk d < rk x" using rk that by simp
    moreover then have "d \<noteq> i" using assms(2) by auto
    ultimately show ?thesis using False by simp
  qed
  show ?thesis unfolding finished_ok_def by (intro conjI exI [of _ ?rk]) (use new m in auto)
qed

lemma search_sound:
  shows "visit n ts i s = (None, s') \<Longrightarrow> finished_ok ts s \<Longrightarrow> df_mark s i = 0 \<Longrightarrow> finished_ok ts s' \<and> df_mark s' i = 2 \<and> grows s s'"
    and "visit_deps n ts ds s = (None, s') \<Longrightarrow> finished_ok ts s \<Longrightarrow>
      finished_ok ts s' \<and> (\<forall>d\<in>set ds. step_by_id ts d \<noteq> None \<longrightarrow> df_mark s' d = 2) \<and> grows s s'"
proof (induction n ts i s and n ts ds s arbitrary: s' and s' rule: visit_visit_deps.induct)
  case (1 ts i s)
  then show ?case by simp
next
  case (2 n ts i s)
  let ?s1 = "s\<lparr>df_mark := (df_mark s)(i := 1), df_stack := df_stack s @ [i]\<rparr>"
  obtain f s2 where d: "visit_deps n ts (deps_of ts i) ?s1 = (f, s2)" by fastforce
  then have f: "f = None" and s': "s' = s2\<lparr>df_mark := (df_mark s2)(i := 2), df_stack := butlast (df_stack s2)\<rparr>"
    using "2.prems"(1) by (auto simp: Let_def split: option.splits)
  have "finished_ok ts ?s1" using finished_start [OF "2.prems"(2), of i] "2.prems"(3) by simp
  from "2.IH" [OF refl] d f this have
    s2: "finished_ok ts s2" "\<forall>d\<in>set (deps_of ts i). step_by_id ts d \<noteq> None \<longrightarrow> df_mark s2 d = 2" "grows ?s1 s2" by auto
  have i: "df_mark s2 i = 1" using s2(3) by (simp add: grows_def)
  have "finished_ok ts s'" unfolding s' by (rule finished_done [OF s2(1) i]) (use s2(2) in blast)
  moreover have "grows s s'" using s2(3) "2.prems"(3) by (auto simp: grows_def s')
  ultimately show ?case by (simp add: s')
next
  case (3 n ts s)
  then show ?case by simp
next
  case (4 n ts d ds s)
  have m: "df_mark s x \<le> 2" for x using "4.prems"(2) by (simp add: finished_ok_def)
  have nd: "df_mark s d \<noteq> 1" using "4.prems"(1) by (auto simp: Let_def)
  show ?case
  proof (cases "df_mark s d \<noteq> 2 \<and> step_by_id ts d \<noteq> None")
    case False
    then have "visit_deps n ts ds s = (None, s')" using "4.prems"(1) nd by auto
    then show ?thesis using "4.IH"(3) [OF nd False _ "4.prems"(2)] False by (auto simp: grows_def)
  next
    case True
    then have z: "df_mark s d = 0" using m [of d] nd by linarith
    obtain f s1 where v: "visit n ts d s = (f, s1)" by fastforce
    have f: "f = None" and rest: "visit_deps n ts ds s1 = (None, s')"
      using "4.prems"(1) True nd v by (auto simp: Let_def split: option.splits)
    have s1: "finished_ok ts s1" "df_mark s1 d = 2" "grows s s1"
      using "4.IH"(1) [OF nd True _ "4.prems"(2) z] v f by auto
    have "finished_ok ts s' \<and> (\<forall>d\<in>set ds. step_by_id ts d \<noteq> None \<longrightarrow> df_mark s' d = 2) \<and> grows s1 s'"
      using "4.IH"(2) [OF nd True refl _ _ rest s1(1)] v f by auto
    then show ?thesis using s1 search_grows_trans by (auto simp: grows_def)
  qed
qed

text \<open>In an acyclic graph the search neither meets a step in progress nor runs out of fuel.\<close>

definition fresh :: "gstep list \<Rightarrow> dfs \<Rightarrow> nat" where
  "fresh ts s = card {x. step_by_id ts x \<noteq> None \<and> df_mark s x = 0}"

definition marks_known :: "gstep list \<Rightarrow> dfs \<Rightarrow> bool" where
  "marks_known ts s = (\<forall>x. df_mark s x \<le> 2 \<and> (df_mark s x \<noteq> 0 \<longrightarrow> step_by_id ts x \<noteq> None))"

definition above :: "(string \<Rightarrow> nat) \<Rightarrow> string \<Rightarrow> dfs \<Rightarrow> bool" where
  "above rk i s = (\<forall>x. df_mark s x = 1 \<longrightarrow> rk i < rk x)"

lemma known_finite: "finite {x. step_by_id ts x \<noteq> None \<and> P x}"
proof -
  have "{x. step_by_id ts x \<noteq> None \<and> P x} \<subseteq> gs_id ` set ts"
    by (auto simp: step_by_id_def image_iff dest!: map_of_SomeD)
  then show ?thesis by (rule finite_subset) simp
qed

lemma fresh_mono: "grows s s' \<Longrightarrow> fresh ts s' \<le> fresh ts s"
  unfolding fresh_def by (rule card_mono [OF known_finite]) (auto simp: grows_def)

lemma fresh_start:
  assumes "step_by_id ts i \<noteq> None" and "df_mark s i = 0"
  shows "fresh ts (s\<lparr>df_mark := (df_mark s)(i := 1), df_stack := st\<rparr>) < fresh ts s"
  unfolding fresh_def by (rule psubset_card_mono [OF known_finite]) (use assms in auto)

lemma search_complete:
  assumes acyc: "\<And>x d. d \<in> set (deps_of ts x) \<Longrightarrow> step_by_id ts d \<noteq> None \<Longrightarrow> rk d < rk x"
  shows "us = ts \<Longrightarrow> step_by_id ts i \<noteq> None \<Longrightarrow> df_mark s i = 0 \<Longrightarrow> above rk i s \<Longrightarrow> fresh ts s \<le> n \<Longrightarrow> marks_known ts s \<Longrightarrow>
      \<exists>s'. visit n us i s = (None, s') \<and> grows s s' \<and> marks_known ts s'"
    and "us = ts \<Longrightarrow> (\<And>d. d \<in> set ds \<Longrightarrow> step_by_id ts d \<noteq> None \<Longrightarrow> above rk d s) \<Longrightarrow> fresh ts s \<le> n \<Longrightarrow> marks_known ts s \<Longrightarrow>
      \<exists>s'. visit_deps n us ds s = (None, s') \<and> grows s s' \<and> marks_known ts s'"
proof (induction n us i s and n us ds s rule: visit_visit_deps.induct)
  case (1 us i s)
  have "0 < fresh ts s" unfolding fresh_def by (subst card_gt_0_iff) (use "1.prems"(2,3) known_finite in auto)
  then show ?case using "1.prems"(5) by simp
next
  case (2 n us i s)
  let ?s1 = "s\<lparr>df_mark := (df_mark s)(i := 1), df_stack := df_stack s @ [i]\<rparr>"
  have "above rk d ?s1" if "d \<in> set (deps_of ts i)" "step_by_id ts d \<noteq> None" for d
    using acyc [OF that] "2.prems"(4) by (fastforce simp: above_def)
  moreover have "fresh ts ?s1 \<le> n" using fresh_start [OF "2.prems"(2,3), of "df_stack s @ [i]"] "2.prems"(5) by simp
  moreover have "marks_known ts ?s1" using "2.prems"(2,6) by (auto simp: marks_known_def)
  ultimately obtain s2 where s2: "visit_deps n us (deps_of us i) ?s1 = (None, s2)" "grows ?s1 s2" "marks_known ts s2"
    using "2.IH" [OF refl "2.prems"(1)] "2.prems"(1) by blast
  let ?s' = "s2\<lparr>df_mark := (df_mark s2)(i := 2), df_stack := butlast (df_stack s2)\<rparr>"
  have "grows s ?s'" using s2(2) "2.prems"(3) by (auto simp: grows_def)
  moreover have "marks_known ts ?s'" using s2(3) "2.prems"(2) by (auto simp: marks_known_def)
  ultimately show ?case using s2(1) by (simp add: Let_def)
next
  case (3 n us s)
  then show ?case by simp
next
  case (4 n us d ds s)
  have nd: "df_mark s d \<noteq> 1"
  proof
    assume one: "df_mark s d = 1"
    then have "step_by_id ts d \<noteq> None" using "4.prems"(4) unfolding marks_known_def by (metis zero_neq_one)
    then have "above rk d s" using "4.prems"(2) by simp
    then show False using one by (auto simp: above_def)
  qed
  show ?case
  proof (cases "df_mark s d \<noteq> 2 \<and> step_by_id us d \<noteq> None")
    case False
    then show ?thesis using "4.IH"(3) [OF nd False "4.prems"(1) _ "4.prems"(3,4)] "4.prems"(2) nd by auto
  next
    case True
    then have z: "df_mark s d = 0" using "4.prems"(4) nd by (auto simp: marks_known_def le_Suc_eq numeral_2_eq_2)
    have k: "step_by_id ts d \<noteq> None" using True "4.prems"(1) by simp
    obtain s1 where s1: "visit n us d s = (None, s1)" "grows s s1" "marks_known ts s1"
      using "4.IH"(1) [OF nd True "4.prems"(1) k z _ "4.prems"(3,4)] "4.prems"(2) k by auto
    have "above rk e s1" if "e \<in> set ds" "step_by_id ts e \<noteq> None" for e
      using "4.prems"(2) [of e] that s1(2) by (simp add: above_def grows_def)
    moreover have "fresh ts s1 \<le> n" using fresh_mono [OF s1(2), of ts] "4.prems"(3) by simp
    ultimately obtain s' where "visit_deps n us ds s1 = (None, s')" "grows s1 s'" "marks_known ts s'"
      using "4.IH"(2) [OF nd True refl _ _ "4.prems"(1), of None s1] s1 by auto
    then show ?thesis using True nd s1 search_grows_trans by (auto simp: Let_def)
  qed
qed

definition ranked_by :: "gstep list \<Rightarrow> (string \<Rightarrow> nat) \<Rightarrow> bool" where
  "ranked_by ts rk = list_all (\<lambda>t. list_all (\<lambda>d. step_by_id ts d = None \<or> rk d < rk (gs_id t)) (deps_of ts (gs_id t))) ts"

lemma ranked_everywhere:
  assumes "ranked_by ts rk" and "d \<in> set (deps_of ts x)" and "step_by_id ts d \<noteq> None"
  shows "rk d < rk x"
proof -
  obtain t where "step_by_id ts x = Some t" using assms(2) by (cases "step_by_id ts x") (simp_all add: deps_of_def)
  then obtain u where u: "u \<in> set ts" "x = gs_id u" by (auto simp: step_by_id_def dest!: map_of_SomeD)
  then have "step_by_id ts d = None \<or> rk d < rk (gs_id u)" using assms(1,2) unfolding ranked_by_def list_all_iff by blast
  then show ?thesis using u assms(3) by simp
qed

lemma search_from_sound:
  assumes "search_from n ts us s = None" and "finished_ok ts s" and "\<And>x. df_mark s x \<noteq> 1"
  shows "\<exists>s'. finished_ok ts s' \<and> (\<forall>x. df_mark s x = 2 \<longrightarrow> df_mark s' x = 2) \<and> (\<forall>t\<in>set us. df_mark s' (gs_id t) = 2)"
  using assms
proof (induction us arbitrary: s)
  case (Cons t us)
  show ?case
  proof (cases "df_mark s (gs_id t) = 0")
    case True
    obtain f s1 where v: "visit n ts (gs_id t) s = (f, s1)" by fastforce
    have f: "f = None" "search_from n ts us s1 = None" using Cons.prems(1) True v by (auto simp: Let_def split: option.splits)
    have s1: "finished_ok ts s1" "df_mark s1 (gs_id t) = 2" "grows s s1" using search_sound(1) [of n ts "gs_id t" s s1] v f Cons.prems(2) True by auto
    have "\<And>x. df_mark s1 x \<noteq> 1" using s1(3) Cons.prems(3) by (simp add: grows_def)
    from Cons.IH [OF f(2) s1(1) this] obtain s' where s': "finished_ok ts s'" "\<forall>x. df_mark s1 x = 2 \<longrightarrow> df_mark s' x = 2"
      "\<forall>t\<in>set us. df_mark s' (gs_id t) = 2" by blast
    show ?thesis by (rule exI [of _ s']) (use s' s1(2,3) in \<open>auto simp: grows_def\<close>)
  next
    case False
    have "df_mark s (gs_id t) \<le> 2" using Cons.prems(2) by (simp add: finished_ok_def)
    then have "df_mark s (gs_id t) = 2" using False Cons.prems(3) [of "gs_id t"] by linarith
    then show ?thesis using Cons.IH [of s] Cons.prems False by auto
  qed
qed auto

lemma search_from_complete:
  assumes "ranked_by ts rk" and "set us \<subseteq> set ts" and "marks_known ts s" and "\<And>x. df_mark s x \<noteq> 1" and "fresh ts s \<le> n"
  shows "search_from n ts us s = None"
  using assms(2-5)
proof (induction us arbitrary: s)
  case (Cons t us)
  show ?case
  proof (cases "df_mark s (gs_id t) = 0")
    case True
    have "step_by_id ts (gs_id t) \<noteq> None"
      using Cons.prems(1) by (auto simp: step_by_id_def map_of_eq_None_iff image_image)
    moreover have "above rk (gs_id t) s" using Cons.prems(3) by (simp add: above_def)
    ultimately obtain s1 where s1: "visit n ts (gs_id t) s = (None, s1)" "grows s s1" "marks_known ts s1"
      using search_complete(1) [of ts rk, OF ranked_everywhere [OF assms(1)] refl _ True _ Cons.prems(4,2)] by blast
    have "search_from n ts us s1 = None"
      using Cons.IH [of s1] Cons.prems s1 fresh_mono [OF s1(2), of ts] by (auto simp: grows_def)
    then show ?thesis using True s1(1) by simp
  next
    case False
    then show ?thesis using Cons by simp
  qed
qed simp

lemma findCycle_exact:
  "(findCycle ts = None) = (\<exists>rk. ranked_by ts rk)"
proof
  let ?s = "\<lparr>df_mark = \<lambda>_. 0, df_stack = []\<rparr>"
  {
    assume "findCycle ts = None"
    then have "\<exists>s'. finished_ok ts s' \<and> (\<forall>x. df_mark ?s x = 2 \<longrightarrow> df_mark s' x = 2) \<and> (\<forall>t\<in>set ts. df_mark s' (gs_id t) = 2)"
      unfolding findCycle_def by (rule search_from_sound) (simp_all add: finished_ok_def)
    then show "\<exists>rk. ranked_by ts rk" unfolding finished_ok_def ranked_by_def list_all_iff by meson
  next
    assume "\<exists>rk. ranked_by ts rk"
    then obtain rk where rk: "ranked_by ts rk" by blast
    have "{x. step_by_id ts x \<noteq> None \<and> df_mark ?s x = 0} \<subseteq> gs_id ` set ts"
      by (auto simp: step_by_id_def image_iff dest!: map_of_SomeD)
    then have "fresh ts ?s \<le> card (gs_id ` set ts)" unfolding fresh_def by (intro card_mono) auto
    also have "\<dots> \<le> length ts + 1" using card_image_le [of "set ts" gs_id] card_length [of ts] by simp
    finally show "findCycle ts = None"
      unfolding findCycle_def by (intro search_from_complete [OF rk]) (simp_all add: marks_known_def)
  }
qed

text \<open>The search for a cycle is exact: it reports none just when the steps can be ranked so that every known
  dependency ranks below its dependent. In particular it always returns, and its depth never exceeds the
  number of steps.\<close>

theorem search_decides_cycles:
  "(findCycle ts = None) = (\<exists>rk. ranked_by ts rk)"
  by (rule findCycle_exact)

section \<open>What the planner returns can be run\<close>

definition valid_graph :: "graph \<Rightarrow> nat \<Rightarrow> bool" where
  "valid_graph g maxTasks =
    (gr_tasks g \<noteq> [] \<and> length (gr_tasks g) \<le> maxTasks \<and> distinct (map gs_id (gr_tasks g)) \<and>
     list_all (\<lambda>t. isAspectCategory (gs_aspect t) \<and> isComplexityLevel (gs_complexity t)) (gr_tasks g) \<and> (\<exists>rk. closed_graph g rk))"

lemma id_pass_ok:
  "id_pass ts ids = ([], ids') \<Longrightarrow> distinct ids \<Longrightarrow>
   ids' = ids @ map (\<lambda>t. gs_id (graph_step t)) ts \<and> distinct ids' \<and> list_all (\<lambda>t. jget t ''id'' = JStr (gs_id (graph_step t))) ts"
proof (induction ts ids arbitrary: ids' rule: id_pass.induct)
  case (2 t ts ids)
  obtain i where i: "jget t ''id'' = JStr i" "js_trim i \<noteq> []" "i \<notin> set ids" "id_pass ts (ids @ [i]) = ([], ids')"
    using "2.prems"(1) by (cases "jget t ''id''") (auto split: prod.splits if_splits)
  have g: "gs_id (graph_step t) = i" using i(1) by (simp add: graph_step_def text_prop_def)
  have "distinct (ids @ [i])" using i(3) "2.prems"(2) by simp
  from "2.IH"(6) [OF i(1,2,4) this] show ?case using i(1) g by auto blast
qed simp

lemma no_error: "((if c then [x] else xs) = []) = (\<not> c \<and> xs = [])"
  by simp

lemma step_errors_none:
  assumes "step_errors str ids t = []" and "jget t ''id'' = JStr i"
  shows "isAspectCategory (gs_aspect (graph_step t)) \<and> isComplexityLevel (gs_complexity (graph_step t)) \<and>
    set (gs_dependsOn (graph_step t)) \<subseteq> set ids"
proof -
  have a1: "\<not> bad_choice isAspectCategory (jget t ''aspect'')" "\<not> bad_choice isComplexityLevel (jget t ''estimatedComplexity'')"
    "is_arr (jget t ''dependsOn'')" "concat (map (dep_errors str ids i) (arr_of (jget t ''dependsOn''))) = []"
    using assms unfolding step_errors_def by (simp_all only: js.case Let_def append_is_Nil_conv no_error not_not simp_thms)
  have a: "\<forall>d\<in>set (arr_of (jget t ''dependsOn'')). \<not> bad_choice (\<lambda>s. s \<in> set ids) d"
    using a1(4) by (auto simp: dep_errors_def split: if_split_asm)
  have c: "P (text_prop t k)" if "\<not> bad_choice P (jget t k)" for P k
    using that by (cases "jget t k") (simp_all add: bad_choice_def text_prop_def)
  have "x \<in> set ids" if x: "x \<in> set (List.map_filter str_of (arr_of (jget t ''dependsOn'')))" for x
  proof -
    obtain d where d: "d \<in> set (arr_of (jget t ''dependsOn''))" "str_of d = Some x" using x by (auto simp: mem_map_filter)
    have "d = JStr x" using d(2) by (cases d) simp_all
    moreover have "\<not> bad_choice (\<lambda>s. s \<in> set ids) d" using a d(1) by blast
    ultimately show ?thesis by (simp add: bad_choice_def)
  qed
  then show ?thesis using c [OF a1(1)] c [OF a1(2)] by (simp add: graph_step_def subset_iff)
qed

lemma step_by_id_self:
  assumes "distinct (map gs_id ts)" and "t \<in> set ts"
  shows "step_by_id ts (gs_id t) = Some t"
proof -
  have "distinct (map fst (rev (map (\<lambda>t. (gs_id t, t)) ts)))" using assms(1) by (simp add: o_def flip: rev_map)
  then show ?thesis using assms(2) unfolding step_by_id_def by (intro map_of_is_SomeI) auto
qed

lemma validated:
  assumes "validateTaskGraph str tasks maxTasks = []"
  shows "valid_graph \<lparr>gr_sharedContext = c, gr_tasks = map graph_step (arr_of tasks)\<rparr> maxTasks"
proof -
  define ts where "ts = arr_of tasks"
  define gs where "gs = map graph_step ts"
  obtain es ids where p: "id_pass ts [] = (es, ids)" by fastforce
  have v: "ts \<noteq> []" "length ts \<le> maxTasks" "es = []" "\<forall>t\<in>set ts. step_errors str ids t = []" "findCycle gs = None"
    using assms p by (auto simp: validateTaskGraph_def Let_def gs_def simp flip: ts_def split: if_splits option.splits)
  have ids: "ids = map gs_id gs" "distinct (map gs_id gs)" "\<forall>t\<in>set ts. jget t ''id'' = JStr (gs_id (graph_step t))"
    using id_pass_ok [of ts "[]" ids] p v(3) by (auto simp: gs_def o_def list_all_iff)
  have st: "isAspectCategory (gs_aspect g) \<and> isComplexityLevel (gs_complexity g) \<and> set (gs_dependsOn g) \<subseteq> gs_id ` set gs" if g: "g \<in> set gs" for g
  proof -
    obtain t where t: "t \<in> set ts" "g = graph_step t" using g by (auto simp: gs_def)
    have "set ids = gs_id ` set gs" by (simp add: ids(1))
    then show ?thesis using step_errors_none [of str ids t] v(4) ids(3) t by auto
  qed
  obtain rk where rk: "ranked_by gs rk" using v(5) findCycle_exact [of gs] by blast
  have "rk d < rk (gs_id g)" if gd: "g \<in> set gs" "d \<in> set (gs_dependsOn g)" for g d
  proof (rule ranked_everywhere [OF rk])
    show "d \<in> set (deps_of gs (gs_id g))" using gd step_by_id_self [OF ids(2)] by (simp add: deps_of_def)
    obtain u where "u \<in> set gs" "d = gs_id u" using st gd by fastforce
    then show "step_by_id gs d \<noteq> None" using step_by_id_self [OF ids(2)] by simp
  qed
  then have "closed_graph \<lparr>gr_sharedContext = c, gr_tasks = gs\<rparr> rk" using st by (fastforce simp: closed_graph_def list_all_iff)
  then show ?thesis using v ids st unfolding valid_graph_def by (auto simp: list_all_iff gs_def simp flip: ts_def)
qed

lemma fallback_valid: "1 \<le> maxTasks \<Longrightarrow> valid_graph (singleTaskFallback prompt) maxTasks"
proof -
  have "isAspectCategory ''architecture''" "isComplexityLevel ''high''" by code_simp+
  then show "1 \<le> maxTasks \<Longrightarrow> valid_graph (singleTaskFallback prompt) maxTasks"
    by (simp add: valid_graph_def singleTaskFallback_def plain_step_def closed_graph_def)
qed

lemma sample_roundtrip: "map graph_step (map step_js (gr_tasks offlineSampleGraph)) = gr_tasks offlineSampleGraph"
proof -
  have "graph_step (step_js (plain_step i ti a d ds c de)) = plain_step i ti a d ds c de" for i ti a d ds c de
    by (induction ds) (auto simp: graph_step_def step_js_def plain_step_def text_prop_def List.map_filter_def)
  then show ?thesis by (simp add: offlineSampleGraph_def)
qed

lemma graph_whole: "\<lparr>gr_sharedContext = gr_sharedContext g, gr_tasks = gr_tasks g\<rparr> = (g :: graph)"
  by (cases g) simp

lemma attempt_valid: "attemptDecompose jp str ex prompt maxTasks es lessons = PlanOk p \<Longrightarrow> valid_graph (pn_graph p) maxTasks"
proof -
  assume a: "attemptDecompose jp str ex prompt maxTasks es lessons = PlanOk p"
  obtain out m where ex: "ex (buildDecomposePrompt prompt maxTasks es lessons) = (out, m)" by fastforce
  define v where "v = parseProbeJson jp (xr_output out)"
  define tasks where "tasks = (if is_arr (jget v ''tasks'') then jget v ''tasks'' else JNull)"
  have "validateTaskGraph str tasks maxTasks = []"
    "pn_graph p = \<lparr>gr_sharedContext = text_prop v ''sharedContext'', gr_tasks = map graph_step (arr_of tasks)\<rparr>"
    using a by (auto simp: attemptDecompose_def Let_def ex simp flip: v_def tasks_def split: if_splits)
  then show ?thesis using validated by simp
qed

lemma decompose_valid:
  assumes "decompose dryRun jp str pools execute prompt maxTasks lessons = Inr p" and "1 \<le> maxTasks"
  shows "valid_graph (pn_graph p) maxTasks"
proof -
  have sample: "valid_graph offlineSampleGraph maxTasks"
    if "validateTaskGraph str (JArr (map step_js (gr_tasks offlineSampleGraph))) maxTasks = []"
    using validated [OF that, of "gr_sharedContext offlineSampleGraph"] unfolding arr_of.simps sample_roundtrip graph_whole .
  show ?thesis
    using assms fallback_valid [OF assms(2)] attempt_valid sample
    by (auto simp: decompose_def Let_def unplanned_def split: option.splits plan_attempt.splits if_splits)
qed

text \<open>Every plan the decomposer returns, from whatever answers, is one the scheduler can finish: at most the allowed
  number of steps, distinct ids, known categories, and closed and acyclic dependencies; so a run of it
  that is neither drained nor cancelled, with a model to route to, settles every step.\<close>

theorem planned_run_settles:
  assumes "decompose dryRun jp str pools execute prompt maxTasks lessons = Inr p" and "1 \<le> maxTasks"
    and "routable env" and "\<forall>s. \<not> sv_drain env s \<and> \<not> sv_cancel env s" and "run_graph env (pn_graph p) resumeFrom = Some (fs, s)"
  shows "valid_graph (pn_graph p) maxTasks \<and> (fs = RunComplete \<or> fs = RunFailed) \<and> list_all (settled \<circ> snd) (sd_tasks s)"
proof -
  have v: "valid_graph (pn_graph p) maxTasks" by (rule decompose_valid [OF assms(1,2)])
  then obtain rk where "closed_graph (pn_graph p) rk" unfolding valid_graph_def by blast
  from graph_settles [OF this assms(3-5)] show ?thesis using v by (auto simp: list_all_iff settled_def)
qed

theorem planned_run_settles_witness:
  "\<exists>p fs s. decompose False (\<lambda>_. None) (\<lambda>_. []) (\<lambda>_. None) (\<lambda>_ _. (down_answer, None)) ''x'' 8 [] = Inr p \<and>
     run_graph (one_pool (env_answering down_answer) [\<lparr>ca_modelId = ''m'', ca_pool = ''p''\<rparr>]) (pn_graph p) (\<lambda>_. None) = Some (fs, s) \<and>
     (fs = RunComplete \<or> fs = RunFailed)"
proof -
  let ?env = "one_pool (env_answering down_answer) [\<lparr>ca_modelId = ''m'', ca_pool = ''p''\<rparr>]"
  obtain p where p: "decompose False (\<lambda>_. None) (\<lambda>_. []) (\<lambda>_. None) (\<lambda>_ _. (down_answer, None)) ''x'' 8 [] = Inr p"
    by (simp add: decompose_def pickDecomposerAdapter_def DECOMPOSER_POOL_ORDER_def)
  obtain s where s: "run_graph ?env (pn_graph p) (\<lambda>_. None) = Some (finalState s, s)" using run_graph_returns by blast
  have "routable ?env" "\<forall>s. \<not> sv_drain ?env s \<and> \<not> sv_cancel ?env s" by (simp_all add: routable_def one_pool_def)
  from planned_run_settles [OF p _ this s] show ?thesis using p s by auto
qed

lemma decompose_parkable:
  assumes "decompose dryRun jp str pools execute prompt maxTasks lessons = Inl e"
  shows "PARKABLE (cf_class (classifyFailure e)) \<noteq> None \<and> er_code e = Some ''PLAN_FAILED''"
proof -
  have "PARKABLE (cf_class (classifyFailure e')) \<noteq> None \<and> er_code e' = Some ''PLAN_FAILED''" if t: "throwIfParkable a = Some e'" for a e'
  proof -
    obtain es f where a: "a = PlanBad es (Some f)"
      using t by (auto simp: throwIfParkable_def split: plan_attempt.splits option.splits)
    have f: "PARKABLE (cf_class f) \<noteq> None" "er_class e' = Some (cf_class f)" "er_code e' = Some ''PLAN_FAILED''"
      using t unfolding a by (auto simp: throwIfParkable_def split: if_splits)
    have "cf_class f \<in> set FAILURE_CLASSES" using f(1) by (auto simp: PARKABLE_def FAILURE_CLASSES_def split: if_splits)
    then show ?thesis using f by (simp add: classifyFailure_def Let_def)
  qed
  then show ?thesis using assms by (auto simp: decompose_def Let_def split: option.splits plan_attempt.splits if_splits)
qed

text \<open>An error the decomposer throws is one the engine parks on: classified again by the engine it keeps its class,
  which is parkable.\<close>

theorem plan_errors_park:
  assumes "decompose dryRun jp str pools execute prompt maxTasks lessons = Inl e"
  shows "PARKABLE (cf_class (classifyFailure e)) \<noteq> None \<and> er_code e = Some ''PLAN_FAILED''"
  using assms by (rule decompose_parkable)

theorem plan_errors_park_witness:
  "\<exists>e. decompose False (\<lambda>_. None) (\<lambda>_. []) (\<lambda>_. Some \<lparr>pl_inFlight = 0, pl_maxConcurrency = 1\<rparr>) (\<lambda>_ _. (down_answer, None)) ''x'' 8 [] = Inl e \<and>
     PARKABLE (cf_class (classifyFailure e)) \<noteq> None"
proof -
  let ?d = "decompose False (\<lambda>_. None) (\<lambda>_. []) (\<lambda>_. Some \<lparr>pl_inFlight = 0, pl_maxConcurrency = 1\<rparr>) (\<lambda>_ _. (down_answer, None)) ''x'' 8 []"
  have "case ?d of Inl e \<Rightarrow> True | Inr _ \<Rightarrow> False" by code_simp
  then obtain e where "?d = Inl e" by (auto split: sum.splits)
  with plan_errors_park [OF this] show ?thesis by blast
qed

end
