(* ===== verification/Synthesizer.thy ===== *)
theory Synthesizer
  imports Decomposer "HOL-Library.Multiset"
begin

text \<open>
  Merging what the steps of a run wrote, \<open>src/orchestrator/synthesizer.js\<close>: the topological order of the
  steps, the collection of their files by path, the resolution of conflicting versions, the file tree and the
  summary. Parsing is theory Envelope, over the same arguments (\<open>JSON.parse\<close>, an optional repair call).
  The tier that the code also notes on the live step is read nowhere; it is in the parse results here.
\<close>

section \<open>The order of the steps\<close>

definition indegrees :: "gstep list \<Rightarrow> string \<Rightarrow> int" where
  "indegrees ts i =
    int (sum_list (map (\<lambda>t. if gs_id t = i then length (filter (\<lambda>d. step_by_id ts d \<noteq> None) (gs_dependsOn t)) else 0) ts))"

text \<open>A visited step lowers the count of each dependent by one, and queues those that reach zero.\<close>

fun relax :: "gstep list \<Rightarrow> string \<Rightarrow> (string \<Rightarrow> int) \<Rightarrow> (string \<Rightarrow> int) \<times> string list" where
  "relax [] i deg = (deg, [])"
| "relax (t # us) i deg =
     (if i \<in> set (gs_dependsOn t) then
        (let remaining = deg (gs_id t) - 1; rest = relax us i (deg(gs_id t := remaining))
         in (fst rest, if remaining = 0 then gs_id t # snd rest else snd rest))
      else relax us i deg)"

lemma relax_pushed: "set (snd (relax us i deg)) \<subseteq> gs_id ` set us"
proof (induction us arbitrary: deg)
  case (Cons t us)
  then show ?case using Cons.IH [of "deg(gs_id t := deg (gs_id t) - 1)"] Cons.IH [of deg] by (auto simp: Let_def simp del: fun_upd_apply)
qed simp

function topo_loop :: "gstep list \<Rightarrow> string list \<Rightarrow> string list \<Rightarrow> (string \<Rightarrow> int) \<Rightarrow> string list" where
  "topo_loop ts [] visited deg = visited"
| "topo_loop ts (i # queue) visited deg =
     (if i \<in> set visited then topo_loop ts queue visited deg
      else topo_loop ts (queue @ snd (relax ts i deg)) (visited @ [i]) (fst (relax ts i deg)))"
  by pat_completeness auto
termination
proof (relation "measures [\<lambda>(ts, queue, visited, _). card ((set queue \<union> gs_id ` set ts) - set visited), \<lambda>(_, queue, _). length queue]", simp)
  fix ts :: "gstep list" and i :: string and queue visited :: "string list" and deg :: "string \<Rightarrow> int"
  assume "i \<in> set visited"
  then have "(set (i # queue) \<union> gs_id ` set ts) - set visited = (set queue \<union> gs_id ` set ts) - set visited" by auto
  then show "((ts, queue, visited, deg), ts, i # queue, visited, deg)
    \<in> measures [\<lambda>(ts, queue, visited, _). card ((set queue \<union> gs_id ` set ts) - set visited), \<lambda>(_, queue, _). length queue]"
    by simp
next
  fix ts :: "gstep list" and i :: string and queue visited :: "string list" and deg :: "string \<Rightarrow> int"
  assume i: "i \<notin> set visited"
  have "(set (queue @ snd (relax ts i deg)) \<union> gs_id ` set ts) - set (visited @ [i]) \<subset> (set (i # queue) \<union> gs_id ` set ts) - set visited"
    using relax_pushed [of ts i deg] i by auto
  then have "card ((set (queue @ snd (relax ts i deg)) \<union> gs_id ` set ts) - set (visited @ [i])) < card ((set (i # queue) \<union> gs_id ` set ts) - set visited)"
    by (rule psubset_card_mono [rotated]) simp
  then show "((ts, queue @ snd (relax ts i deg), visited @ [i], fst (relax ts i deg)), ts, i # queue, visited, deg)
    \<in> measures [\<lambda>(ts, queue, visited, _). card ((set queue \<union> gs_id ` set ts) - set visited), \<lambda>(_, queue, _). length queue]"
    by simp
qed

definition topoOrder :: "gstep list \<Rightarrow> gstep list" where
  "topoOrder ts =
    (let deg = indegrees ts; queue = map gs_id (filter (\<lambda>t. deg (gs_id t) = 0) ts); visited = topo_loop ts queue [] deg
     in List.map_filter (step_by_id ts) visited @ filter (\<lambda>t. gs_id t \<notin> set visited) ts)"

section \<open>Conflicting paths and the tree\<close>

record synth_file =
  sf_path :: string
  sf_content :: string
  sf_sourceTaskId :: string
  sf_conflict :: bool
  sf_conflictsWithPath :: "string option"

record conflict =
  co_path :: string
  co_versions :: "(string \<times> string) list"

text \<open>The last segment of a path and what is before it, slash included; the same for the last dot of a text.\<close>

definition split_last :: "char \<Rightarrow> string \<Rightarrow> (string \<times> string) option" where
  "split_last c s = (if c \<in> set s then
      (let suffix = rev (takeWhile (\<lambda>x. x \<noteq> c) (rev s)) in Some (take (length s - length suffix - 1) s, suffix)) else None)"

text \<open>The last dot is after the last slash just when there is a dot in the last segment.\<close>

definition conflictPath :: "string \<Rightarrow> string \<Rightarrow> string" where
  "conflictPath path taskId =
    (case split_last (CHR ''.'') path of
       Some (stem, ext) \<Rightarrow> if CHR ''/'' \<in> set ext then path @ ''.'' @ taskId else stem @ ''.'' @ taskId @ ''.'' @ ext
     | None \<Rightarrow> path @ ''.'' @ taskId)"

datatype ftree = FFile synth_file | FDir "(string \<times> ftree) list"

text \<open>The tree is a JavaScript object, so a segment \<open>__proto__\<close> does not name a property of its own: the code
  then writes into \<open>Object.prototype\<close>, or changes the prototype of the directory; \<open>None\<close> says so. A directory
  is replaced when it has a child called \<open>path\<close>, as a file in its place is.\<close>

fun addToTree :: "string list \<Rightarrow> synth_file \<Rightarrow> (string \<times> ftree) list \<Rightarrow> (string \<times> ftree) list option" where
  "addToTree [] f node = Some node"
| "addToTree [seg] f node = (if seg = ''__proto__'' then None else Some (assoc_put seg (FFile f) node))"
| "addToTree (seg # s # segs) f node =
     (if seg = ''__proto__'' then None
      else
        (let sub = (case map_of node seg of Some (FDir d) \<Rightarrow> if map_of d ''path'' = None then d else [] | _ \<Rightarrow> [])
         in map_option (\<lambda>d. assoc_put seg (FDir d) node) (addToTree (s # segs) f sub)))"

definition add_file :: "synth_file \<Rightarrow> (string \<times> ftree) list option \<Rightarrow> (string \<times> ftree) list option" where
  "add_file f tree = Option.bind tree (addToTree (split_on (\<lambda>c. c = CHR ''/'') (sf_path f)) f)"

section \<open>Collecting the files\<close>

definition step_state_name :: "step_state \<Rightarrow> string" where
  "step_state_name s = (case s of SPending \<Rightarrow> ''pending'' | SQueued \<Rightarrow> ''queued'' | SRunning \<Rightarrow> ''running'' | SComplete \<Rightarrow> ''complete''
     | SFailed \<Rightarrow> ''failed'' | SBlocked \<Rightarrow> ''blocked'' | SCancelled \<Rightarrow> ''cancelled'' | SMalformed \<Rightarrow> ''malformed_output'')"

definition bquote :: "string \<Rightarrow> string" where "bquote s = [CHR 0x60] @ s @ [CHR 0x60]"

record synth_acc =
  sa_byPath :: "(string \<times> (string \<times> string) list) list"
  sa_lines :: "string list"
  sa_results :: "(string \<times> nat option \<times> bool) list"

definition line_head :: "gstep \<Rightarrow> string" where
  "line_head t = ''- **'' @ gs_title t @ ''** ('' @ bquote (gs_id t) @ '') '' @ em_dash @ '' ''"

definition parsed_line :: "gstep \<Rightarrow> string \<Rightarrow> parsed_output \<Rightarrow> string" where
  "parsed_line t model p =
    line_head t @ ''completed via '' @ bquote model @ ''; '' @
    (if po_malformed p then ''output looked like a files-envelope attempt but could not be parsed by any tier (malformed_output).''
     else if po_files p = [] then ''freeform output, no file blocks detected.''
     else ''produced '' @ show_nat (length (po_files p)) @ '' file(s)''
       @ (if po_tier p = Some 1 then [] else '' (tier '' @ (case po_tier p of Some n \<Rightarrow> show_nat n | None \<Rightarrow> ''null'') @ '' parse)'')
       @ '': '' @ join_with '', '' (map (\<lambda>f. bquote (of_path f)) (po_files p)) @ ''.'')"

definition push_version :: "string \<Rightarrow> out_file \<Rightarrow> (string \<times> (string \<times> string) list) list \<Rightarrow> (string \<times> (string \<times> string) list) list" where
  "push_version taskId b m = assoc_put (of_path b) (dflt (map_of m (of_path b)) [] @ [(taskId, of_content b)]) m"

text \<open>The output of a step that counts.\<close>

definition used_output :: "(string \<times> entry) list \<Rightarrow> gstep \<Rightarrow> string option" where
  "used_output ents t =
    (case map_of ents (gs_id t) of
       None \<Rightarrow> None
     | Some e \<Rightarrow> if en_state e \<noteq> SComplete then None else (case en_output e of None \<Rightarrow> None | Some out \<Rightarrow> if out = [] then None else Some out))"

definition synth_step ::
  "(string \<Rightarrow> js option) \<Rightarrow> (string \<Rightarrow> string option) option \<Rightarrow> (string \<times> entry) list \<Rightarrow> gstep \<Rightarrow> synth_acc \<Rightarrow> synth_acc" where
  "synth_step jp repair ents t acc =
    (case used_output ents t of
       None \<Rightarrow> acc\<lparr>sa_lines := sa_lines acc @ [line_head t
          @ (case map_of ents (gs_id t) of None \<Rightarrow> ''missing'' | Some e \<Rightarrow> step_state_name (en_state e)) @ '', no output.'']\<rparr>
     | Some out \<Rightarrow>
         (let parsed = parseTaskOutput jp repair out;
              model = (case Option.bind (map_of ents (gs_id t)) en_assignment of None \<Rightarrow> ''unknown model'' | Some (m, _) \<Rightarrow> m)
          in \<lparr>sa_byPath = fold (push_version (gs_id t)) (po_files parsed) (sa_byPath acc),
              sa_lines = sa_lines acc @ [parsed_line t model parsed],
              sa_results = assoc_put (gs_id t) (po_tier parsed, po_malformed parsed) (sa_results acc)\<rparr>))"

section \<open>The deliverable\<close>

record synthesis =
  sy_files :: "synth_file list"
  sy_conflicts :: "conflict list"
  sy_fileTree :: "(string \<times> ftree) list option"
  sy_markdownSummary :: string
  sy_taskParseResults :: "(string \<times> nat option \<times> bool) list"

definition version_file :: "string \<Rightarrow> bool \<Rightarrow> string \<times> string \<Rightarrow> synth_file" where
  "version_file path first v =
    \<lparr>sf_path = (if first then path else conflictPath path (fst v)), sf_content = snd v, sf_sourceTaskId = fst v,
     sf_conflict = True, sf_conflictsWithPath = Some path\<rparr>"

text \<open>The files of one path: one version keeps the path, of several the first does.\<close>

definition path_files :: "string \<times> (string \<times> string) list \<Rightarrow> synth_file list" where
  "path_files pv =
    (case pv of
       (path, [v]) \<Rightarrow> [\<lparr>sf_path = path, sf_content = snd v, sf_sourceTaskId = fst v, sf_conflict = False, sf_conflictsWithPath = None\<rparr>]
     | (path, []) \<Rightarrow> []
     | (path, v # vs) \<Rightarrow> version_file path True v # map (version_file path False) vs)"

definition path_conflicts :: "string \<times> (string \<times> string) list \<Rightarrow> conflict list" where
  "path_conflicts pv =
    (if length (snd pv) = 1 then []
     else [\<lparr>co_path = fst pv, co_versions = map (\<lambda>f. (sf_sourceTaskId f, sf_path f)) (path_files pv)\<rparr>])"

definition buildMarkdownSummary ::
  "graph \<Rightarrow> gstep list \<Rightarrow> (string \<times> entry) list \<Rightarrow> string list \<Rightarrow> conflict list \<Rightarrow> synth_file list \<Rightarrow> string" where
  "buildMarkdownSummary g ordered ents summaryLines conflicts files =
    join_with newline
      ([''# Orchestration Summary'', [],
        show_nat (length (filter (\<lambda>t. state_in ents (gs_id t) = Some SComplete) ordered)) @ ''/'' @ show_nat (length ordered) @ '' tasks completed.'',
        [], ''## Tasks'', []] @ summaryLines
       @ (if conflicts \<noteq> [] then
            [[], ''## File conflicts'', []] @ map (\<lambda>c. ''- '' @ bquote (co_path c) @ '' was written by '' @ show_nat (length (co_versions c)) @ '' tasks: ''
              @ join_with '', '' (map (\<lambda>v. bquote (fst v) @ '' (kept as '' @ bquote (snd v) @ '')'') (co_versions c))) conflicts
          else [])
       @ (if files \<noteq> [] then
            [[], ''## Files produced'', []] @ map (\<lambda>f. ''- '' @ bquote (sf_path f)) (filter (\<lambda>f. \<not> sf_conflict f) files)
          else [])
       @ (if gr_sharedContext g \<noteq> [] then [[], ''## Shared context used for this run'', [], gr_sharedContext g] else []))"

definition collect_files ::
  "(string \<Rightarrow> js option) \<Rightarrow> (string \<Rightarrow> string option) option \<Rightarrow> (string \<times> entry) list \<Rightarrow> gstep list \<Rightarrow> synth_acc" where
  "collect_files jp repair ents ordered =
    fold (synth_step jp repair ents) ordered \<lparr>sa_byPath = [], sa_lines = [], sa_results = []\<rparr>"

definition synthesize ::
  "(string \<Rightarrow> js option) \<Rightarrow> (string \<Rightarrow> string option) option \<Rightarrow> graph \<Rightarrow> (string \<times> entry) list \<Rightarrow> synthesis" where
  "synthesize jp repair g ents =
    (let ordered = topoOrder (gr_tasks g);
         acc = collect_files jp repair ents ordered;
         files = concat (map path_files (sa_byPath acc));
         conflicts = concat (map path_conflicts (sa_byPath acc)) in
     \<lparr>sy_files = files, sy_conflicts = conflicts, sy_fileTree = fold add_file files (Some []),
      sy_markdownSummary = buildMarkdownSummary g ordered ents (sa_lines acc) conflicts files,
      sy_taskParseResults = sa_results acc\<rparr>)"


section \<open>The order is a permutation\<close>

lemma loop_visits:
  "distinct vis \<Longrightarrow> set vis \<subseteq> gs_id ` set ts \<Longrightarrow> set q \<subseteq> gs_id ` set ts \<Longrightarrow>
   distinct (topo_loop ts q vis deg) \<and> set (topo_loop ts q vis deg) \<subseteq> gs_id ` set ts"
proof (induction ts q vis deg rule: topo_loop.induct)
  case (2 ts i q vis deg)
  show ?case
  proof (cases "i \<in> set vis")
    case False
    have "set (q @ snd (relax ts i deg)) \<subseteq> gs_id ` set ts" using "2.prems"(3) relax_pushed [of ts i deg] by auto
    then show ?thesis using "2.IH"(2) [OF False] "2.prems" False by simp
  qed (use 2 in simp)
qed simp

lemma map_filter_total: "(\<And>x. x \<in> set xs \<Longrightarrow> f x \<noteq> None) \<Longrightarrow> List.map_filter f xs = map (\<lambda>x. the (f x)) xs"
  unfolding List.map_filter_def by (intro arg_cong2 [where f = map] filter_True) (auto simp: o_def)

lemma visited_mset:
  assumes "distinct (map gs_id ts)" and "distinct vis" and "set vis \<subseteq> gs_id ` set ts"
  shows "mset (List.map_filter (step_by_id ts) vis) = mset (filter (\<lambda>t. gs_id t \<in> set vis) ts)"
proof -
  have inj: "inj_on gs_id (set ts)" and d: "distinct ts" using assms(1) by (simp_all add: distinct_map)
  have s: "step_by_id ts i \<noteq> None" "gs_id (the (step_by_id ts i)) = i" "the (step_by_id ts i) \<in> set ts" if i: "i \<in> set vis" for i
  proof -
    obtain t where "t \<in> set ts" "i = gs_id t" using i assms(3) by auto
    then show "step_by_id ts i \<noteq> None" "gs_id (the (step_by_id ts i)) = i" "the (step_by_id ts i) \<in> set ts"
      using step_by_id_self [OF assms(1)] by simp_all
  qed
  have m: "List.map_filter (step_by_id ts) vis = map (\<lambda>i. the (step_by_id ts i)) vis"
    by (rule map_filter_total) (erule s(1))
  have "inj_on (\<lambda>i. the (step_by_id ts i)) (set vis)" by (rule inj_on_inverseI [of _ gs_id]) (erule s(2))
  then have "distinct (map (\<lambda>i. the (step_by_id ts i)) vis)" using assms(2) by (simp add: distinct_map)
  moreover have "set (map (\<lambda>i. the (step_by_id ts i)) vis) = set (filter (\<lambda>t. gs_id t \<in> set vis) ts)"
  proof
    show "set (map (\<lambda>i. the (step_by_id ts i)) vis) \<subseteq> set (filter (\<lambda>t. gs_id t \<in> set vis) ts)" using s by auto
    show "set (filter (\<lambda>t. gs_id t \<in> set vis) ts) \<subseteq> set (map (\<lambda>i. the (step_by_id ts i)) vis)"
      using step_by_id_self [OF assms(1)] by force
  qed
  ultimately show ?thesis unfolding m using d by (intro set_eq_iff_mset_eq_distinct [THEN iffD1]) simp_all
qed

lemma topo_visited:
  "distinct (topo_loop ts (map gs_id (filter P ts)) [] deg)" "set (topo_loop ts (map gs_id (filter P ts)) [] deg) \<subseteq> gs_id ` set ts"
  using loop_visits [of "[]" ts "map gs_id (filter P ts)" deg] by auto

lemma topoOrder_mset:
  assumes "distinct (map gs_id ts)"
  shows "mset (topoOrder ts) = mset ts"
proof -
  let ?vis = "topo_loop ts (map gs_id (filter (\<lambda>t. indegrees ts (gs_id t) = 0) ts)) [] (indegrees ts)"
  have "mset (topoOrder ts) = mset (filter (\<lambda>t. gs_id t \<in> set ?vis) ts) + mset (filter (\<lambda>t. gs_id t \<notin> set ?vis) ts)"
    unfolding topoOrder_def Let_def mset_append visited_mset [OF assms topo_visited] ..
  then show ?thesis by (simp flip: multiset_partition)
qed

text \<open>No step is lost and none is merged twice: the order the synthesizer works in is a permutation of the
  plan, also for dependencies that are unknown, repeated or cyclic.\<close>

theorem topo_order_permutes:
  assumes "distinct (map gs_id ts)"
  shows "mset (topoOrder ts) = mset ts"
  using assms by (rule topoOrder_mset)

definition order_sample :: "gstep list" where
  "order_sample = [plain_step ''c'' [] [] [] [''b'', ''zz''] [] [], plain_step ''b'' [] [] [] [''a''] [] [], plain_step ''a'' [] [] [] [] [] []]"

theorem topo_order_permutes_witness:
  "mset (topoOrder order_sample) = mset order_sample \<and> map gs_id (topoOrder order_sample) = [''a'', ''b'', ''c'']"
proof -
  have d: "distinct (map gs_id order_sample)" by code_simp
  have o: "map gs_id (topoOrder order_sample) = [''a'', ''b'', ''c'']"
    by (simp add: topoOrder_def order_sample_def plain_step_def indegrees_def step_by_id_def)
  show ?thesis using topo_order_permutes [OF d] o by simp
qed


section \<open>The order follows the dependencies\<close>

fun deps_first :: "gstep list \<Rightarrow> string list \<Rightarrow> gstep list \<Rightarrow> bool" where
  "deps_first ts seen [] = True"
| "deps_first ts seen (t # us) =
     (list_all (\<lambda>d. step_by_id ts d = None \<or> d \<in> set seen) (gs_dependsOn t) \<and> deps_first ts (seen @ [gs_id t]) us)"

lemma deps_first_append: "deps_first ts seen (us @ vs) = (deps_first ts seen us \<and> deps_first ts (seen @ map gs_id us) vs)"
  by (induction us arbitrary: seen) auto

definition unmet :: "gstep list \<Rightarrow> string list \<Rightarrow> gstep \<Rightarrow> nat" where
  "unmet ts vis t = length (filter (\<lambda>d. step_by_id ts d \<noteq> None \<and> d \<notin> set vis) (gs_dependsOn t))"

lemma length_filter_less: "distinct xs \<Longrightarrow> length (filter P xs) = length (filter (\<lambda>x. P x \<and> x \<noteq> i) xs) + (if i \<in> set xs \<and> P i then 1 else 0)"
  by (induction xs) (auto cong: if_cong)

lemma unmet_visit:
  assumes "distinct (gs_dependsOn t)" and "step_by_id ts i \<noteq> None" and "i \<notin> set vis"
  shows "unmet ts vis t = unmet ts (vis @ [i]) t + (if i \<in> set (gs_dependsOn t) then 1 else 0)"
proof -
  have e: "(\<lambda>d. (step_by_id ts d \<noteq> None \<and> d \<notin> set vis) \<and> d \<noteq> i) = (\<lambda>d. step_by_id ts d \<noteq> None \<and> d \<notin> set (vis @ [i]))" by auto
  show ?thesis
    using length_filter_less [OF assms(1), of "\<lambda>d. step_by_id ts d \<noteq> None \<and> d \<notin> set vis" i] assms(2,3)
    unfolding unmet_def e by simp
qed

lemma relax_other: "x \<notin> gs_id ` set us \<Longrightarrow> fst (relax us i deg) x = deg x"
  by (induction us i deg rule: relax.induct) (auto simp: Let_def)

lemma relax_spec:
  "distinct (map gs_id us) \<Longrightarrow> t \<in> set us \<Longrightarrow>
     fst (relax us i deg) (gs_id t) = deg (gs_id t) - (if i \<in> set (gs_dependsOn t) then 1 else 0) \<and>
     (gs_id t \<in> set (snd (relax us i deg)) \<longleftrightarrow> i \<in> set (gs_dependsOn t) \<and> deg (gs_id t) = 1)"
proof (induction us arbitrary: deg)
  case (Cons u us)
  show ?case
  proof (cases "t = u")
    case True
    have n: "gs_id u \<notin> gs_id ` set us" using Cons.prems(1) by simp
    then have "gs_id u \<notin> set (snd (relax us i d))" for d using relax_pushed [of us i d] by blast
    then show ?thesis using True relax_other [OF n] by (simp add: Let_def)
  next
    case False
    then have t: "t \<in> set us" "distinct (map gs_id us)" "gs_id u \<notin> gs_id ` set us" using Cons.prems by simp_all
    then have ne: "gs_id t \<noteq> gs_id u" by (metis image_eqI)
    note ih = Cons.IH [OF t(2,1)]
    show ?thesis using ne by (simp add: Let_def ih [THEN conjunct1] ih [THEN conjunct2])
  qed
qed simp

definition topo_inv :: "gstep list \<Rightarrow> string list \<Rightarrow> string list \<Rightarrow> (string \<Rightarrow> int) \<Rightarrow> bool" where
  "topo_inv ts q vis deg =
    (set q \<subseteq> gs_id ` set ts \<and> set vis \<subseteq> gs_id ` set ts \<and>
     (\<forall>t\<in>set ts. deg (gs_id t) = int (unmet ts vis t) \<and> (gs_id t \<in> set q \<union> set vis \<longleftrightarrow> unmet ts vis t = 0)) \<and>
     deps_first ts [] (List.map_filter (step_by_id ts) vis))"

lemma map_filter_ids:
  assumes "distinct (map gs_id ts)" and "set vis \<subseteq> gs_id ` set ts"
  shows "map gs_id (List.map_filter (step_by_id ts) vis) = vis"
  using assms(2) step_by_id_self [OF assms(1)] by (induction vis) (auto simp: List.map_filter_def)

lemma topo_inv_step:
  assumes d: "distinct (map gs_id ts)" "list_all (\<lambda>t. distinct (gs_dependsOn t)) ts"
    and inv: "topo_inv ts (i # q) vis deg" and i: "i \<notin> set vis"
  shows "topo_inv ts (q @ snd (relax ts i deg)) (vis @ [i]) (fst (relax ts i deg))"
proof -
  note I = inv [unfolded topo_inv_def]
  obtain u where u: "u \<in> set ts" "i = gs_id u" using I by auto
  have k: "step_by_id ts i = Some u" using step_by_id_self [OF d(1) u(1)] u(2) by simp
  have u0: "unmet ts vis u = 0" using I u by auto
  have step: "fst (relax ts i deg) (gs_id t) = int (unmet ts (vis @ [i]) t) \<and>
      (gs_id t \<in> set (q @ snd (relax ts i deg)) \<union> set (vis @ [i]) \<longleftrightarrow> unmet ts (vis @ [i]) t = 0)" if t: "t \<in> set ts" for t
  proof -
    have dt: "distinct (gs_dependsOn t)" using d(2) t by (simp add: list_all_iff)
    have un: "unmet ts vis t = unmet ts (vis @ [i]) t + (if i \<in> set (gs_dependsOn t) then 1 else 0)"
      using unmet_visit [OF dt _ i] k by simp
    have deg: "deg (gs_id t) = int (unmet ts vis t)" "gs_id t \<in> set (i # q) \<union> set vis \<longleftrightarrow> unmet ts vis t = 0" using I t by auto
    show ?thesis using relax_spec [OF d(1) t, of i deg] un deg by auto
  qed
  have "list_all (\<lambda>x. step_by_id ts x = None \<or> x \<in> set vis) (gs_dependsOn u)"
    using u0 unfolding unmet_def by (auto simp: list_all_iff filter_empty_conv)
  then have "deps_first ts [] (List.map_filter (step_by_id ts) (vis @ [i]))"
    using I k map_filter_ids [OF d(1), of vis] by (simp add: List.map_filter_def deps_first_append)
  then show ?thesis using I u step relax_pushed [of ts i deg] unfolding topo_inv_def by auto
qed

lemma topo_loop_inv:
  "distinct (map gs_id ts) \<Longrightarrow> list_all (\<lambda>t. distinct (gs_dependsOn t)) ts \<Longrightarrow> topo_inv ts q vis deg \<Longrightarrow>
   \<exists>deg'. topo_inv ts [] (topo_loop ts q vis deg) deg'"
proof (induction ts q vis deg rule: topo_loop.induct)
  case (2 ts i q vis deg)
  show ?case
  proof (cases "i \<in> set vis")
    case True
    then have "topo_inv ts q vis deg" using "2.prems"(3) unfolding topo_inv_def by auto
    then show ?thesis using "2.IH"(1) [OF True] "2.prems"(1,2) True by simp
  next
    case False
    then show ?thesis using "2.IH"(2) [OF False "2.prems"(1,2) topo_inv_step [OF "2.prems" False]] by simp
  qed
qed auto

lemma indegrees_unmet:
  assumes "distinct (map gs_id ts)" and "t \<in> set ts"
  shows "indegrees ts (gs_id t) = int (unmet ts [] t)"
proof -
  have "sum_list (map (\<lambda>u. if gs_id u = gs_id t then F u else 0) us) = (if t \<in> set us then F t else (0 :: nat))"
    if "distinct (map gs_id us)" "set us \<subseteq> set ts" for us F
    using that
  proof (induction us)
    case (Cons u us)
    have "gs_id u = gs_id t \<longleftrightarrow> u = t" using assms Cons.prems(2) by (auto simp: distinct_map inj_on_def)
    then show ?case using Cons by auto
  qed simp
  from this [of ts, OF assms(1) subset_refl] show ?thesis using assms(2) by (simp add: indegrees_def unmet_def)
qed

lemma topo_inv_start:
  assumes "distinct (map gs_id ts)"
  shows "topo_inv ts (map gs_id (filter (\<lambda>t. indegrees ts (gs_id t) = 0) ts)) [] (indegrees ts)"
proof -
  have "gs_id t \<in> set (map gs_id (filter (\<lambda>t. indegrees ts (gs_id t) = 0) ts)) \<longleftrightarrow> unmet ts [] t = 0" if "t \<in> set ts" for t
    using indegrees_unmet [OF assms that] that by (auto simp: image_iff)
  then show ?thesis using indegrees_unmet [OF assms] unfolding topo_inv_def by (auto simp: List.map_filter_def)
qed

lemma all_visited:
  assumes "distinct (map gs_id ts)" and "topo_inv ts [] vis deg" and "closed_graph g rk" and "gr_tasks g = ts"
  shows "t \<in> set ts \<Longrightarrow> gs_id t \<in> set vis"
proof (induction "rk (gs_id t)" arbitrary: t rule: less_induct)
  case less
  have "d \<in> set vis" if d: "d \<in> set (gs_dependsOn t)" for d
  proof -
    have "d \<in> gs_id ` set ts \<and> rk d < rk (gs_id t)" using assms(3,4) less.prems d by (auto simp: closed_graph_def list_all_iff)
    then show ?thesis using less.hyps by auto
  qed
  then have "unmet ts vis t = 0" by (auto simp: unmet_def filter_empty_conv)
  then show ?case using assms(2) less.prems unfolding topo_inv_def by auto
qed

lemma topo_order_sorted:
  assumes "valid_graph g maxTasks" and "list_all (\<lambda>t. distinct (gs_dependsOn t)) (gr_tasks g)"
  shows "deps_first (gr_tasks g) [] (topoOrder (gr_tasks g))"
proof -
  obtain rk where v: "distinct (map gs_id (gr_tasks g))" "closed_graph g rk" using assms(1) unfolding valid_graph_def by blast
  let ?ts = "gr_tasks g"
  let ?vis = "topo_loop ?ts (map gs_id (filter (\<lambda>t. indegrees ?ts (gs_id t) = 0) ?ts)) [] (indegrees ?ts)"
  obtain deg where i: "topo_inv ?ts [] ?vis deg" using topo_loop_inv [OF v(1) assms(2) topo_inv_start [OF v(1)]] by blast
  have "filter (\<lambda>t. gs_id t \<notin> set ?vis) ?ts = []" using all_visited [OF v(1) i v(2) refl] by (simp add: filter_empty_conv)
  then show ?thesis using i unfolding topo_inv_def topoOrder_def Let_def by simp
qed

text \<open>C26. The synthesizer merges a valid plan's steps in dependency order, as long as no step names a dependency
  twice: every step comes after all it depends on.\<close>

theorem topo_order_respects_deps:
  assumes "valid_graph g maxTasks" and "list_all (\<lambda>t. distinct (gs_dependsOn t)) (gr_tasks g)"
  shows "deps_first (gr_tasks g) [] (topoOrder (gr_tasks g))"
  by (rule topo_order_sorted [OF assms])

definition order_graph :: "string list \<Rightarrow> graph" where
  "order_graph deps = \<lparr>gr_sharedContext = [],
     gr_tasks = [plain_step ''c'' ''C'' ''testing'' ''x'' [''b''] ''low'' ''x'', plain_step ''b'' ''B'' ''testing'' ''x'' deps ''low'' ''x'',
       plain_step ''a'' ''A'' ''testing'' ''x'' [] ''low'' ''x'']\<rparr>"

lemma order_graph_valid: "set deps \<subseteq> {''a''} \<Longrightarrow> valid_graph (order_graph deps) 8"
proof -
  assume "set deps \<subseteq> {''a''}"
  then have "closed_graph (order_graph deps) ((\<lambda>_. 0)(''c'' := 2, ''b'' := 1))"
    by (auto simp: closed_graph_def order_graph_def plain_step_def list_all_iff)
  moreover have "isAspectCategory ''testing''" "isComplexityLevel ''low''" by code_simp+
  ultimately show ?thesis unfolding valid_graph_def by (auto simp: order_graph_def plain_step_def)
qed

theorem topo_order_respects_deps_witness:
  "deps_first (gr_tasks (order_graph [''a''])) [] (topoOrder (gr_tasks (order_graph [''a''])))"
  by (rule topo_order_respects_deps [OF order_graph_valid]) (simp_all add: order_graph_def plain_step_def)

text \<open>A dependency named twice, which the planner's validation accepts, strands the steps after it: the
  count is raised once for each entry and lowered once. The plan is valid and acyclic, and still the
  synthesizer merges a step before the one it depends on.\<close>

theorem repeated_dependency_breaks_order:
  "valid_graph (order_graph [''a'', ''a'']) 8 \<and> map gs_id (topoOrder (gr_tasks (order_graph [''a'', ''a'']))) = [''a'', ''c'', ''b'']"
proof
  show "valid_graph (order_graph [''a'', ''a'']) 8" by (rule order_graph_valid) simp
  show "map gs_id (topoOrder (gr_tasks (order_graph [''a'', ''a'']))) = [''a'', ''c'', ''b'']"
    by (simp add: topoOrder_def order_graph_def plain_step_def indegrees_def step_by_id_def List.map_filter_def)
qed


section \<open>No version of a file is lost\<close>

text \<open>What a step's answer writes: the step, the path and the content of each file in it.\<close>

definition writes_of :: "(string \<Rightarrow> js option) \<Rightarrow> (string \<Rightarrow> string option) option \<Rightarrow> (string \<times> entry) list \<Rightarrow> gstep \<Rightarrow> (string \<times> string \<times> string) list" where
  "writes_of jp repair ents t =
    (case used_output ents t of
       None \<Rightarrow> []
     | Some out \<Rightarrow> map (\<lambda>b. (gs_id t, of_path b, of_content b)) (po_files (parseTaskOutput jp repair out)))"

text \<open>The path a file was written to, before a conflict moved it.\<close>

definition original_path :: "synth_file \<Rightarrow> string" where
  "original_path f = dflt (sf_conflictsWithPath f) (sf_path f)"

definition flat :: "(string \<times> (string \<times> string) list) list \<Rightarrow> (string \<times> string \<times> string) list" where
  "flat m = concat (map (\<lambda>pv. map (\<lambda>v. (fst v, fst pv, snd v)) (snd pv)) m)"

definition collected :: "(string \<times> (string \<times> string) list) list \<Rightarrow> (string \<times> string \<times> string) list \<Rightarrow> bool" where
  "collected m ws =
    (mset (flat m) = mset ws \<and> distinct (map fst m) \<and>
     (\<forall>p. length (dflt (map_of m p) []) = length (filter (\<lambda>w. fst (snd w) = p) ws)))"

lemma push_flat: "mset (flat (push_version i b m)) = mset (flat m) + {#(i, of_path b, of_content b)#}"
proof -
  have "mset (flat (assoc_put p (dflt (map_of m p) [] @ [v]) m)) = mset (flat m) + {#(fst v, p, snd v)#}" for p v
    by (induction m) (auto simp: flat_def)
  then show ?thesis by (simp add: push_version_def)
qed

lemma push_collected: "collected m ws \<Longrightarrow> collected (push_version i b m) (ws @ [(i, of_path b, of_content b)])"
proof -
  assume c: "collected m ws"
  have "distinct (map fst (push_version i b m))" using c unfolding collected_def push_version_def by (intro distinct_assoc_put) simp
  moreover have "length (dflt (map_of (push_version i b m) p) []) = length (filter (\<lambda>w. fst (snd w) = p) (ws @ [(i, of_path b, of_content b)]))" for p
    using c by (auto simp: collected_def push_version_def)
  ultimately show ?thesis using c push_flat [of i b m] by (simp add: collected_def)
qed

lemma push_all_collected:
  "collected m ws \<Longrightarrow> collected (fold (push_version i) bs m) (ws @ map (\<lambda>b. (i, of_path b, of_content b)) bs)"
proof (induction bs arbitrary: m ws)
  case (Cons b bs)
  show ?case using Cons.IH [OF push_collected [OF Cons.prems]] by simp
qed simp

lemma fold_collected:
  "collected (sa_byPath acc) ws \<Longrightarrow>
   collected (sa_byPath (fold (synth_step jp repair ents) ts acc)) (ws @ concat (map (writes_of jp repair ents) ts))"
proof (induction ts arbitrary: acc ws)
  case (Cons t ts)
  have "collected (sa_byPath (synth_step jp repair ents t acc)) (ws @ writes_of jp repair ents t)"
    using Cons.prems push_all_collected [of "sa_byPath acc" ws "gs_id t"]
    by (auto simp: synth_step_def writes_of_def Let_def split: option.splits)
  from Cons.IH [OF this] show ?case by simp
qed simp

lemma collected_synth:
  "collected (sa_byPath (collect_files jp repair ents ts)) (concat (map (writes_of jp repair ents) ts))"
  using fold_collected [of "\<lparr>sa_byPath = [], sa_lines = [], sa_results = []\<rparr>" "[]"] by (simp add: collect_files_def collected_def flat_def)

lemma path_files_cases:
  obtains (none) p where "pv = (p, [])" | (one) p v where "pv = (p, [v])" | (more) p v v' vs where "pv = (p, v # v' # vs)"
  by (cases pv; cases "snd pv"; cases "tl (snd pv)") auto

lemma path_files_origin:
  "map (\<lambda>f. (sf_sourceTaskId f, original_path f, sf_content f)) (path_files pv) = map (\<lambda>v. (fst v, fst pv, snd v)) (snd pv)"
  by (cases pv rule: path_files_cases) (simp_all add: path_files_def version_file_def original_path_def)

lemma path_files_flag: "f \<in> set (path_files pv) \<Longrightarrow> original_path f = fst pv \<and> sf_conflict f = (1 < length (snd pv))"
  by (cases pv rule: path_files_cases) (auto simp: path_files_def version_file_def original_path_def)

text \<open>C25. No version of a file is lost or attributed to another step: the files of the deliverable are, step,
  path and content, what the complete steps' answers wrote, each exactly as often; and a file is marked as a
  conflict just when its path was written more than once.\<close>

theorem synthesis_keeps_every_file:
  assumes "distinct (map gs_id (gr_tasks g))"
  shows "mset (map (\<lambda>f. (sf_sourceTaskId f, original_path f, sf_content f)) (sy_files (synthesize jp repair g ents))) =
      mset (concat (map (writes_of jp repair ents) (gr_tasks g))) \<and>
    list_all (\<lambda>f. sf_conflict f = (1 < length (filter (\<lambda>w. fst (snd w) = original_path f) (concat (map (writes_of jp repair ents) (gr_tasks g))))))
      (sy_files (synthesize jp repair g ents))"
proof -
  let ?w = "\<lambda>ts. concat (map (writes_of jp repair ents) ts)"
  let ?m = "sa_byPath (collect_files jp repair ents (topoOrder (gr_tasks g)))"
  have c: "collected ?m (?w (topoOrder (gr_tasks g)))" by (rule collected_synth)
  have sum: "mset (?w ts) = sum_mset (image_mset (\<lambda>t. mset (writes_of jp repair ents t)) (mset ts))" for ts
    by (induction ts) simp_all
  have perm: "mset (?w (topoOrder (gr_tasks g))) = mset (?w (gr_tasks g))"
    unfolding sum topoOrder_mset [OF assms] ..
  have files: "sy_files (synthesize jp repair g ents) = concat (map path_files ?m)" by (simp add: synthesize_def Let_def)
  have "map (\<lambda>f. (sf_sourceTaskId f, original_path f, sf_content f)) (concat (map path_files ?m)) = flat ?m"
    by (simp add: flat_def map_concat o_def path_files_origin)
  then have first: "mset (map (\<lambda>f. (sf_sourceTaskId f, original_path f, sf_content f)) (concat (map path_files ?m))) = mset (?w (gr_tasks g))"
    using c perm by (simp add: collected_def)
  have "sf_conflict f = (1 < length (filter (\<lambda>w. fst (snd w) = original_path f) (?w (gr_tasks g))))"
    if f: "f \<in> set (concat (map path_files ?m))" for f
  proof -
    obtain pv where pv: "pv \<in> set ?m" "f \<in> set (path_files pv)" using f by auto
    have "map_of ?m (fst pv) = Some (snd pv)" using c pv(1) by (simp add: collected_def)
    then have "length (snd pv) = length (filter (\<lambda>w. fst (snd w) = fst pv) (?w (topoOrder (gr_tasks g))))"
      using c unfolding collected_def by (metis dflt_simps(2))
    also have "\<dots> = length (filter (\<lambda>w. fst (snd w) = fst pv) (?w (gr_tasks g)))" using perm by (metis mset_filter size_mset)
    finally show ?thesis using path_files_flag [OF pv(2)] by simp
  qed
  then show ?thesis unfolding files using first by (simp only: list_all_iff) blast
qed


definition merge_graph :: graph where
  "merge_graph = \<lparr>gr_sharedContext = [],
     gr_tasks = [plain_step ''a'' ''A'' ''testing'' ''x'' [] ''low'' ''x'', plain_step ''b'' ''B'' ''testing'' ''x'' [''a''] ''low'' ''x'']\<rparr>"

definition done_entry :: "gstep \<Rightarrow> string \<Rightarrow> string \<times> entry" where
  "done_entry t out = (gs_id t, (fresh_entry t)\<lparr>en_state := SComplete, en_output := Some out\<rparr>)"

definition one_file :: "string \<Rightarrow> string \<Rightarrow> js" where
  "one_file p c = JObj [(''path'', JStr p), (''content'', JStr c)]"

text \<open>Two answers, their texts, and what \<open>JSON.parse\<close> makes of them.\<close>

definition json_text :: "js \<Rightarrow> string" where
  "json_text v = the (stringify (\<lambda>_. ''0'') v)"

definition parse_either :: "js \<Rightarrow> js \<Rightarrow> string \<Rightarrow> js option" where
  "parse_either v w t = (if t = json_text v then Some v else if t = json_text w then Some w else None)"

definition answer_a :: js where
  "answer_a = JObj [(''files'', JArr [one_file ''x.js'' ''one'', one_file ''x.b.js'' ''two''])]"

definition answer_b :: js where
  "answer_b = JObj [(''files'', JArr [one_file ''x.js'' ''three''])]"

definition answer_proto :: js where
  "answer_proto = JObj [(''files'', JArr [one_file ''__proto__/polluted'' ''x''])]"

definition merge_parse :: "string \<Rightarrow> js option" where
  "merge_parse = parse_either answer_a answer_b"

definition merge_entries :: "(string \<times> entry) list" where
  "merge_entries = map2 done_entry (gr_tasks merge_graph) [json_text answer_a, json_text answer_b]"

lemma merged_paths:
  "map (\<lambda>f. (sf_path f, sf_content f)) (sy_files (synthesize merge_parse None merge_graph merge_entries)) =
     [(''x.js'', ''one''), (''x.b.js'', ''three''), (''x.b.js'', ''two'')]"
  by code_simp

theorem synthesis_keeps_every_file_witness:
  "mset (map (\<lambda>f. (sf_sourceTaskId f, original_path f, sf_content f)) (sy_files (synthesize merge_parse None merge_graph merge_entries))) =
      mset (concat (map (writes_of merge_parse None merge_entries) (gr_tasks merge_graph)))"
  using synthesis_keeps_every_file [of merge_graph merge_parse None merge_entries] by (simp add: merge_graph_def plain_step_def)

text \<open>The paths of a deliverable need not be distinct: the name made for a losing version can be one that a
  step already uses, and then two files of different steps with different contents share a path, though the
  code and its checks speak of distinct paths.\<close>

theorem conflict_path_collides:
  "valid_graph merge_graph 8 \<and> \<not> distinct (map sf_path (sy_files (synthesize merge_parse None merge_graph merge_entries))) \<and>
   length (sy_conflicts (synthesize merge_parse None merge_graph merge_entries)) = 1"
proof (intro conjI)
  have "isAspectCategory ''testing''" "isComplexityLevel ''low''" by code_simp+
  moreover have "closed_graph merge_graph ((\<lambda>_. 0)(''b'' := 1))" by (simp add: closed_graph_def merge_graph_def plain_step_def)
  ultimately show "valid_graph merge_graph 8" unfolding valid_graph_def by (auto simp: merge_graph_def plain_step_def)
  have "map sf_path (sy_files (synthesize merge_parse None merge_graph merge_entries)) = [''x.js'', ''x.b.js'', ''x.b.js'']"
    using arg_cong [OF merged_paths, of "map fst"] by (simp add: o_def)
  then show "\<not> distinct (map sf_path (sy_files (synthesize merge_parse None merge_graph merge_entries)))" by simp
  show "length (sy_conflicts (synthesize merge_parse None merge_graph merge_entries)) = 1" by code_simp
qed

text \<open>A path that the traversal-safe normalisation keeps, \<open>__proto__/polluted\<close>, takes the file tree outside
  itself: the code writes the file into \<open>Object.prototype\<close>.\<close>

theorem proto_path_escapes_tree:
  "normalizePath ''__proto__/polluted'' = ''__proto__/polluted'' \<and>
   sy_fileTree (synthesize (parse_either answer_proto answer_b) None merge_graph
     (map2 done_entry (gr_tasks merge_graph) [json_text answer_proto, json_text answer_b])) = None"
  by code_simp

end
