(* ===== verification/Verify.thy ===== *)
theory Verify
  imports Synthesizer Redact
begin

text \<open>
  Verification of a finished run: the deterministic checks (\<open>src/verify/checks.js\<close>), the choice of a judge, what
  it is asked and how its answer is read (\<open>src/verify/judge.js\<close>), and the verdict that both give
  (\<open>src/verify/verify.js\<close>). \<open>JSON.parse\<close> (its value, and the message of what it throws), \<open>node --check\<close>, the
  rendering of a value as a text, and the judge's chat are arguments. Durations are left out of the events.
\<close>

section \<open>The deterministic checks\<close>

definition MAX_SYNTAX_FILES :: nat where "MAX_SYNTAX_FILES = 12"
definition MAX_SYNTAX_BYTES :: nat where "MAX_SYNTAX_BYTES = 204800"

definition ellipsis :: string where "ellipsis = [CHR 0xE2, CHR 0x80, CHR 0xA6]"

text \<open>The words that give a stub away, and a line that is an ellipsis: the pattern is in multi-line mode.\<close>

definition stub_words_re :: rx where
  "stub_words_re = alts
     [seqs [WordB, ilit ''todo'', opt (chr (CHR '':'')), Star space, ilit ''implement'', WordB],
      seqs [WordB, ilit ''lorem ipsum'', WordB],
      seqs [WordB, ilit ''placeholder '', Alt (ilit ''only'') (ilit ''content''), WordB]]"

definition placeholder :: "string \<Rightarrow> bool" where
  "placeholder content =
    (rx_test stub_words_re content \<or>
     list_ex (\<lambda>l. js_trim l = ''...'' \<or> js_trim l = ellipsis) (split_on (\<lambda>c. c = CHR 0x0A \<or> c = CHR 0x0D) content))"

record check_result =
  ck_id :: string
  ck_ok :: bool
  ck_fail :: bool
  ck_detail :: string
  ck_steps :: "string list"

text \<open>\<open>[...new Set(xs)]\<close>.\<close>

definition uniq :: "'a list \<Rightarrow> 'a list" where
  "uniq xs = rev (remdups (rev xs))"

definition add_check :: "string \<Rightarrow> bool \<Rightarrow> bool \<Rightarrow> string \<Rightarrow> string list \<Rightarrow> check_result" where
  "add_check i ok fails detail steps =
    \<lparr>ck_id = i, ck_ok = ok, ck_fail = fails, ck_detail = take 300 detail, ck_steps = uniq (filter (\<lambda>s. s \<noteq> []) steps)\<rparr>"

record verify_env =
  ve_jp :: "string \<Rightarrow> js option"
  ve_json_error :: "string \<Rightarrow> string option"
  ve_node_check :: "string \<Rightarrow> string \<Rightarrow> string option"
  ve_str :: "js \<Rightarrow> string"

definition check_complete :: "entry list \<Rightarrow> check_result" where
  "check_complete steps =
    (let notComplete = filter (\<lambda>e. en_state e \<noteq> SComplete) steps in
     add_check ''steps-complete'' (notComplete = []) True
       (if notComplete = [] then show_nat (length steps) @ '' step(s) complete''
        else ''not complete: '' @ join_with '', '' (map (\<lambda>e. entry_id e @ '':'' @ step_state_name (en_state e)) notComplete))
       (map entry_id notComplete))"

definition check_conflicts :: "conflict list \<Rightarrow> check_result" where
  "check_conflicts conflicts =
    add_check ''no-conflicts'' (conflicts = []) False
      (if conflicts = [] then ''no conflicting files'' else show_nat (length conflicts) @ '' conflicting file(s), both versions kept'')
      (concat (map (\<lambda>c. map fst (co_versions c)) conflicts))"

definition barren :: "synth_file list \<Rightarrow> entry \<Rightarrow> bool" where
  "barren files e =
    (gs_aspect (en_step e) = ''code-generation'' \<and> en_state e = SComplete \<and> \<not> list_ex (\<lambda>f. sf_sourceTaskId f = entry_id e) files)"

definition check_produced :: "entry list \<Rightarrow> synth_file list \<Rightarrow> check_result" where
  "check_produced steps files =
    (let codeSteps = filter (\<lambda>e. gs_aspect (en_step e) = ''code-generation'' \<and> en_state e = SComplete) steps;
         bs = filter (barren files) codeSteps in
     add_check ''code-steps-produced'' (bs = []) True
       (if bs = [] then show_nat (length codeSteps) @ '' code step(s) produced files'' else ''no files from: '' @ join_with '', '' (map entry_id bs))
       (map entry_id bs))"

text \<open>The checks that look at each file's content: the files at fault, and a text when there is none.\<close>

definition check_files :: "string \<Rightarrow> string \<Rightarrow> string \<Rightarrow> synth_file list \<Rightarrow> check_result" where
  "check_files i good bad faulty =
    add_check i (faulty = []) True (if faulty = [] then good else bad @ join_with '', '' (map sf_path faulty)) (map sf_sourceTaskId faulty)"

definition leaky :: "synth_file \<Rightarrow> bool" where
  "leaky f = list_ex (\<lambda>p. rx_test p (sf_content f)) SECRET_PATTERNS"

definition blank_file :: "synth_file \<Rightarrow> bool" where
  "blank_file f = (js_trim (sf_content f) = [])"

definition has_ext :: "string list \<Rightarrow> synth_file \<Rightarrow> bool" where
  "has_ext exts f = list_ex (endsWith (toLowerCase (sf_path f))) exts"

definition check_json :: "verify_env \<Rightarrow> synth_file list \<Rightarrow> check_result" where
  "check_json ve files =
    (let bad = List.map_filter (\<lambda>f. map_option (\<lambda>m. (f, m)) (ve_json_error ve (sf_content f))) (filter (has_ext [''.json'']) files) in
     add_check ''json-parses'' (bad = []) True
       (if bad = [] then ''every .json file parses''
        else ''unparsable: '' @ join_with ''; '' (map (\<lambda>(f, m). sf_path f @ '' ('' @ take 60 m @ '')'') bad))
       (map (\<lambda>(f, m). sf_sourceTaskId f) bad))"

definition syntax_message :: "string \<Rightarrow> string" where
  "syntax_message stderr =
    take 100 (js_trim (dflt (List.find (\<lambda>l. str_includes l ''SyntaxError'') (split_on (\<lambda>c. c = CHR 0x0A) stderr)) ''syntax error''))"

definition js_fault :: "verify_env \<Rightarrow> synth_file \<Rightarrow> string option" where
  "js_fault ve f =
    (if MAX_SYNTAX_BYTES < length (sf_content f) then None
     else map_option syntax_message
       (ve_node_check ve (if endsWith (toLowerCase (sf_path f)) ''.cjs'' then ''.cjs'' else ''.mjs'') (sf_content f)))"

definition check_syntax :: "verify_env \<Rightarrow> synth_file list \<Rightarrow> check_result" where
  "check_syntax ve files =
    (let js = take MAX_SYNTAX_FILES (filter (has_ext [''.js'', ''.mjs'', ''.cjs'']) files);
         bad = List.map_filter (\<lambda>f. map_option (\<lambda>m. (f, m)) (js_fault ve f)) js in
     add_check ''js-syntax'' (bad = []) True
       (if bad = [] then show_nat (length js) @ '' JS file(s) parse'' else join_with ''; '' (map (\<lambda>(f, m). sf_path f @ '': '' @ m) bad))
       (map (\<lambda>(f, m). sf_sourceTaskId f) bad))"

definition runChecks :: "verify_env \<Rightarrow> bool \<Rightarrow> (string \<times> entry) list \<Rightarrow> synthesis \<Rightarrow> check_result list" where
  "runChecks ve checkSyntax tasksById syn =
    (let steps = map snd tasksById; files = sy_files syn in
     [check_complete steps, check_conflicts (sy_conflicts syn), check_produced steps files,
      check_files ''files-non-empty'' (show_nat (length files) @ '' file(s) non-empty'') ''empty: '' (filter blank_file files),
      check_files ''no-placeholders'' ''no placeholder content'' ''placeholder content in: '' (filter (\<lambda>f. placeholder (sf_content f)) files),
      check_files ''no-secrets'' ''no secret-shaped content'' ''secret-shaped content in: '' (filter leaky files),
      check_json ve files] @ (if checkSyntax then [check_syntax ve files] else []))"

record check_summary =
  cs_ok :: bool
  cs_failed :: "string list"
  cs_warned :: "string list"
  cs_total :: nat

definition summarizeChecks :: "check_result list \<Rightarrow> check_summary" where
  "summarizeChecks cs =
    (let failed = filter (\<lambda>c. \<not> ck_ok c \<and> ck_fail c) cs; warned = filter (\<lambda>c. \<not> ck_ok c \<and> \<not> ck_fail c) cs in
     \<lparr>cs_ok = (failed = []), cs_failed = map ck_id failed, cs_warned = map ck_id warned, cs_total = length cs\<rparr>)"

section \<open>The judge\<close>

definition JUDGE_SYSTEM_PROMPT :: string where
  "JUDGE_SYSTEM_PROMPT = ''You are the verifier for an autonomous coding runner. You judge whether a finished task meets its acceptance criteria. ''
     @ ''You did not produce this work. Be strict about missing deliverables, stubs, and answers that dodge the task; do not fail work for style. ''
     @ ''Answer with strict JSON only.''"

definition MAX_FILE_PREVIEW :: nat where "MAX_FILE_PREVIEW = 1200"
definition MAX_FILES :: nat where "MAX_FILES = 12"
definition MAX_STEP_PREVIEW :: nat where "MAX_STEP_PREVIEW = 600"

record request =
  rq_id :: string
  rq_title :: string
  rq_prompt :: string

definition acceptanceCriteria :: "request \<Rightarrow> graph \<Rightarrow> string list" where
  "acceptanceCriteria task g =
    [''The output addresses the request: '' @ dquote @ take 160 (rq_title task) @ dquote @ ''.'']
    @ map (\<lambda>t. ''Step '' @ gs_id t @ '' ('' @ gs_aspect t @ '') delivers: '' @ take 160 (gs_deliverable t) @ ''.'') (gr_tasks g)
    @ [''No step output is a refusal, a placeholder, or an unrelated answer.'']"

text \<open>A model's id without the prefix that names its pool.\<close>

definition provider_of :: "string \<Rightarrow> string" where
  "provider_of i =
    (let p = takeWhile (\<lambda>c. is_lower c \<or> is_digit c) i; rest = drop (length p) i in
     if p \<noteq> [] \<and> startsWith rest '':'' then tl rest else i)"

definition used_models :: "(string \<times> entry) list \<Rightarrow> string option \<Rightarrow> string list" where
  "used_models tasksById plannedBy =
    filter (\<lambda>m. m \<noteq> []) (case plannedBy of None \<Rightarrow> [] | Some m \<Rightarrow> [m])
    @ concat (map (\<lambda>(_, e). filter (\<lambda>m. m \<noteq> []) (map at_modelId (en_attempts e)
        @ (case en_assignment e of None \<Rightarrow> [] | Some (m, _) \<Rightarrow> [m]))) tasksById)"

definition pickJudgeProvider :: "(string \<times> entry) list \<Rightarrow> string list \<Rightarrow> string option \<Rightarrow> string option" where
  "pickJudgeProvider tasksById candidates plannedBy =
    List.find (\<lambda>p. p \<notin> set (map provider_of (used_models tasksById plannedBy))) candidates"

definition judged_file :: "synth_file \<Rightarrow> string" where
  "judged_file f = ''--- '' @ sf_path f @ '' ('' @ show_nat (length (sf_content f)) @ '' chars) ---'' @ newline @ take MAX_FILE_PREVIEW (sf_content f)
     @ (if MAX_FILE_PREVIEW < length (sf_content f) then newline @ ellipsis else [])"

definition judged_step :: "entry \<Rightarrow> string" where
  "judged_step e = ''- '' @ entry_id e @ '' ['' @ step_state_name (en_state e) @ ''] '' @ gs_title (en_step e) @ '': ''
     @ (case en_output e of Some out \<Rightarrow> rx_replace (plus space) (\<lambda>_. '' '') (take MAX_STEP_PREVIEW out) | None \<Rightarrow> ''(no output)'')"

definition buildJudgeMessages :: "request \<Rightarrow> graph \<Rightarrow> synthesis \<Rightarrow> (string \<times> entry) list \<Rightarrow> check_result list \<Rightarrow> (string \<times> string) list" where
  "buildJudgeMessages task g syn tasksById cs =
    (let files = map judged_file (take MAX_FILES (sy_files syn));
         warnings = map (\<lambda>c. ''- '' @ ck_id c @ '': '' @ ck_detail c) (filter (\<lambda>c. \<not> ck_ok c) cs);
         user = join_with newline
           ([''VERIFY: judge the finished task below against its acceptance criteria.'', [], ''Task: '' @ rq_title task,
             ''Request:'' @ newline @ take 4000 (rq_prompt task), [], ''Acceptance criteria:'']
            @ map (\<lambda>c. ''- '' @ c) (acceptanceCriteria task g) @ [[], ''Steps and their outputs:''] @ map (\<lambda>(_, e). judged_step e) tasksById
            @ [[], (if files \<noteq> [] then ''Files produced ('' @ show_nat (length (sy_files syn)) @ ''):'' @ newline @ join_with newline files
                    else ''Files produced: none.''),
               (if warnings \<noteq> [] then newline @ ''Deterministic check warnings:'' @ newline @ join_with newline warnings else []), [],
               ''Answer with ONLY this JSON: {'' @ dquote @ ''verdict'' @ dquote @ '':'' @ dquote @ ''pass'' @ dquote @ ''|'' @ dquote @ ''fail'' @ dquote @ '',''
               @ dquote @ ''reason'' @ dquote @ '':'' @ dquote @ ''<one sentence>'' @ dquote @ '','' @ dquote @ ''issues'' @ dquote @ '':[{'' @ dquote @ ''step'' @ dquote @ '':''
               @ dquote @ ''<step id>'' @ dquote @ '','' @ dquote @ ''problem'' @ dquote @ '':'' @ dquote @ ''<what is missing or wrong>'' @ dquote @ ''}]}'']) in
     [(''system'', JUDGE_SYSTEM_PROMPT), (''user'', user)])"

record vissue =
  vi_step :: "string option"
  vi_problem :: string

text \<open>\<open>String(v ?? '')\<close>.\<close>

definition str_or :: "(js \<Rightarrow> string) \<Rightarrow> js \<Rightarrow> string" where
  "str_or str v = (if nullish v then [] else str v)"

definition judge_issue :: "(js \<Rightarrow> string) \<Rightarrow> js \<Rightarrow> vissue" where
  "judge_issue str i =
    \<lparr>vi_step = map_option (take 60) (str_of (jget i ''step'')),
     vi_problem = take 300 (if nullish (jget i ''problem'') then str_or str i else str (jget i ''problem''))\<rparr>"

text \<open>The verdict (\<open>True\<close> is pass), the reason and the issues.\<close>

definition parseJudgeVerdict :: "(string \<Rightarrow> js option) \<Rightarrow> (js \<Rightarrow> string) \<Rightarrow> string \<Rightarrow> (bool \<times> string \<times> vissue list) option" where
  "parseJudgeVerdict jp str raw =
    (let parsed = parseProbeJson jp (Some raw) in
     if \<not> (is_obj parsed \<or> is_arr parsed) then None
     else
       (let verdict = toLowerCase (str_or str (jget parsed ''verdict'')) in
        if verdict \<noteq> ''pass'' \<and> verdict \<noteq> ''fail'' then None
        else Some (verdict = ''pass'', take 400 (str_or str (jget parsed ''reason'')),
          filter (\<lambda>i. vi_problem i \<noteq> []) (map (judge_issue str) (take 10 (arr_of (jget parsed ''issues'')))))))"

text \<open>What the chat gives: the message of what it throws (an abort at the deadline included), or a text and the
  service that answered.\<close>

record chat_reply =
  cp_text :: "string option"
  cp_service :: "string option"

record judged =
  jd_verdict :: "bool option"
  jd_reason :: string
  jd_issues :: "vissue list"
  jd_provider :: string
  jd_error :: "string option"

definition askJudge :: "verify_env \<Rightarrow> (string \<Rightarrow> string + chat_reply) \<Rightarrow> string \<Rightarrow> judged" where
  "askJudge ve chat provider =
    (case chat provider of
       Inl m \<Rightarrow> \<lparr>jd_verdict = None, jd_reason = [], jd_issues = [], jd_provider = provider, jd_error = Some (take 300 m)\<rparr>
     | Inr r \<Rightarrow>
         (case parseJudgeVerdict (ve_jp ve) (ve_str ve) (dflt (cp_text r) []) of
            None \<Rightarrow> \<lparr>jd_verdict = None, jd_reason = [], jd_issues = [], jd_provider = dflt (cp_service r) provider,
              jd_error = Some ''the judge did not answer with a {verdict, reason, issues} object''\<rparr>
          | Some (v, reason, issues) \<Rightarrow>
              \<lparr>jd_verdict = Some v, jd_reason = reason, jd_issues = issues, jd_provider = dflt (cp_service r) provider, jd_error = None\<rparr>))"

section \<open>The verdict\<close>

record judge_opts =
  jo_enabled :: bool
  jo_chat :: "((string \<times> string) list \<Rightarrow> string \<Rightarrow> string + chat_reply) option"
  jo_candidates :: "string list"
  jo_strict :: bool

record verification =
  vr_pass :: bool
  vr_checks :: "check_result list"
  vr_judge :: "judged option"
  vr_issues :: "vissue list"
  vr_unjudged :: bool
  vr_reason :: string

datatype verify_event =
    VerifyStarted
  | VerifyCheck string bool "string list"
  | VerifyJudged string "bool option" nat
  | VerifyFinished bool bool

definition issues_of :: "check_result \<Rightarrow> vissue list" where
  "issues_of c =
    (let problem = ck_id c @ '': '' @ ck_detail c in
     if ck_steps c \<noteq> [] then map (\<lambda>s. \<lparr>vi_step = Some s, vi_problem = problem\<rparr>) (ck_steps c)
     else [\<lparr>vi_step = None, vi_problem = problem\<rparr>])"

definition check_issues :: "check_result list \<Rightarrow> vissue list" where
  "check_issues cs = concat (map issues_of (filter (\<lambda>c. \<not> ck_ok c \<and> ck_fail c) cs))"

text \<open>Whom the judge is, if there is one to ask.\<close>

definition judge_for :: "judge_opts \<Rightarrow> (string \<times> entry) list \<Rightarrow> string option \<Rightarrow> string option" where
  "judge_for jo tasksById plannedBy =
    (if jo_enabled jo \<and> jo_chat jo \<noteq> None then pickJudgeProvider tasksById (jo_candidates jo) plannedBy else None)"

definition no_judge_error :: "judge_opts \<Rightarrow> string" where
  "no_judge_error jo =
    (if jo_enabled jo \<and> jo_chat jo \<noteq> None then ''every configured provider produced part of this run; no independent judge is left''
     else ''judge disabled'')"

definition judged_result :: "judge_opts \<Rightarrow> check_result list \<Rightarrow> judged option \<Rightarrow> string \<Rightarrow> verification" where
  "judged_result jo cs judge error =
    (case Option.bind judge jd_verdict of
       Some True \<Rightarrow>
         \<lparr>vr_pass = True, vr_checks = cs, vr_judge = judge, vr_issues = [], vr_unjudged = False,
          vr_reason = (let r = jd_reason (the judge) in if r \<noteq> [] then r else ''the judge passed the run'')\<rparr>
     | Some False \<Rightarrow>
         (let r = (let r = jd_reason (the judge) in if r \<noteq> [] then r else ''the judge failed the run'') in
          \<lparr>vr_pass = False, vr_checks = cs, vr_judge = judge,
           vr_issues = (if jd_issues (the judge) \<noteq> [] then jd_issues (the judge) else [\<lparr>vi_step = None, vi_problem = r\<rparr>]),
           vr_unjudged = False, vr_reason = r\<rparr>)
     | None \<Rightarrow>
         if jo_strict jo then
           \<lparr>vr_pass = False, vr_checks = cs, vr_judge = judge, vr_issues = [\<lparr>vi_step = None, vi_problem = ''no judge verdict ('' @ error @ '')''\<rparr>],
            vr_unjudged = True, vr_reason = ''strict verification and no judge verdict: '' @ error\<rparr>
         else
           \<lparr>vr_pass = True, vr_checks = cs, vr_judge = judge, vr_issues = [], vr_unjudged = True,
            vr_reason = ''deterministic checks passed; unjudged ('' @ error @ '')''\<rparr>)"

definition verifyRun ::
  "verify_env \<Rightarrow> bool \<Rightarrow> judge_opts \<Rightarrow> request \<Rightarrow> plan \<Rightarrow> synthesis \<Rightarrow> (string \<times> entry) list \<Rightarrow> verification \<times> verify_event list" where
  "verifyRun ve checkSyntax jo task p syn tasksById =
    (let cs = runChecks ve checkSyntax tasksById syn;
         summary = summarizeChecks cs;
         seen = VerifyStarted # map (\<lambda>c. VerifyCheck (ck_id c) (ck_fail c) (ck_steps c)) (filter (\<lambda>c. \<not> ck_ok c) cs) in
     if \<not> cs_ok summary then
       (\<lparr>vr_pass = False, vr_checks = cs, vr_judge = None, vr_issues = check_issues cs, vr_unjudged = True,
         vr_reason = ''deterministic checks failed: '' @ join_with '', '' (cs_failed summary)\<rparr>, seen @ [VerifyFinished False True])
     else
       (let judge = (case judge_for jo tasksById (pn_plannedBy p) of
              None \<Rightarrow> None
            | Some provider \<Rightarrow> Some (askJudge ve (the (jo_chat jo) (buildJudgeMessages task (pn_graph p) syn tasksById cs)) provider));
            error = (case judge of None \<Rightarrow> no_judge_error jo | Some j \<Rightarrow> dflt (jd_error j) []);
            r = judged_result jo cs judge error in
        (r, seen @ (case judge of None \<Rightarrow> [] | Some j \<Rightarrow> [VerifyJudged (jd_provider j) (jd_verdict j) (length (jd_issues j))])
           @ [VerifyFinished (vr_pass r) (vr_unjudged r)])))"


section \<open>What a verdict means\<close>

lemma judged_result_judge [simp]: "vr_judge (judged_result jo cs judge error) = judge"
  by (simp add: judged_result_def Let_def split: option.splits bool.splits)

lemma verify_verdict:
  "vr_pass (fst (verifyRun ve sy jo task p syn ents)) =
     (cs_ok (summarizeChecks (runChecks ve sy ents syn)) \<and>
      (case Option.bind (vr_judge (fst (verifyRun ve sy jo task p syn ents))) jd_verdict of Some v \<Rightarrow> v | None \<Rightarrow> \<not> jo_strict jo))"
  by (auto simp: verifyRun_def judged_result_def Let_def split: option.splits bool.splits)

lemma verify_unjudged:
  "vr_unjudged (fst (verifyRun ve sy jo task p syn ents)) =
     (Option.bind (vr_judge (fst (verifyRun ve sy jo task p syn ents))) jd_verdict = None)"
  by (auto simp: verifyRun_def judged_result_def Let_def split: option.splits bool.splits)

text \<open>The verdict, on every branch: a run passes just when every check of severity fail passed and the judge's
  verdict, if there is one, is pass, a missing verdict counting as pass unless the verification is strict;
  and it is called unjudged just when no verdict was given.\<close>

theorem verdict_is_decided:
  "vr_pass (fst (verifyRun ve sy jo task p syn ents)) =
     (cs_ok (summarizeChecks (runChecks ve sy ents syn)) \<and>
      (case Option.bind (vr_judge (fst (verifyRun ve sy jo task p syn ents))) jd_verdict of Some v \<Rightarrow> v | None \<Rightarrow> \<not> jo_strict jo)) \<and>
   vr_unjudged (fst (verifyRun ve sy jo task p syn ents)) =
     (Option.bind (vr_judge (fst (verifyRun ve sy jo task p syn ents))) jd_verdict = None)"
  by (rule conjI [OF verify_verdict verify_unjudged])

text \<open>A failed verification says what to do: it names an issue.\<close>

lemma check_issues_some: "\<not> cs_ok (summarizeChecks cs) \<Longrightarrow> check_issues cs \<noteq> []"
proof -
  assume "\<not> cs_ok (summarizeChecks cs)"
  then obtain c where "c \<in> set (filter (\<lambda>c. \<not> ck_ok c \<and> ck_fail c) cs)" by (auto simp: summarizeChecks_def Let_def filter_empty_conv)
  moreover have "issues_of c \<noteq> []" by (simp add: issues_of_def Let_def)
  ultimately show ?thesis unfolding check_issues_def by (auto simp: concat_eq_Nil_conv)
qed

lemma failed_has_issue: "\<not> vr_pass (fst (verifyRun ve sy jo task p syn ents)) \<Longrightarrow> vr_issues (fst (verifyRun ve sy jo task p syn ents)) \<noteq> []"
  using check_issues_some by (auto simp: verifyRun_def judged_result_def Let_def split: option.splits bool.splits if_splits)

lemma mem_checks: "cs_ok (summarizeChecks cs) \<Longrightarrow> c \<in> set cs \<Longrightarrow> ck_fail c \<Longrightarrow> ck_ok c"
  by (auto simp: summarizeChecks_def Let_def filter_empty_conv)

lemma add_check_simps [simp]:
  "ck_ok (add_check i ok fails d ss) = ok" "ck_fail (add_check i ok fails d ss) = fails" "ck_id (add_check i ok fails d ss) = i"
  by (simp_all add: add_check_def)

definition clean_file :: "verify_env \<Rightarrow> synth_file \<Rightarrow> bool" where
  "clean_file ve f =
    (\<not> blank_file f \<and> \<not> placeholder (sf_content f) \<and> \<not> leaky f \<and> (has_ext [''.json''] f \<longrightarrow> ve_json_error ve (sf_content f) = None))"

definition clean_run :: "verify_env \<Rightarrow> (string \<times> entry) list \<Rightarrow> synthesis \<Rightarrow> bool" where
  "clean_run ve ents syn =
    (list_all (\<lambda>p. en_state (snd p) = SComplete) ents \<and> list_all (\<lambda>p. \<not> barren (sy_files syn) (snd p)) ents \<and>
     list_all (clean_file ve) (sy_files syn))"

lemma map_filter_Nil: "List.map_filter f xs = [] \<longleftrightarrow> (\<forall>x\<in>set xs. f x = None)"
  by (simp add: List.map_filter_def filter_empty_conv)

lemma checks_clean:
  assumes "cs_ok (summarizeChecks (runChecks ve sy ents syn))"
  shows "clean_run ve ents syn"
proof -
  note ok = mem_checks [OF assms]
  have "ck_ok (check_complete (map snd ents))" by (rule ok) (simp_all add: runChecks_def check_complete_def Let_def)
  then have 1: "list_all (\<lambda>p. en_state (snd p) = SComplete) ents"
    by (auto simp: check_complete_def Let_def list_all_iff filter_empty_conv)
  have "ck_ok (check_produced (map snd ents) (sy_files syn))" by (rule ok) (simp_all add: runChecks_def check_produced_def Let_def)
  then have 2: "list_all (\<lambda>p. \<not> barren (sy_files syn) (snd p)) ents"
    by (auto simp: check_produced_def Let_def list_all_iff filter_empty_conv barren_def)
  have "ck_ok (check_files ''files-non-empty'' (show_nat (length (sy_files syn)) @ '' file(s) non-empty'') ''empty: '' (filter blank_file (sy_files syn)))"
    by (rule ok) (simp_all add: runChecks_def check_files_def Let_def)
  then have 3: "filter blank_file (sy_files syn) = []" by (simp add: check_files_def)
  have "ck_ok (check_files ''no-placeholders'' ''no placeholder content'' ''placeholder content in: '' (filter (\<lambda>f. placeholder (sf_content f)) (sy_files syn)))"
    by (rule ok) (simp_all add: runChecks_def check_files_def Let_def)
  then have 4: "filter (\<lambda>f. placeholder (sf_content f)) (sy_files syn) = []" by (simp add: check_files_def)
  have "ck_ok (check_files ''no-secrets'' ''no secret-shaped content'' ''secret-shaped content in: '' (filter leaky (sy_files syn)))"
    by (rule ok) (simp_all add: runChecks_def check_files_def Let_def)
  then have 5: "filter leaky (sy_files syn) = []" by (simp add: check_files_def)
  have "ck_ok (check_json ve (sy_files syn))" by (rule ok) (simp_all add: runChecks_def check_json_def Let_def)
  then have 6: "\<forall>f\<in>set (sy_files syn). has_ext [''.json''] f \<longrightarrow> ve_json_error ve (sf_content f) = None"
    by (simp add: check_json_def Let_def map_filter_Nil)
  show ?thesis unfolding clean_run_def clean_file_def using 1 2 3 4 5 6 by (simp add: list_all_iff filter_empty_conv)
qed

text \<open>C24. What a passed verification guarantees, whatever the judge said: every step is complete, every
  code-generation step has a file, and no file is blank, a stub, secret-shaped or unparsable JSON.\<close>

theorem passed_run_is_clean:
  assumes "vr_pass (fst (verifyRun ve sy jo task p syn ents))"
  shows "clean_run ve ents syn"
  using assms verify_verdict checks_clean by blast

definition calm_verify :: verify_env where
  "calm_verify = \<lparr>ve_jp = merge_parse, ve_json_error = \<lambda>_. None, ve_node_check = \<lambda>_ _. None, ve_str = \<lambda>v. dflt (str_of v) []\<rparr>"

definition no_judge :: judge_opts where
  "no_judge = \<lparr>jo_enabled = False, jo_chat = None, jo_candidates = [], jo_strict = False\<rparr>"

definition merge_request :: request where
  "merge_request = \<lparr>rq_id = ''t'', rq_title = ''T'', rq_prompt = ''P''\<rparr>"

definition merge_synthesis :: synthesis where
  "merge_synthesis = synthesize merge_parse None merge_graph merge_entries"

lemma short_is_clean: "length s < 6 \<Longrightarrow> list_ex (\<lambda>p. rx_test p s) SECRET_PATTERNS = False \<and> rx_test stub_words_re s = False"
proof -
  assume s: "length s < 6"
  have "list_all (\<lambda>r. 6 \<le> minlen r) (stub_words_re # SECRET_PATTERNS)" by code_simp
  then show ?thesis using s short_no_match [of s] by (auto simp: list_all_iff list_ex_iff)
qed

lemma merge_files:
  "map (\<lambda>f. (sf_path f, sf_content f, sf_sourceTaskId f)) (sy_files merge_synthesis) =
     [(''x.js'', ''one'', ''a''), (''x.b.js'', ''three'', ''b''), (''x.b.js'', ''two'', ''a'')]"
  by code_simp

lemma merge_checks_ok: "cs_ok (summarizeChecks (runChecks calm_verify True merge_entries merge_synthesis))"
proof -
  have c: "length (sf_content f) < 6 \<and> sf_content f \<in> {''one'', ''two'', ''three''}" if "f \<in> set (sy_files merge_synthesis)" for f
  proof -
    have "(sf_path f, sf_content f, sf_sourceTaskId f) \<in> set (map (\<lambda>f. (sf_path f, sf_content f, sf_sourceTaskId f)) (sy_files merge_synthesis))"
      using that by simp
    then show ?thesis unfolding merge_files by auto
  qed
  have p: "\<not> list_ex (\<lambda>l. js_trim l = ''...'' \<or> js_trim l = ellipsis) (split_on (\<lambda>c. c = CHR 0x0A \<or> c = CHR 0x0D) s)" "js_trim s \<noteq> []"
    if "s \<in> {''one'', ''two'', ''three''}" for s
    using that by (elim insertE emptyE; hypsubst; code_simp)+
  have "filter blank_file (sy_files merge_synthesis) = []" "filter (\<lambda>f. placeholder (sf_content f)) (sy_files merge_synthesis) = []"
    "filter leaky (sy_files merge_synthesis) = []"
    using c p short_is_clean by (auto simp: filter_empty_conv blank_file_def placeholder_def leaky_def)
  moreover have "ck_ok (check_complete (map snd merge_entries))" by code_simp
  moreover have "ck_ok (check_produced (map snd merge_entries) (sy_files merge_synthesis))" by code_simp
  moreover have "ck_ok (check_json calm_verify (sy_files merge_synthesis))" "ck_ok (check_syntax calm_verify (sy_files merge_synthesis))"
    by (simp_all add: check_json_def check_syntax_def Let_def map_filter_Nil js_fault_def calm_verify_def)
  moreover have "ck_fail (check_conflicts cs) = False" for cs by (simp add: check_conflicts_def)
  ultimately show ?thesis by (simp add: summarizeChecks_def runChecks_def check_files_def Let_def)
qed

theorem passed_run_is_clean_witness:
  "vr_pass (fst (verifyRun calm_verify True no_judge merge_request (unplanned merge_graph) merge_synthesis merge_entries)) \<and>
   clean_run calm_verify merge_entries merge_synthesis"
proof -
  have "vr_pass (fst (verifyRun calm_verify True no_judge merge_request (unplanned merge_graph) merge_synthesis merge_entries))"
    using merge_checks_ok by (simp add: verifyRun_def judge_for_def no_judge_def judged_result_def Let_def)
  from passed_run_is_clean [OF this] this show ?thesis by blast
qed

text \<open>The judge did not take part: it is asked only when the checks passed, it is a candidate, and its id is that
  of no model that answered a step, was assigned one or made the plan, provided that the chat answers with the
  service it was asked for.\<close>

theorem judge_is_independent:
  assumes "vr_judge (fst (verifyRun ve sy jo task p syn ents)) = Some j"
    and "\<forall>chat ms s r. jo_chat jo = Some chat \<and> chat ms s = Inr r \<longrightarrow> cp_service r = None \<or> cp_service r = Some s"
  shows "cs_ok (summarizeChecks (runChecks ve sy ents syn)) \<and> jd_provider j \<in> set (jo_candidates jo) \<and>
    list_all (\<lambda>m. provider_of m \<noteq> jd_provider j) (used_models ents (pn_plannedBy p))"
proof -
  let ?cs = "runChecks ve sy ents syn"
  obtain provider where ok: "cs_ok (summarizeChecks ?cs)" and pr: "judge_for jo ents (pn_plannedBy p) = Some provider"
    and j: "j = askJudge ve (the (jo_chat jo) (buildJudgeMessages task (pn_graph p) syn ents ?cs)) provider"
    using assms(1) by (auto simp: verifyRun_def judged_result_def Let_def split: option.splits bool.splits if_splits)
  obtain chat where chat: "jo_chat jo = Some chat" and pick: "pickJudgeProvider ents (jo_candidates jo) (pn_plannedBy p) = Some provider"
    using pr by (auto simp: judge_for_def split: if_splits)
  have pinned: "dflt (cp_service r) provider = provider" if "chat ms provider = Inr r" for ms r
    using assms(2) [rule_format, of chat ms provider r] chat that by auto
  have "jd_provider j = provider"
    using pinned unfolding j askJudge_def chat option.sel by (auto split: sum.splits option.splits)
  moreover have "provider \<in> set (jo_candidates jo)" "provider \<notin> set (map provider_of (used_models ents (pn_plannedBy p)))"
    using find_Some_iff_mem [OF pick [unfolded pickJudgeProvider_def]] by simp_all
  ultimately show ?thesis using ok by (auto simp: list_all_iff image_iff)
qed

definition echo_judge :: judge_opts where
  "echo_judge = \<lparr>jo_enabled = True, jo_chat = Some (\<lambda>_ s. Inr \<lparr>cp_text = None, cp_service = Some s\<rparr>),
     jo_candidates = [''groq'', ''gemini''], jo_strict = False\<rparr>"

theorem judge_is_independent_witness:
  "\<exists>j. vr_judge (fst (verifyRun calm_verify True echo_judge merge_request \<lparr>pn_graph = merge_graph, pn_plannedBy = Some ''phase2:groq''\<rparr>
      merge_synthesis merge_entries)) = Some j \<and> jd_provider j = ''gemini''"
proof -
  let ?p = "\<lparr>pn_graph = merge_graph, pn_plannedBy = Some ''phase2:groq''\<rparr>"
  let ?r = "fst (verifyRun calm_verify True echo_judge merge_request ?p merge_synthesis merge_entries)"
  have "judge_for echo_judge merge_entries (Some ''phase2:groq'') = Some ''gemini''"
    by (simp add: judge_for_def echo_judge_def pickJudgeProvider_def) code_simp
  then obtain j where j: "vr_judge ?r = Some j"
    using merge_checks_ok by (simp add: verifyRun_def Let_def)
  have "jd_provider j \<in> {''groq'', ''gemini''} \<and> list_all (\<lambda>m. provider_of m \<noteq> jd_provider j) (used_models merge_entries (Some ''phase2:groq''))"
    using judge_is_independent [OF j] by (simp add: echo_judge_def)
  moreover have "used_models merge_entries (Some ''phase2:groq'') = [''phase2:groq'']" "provider_of ''phase2:groq'' = ''groq''" by code_simp+
  ultimately show ?thesis using j by auto
qed

text \<open>The syntax check sees twelve files: once that many are there, it reports the same whatever files come
  after them, a thirteenth that does not parse included, though it is said to look at every one.\<close>

theorem syntax_check_sees_twelve:
  assumes "12 \<le> length (filter (has_ext [''.js'', ''.mjs'', ''.cjs'']) files)"
  shows "check_syntax ve (files @ extra) = check_syntax ve files"
  using assms by (simp add: check_syntax_def MAX_SYNTAX_FILES_def)

theorem syntax_check_sees_twelve_witness:
  "\<exists>ve f fs. ve_node_check ve ''.mjs'' (sf_content f) \<noteq> None \<and> has_ext [''.js''] f \<and> ck_ok (check_syntax ve (fs @ [f]))"
proof -
  let ?f = "\<lambda>c. \<lparr>sf_path = ''a.js'', sf_content = c, sf_sourceTaskId = ''a'', sf_conflict = False, sf_conflictsWithPath = None\<rparr>"
  let ?ve = "calm_verify\<lparr>ve_node_check := \<lambda>_ c. if c = ''('' then Some [] else None\<rparr>"
  let ?fs = "replicate 12 (?f ''x'')"
  have e: "has_ext [''.js'', ''.mjs'', ''.cjs''] (?f c)" "has_ext [''.js''] (?f c)" for c by (simp_all add: has_ext_def) code_simp+
  have "check_syntax ?ve (?fs @ [?f ''('']) = check_syntax ?ve ?fs" by (rule syntax_check_sees_twelve) (simp add: e)
  moreover have "ck_ok (check_syntax ?ve ?fs)"
    by (simp add: check_syntax_def Let_def e map_filter_Nil js_fault_def MAX_SYNTAX_FILES_def MAX_SYNTAX_BYTES_def)
  ultimately show ?thesis using e by (intro exI [of _ ?ve] exI [of _ "?f ''(''"] exI [of _ ?fs]) simp
qed

end
