(* ===== verification/Orchestrate.thy ===== *)
theory Orchestrate
  imports Verify
begin

text \<open>
  One task's orchestration made durable, \<open>src/engine/orchestrate.js\<close>: plan, execute, synthesize, verify and, at
  most \<open>maxRemediations\<close> times, send the steps at fault back. The checkpoint is written at every boundary; what
  was written, with the reason, is kept in the order of the writes. The scheduler's world, the judge and the
  pulse's wish to drain may change with the checkpoint, so they are functions of it. Events of single steps and
  durations are left out.
\<close>

section \<open>The checkpoint\<close>

datatype cp_phase = PhPlanned | PhExecuting | PhExecuted | PhVerifying | PhVerified

record kept_verdict =
  kv_pass :: bool
  kv_reason :: string
  kv_unjudged :: bool
  kv_round :: nat
  kv_judge :: "judged option"
  kv_checks :: "(string \<times> bool \<times> string) list"

record checkpoint =
  kp_taskId :: string
  kp_phase :: cp_phase
  kp_plan :: "plan option"
  kp_subtasks :: "(string \<times> snapshot) list"
  kp_verification :: "kept_verdict option"
  kp_remediations :: nat
  kp_stepUsage :: "(string \<times> nat \<times> int) list"
  kp_usage :: "(nat \<times> int \<times> int) option"

definition newCheckpoint :: "string \<Rightarrow> checkpoint" where
  "newCheckpoint taskId = \<lparr>kp_taskId = taskId, kp_phase = PhPlanned, kp_plan = None, kp_subtasks = [], kp_verification = None,
     kp_remediations = 0, kp_stepUsage = [], kp_usage = Some (0, 0, 0)\<rparr>"

definition MAX_CHECKPOINT_OUTPUT_CHARS :: nat where "MAX_CHECKPOINT_OUTPUT_CHARS = 16000"

definition snapshotSubtask :: "entry \<Rightarrow> snapshot" where
  "snapshotSubtask e =
    \<lparr>sb_state = en_state e, sb_assignment = en_assignment e, sb_attempts = en_attempts e,
     sb_output = map_option (take MAX_CHECKPOINT_OUTPUT_CHARS) (en_output e), sb_error = en_error e,
     sb_startedAt = en_startedAt e, sb_completedAt = en_completedAt e\<rparr>"

text \<open>Calls, tokens and wall time: the live totals, else the sum of the table.\<close>

definition usageOf :: "checkpoint \<Rightarrow> nat \<times> int \<times> int" where
  "usageOf cp =
    (case kp_usage cp of
       Some u \<Rightarrow> u
     | None \<Rightarrow> (sum_list (map (\<lambda>p. fst (snd p)) (kp_stepUsage cp)), sum_list (map (\<lambda>p. snd (snd p)) (kp_stepUsage cp)), 0))"

definition usage_add :: "string \<Rightarrow> nat \<Rightarrow> int \<Rightarrow> checkpoint \<Rightarrow> checkpoint" where
  "usage_add i ncalls tokens cp =
    (let old = dflt (map_of (kp_stepUsage cp) i) (0, 0) in
     cp\<lparr>kp_stepUsage := assoc_put i (fst old + ncalls, snd old + tokens) (kp_stepUsage cp)\<rparr>)"

text \<open>The planning call counts one call and no tokens, whatever was there.\<close>

definition plan_usage :: "checkpoint \<Rightarrow> checkpoint" where
  "plan_usage cp = cp\<lparr>kp_stepUsage := assoc_put ''plan'' (fst (dflt (map_of (kp_stepUsage cp) ''plan'') (0, 0)) + 1, 0) (kp_stepUsage cp)\<rparr>"

section \<open>Which steps are sent back\<close>

definition issue_seeds :: "graph \<Rightarrow> vissue list \<Rightarrow> string list" where
  "issue_seeds g issues =
    uniq (filter (\<lambda>i. i \<noteq> [] \<and> i \<in> gs_id ` set (gr_tasks g)) (List.map_filter vi_step issues))"

definition code_steps :: "graph \<Rightarrow> string list" where
  "code_steps g = uniq (map gs_id (filter (\<lambda>t. gs_aspect t = ''code-generation'') (gr_tasks g)))"

definition first_targets :: "graph \<Rightarrow> vissue list \<Rightarrow> string list" where
  "first_targets g issues =
    (if issue_seeds g issues \<noteq> [] then issue_seeds g issues
     else if code_steps g \<noteq> [] then code_steps g else uniq (map gs_id (gr_tasks g)))"

definition grow_one :: "gstep \<Rightarrow> string list \<Rightarrow> string list" where
  "grow_one t targets =
    (if gs_id t \<in> set targets then targets
     else if list_ex (\<lambda>d. d \<in> set targets) (gs_dependsOn t) then targets @ [gs_id t] else targets)"

lemma grow_fold: "\<exists>ys. fold grow_one us targets = targets @ ys \<and> set ys \<subseteq> gs_id ` set us - set targets"
proof (induction us arbitrary: targets)
  case (Cons t us)
  show ?case
  proof (cases "grow_one t targets = targets")
    case True
    then show ?thesis using Cons.IH [of targets] by auto
  next
    case False
    then have g: "grow_one t targets = targets @ [gs_id t]" "gs_id t \<notin> set targets" by (auto simp: grow_one_def split: if_splits)
    obtain ys where "fold grow_one us (targets @ [gs_id t]) = (targets @ [gs_id t]) @ ys" "set ys \<subseteq> gs_id ` set us - set (targets @ [gs_id t])"
      using Cons.IH by blast
    then show ?thesis using g by (intro exI [of _ "gs_id t # ys"]) auto
  qed
qed simp

function grow_targets :: "gstep list \<Rightarrow> string list \<Rightarrow> string list" where
  "grow_targets ts targets =
    (let targets' = fold grow_one ts targets in if targets' = targets then targets else grow_targets ts targets')"
  by pat_completeness auto
termination
proof (relation "measure (\<lambda>(ts, targets). card (gs_id ` set ts - set targets))", simp)
  fix ts :: "gstep list" and targets targets'
  assume t: "targets' = fold grow_one ts targets" "targets' \<noteq> targets"
  obtain ys where ys: "targets' = targets @ ys" "set ys \<subseteq> gs_id ` set ts - set targets" using grow_fold [of ts targets] t(1) by auto
  then have "ys \<noteq> []" using t(2) by auto
  then have "gs_id ` set ts - set targets' \<subset> gs_id ` set ts - set targets" using ys by (cases ys) auto
  then have "card (gs_id ` set ts - set targets') < card (gs_id ` set ts - set targets)" by (rule psubset_card_mono [rotated]) simp
  then show "((ts, targets'), ts, targets) \<in> measure (\<lambda>(ts, targets). card (gs_id ` set ts - set targets))" by simp
qed

declare grow_targets.simps [simp del]

definition remediationTargets :: "graph \<Rightarrow> vissue list \<Rightarrow> string list" where
  "remediationTargets g issues = grow_targets (gr_tasks g) (first_targets g issues)"

definition issue_line :: "vissue \<Rightarrow> string" where
  "issue_line i = ''- '' @ (case vi_step i of Some s \<Rightarrow> if s \<noteq> [] then ''['' @ s @ ''] '' else [] | None \<Rightarrow> []) @ vi_problem i"

definition feedback_hint :: "nat \<Rightarrow> vissue list \<Rightarrow> string" where
  "feedback_hint attempt issues =
    ''VERIFICATION FEEDBACK (attempt '' @ show_nat attempt @ ''): your previous output for this step did not pass verification. ''
    @ ''Fix these problems and produce the complete deliverable again:'' @ newline @ join_with newline (map issue_line issues)"

definition remediate :: "plan \<Rightarrow> vissue list \<Rightarrow> checkpoint \<Rightarrow> checkpoint" where
  "remediate p issues cp =
    (let n = kp_remediations cp + 1;
         targets = remediationTargets (pn_graph p) issues;
         hint = feedback_hint (n + 1) issues;
         g = pn_graph p in
     cp\<lparr>kp_remediations := n, kp_phase := PhExecuting,
        kp_subtasks := filter (\<lambda>s. \<not> (fst s \<in> gs_id ` set (gr_tasks g) \<and> fst s \<in> set targets)) (kp_subtasks cp),
        kp_plan := Some (p\<lparr>pn_graph := g\<lparr>gr_tasks :=
          map (\<lambda>t. if gs_id t \<in> set targets then t\<lparr>gs_remediationHint := Some hint\<rparr> else t) (gr_tasks g)\<rparr>\<rparr>)\<rparr>)"

section \<open>The run\<close>

datatype run_event =
    PlanStarted nat
  | PlanParked string
  | PlanFinished nat
  | RunParked string "string list"
  | RunFinished string nat
  | RemediateStarted nat "string list" nat

record orch =
  ow_cp :: checkpoint
  ow_saved :: "(string \<times> checkpoint) list"
  ow_events :: "run_event list"

record orch_env =
  oe_sched :: "checkpoint \<Rightarrow> sched_env"
  oe_verify :: verify_env
  oe_judge :: "checkpoint \<Rightarrow> judge_opts"
  oe_drain :: "checkpoint \<Rightarrow> bool"
  oe_checkSyntax :: bool
  oe_maxRemediations :: nat

record orch_task =
  ot_request :: request
  ot_parks :: nat
  ot_routingHint :: "string option"

record parked_run =
  pr_reason :: string
  pr_wakeInMs :: rat
  pr_why :: park_why
  pr_class :: "string option"
  pr_code :: "string option"
  pr_approvalKey :: "string option"

record run_outcome =
  oc_ok :: bool
  oc_drained :: bool
  oc_parked :: "parked_run option"
  oc_synthesis :: "synthesis option"
  oc_tasks :: "(string \<times> entry) list"
  oc_planned :: bool
  oc_verification :: "kept_verdict option"
  oc_failedVerification :: bool

definition no_outcome :: "(string \<times> entry) list \<Rightarrow> bool \<Rightarrow> run_outcome" where
  "no_outcome tasks planned = \<lparr>oc_ok = False, oc_drained = False, oc_parked = None, oc_synthesis = None, oc_tasks = tasks,
     oc_planned = planned, oc_verification = None, oc_failedVerification = False\<rparr>"

definition persist :: "string \<Rightarrow> orch \<Rightarrow> orch" where
  "persist reason w = w\<lparr>ow_saved := ow_saved w @ [(reason, ow_cp w)]\<rparr>"

definition event :: "run_event \<Rightarrow> orch \<Rightarrow> orch" where
  "event e w = w\<lparr>ow_events := ow_events w @ [e]\<rparr>"

definition on_cp :: "(checkpoint \<Rightarrow> checkpoint) \<Rightarrow> orch \<Rightarrow> orch" where
  "on_cp f w = w\<lparr>ow_cp := f (ow_cp w)\<rparr>"

text \<open>The scheduler's listener: a settled step goes into the checkpoint and counts its attempts, unless it was only
  restored. The first component holds the steps that were seen running.\<close>

definition note_entry :: "entry \<Rightarrow> string list \<times> orch \<Rightarrow> string list \<times> orch" where
  "note_entry e sw =
    (let (started, w) = sw; i = entry_id e in
     if en_state e = SRunning then (i # started, w)
     else if en_state e \<in> {SComplete, SFailed, SBlocked, SCancelled} then
       (if en_resumed e \<and> i \<notin> set started then (started, w)
        else (started, persist (''step:'' @ i) (on_cp (\<lambda>cp. usage_add i (length (en_attempts e))
               (sum_list (map (\<lambda>a. dflt (at_tokensUsed a) 0) (en_attempts e)))
               (cp\<lparr>kp_subtasks := assoc_put i (snapshotSubtask e) (kp_subtasks cp)\<rparr>)) w)))
     else (started, w))"

definition record_all :: "(string \<times> entry) list \<Rightarrow> checkpoint \<Rightarrow> checkpoint" where
  "record_all tasks cp = cp\<lparr>kp_subtasks := fold (\<lambda>(i, e). assoc_put i (snapshotSubtask e)) tasks (kp_subtasks cp)\<rparr>"

definition parked_steps :: "(string \<times> entry) list \<Rightarrow> (entry \<times> step_error \<times> park) list" where
  "parked_steps tasks =
    List.map_filter (\<lambda>(_, e). if en_state e \<noteq> SFailed then None
      else Option.bind (en_error e) (\<lambda>x. map_option (\<lambda>p. (e, x, p)) (sx_park x))) tasks"

definition parked_outcome :: "(entry \<times> step_error \<times> park) list \<Rightarrow> parked_run" where
  "parked_outcome ps =
    (let approval = List.find (\<lambda>(_, _, p). pk_reason p = ''approval'') ps;
         (_, x, p) = dflt approval (hd ps) in
     \<lparr>pr_reason = (if approval \<noteq> None then ''approval''
        else if list_ex (\<lambda>(_, _, p). pk_reason p = ''quota'') ps then ''quota'' else ''provider''),
      pr_wakeInMs = (if approval \<noteq> None then 0 else Max (set (map (\<lambda>(_, _, p). pk_wakeInMs p) ps))),
      pr_why = pk_why p, pr_class = sx_class x, pr_code = Some (sx_code x), pr_approvalKey = pk_approvalKey p\<rparr>)"

definition keep_verdict :: "verification \<Rightarrow> checkpoint \<Rightarrow> kept_verdict" where
  "keep_verdict v cp =
    \<lparr>kv_pass = vr_pass v, kv_reason = vr_reason v, kv_unjudged = vr_unjudged v, kv_round = kp_remediations cp, kv_judge = vr_judge v,
     kv_checks = map (\<lambda>c. (ck_id c, ck_ok c, ck_detail c)) (vr_checks v)\<rparr>"

text \<open>After the steps: the verdict that counts, with the issues when it is a fresh one. The phase has just been set,
  so of the code's two tests only the one on the kept verdict can hold.\<close>

definition verdict_step :: "orch_env \<Rightarrow> orch_task \<Rightarrow> plan \<Rightarrow> synthesis \<Rightarrow> (string \<times> entry) list \<Rightarrow> orch \<Rightarrow> (bool \<times> vissue list) \<times> orch" where
  "verdict_step env task p syn tasks w =
    (case kp_verification (ow_cp w) of
       Some kv \<Rightarrow>
         if kp_phase (ow_cp w) = PhVerified \<or> (kv_pass kv \<and> kv_round kv = kp_remediations (ow_cp w)) then ((kv_pass kv, []), w)
         else (let w1 = persist ''verifying'' (on_cp (\<lambda>cp. cp\<lparr>kp_phase := PhVerifying\<rparr>) w);
                   v = fst (verifyRun (oe_verify env) (oe_checkSyntax env) (oe_judge env (ow_cp w1)) (ot_request task) p syn tasks)
               in ((vr_pass v, vr_issues v), on_cp (\<lambda>cp. cp\<lparr>kp_verification := Some (keep_verdict v cp)\<rparr>) w1))
     | None \<Rightarrow>
         (let w1 = persist ''verifying'' (on_cp (\<lambda>cp. cp\<lparr>kp_phase := PhVerifying\<rparr>) w);
              v = fst (verifyRun (oe_verify env) (oe_checkSyntax env) (oe_judge env (ow_cp w1)) (ot_request task) p syn tasks)
          in ((vr_pass v, vr_issues v), on_cp (\<lambda>cp. cp\<lparr>kp_verification := Some (keep_verdict v cp)\<rparr>) w1)))"

text \<open>What a round ends with: the outcome of the run, or another round.\<close>

definition settle_round :: "orch_env \<Rightarrow> orch_task \<Rightarrow> plan \<Rightarrow> bool \<Rightarrow> run_state \<Rightarrow> (string \<times> entry) list \<Rightarrow> orch \<Rightarrow> run_outcome option \<times> orch" where
  "settle_round env task p planned fs tasks w =
    (let base = no_outcome tasks planned in
     if fs = RunDrained then
       (Some (base\<lparr>oc_drained := True\<rparr>),
        event (RunParked ''pulse-budget'' []) (persist ''drained'' (on_cp (\<lambda>cp. cp\<lparr>kp_phase := PhExecuting\<rparr>) w)))
     else
       (let ps = parked_steps tasks in
        if ps \<noteq> [] then
          (let pr = parked_outcome ps in
           (Some (base\<lparr>oc_parked := Some pr\<rparr>),
            event (RunParked (pr_reason pr) (map (\<lambda>(e, _). entry_id e) ps))
              (persist ''parked'' (on_cp (\<lambda>cp. record_all tasks (cp\<lparr>kp_phase := PhExecuting\<rparr>)) w))))
        else
          (let w1 = persist ''executed'' (on_cp (\<lambda>cp. record_all tasks (cp\<lparr>kp_phase := PhExecuted\<rparr>)) w);
               syn = synthesize (ve_jp (oe_verify env)) None (pn_graph p) tasks;
               done = base\<lparr>oc_synthesis := Some syn\<rparr>;
               finished = (\<lambda>how. RunFinished how (length (sy_files syn))) in
           if list_ex (\<lambda>q. en_state (snd q) = SFailed \<or> en_state (snd q) = SBlocked) tasks then
             (Some (done\<lparr>oc_verification := kp_verification (ow_cp w1)\<rparr>), event (finished ''failed'') w1)
           else
             (let ((pass, issues), w2) = verdict_step env task p syn tasks w1 in
              if pass then
                (let w3 = persist ''verified'' (on_cp (\<lambda>cp. cp\<lparr>kp_phase := PhVerified\<rparr>) w2) in
                 (Some (done\<lparr>oc_ok := True, oc_verification := kp_verification (ow_cp w3)\<rparr>), event (finished ''complete'') w3))
              else if kp_remediations (ow_cp w2) < oe_maxRemediations env \<and> \<not> oe_drain env (ow_cp w2) then
                (let w3 = persist ''remediating'' (on_cp (remediate p issues) w2) in
                 (None, event (RemediateStarted (kp_remediations (ow_cp w3)) (remediationTargets (pn_graph p) issues) (length issues)) w3))
              else
                (Some (done\<lparr>oc_verification := kp_verification (ow_cp w2), oc_failedVerification := True\<rparr>), event (finished ''verification-failed'') w2)))))"

text \<open>One round: run the graph, let the listener note its events, and settle. The fuel bounds the rounds
  (\<open>orchestration_returns\<close> below).\<close>

fun rounds :: "nat \<Rightarrow> orch_env \<Rightarrow> orch_task \<Rightarrow> bool \<Rightarrow> orch \<Rightarrow> (run_outcome \<times> orch) option" where
  "rounds 0 env task planned w = None"
| "rounds (Suc n) env task planned w =
     (case kp_plan (ow_cp w) of
        None \<Rightarrow> None
      | Some p \<Rightarrow>
          (case run_graph (oe_sched env (ow_cp w)) (pn_graph p) (map_of (kp_subtasks (ow_cp w))) of
             None \<Rightarrow> None
           | Some (fs, s) \<Rightarrow>
               (let w1 = snd (fold note_entry (sd_log s) ([], w)) in
                case settle_round env task p planned fs (sd_tasks s) w1 of
                  (Some o', w2) \<Rightarrow> Some (o', w2)
                | (None, w2) \<Rightarrow> rounds n env task planned w2)))"

definition hinted :: "string option \<Rightarrow> plan \<Rightarrow> plan" where
  "hinted hint p =
    (case hint of
       None \<Rightarrow> p
     | Some h \<Rightarrow>
         if h = [] \<or> h = ''any'' then p
         else p\<lparr>pn_graph := (pn_graph p)\<lparr>gr_tasks := map (\<lambda>t. t\<lparr>gs_routingHint := Some h\<rparr>) (gr_tasks (pn_graph p))\<rparr>\<rparr>)"

definition plan_parked :: "err \<Rightarrow> nat \<Rightarrow> parked_run option" where
  "plan_parked e parks =
    (let f = classifyFailure e in
     map_option (\<lambda>(reason, wake, why). \<lparr>pr_reason = reason, pr_wakeInMs = wake, pr_why = PolicyWhy why, pr_class = Some (cf_class f),
         pr_code = cf_code f, pr_approvalKey = None\<rparr>)
       (parkFor (cf_class f) (cf_retryAfterMs f) parks))"

definition prior_plans :: "checkpoint \<Rightarrow> nat" where
  "prior_plans cp = fst (dflt (map_of (kp_stepUsage cp) ''plan'') (0, 0))"

text \<open>\<open>runOrchestration\<close>: what it returns, or the error it throws. \<open>planner\<close> is the call of \<open>decompose\<close>.\<close>

definition runOrchestration :: "orch_env \<Rightarrow> (err + plan) \<Rightarrow> orch_task \<Rightarrow> checkpoint \<Rightarrow> (err + run_outcome \<times> orch) option" where
  "runOrchestration env planner task cp =
    (let w0 = \<lparr>ow_cp = cp, ow_saved = [], ow_events = []\<rparr>;
         fuel = oe_maxRemediations env + 1 in
     case kp_plan cp of
       Some p \<Rightarrow> map_option Inr (rounds fuel env task False w0)
     | None \<Rightarrow>
         (let w1 = event (PlanStarted (prior_plans cp + 1)) w0 in
          case planner of
            Inl e \<Rightarrow>
              (case plan_parked e (ot_parks task) of
                 None \<Rightarrow> Some (Inl e)
               | Some pr \<Rightarrow>
                   Some (Inr ((no_outcome [] False)\<lparr>oc_parked := Some pr\<rparr>,
                     event (RunParked (pr_reason pr) [''plan'']) (event (PlanParked (pr_reason pr)) (persist ''plan-parked'' (on_cp plan_usage w1))))))
          | Inr p \<Rightarrow>
              (let p' = hinted (ot_routingHint task) p;
                   w2 = on_cp (\<lambda>cp. plan_usage (cp\<lparr>kp_plan := Some p', kp_phase := PhExecuting\<rparr>)) w1;
                   w3 = persist ''planned'' (event (PlanFinished (length (gr_tasks (pn_graph p')))) w2)
               in map_option Inr (rounds fuel env task True w3))))"


section \<open>What is sent back is what depends on a fault\<close>

text \<open>The steps that depend, directly or through others, on one of the seeds.\<close>

inductive downstream :: "graph \<Rightarrow> string list \<Rightarrow> string \<Rightarrow> bool" for g seeds where
  seed: "x \<in> set seeds \<Longrightarrow> downstream g seeds x"
| dependent: "downstream g seeds d \<Longrightarrow> t \<in> set (gr_tasks g) \<Longrightarrow> d \<in> set (gs_dependsOn t) \<Longrightarrow> downstream g seeds (gs_id t)"

lemma grow_one_sound:
  assumes "t \<in> set (gr_tasks g)" and "\<And>x. x \<in> set targets \<Longrightarrow> downstream g seeds x" and "x \<in> set (grow_one t targets)"
  shows "downstream g seeds x"
  using assms by (auto simp: grow_one_def list_ex_iff intro: downstream.dependent split: if_splits)

lemma grow_fold_sound:
  "set us \<subseteq> set (gr_tasks g) \<Longrightarrow> (\<And>x. x \<in> set targets \<Longrightarrow> downstream g seeds x) \<Longrightarrow> x \<in> set (fold grow_one us targets) \<Longrightarrow>
   downstream g seeds x"
proof (induction us arbitrary: targets)
  case (Cons t us)
  show ?case by (rule Cons.IH [of "grow_one t targets"]) (use Cons.prems grow_one_sound [of t g targets seeds] in auto)
qed simp

lemma grow_fold_fixed:
  assumes "fold grow_one ts targets = targets" and "t \<in> set ts"
  shows "grow_one t targets = targets"
  using assms
proof (induction ts)
  case (Cons u us)
  obtain ys zs where "fold grow_one us (grow_one u targets) = grow_one u targets @ ys" "grow_one u targets = targets @ zs"
    using grow_fold [of us "grow_one u targets"] grow_fold [of "[u]" targets] by auto
  then have "grow_one u targets = targets" using Cons.prems(1) by simp
  then show ?case using Cons by auto
qed simp

lemma grow_targets_spec:
  "set seeds \<subseteq> set targets \<Longrightarrow> (\<And>x. x \<in> set targets \<Longrightarrow> downstream g seeds x) \<Longrightarrow>
   set (grow_targets (gr_tasks g) targets) = {x. downstream g seeds x}"
proof (induction "gr_tasks g" targets rule: grow_targets.induct)
  case (1 targets)
  let ?next = "fold grow_one (gr_tasks g) targets"
  show ?case
  proof (cases "?next = targets")
    case True
    have "downstream g seeds x \<Longrightarrow> x \<in> set targets" for x
    proof (induction rule: downstream.induct)
      case (dependent d t)
      have "grow_one t targets = targets" by (rule grow_fold_fixed [OF True dependent.hyps(2)])
      then show ?case using dependent by (auto simp: grow_one_def list_ex_iff split: if_splits)
    qed (use "1.prems"(1) in auto)
    then show ?thesis using "1.prems"(2) True by (subst grow_targets.simps) auto
  next
    case False
    obtain ys where "?next = targets @ ys" using grow_fold [of "gr_tasks g" targets] by blast
    then have "set seeds \<subseteq> set ?next" using "1.prems"(1) by auto
    moreover have "downstream g seeds x" if "x \<in> set ?next" for x using grow_fold_sound [OF subset_refl "1.prems"(2) that] .
    ultimately have "set (grow_targets (gr_tasks g) ?next) = {x. downstream g seeds x}" using "1.hyps" False by simp
    then show ?thesis using False by (subst grow_targets.simps) simp
  qed
qed

lemma targets_downstream: "set (remediationTargets g issues) = {x. downstream g (first_targets g issues) x}"
  unfolding remediationTargets_def by (rule grow_targets_spec) (auto intro: downstream.seed)

lemma set_uniq [simp]: "set (uniq xs) = set xs"
  by (simp add: uniq_def)

lemma uniq_Nil [simp]: "uniq xs = [] \<longleftrightarrow> xs = []"
  by (simp add: uniq_def)

text \<open>C27. What a failed verification sends back: exactly the steps named by its issues (or, when none is, the
  code-generation steps, or all) and everything downstream of them, directly or not; at least one step
  when there is any. The loop that computes it returns on every graph, cyclic ones included.\<close>

theorem remediation_is_downstream:
  "set (remediationTargets g issues) = {x. downstream g (first_targets g issues) x} \<and>
   (remediationTargets g issues = []) = (gr_tasks g = [])"
proof -
  have "first_targets g issues = [] \<longleftrightarrow> gr_tasks g = []"
    by (auto simp: first_targets_def issue_seeds_def code_steps_def filter_empty_conv)
  moreover have "(\<forall>x. \<not> downstream g seeds x) \<longleftrightarrow> seeds = []" for seeds
  proof
    assume "\<forall>x. \<not> downstream g seeds x"
    then show "seeds = []" using downstream.seed [of _ seeds g] by (cases seeds) auto
  next
    assume "seeds = []"
    have "downstream g seeds x \<Longrightarrow> False" for x by (induction rule: downstream.induct) (use \<open>seeds = []\<close> in auto)
    then show "\<forall>x. \<not> downstream g seeds x" by blast
  qed
  moreover have "remediationTargets g issues = [] \<longleftrightarrow> (\<forall>x. x \<notin> set (remediationTargets g issues))" by (cases "remediationTargets g issues") auto
  ultimately show ?thesis using targets_downstream [of g issues] by auto
qed

section \<open>The run returns, within its rounds\<close>

definition kept :: "checkpoint \<Rightarrow> checkpoint \<Rightarrow> bool" where
  "kept cp cp' = (kp_plan cp' = kp_plan cp \<and> kp_remediations cp' = kp_remediations cp \<and> kp_verification cp' = kp_verification cp)"

lemma world_simps [simp]:
  "ow_cp (persist r w) = ow_cp w" "ow_cp (event e w) = ow_cp w" "ow_cp (on_cp f w) = f (ow_cp w)"
  "ow_events (persist r w) = ow_events w" "ow_events (event e w) = ow_events w @ [e]" "ow_events (on_cp f w) = ow_events w"
  "ow_saved (persist r w) = ow_saved w @ [(r, ow_cp w)]" "ow_saved (event e w) = ow_saved w" "ow_saved (on_cp f w) = ow_saved w"
  by (simp_all add: persist_def event_def on_cp_def)

lemma note_frame: "kept (ow_cp w) (ow_cp (snd (note_entry e (st, w)))) \<and> ow_events (snd (note_entry e (st, w))) = ow_events w"
  by (simp add: note_entry_def kept_def usage_add_def Let_def)

lemma notes_frame: "kept (ow_cp w) (ow_cp (snd (fold note_entry es (st, w)))) \<and> ow_events (snd (fold note_entry es (st, w))) = ow_events w"
proof (induction es arbitrary: st w)
  case (Cons e es)
  obtain st1 w1 where n: "note_entry e (st, w) = (st1, w1)" by fastforce
  have "kept (ow_cp w) (ow_cp w1)" "ow_events w1 = ow_events w" using note_frame [of w e st] n by simp_all
  then show ?case using Cons.IH [where st = st1 and w = w1] n by (simp add: kept_def)
qed (simp add: kept_def)

fun is_remediation :: "run_event \<Rightarrow> bool" where
  "is_remediation (RemediateStarted n ts k) = True"
| "is_remediation _ = False"

definition sent_back :: "orch \<Rightarrow> nat" where
  "sent_back w = length (filter is_remediation (ow_events w))"

lemma verdict_frame:
  assumes "verdict_step env task p syn tasks w = (r, w')"
  shows "kp_plan (ow_cp w') = kp_plan (ow_cp w) \<and> kp_remediations (ow_cp w') = kp_remediations (ow_cp w) \<and> ow_events w' = ow_events w"
  using assms by (auto simp: verdict_step_def Let_def split: option.splits if_splits)

lemma settle_frame:
  assumes "settle_round env task p planned fs tasks w = (r, w')"
  shows "(case r of
      Some oc \<Rightarrow> kp_remediations (ow_cp w') = kp_remediations (ow_cp w) \<and> sent_back w' = sent_back w
    | None \<Rightarrow> kp_plan (ow_cp w') \<noteq> None \<and> kp_remediations (ow_cp w') = kp_remediations (ow_cp w) + 1 \<and>
        sent_back w' = sent_back w + 1 \<and> kp_remediations (ow_cp w) < oe_maxRemediations env)"
  using assms verdict_frame
  by (auto simp: settle_round_def Let_def record_all_def sent_back_def remediate_def split: prod.splits if_splits dest!: verdict_frame)


lemma rounds_return:
  assumes "kp_plan (ow_cp w) \<noteq> None" and "oe_maxRemediations env - kp_remediations (ow_cp w) < n"
  shows "\<exists>oc w'. rounds n env task planned w = Some (oc, w') \<and>
    kp_remediations (ow_cp w') \<le> max (kp_remediations (ow_cp w)) (oe_maxRemediations env) \<and>
    sent_back w' + kp_remediations (ow_cp w) = sent_back w + kp_remediations (ow_cp w')"
  using assms
proof (induction n arbitrary: w)
  case (Suc n)
  obtain p where p: "kp_plan (ow_cp w) = Some p" using Suc.prems(1) by blast
  obtain s where s: "run_graph (oe_sched env (ow_cp w)) (pn_graph p) (map_of (kp_subtasks (ow_cp w))) = Some (finalState s, s)"
    using run_graph_returns by blast
  define w1 where "w1 = snd (fold note_entry (sd_log s) ([], w))"
  have k: "kept (ow_cp w) (ow_cp w1)" "sent_back w1 = sent_back w" using notes_frame [of w "sd_log s" "[]"] by (simp_all add: w1_def sent_back_def)
  obtain r w2 where r: "settle_round env task p planned (finalState s) (sd_tasks s) w1 = (r, w2)" by fastforce
  note f = settle_frame [OF r]
  show ?case
  proof (cases r)
    case (Some oc)
    then have "rounds (Suc n) env task planned w = Some (oc, w2)" using p s r by (simp add: w1_def)
    then show ?thesis using f k Some by (auto simp: kept_def)
  next
    case None
    have "oe_maxRemediations env - kp_remediations (ow_cp w2) < n" "kp_plan (ow_cp w2) \<noteq> None"
      using f k None Suc.prems(2) by (auto simp: kept_def)
    from Suc.IH [OF this(2,1)] obtain oc w' where "rounds n env task planned w2 = Some (oc, w')"
      "kp_remediations (ow_cp w') \<le> max (kp_remediations (ow_cp w2)) (oe_maxRemediations env)"
      "sent_back w' + kp_remediations (ow_cp w2) = sent_back w2 + kp_remediations (ow_cp w')" by blast
    moreover have "rounds (Suc n) env task planned w = rounds n env task planned w2" using p s r None by (simp add: w1_def)
    ultimately show ?thesis using f k None by (auto simp: kept_def)
  qed
qed simp

lemma plan_parked_some: "PARKABLE (cf_class (classifyFailure e)) \<noteq> None \<Longrightarrow> plan_parked e n \<noteq> None"
  by (auto simp: plan_parked_def parkFor_def Let_def)


section \<open>A run that is ok was verified\<close>

definition unpassed :: "checkpoint \<Rightarrow> bool" where
  "unpassed cp = (case kp_verification cp of None \<Rightarrow> True | Some kv \<Rightarrow> \<not> kv_pass kv)"

definition verified_end :: "orch_env \<Rightarrow> run_outcome \<Rightarrow> orch \<Rightarrow> bool" where
  "verified_end env oc w =
    (list_all (\<lambda>q. en_state (snd q) = SComplete) (oc_tasks oc) \<and>
     (case oc_synthesis oc of None \<Rightarrow> False | Some syn \<Rightarrow> clean_run (oe_verify env) (oc_tasks oc) syn) \<and>
     (case oc_verification oc of None \<Rightarrow> False | Some kv \<Rightarrow> kv_pass kv \<and> kv_round kv = kp_remediations (ow_cp w)) \<and>
     kp_phase (ow_cp w) = PhVerified \<and> ow_saved w \<noteq> [] \<and> last (ow_saved w) = (''verified'', ow_cp w))"

lemma verdict_fresh:
  assumes "verdict_step env task p syn tasks w = ((pass, issues), w')" and "unpassed (ow_cp w)" and "kp_phase (ow_cp w) \<noteq> PhVerified"
  shows "\<exists>kv. kp_verification (ow_cp w') = Some kv \<and> kv_pass kv = pass \<and> kv_round kv = kp_remediations (ow_cp w') \<and>
    (pass \<longrightarrow> clean_run (oe_verify env) tasks syn) \<and> (\<not> pass \<longrightarrow> issues \<noteq> [])"
proof -
  obtain jo where v: "pass = vr_pass (fst (verifyRun (oe_verify env) (oe_checkSyntax env) jo (ot_request task) p syn tasks))"
    "issues = vr_issues (fst (verifyRun (oe_verify env) (oe_checkSyntax env) jo (ot_request task) p syn tasks))"
    "kp_verification (ow_cp w') = Some (keep_verdict (fst (verifyRun (oe_verify env) (oe_checkSyntax env) jo (ot_request task) p syn tasks)) (ow_cp w'))"
    using assms by (auto simp: verdict_step_def Let_def unpassed_def keep_verdict_def split: option.splits if_splits)
  have "pass \<longrightarrow> clean_run (oe_verify env) tasks syn" unfolding v(1) using verify_verdict checks_clean by blast
  then show ?thesis using v failed_has_issue by (auto simp: keep_verdict_def)
qed

lemma settle_verified:
  assumes "settle_round env task p planned fs tasks w = (r, w')" and "unpassed (ow_cp w)"
  shows "(case r of Some oc \<Rightarrow> oc_ok oc \<longrightarrow> verified_end env oc w' | None \<Rightarrow> unpassed (ow_cp w'))"
proof (cases "fs = RunDrained \<or> parked_steps tasks \<noteq> [] \<or> list_ex (\<lambda>q. en_state (snd q) = SFailed \<or> en_state (snd q) = SBlocked) tasks")
  case True
  then show ?thesis using assms(1) by (auto simp: settle_round_def Let_def no_outcome_def split: if_splits)
next
  case False
  define w1 where "w1 = persist ''executed'' (on_cp (\<lambda>cp. record_all tasks (cp\<lparr>kp_phase := PhExecuted\<rparr>)) w)"
  define syn where "syn = synthesize (ve_jp (oe_verify env)) None (pn_graph p) tasks"
  obtain pass issues w2 where v: "verdict_step env task p syn tasks w1 = ((pass, issues), w2)" by (metis surj_pair)
  have w1: "unpassed (ow_cp w1)" "kp_phase (ow_cp w1) \<noteq> PhVerified" using assms(2) by (simp_all add: w1_def unpassed_def record_all_def)
  obtain kv where kv: "kp_verification (ow_cp w2) = Some kv" "kv_pass kv = pass" "kv_round kv = kp_remediations (ow_cp w2)"
    "pass \<longrightarrow> clean_run (oe_verify env) tasks syn" using verdict_fresh [OF v w1] by blast
  show ?thesis
  proof (cases pass)
    case True
    then have "clean_run (oe_verify env) tasks syn" using kv(4) by simp
    then show ?thesis using assms(1) False True kv v
      by (auto simp: settle_round_def Let_def no_outcome_def verified_end_def clean_run_def simp flip: w1_def syn_def)
  next
    case False2: False
    then show ?thesis using assms(1) False kv v
      by (auto simp: settle_round_def Let_def no_outcome_def unpassed_def remediate_def simp flip: w1_def syn_def split: if_splits)
  qed
qed

lemma rounds_verified:
  "rounds n env task planned w = Some (oc, w') \<Longrightarrow> unpassed (ow_cp w) \<Longrightarrow> oc_ok oc \<Longrightarrow> verified_end env oc w'"
proof (induction n arbitrary: w)
  case (Suc n)
  obtain p fs s where ps: "kp_plan (ow_cp w) = Some p"
    "run_graph (oe_sched env (ow_cp w)) (pn_graph p) (map_of (kp_subtasks (ow_cp w))) = Some (fs, s)"
    using Suc.prems(1) by (auto split: option.splits)
  define w1 where "w1 = snd (fold note_entry (sd_log s) ([], w))"
  have u: "unpassed (ow_cp w1)" using notes_frame [of w "sd_log s" "[]"] Suc.prems(2) by (simp add: w1_def kept_def unpassed_def)
  obtain r w2 where r: "settle_round env task p planned fs (sd_tasks s) w1 = (r, w2)" by fastforce
  show ?case
  proof (cases r)
    case None
    then have "rounds n env task planned w2 = Some (oc, w')" using Suc.prems(1) ps r by (simp add: w1_def)
    then show ?thesis using Suc.IH [of w2] Suc.prems(3) settle_verified [OF r u] None by simp
  next
    case (Some oc')
    then have "oc' = oc" "w2 = w'" using Suc.prems(1) ps r by (simp_all add: w1_def)
    then show ?thesis using settle_verified [OF r u] Some Suc.prems(3) by simp
  qed
qed simp

lemma ok_run_verified:
  assumes "runOrchestration env planner task cp = Some (Inr (oc, w))" and "oc_ok oc" and "unpassed cp"
  shows "verified_end env oc w"
proof -
  note run = assms(1) [unfolded runOrchestration_def Let_def]
  show ?thesis
  proof (cases "kp_plan cp")
    case (Some p)
    then have "rounds (oe_maxRemediations env + 1) env task False \<lparr>ow_cp = cp, ow_saved = [], ow_events = []\<rparr> = Some (oc, w)"
      using run by (simp del: rounds.simps add: map_option_case split: option.splits)
    then show ?thesis by (rule rounds_verified) (use assms in simp_all)
  next
    case None
    show ?thesis
    proof (cases planner)
      case (Inl e)
      then show ?thesis using run None assms(2) by (auto simp: no_outcome_def split: option.splits)
    next
      case (Inr p)
      let ?w = "persist ''planned'' (event (PlanFinished (length (gr_tasks (pn_graph (hinted (ot_routingHint task) p)))))
        (on_cp (\<lambda>cp. plan_usage (cp\<lparr>kp_plan := Some (hinted (ot_routingHint task) p), kp_phase := PhExecuting\<rparr>))
          (event (PlanStarted (prior_plans cp + 1)) \<lparr>ow_cp = cp, ow_saved = [], ow_events = []\<rparr>)))"
      have "rounds (oe_maxRemediations env + 1) env task True ?w = Some (oc, w)"
        using run None Inr by (simp del: rounds.simps add: map_option_case split: option.splits)
      then show ?thesis by (rule rounds_verified) (use assms in \<open>simp_all add: unpassed_def plan_usage_def\<close>)
    qed
  qed
qed

text \<open>From any checkpoint: an outcome that is ok carries a passed verdict.\<close>

lemma verdict_passed:
  assumes "verdict_step env task p syn tasks w = ((True, issues), w')"
  shows "\<exists>kv. kp_verification (ow_cp w') = Some kv \<and> kv_pass kv"
  using assms by (auto simp: verdict_step_def Let_def keep_verdict_def split: option.splits if_splits)

lemma settle_passed:
  assumes "settle_round env task p planned fs tasks w = (Some oc, w')" and "oc_ok oc"
  shows "\<exists>kv. oc_verification oc = Some kv \<and> kv_pass kv"
  using assms verdict_passed
  by (auto simp: settle_round_def Let_def no_outcome_def split: prod.splits if_splits)

lemma rounds_passed: "rounds n env task planned w = Some (oc, w') \<Longrightarrow> oc_ok oc \<Longrightarrow> \<exists>kv. oc_verification oc = Some kv \<and> kv_pass kv"
proof (induction n arbitrary: w)
  case (Suc n)
  then show ?case by (auto simp: Let_def split: option.splits prod.splits dest: settle_passed)
qed simp

lemma ok_run_passed:
  assumes "runOrchestration env planner task cp = Some (Inr (oc, w))" and "oc_ok oc"
  shows "\<exists>kv. oc_verification oc = Some kv \<and> kv_pass kv"
  using assms
  by (auto simp: runOrchestration_def Let_def no_outcome_def simp del: rounds.simps split: option.splits sum.splits dest!: rounds_passed)

text \<open>A task is only called done when its run was verified: from a checkpoint that holds no passed verdict, an
  outcome that is ok has every step complete, a deliverable that is clean (no blank, stub, secret-shaped or
  unparsable file, no code step without one), a passed verdict of the last round, and the checkpoint that says
  so was the last thing written.\<close>

theorem ok_run_was_verified:
  assumes "runOrchestration env planner task cp = Some (Inr (oc, w))" and "oc_ok oc" and "unpassed cp"
  shows "verified_end env oc w"
  using assms by (rule ok_run_verified)


section \<open>Resuming a run whose steps are all restored\<close>

lemma nothing_pending:
  assumes "list_all (\<lambda>q. en_state (snd q) = SComplete) (sd_tasks s)"
  shows "propagateBlocked s = s" "readyTasks s = []"
proof -
  have "block_one i s = s" for i
    using assms by (auto simp: block_one_def entry_of_def list_all_iff dest!: map_of_SomeD split: option.splits)
  then have "fold block_one is s = s" for "is" by (induction "is") simp_all
  then show "propagateBlocked s = s" by (subst propagateBlocked.simps) (simp add: block_pass_def)
  show "readyTasks s = []" using assms by (auto simp: readyTasks_def filter_empty_conv list_all_iff)
qed

lemma restored_run:
  assumes "list_all (\<lambda>q. en_state (snd q) = SComplete) (sd_tasks (start_sched g r))"
  shows "run_graph env g r = Some (RunComplete, start_sched g r)"
proof -
  have s: "\<not> sd_cancelled (start_sched g r)" "sd_inFlight (start_sched g r) = []" by (simp_all add: start_sched_def)
  have "sched_loop (Suc n) env' (start_sched g r) = Some (start_sched g r)" for n env'
    using nothing_pending [OF assms] s by (simp add: dispatchReady_def Let_def)
  moreover have "finalState (start_sched g r) = RunComplete"
    using assms s by (auto simp: finalState_def Let_def list_all_iff list_ex_iff)
  ultimately show ?thesis by (simp add: run_graph_def Let_def)
qed

definition recorded_complete :: "graph \<Rightarrow> (string \<Rightarrow> snapshot option) \<Rightarrow> bool" where
  "recorded_complete g r =
    list_all (\<lambda>t. case r (gs_id t) of None \<Rightarrow> False | Some sb \<Rightarrow> sb_state sb = SComplete) (gr_tasks g)"

lemma recorded_start:
  assumes "recorded_complete g r"
  shows "list_all (\<lambda>q. en_state (snd q) = SComplete) (sd_tasks (start_sched g r))"
proof -
  have put: "list_all (\<lambda>q. en_state (snd q) = SComplete) (assoc_put k e xs)"
    if "list_all (\<lambda>q. en_state (snd q) = SComplete) xs" "en_state e = SComplete" for k :: string and e xs
    using that by (induction xs) auto
  have "list_all (\<lambda>q. en_state (snd q) = SComplete) (fold (\<lambda>t. assoc_put (gs_id t) (resume_entry (r (gs_id t)) t)) us xs)"
    if "set us \<subseteq> set (gr_tasks g)" "list_all (\<lambda>q. en_state (snd q) = SComplete) xs" for us xs
    using that
  proof (induction us arbitrary: xs)
    case (Cons t us)
    have "case r (gs_id t) of None \<Rightarrow> False | Some sb \<Rightarrow> sb_state sb = SComplete"
      using Cons.prems(1) assms by (simp add: recorded_complete_def list_all_iff)
    then obtain sb where "r (gs_id t) = Some sb" "sb_state sb = SComplete" by (auto split: option.splits)
    then have st: "en_state (resume_entry (r (gs_id t)) t) = SComplete" by (simp add: resume_entry_def parked_before_def)
    show ?case using Cons.IH [OF _ put [OF Cons.prems(2) st]] Cons.prems(1) by simp
  qed simp
  then show ?thesis by (simp add: start_sched_def)
qed

lemma notes_restored: "sd_log (start_sched g r) = []"
  by (simp add: start_sched_def)

lemma complete_not_parked: "list_all (\<lambda>q. en_state (snd q) = SComplete) tasks \<Longrightarrow> parked_steps tasks = []"
  by (auto simp: parked_steps_def map_filter_Nil list_all_iff)

lemma restored_round:
  assumes "kp_plan (ow_cp w) = Some p" and "recorded_complete (pn_graph p) (map_of (kp_subtasks (ow_cp w)))"
  shows "rounds (Suc n) env task planned w =
    (case settle_round env task p planned RunComplete (sd_tasks (start_sched (pn_graph p) (map_of (kp_subtasks (ow_cp w))))) w of
       (Some o', w2) \<Rightarrow> Some (o', w2) | (None, w2) \<Rightarrow> rounds n env task planned w2)"
  using assms restored_run [OF recorded_start [OF assms(2)]] by (simp add: notes_restored)

lemma verified_resume:
  assumes "kp_plan cp = Some p" and "recorded_complete (pn_graph p) (map_of (kp_subtasks cp))"
    and "kp_verification cp = Some kv" and "kv_pass kv" and "kv_round kv = kp_remediations cp"
  shows "\<exists>oc w. runOrchestration env planner task cp = Some (Inr (oc, w)) \<and> oc_ok oc \<and> oc_verification oc = Some kv \<and>
    oc_synthesis oc = Some (synthesize (ve_jp (oe_verify env)) None (pn_graph p) (sd_tasks (start_sched (pn_graph p) (map_of (kp_subtasks cp)))))"
proof -
  let ?tasks = "sd_tasks (start_sched (pn_graph p) (map_of (kp_subtasks cp)))"
  let ?w = "\<lparr>ow_cp = cp, ow_saved = [], ow_events = []\<rparr>"
  have all: "list_all (\<lambda>q. en_state (snd q) = SComplete) ?tasks" by (rule recorded_start [OF assms(2)])
  then have none: "\<not> list_ex (\<lambda>q. en_state (snd q) = SFailed \<or> en_state (snd q) = SBlocked) ?tasks"
    by (auto simp: list_all_iff list_ex_iff)
  obtain oc w where r: "settle_round env task p False RunComplete ?tasks ?w = (Some oc, w)" and
    oc: "oc_ok oc" "oc_verification oc = Some kv" "oc_synthesis oc = Some (synthesize (ve_jp (oe_verify env)) None (pn_graph p) ?tasks)"
    using assms(3-5) none complete_not_parked [OF all]
    by (simp add: settle_round_def Let_def no_outcome_def verdict_step_def record_all_def)
  have "rounds (Suc (oe_maxRemediations env)) env task False ?w = Some (oc, w)"
    using restored_round [of ?w p "oe_maxRemediations env" env task False] assms(1,2) r by (simp del: rounds.simps)
  then show ?thesis using assms(1) oc by (simp add: runOrchestration_def Let_def del: rounds.simps)
qed


text \<open>A run that already passed is not judged twice: when every step is recorded as complete and the kept verdict
  of the current round is a pass, the run is ok at once, whatever the world and the judge do, with the kept
  verdict; and the deliverable is merged again from the outputs the checkpoint kept.\<close>

theorem verified_run_resumes:
  assumes "kp_plan cp = Some p" and "recorded_complete (pn_graph p) (map_of (kp_subtasks cp))"
    and "kp_verification cp = Some kv" and "kv_pass kv" and "kv_round kv = kp_remediations cp"
  shows "\<exists>oc w. runOrchestration env planner task cp = Some (Inr (oc, w)) \<and> oc_ok oc \<and> oc_verification oc = Some kv \<and>
    oc_synthesis oc = Some (synthesize (ve_jp (oe_verify env)) None (pn_graph p) (sd_tasks (start_sched (pn_graph p) (map_of (kp_subtasks cp)))))"
  using assms by (rule verified_resume)

section \<open>What a checkpoint cuts off\<close>

definition long_step :: gstep where
  "long_step = plain_step ''code'' ''Code'' ''code-generation'' ''x'' [] ''low'' ''x''"

definition long_file :: "out_file list" where
  "long_file = [\<lparr>of_path = ''a.js'', of_content = ''1''\<rparr>]"

definition long_text :: string where
  "long_text = replicate 16000 (CHR ''x'') @ env_text (\<lambda>_. ''0'') long_file []"

definition long_entry :: entry where
  "long_entry = snd (done_entry long_step long_text)"

definition long_plan :: plan where
  "long_plan = unplanned \<lparr>gr_sharedContext = [], gr_tasks = [long_step]\<rparr>"

text \<open>The checkpoint of a run of this one step, as it is after verification.\<close>

definition long_checkpoint :: "kept_verdict \<Rightarrow> checkpoint" where
  "long_checkpoint kv = (newCheckpoint ''t'')\<lparr>kp_plan := Some long_plan, kp_phase := PhVerified, kp_verification := Some kv,
     kp_subtasks := [(''code'', snapshotSubtask long_entry)]\<rparr>"

lemma trim_keeps_head: "\<not> is_space x \<Longrightarrow> \<exists>r'. js_trim (x # r) = x # r'"
  by (simp add: js_trim_def trimStart_def trimEnd_def dropWhile_append3)

lemma plain_no_files:
  assumes "CHR 0x0A \<notin> set s" and "CHR 0x7B \<notin> set s"
  shows "po_files (parseTaskOutput jp None s) = []"
proof -
  have fb: "from_brace s = []" unfolding from_brace_def using assms(2) by (auto simp: dropWhile_eq_Nil_conv)
  then have "extractBalancedObject s = None" by (simp add: extractBalancedObject_def)
  then have "tryLenientJson jp out_coerce s = None" by (subst tryLenientJson.simps) simp
  then have l: "out_tryLenient jp s = None" using assms(1) by (simp add: out_tryLenient_def no_legacy)
  have "set (js_trim s) \<subseteq> set s"
    unfolding js_trim_def trimStart_def trimEnd_def using set_dropWhileD by (fastforce dest: set_dropWhileD)
  then have "\<not> startsWith (js_trim s) [CHR 0x7B]"
    using assms(2) by (cases "js_trim s") (auto simp: startsWith_def)
  then have "tryStrictJson jp out_coerce s = None" by (rule strict_needs_brace [OF assms(1)])
  then show ?thesis using l by (simp add: parseTaskOutput_def Let_def)
qed

lemma one_step_files:
  assumes "gr_tasks g = [t]" and "used_output ents t = Some out"
  shows "sy_files (synthesize jp None g ents) = concat (map path_files (fold (push_version (gs_id t)) (po_files (parseTaskOutput jp None out)) []))"
proof -
  have "mset (topoOrder [t]) = mset [t]" by (rule topoOrder_mset) simp
  then have "topoOrder [t] = [t]" by simp
  then show ?thesis using assms by (simp add: synthesize_def collect_files_def synth_step_def Let_def)
qed

lemma long_full:
  "jp (env_text (\<lambda>_. ''0'') long_file []) = Some (env_js long_file []) \<Longrightarrow> po_files (parseTaskOutput jp None long_text) = long_file"
proof -
  assume jp: "jp (env_text (\<lambda>_. ''0'') long_file []) = Some (env_js long_file [])"
  have num: "plain_numbers (\<lambda>_. ''0'')"
  proof -
    have "list_all plain_char ''0''" by code_simp
    then show ?thesis by (simp add: plain_numbers_def)
  qed
  have safe: "safe_files long_file" by code_simp
  have strip: "stripTrailingCommas (env_text (\<lambda>_. ''0'') long_file []) = env_text (\<lambda>_. ''0'') long_file []" by code_simp
  obtain n where n: "(16000 :: nat) = Suc n" by (cases "16000 :: nat") auto
  have "\<exists>r'. js_trim (replicate 16000 (CHR ''x'') @ env_text (\<lambda>_. ''0'') long_file [] @ []) = CHR ''x'' # r'"
    unfolding n replicate_Suc append_Cons by (rule trim_keeps_head) code_simp
  then have prose: "\<not> startsWith (js_trim (replicate 16000 (CHR ''x'') @ env_text (\<lambda>_. ''0'') long_file [] @ [])) [CHR 0x7B]"
    by (auto simp: startsWith_def)
  have "parseTaskOutput jp None (replicate 16000 (CHR ''x'') @ env_text (\<lambda>_. ''0'') long_file [] @ []) =
      \<lparr>po_tier = Some 2, po_files = long_file, po_notes = Some [], po_malformed = False\<rparr>"
    by (rule buried_output [OF num _ _ prose, where v = "env_js long_file []"]) (simp_all add: strip jp coerce_env(1) [OF safe])
  then show ?thesis by (simp add: long_text_def)
qed

lemma long_cut: "take 16000 long_text = replicate 16000 (CHR ''x'')"
  by (simp add: long_text_def)

lemma long_restored:
  "sd_tasks (start_sched (pn_graph long_plan) (map_of (kp_subtasks (long_checkpoint kv)))) =
     [(''code'', (resume_entry (Some (snapshotSubtask long_entry)) long_step))]"
  by (simp add: start_sched_def long_plan_def unplanned_def long_checkpoint_def long_step_def plain_step_def)

text \<open>The checkpoint keeps 16,000 characters of a step's output, so a verified run that is resumed (after it
  waited for an approval, say) is delivered from less than what was verified. Here a step's answer holds one
  file behind 16,000 characters of prose: the run that produced it had the file; resumed with its passed
  verdict it is ok again, with no file at all, though its only step is a code step that must produce one.\<close>

theorem resumed_run_loses_files:
  assumes "ve_jp (oe_verify env) (env_text (\<lambda>_. ''0'') long_file []) = Some (env_js long_file [])"
    and "kv_pass kv" and "kv_round kv = 0"
  shows "\<exists>oc w. runOrchestration env planner task (long_checkpoint kv) = Some (Inr (oc, w)) \<and> oc_ok oc \<and>
    map_option sy_files (oc_synthesis oc) = Some [] \<and>
    length (sy_files (synthesize (ve_jp (oe_verify env)) None (pn_graph long_plan) [(''code'', long_entry)])) = 1"
proof -
  let ?jp = "ve_jp (oe_verify env)"
  let ?e = "resume_entry (Some (snapshotSubtask long_entry)) long_step"
  have g: "gr_tasks (pn_graph long_plan) = [long_step]" by (simp add: long_plan_def unplanned_def)
  have i: "gs_id long_step = ''code''" by (simp add: long_step_def plain_step_def)
  have le: "en_state long_entry = SComplete" "en_output long_entry = Some long_text"
    by (simp_all add: long_entry_def done_entry_def)
  have e: "en_state ?e = SComplete" "en_output ?e = Some (replicate 16000 (CHR ''x''))"
    using le by (simp_all add: resume_entry_def parked_before_def snapshotSubtask_def MAX_CHECKPOINT_OUTPUT_CHARS_def long_cut)
  have "used_output [(''code'', ?e)] long_step = Some (replicate 16000 (CHR ''x''))"
    using e i by (simp add: used_output_def)
  then have none: "sy_files (synthesize ?jp None (pn_graph long_plan) [(''code'', ?e)]) = []"
    using one_step_files [OF g, of _ _ ?jp] plain_no_files [of "replicate 16000 (CHR ''x'')" ?jp] by simp
  have "long_text \<noteq> []" by (simp add: long_text_def)
  then have "used_output [(''code'', long_entry)] long_step = Some long_text" using le i by (simp add: used_output_def)
  then have one: "length (sy_files (synthesize ?jp None (pn_graph long_plan) [(''code'', long_entry)])) = 1"
    using one_step_files [OF g, of _ _ ?jp] long_full [of ?jp, OF assms(1)] by (simp add: long_file_def push_version_def path_files_def)
  have "kp_plan (long_checkpoint kv) = Some long_plan" "kp_verification (long_checkpoint kv) = Some kv" "kp_remediations (long_checkpoint kv) = 0"
    "recorded_complete (pn_graph long_plan) (map_of (kp_subtasks (long_checkpoint kv)))"
    using le i g by (simp_all add: long_checkpoint_def newCheckpoint_def recorded_complete_def snapshotSubtask_def)
  from verified_resume [OF this(1,4,2) assms(2) assms(3) [folded this(3)], of env planner task] none one
  show ?thesis unfolding long_restored by auto
qed


section \<open>Instances\<close>

definition long_parse :: "string \<Rightarrow> js option" where
  "long_parse t = (if t = env_text (\<lambda>_. ''0'') long_file [] then Some (env_js long_file []) else None)"

text \<open>A world for the instances: one model, a calm verification, no judge.\<close>

definition plain_env :: "verify_env \<Rightarrow> bool \<Rightarrow> bool \<Rightarrow> orch_env" where
  "plain_env ve strict drain =
    \<lparr>oe_sched = \<lambda>_. one_pool (env_answering down_answer) [\<lparr>ca_modelId = ''m'', ca_pool = ''p''\<rparr>], oe_verify = ve,
     oe_judge = \<lambda>_. no_judge\<lparr>jo_strict := strict\<rparr>, oe_drain = \<lambda>_. drain, oe_checkSyntax = True, oe_maxRemediations = 1\<rparr>"

definition plain_task :: orch_task where
  "plain_task = \<lparr>ot_request = merge_request, ot_parks = 0, ot_routingHint = None\<rparr>"

definition passed :: kept_verdict where
  "passed = \<lparr>kv_pass = True, kv_reason = [], kv_unjudged = True, kv_round = 0, kv_judge = None, kv_checks = []\<rparr>"

text \<open>The checkpoint of a run whose two steps are done but not verified.\<close>

definition merge_checkpoint :: checkpoint where
  "merge_checkpoint = (newCheckpoint ''t'')\<lparr>kp_plan := Some (unplanned merge_graph), kp_phase := PhExecuted,
     kp_subtasks := map (\<lambda>q. (fst q, snapshotSubtask (snd q))) merge_entries\<rparr>"

theorem resumed_run_loses_files_witness:
  "\<exists>oc w. runOrchestration (plain_env (calm_verify\<lparr>ve_jp := long_parse\<rparr>) False False) (Inr long_plan) plain_task (long_checkpoint passed) =
     Some (Inr (oc, w)) \<and> oc_ok oc \<and> map_option sy_files (oc_synthesis oc) = Some []"
proof -
  let ?env = "plain_env (calm_verify\<lparr>ve_jp := long_parse\<rparr>) False False"
  have "ve_jp (oe_verify ?env) (env_text (\<lambda>_. ''0'') long_file []) = Some (env_js long_file [])" "kv_pass passed" "kv_round passed = 0"
    by (simp_all add: plain_env_def long_parse_def passed_def)
  from resumed_run_loses_files [OF this] show ?thesis by blast
qed

lemma merge_recorded: "recorded_complete merge_graph (map_of (kp_subtasks merge_checkpoint))"
  by (simp add: recorded_complete_def merge_checkpoint_def merge_entries_def merge_graph_def done_entry_def plain_step_def snapshotSubtask_def)

lemma restored_same:
  "length out \<le> 16000 \<Longrightarrow> resume_entry (Some (snapshotSubtask (snd (done_entry t out)))) t = (snd (done_entry t out))\<lparr>en_resumed := True\<rparr>"
  by (simp add: resume_entry_def parked_before_def snapshotSubtask_def done_entry_def fresh_entry_def MAX_CHECKPOINT_OUTPUT_CHARS_def)

theorem verified_run_resumes_witness:
  "\<exists>oc w. runOrchestration (plain_env calm_verify True False) (Inr long_plan) plain_task (merge_checkpoint\<lparr>kp_verification := Some passed\<rparr>) =
     Some (Inr (oc, w)) \<and> oc_ok oc"
proof -
  let ?cp = "merge_checkpoint\<lparr>kp_verification := Some passed\<rparr>"
  have "kp_plan ?cp = Some (unplanned merge_graph)" "kp_verification ?cp = Some passed" "kv_pass passed" "kv_round passed = kp_remediations ?cp"
    by (simp_all add: merge_checkpoint_def newCheckpoint_def passed_def)
  moreover have "recorded_complete (pn_graph (unplanned merge_graph)) (map_of (kp_subtasks ?cp))"
    using merge_recorded by (simp add: unplanned_def)
  ultimately show ?thesis using verified_run_resumes by blast
qed

definition merge_tasks :: "(string \<times> entry) list" where
  "merge_tasks = sd_tasks (start_sched merge_graph (map_of (kp_subtasks merge_checkpoint)))"

lemma merge_tasks_eq: "merge_tasks = map (\<lambda>q. (fst q, (snd q)\<lparr>en_resumed := True\<rparr>)) merge_entries"
proof -
  obtain ta tb where g: "gr_tasks merge_graph = [ta, tb]" "gs_id ta = ''a''" "gs_id tb = ''b''" by (simp add: merge_graph_def plain_step_def)
  have "length (json_text answer_a) < 200" "length (json_text answer_b) < 200" by code_simp+
  then have l: "length (json_text answer_a) \<le> 16000" "length (json_text answer_b) \<le> 16000" by simp_all
  have fst: "fst (done_entry t out) = gs_id t" for t out by (simp add: done_entry_def)
  show ?thesis
    unfolding merge_tasks_def start_sched_def merge_checkpoint_def merge_entries_def g
    by (simp add: fst g restored_same [OF l(1)] restored_same [OF l(2)])
qed

lemma merge_verdict:
  "cs_ok (summarizeChecks (runChecks calm_verify True merge_tasks (synthesize merge_parse None merge_graph merge_tasks)))"
proof -
  have "synthesize merge_parse None merge_graph merge_tasks = merge_synthesis" unfolding merge_tasks_eq by code_simp
  moreover have "map snd merge_tasks = map (\<lambda>e. e\<lparr>en_resumed := True\<rparr>) (map snd merge_entries)" by (simp add: merge_tasks_eq)
  then have "runChecks calm_verify True merge_tasks merge_synthesis = runChecks calm_verify True merge_entries merge_synthesis"
    by (simp add: runChecks_def check_complete_def check_produced_def entry_id_def filter_map o_def Let_def barren_def [abs_def])
  ultimately show ?thesis using merge_checks_ok by simp
qed

lemma merge_settles:
  "\<exists>r w'. settle_round (plain_env calm_verify strict drain) plain_task (unplanned merge_graph) False RunComplete merge_tasks
      \<lparr>ow_cp = merge_checkpoint, ow_saved = [], ow_events = []\<rparr> = (r, w') \<and>
    (\<not> strict \<longrightarrow> (\<exists>oc. r = Some oc \<and> oc_ok oc)) \<and>
    (strict \<and> drain \<longrightarrow> (\<exists>oc. r = Some oc \<and> oc_failedVerification oc \<and> \<not> oc_drained oc \<and> oc_parked oc = None \<and> kp_remediations (ow_cp w') = 0))"
proof -
  have "parked_steps merge_tasks = []" unfolding merge_tasks_eq by code_simp
  moreover have "\<not> list_ex (\<lambda>q. en_state (snd q) = SFailed \<or> en_state (snd q) = SBlocked) merge_tasks" unfolding merge_tasks_eq by code_simp
  moreover have "kp_verification merge_checkpoint = None" "kp_remediations merge_checkpoint = 0"
    by (simp_all add: merge_checkpoint_def newCheckpoint_def)
  ultimately show ?thesis using merge_verdict
    by (simp add: settle_round_def verdict_step_def plain_env_def plain_task_def no_outcome_def unplanned_def record_all_def verifyRun_def
        judge_for_def no_judge_def judged_result_def keep_verdict_def calm_verify_def Let_def)
qed

theorem ok_run_was_verified_witness:
  "\<exists>oc w. runOrchestration (plain_env calm_verify False False) (Inr long_plan) plain_task merge_checkpoint = Some (Inr (oc, w)) \<and>
     oc_ok oc \<and> verified_end (plain_env calm_verify False False) oc w"
proof -
  let ?env = "plain_env calm_verify False False"
  let ?w = "\<lparr>ow_cp = merge_checkpoint, ow_saved = [], ow_events = []\<rparr>"
  obtain oc w where r: "settle_round ?env plain_task (unplanned merge_graph) False RunComplete merge_tasks ?w = (Some oc, w)" "oc_ok oc"
    using merge_settles [of False False] by auto
  have p: "kp_plan merge_checkpoint = Some (unplanned merge_graph)" by (simp add: merge_checkpoint_def)
  have "rounds (Suc 1) ?env plain_task False ?w = Some (oc, w)"
    using restored_round [of ?w "unplanned merge_graph" 1 ?env plain_task False] p merge_recorded r
    by (simp del: rounds.simps add: unplanned_def flip: merge_tasks_def)
  then have run: "runOrchestration ?env (Inr long_plan) plain_task merge_checkpoint = Some (Inr (oc, w))"
    using p by (simp add: runOrchestration_def Let_def plain_env_def numeral_2_eq_2 del: rounds.simps)
  have "unpassed merge_checkpoint" by (simp add: unpassed_def merge_checkpoint_def newCheckpoint_def)
  from ok_run_was_verified [OF run r(2) this] run r(2) show ?thesis by blast
qed

text \<open>A verification that fails while the pulse wants to drain fails the run for good, although none of its
  remediations is used: the outcome is a failed verification, not drained and not parked, so no later pulse
  sends the steps back.\<close>

theorem draining_forfeits_remediation:
  "\<exists>oc w. settle_round (plain_env calm_verify True True) plain_task (unplanned merge_graph) False RunComplete merge_tasks
      \<lparr>ow_cp = merge_checkpoint, ow_saved = [], ow_events = []\<rparr> = (Some oc, w) \<and>
    oc_failedVerification oc \<and> \<not> oc_drained oc \<and> oc_parked oc = None \<and>
    kp_remediations (ow_cp w) < oe_maxRemediations (plain_env calm_verify True True)"
  using merge_settles [of True True] by (auto simp: plain_env_def)

end
