(* ===== verification/Engine_Task.thy ===== *)
theory Engine_Task
  imports Lifecycle Policy_Engine
begin

text \<open>
  A task as the engine handles it: the lifecycle fields of \<open>Lifecycle\<close>, and the fields that intake
  (\<open>src/issueSync.js\<close>) and the pulse (\<open>src/engine/pulse.js\<close>) read and write. \<open>None\<close> stands for null and
  for an absent field; issue number 0 stands for a task without an issue. The times of a task's life are all
  set through \<open>transition\<close>, which is lifted to the larger record here.
\<close>

record etask =
  et_core :: task
  et_type :: string
  et_issueNumber :: nat
  et_issueUrl :: "string option"
  et_author :: "string option"
  et_title :: string
  et_prompt :: string
  et_routingHint :: "string option"
  et_autonomy :: "string option"
  et_approvals :: "(string \<times> human_decision) list"
  et_parks :: "nat option"
  et_cancelRequested :: bool
  et_pauseRequested :: bool
  et_prNumber :: "nat option"
  et_prUrl :: "string option"
  et_usage :: "(nat \<times> int \<times> int) option"
  et_idempotencyKey :: "string option"
  et_seen :: "stamp option"
  et_duplicateOf :: "string option"
  et_retriedBy :: "string option"

abbreviation et_id :: "etask \<Rightarrow> string" where "et_id t \<equiv> t_id (et_core t)"
abbreviation et_status :: "etask \<Rightarrow> status" where "et_status t \<equiv> t_status (et_core t)"

definition on_core :: "(task \<Rightarrow> task) \<Rightarrow> etask \<Rightarrow> etask" where
  "on_core f t = t\<lparr>et_core := f (et_core t)\<rparr>"

text \<open>\<open>transition(task, to, \<dots>)\<close> mutates the task; an illegal move throws before it changes anything.\<close>

definition move :: "etask \<Rightarrow> string \<Rightarrow> ctx \<Rightarrow> lc_error + etask \<times> tevent" where
  "move t to c = res_bind (transition (et_core t) to c) (\<lambda>(k, e). Inr (t\<lparr>et_core := k\<rparr>, e))"

definition moved_to :: "status \<Rightarrow> ctx \<Rightarrow> etask \<Rightarrow> etask" where
  "moved_to s c t = on_core (\<lambda>k. transition_body k s c) t"

definition move_event :: "status \<Rightarrow> ctx \<Rightarrow> etask \<Rightarrow> tevent" where
  "move_event s c t = transition_event (et_status t) s c (et_core (moved_to s c t))"

definition set_usage :: "nat \<times> int \<times> int \<Rightarrow> etask \<Rightarrow> etask" where
  "set_usage u t = t\<lparr>et_usage := Some u, et_core := (et_core t)\<lparr>t_wallMs := Some (snd (snd u))\<rparr>\<rparr>"

section \<open>Contexts of a move\<close>

definition why_ctx :: "int \<Rightarrow> string \<Rightarrow> ctx" where
  "why_ctx now reason = (ctx_at now)\<lparr>c_reason := Some reason\<rparr>"

definition wait_ctx :: "int \<Rightarrow> string \<Rightarrow> string \<Rightarrow> stamp \<Rightarrow> ctx" where
  "wait_ctx now reason waitReason wakeAt = (why_ctx now reason)\<lparr>c_waitReason := Some waitReason, c_wakeAt := Some wakeAt\<rparr>"

definition gave_up :: "int \<Rightarrow> string \<Rightarrow> string \<Rightarrow> string \<Rightarrow> string \<Rightarrow> string \<Rightarrow> ctx" where
  "gave_up now reason err cls code msg = (why_ctx now reason)\<lparr>c_error := Some (Some err),
     c_failure := Some (Some \<lparr>f_class = cls, f_code = Some code, f_message = msg, f_at = Iso now\<rparr>)\<rparr>"

section \<open>Facts about a move\<close>

lemma why_ctx_simps [simp]:
  "c_now (why_ctx n r) = n" "c_waitReason (why_ctx n r) = None" "c_reason (why_ctx n r) = Some r"
  "c_now (wait_ctx n r w k) = n" "c_waitReason (wait_ctx n r w k) = Some w" "c_wakeAt (wait_ctx n r w k) = Some k"
  "c_now (gave_up n r e cl co m) = n" "c_waitReason (gave_up n r e cl co m) = None"
  "c_error (gave_up n r e cl co m) = Some (Some e)"
  "c_failure (gave_up n r e cl co m) = Some (Some \<lparr>f_class = cl, f_code = Some co, f_message = m, f_at = Iso n\<rparr>)"
  by (simp_all add: why_ctx_def wait_ctx_def gave_up_def ctx_at_def)

lemma moved_to_simps [simp]:
  "et_status (moved_to s c t) = s" "et_id (moved_to s c t) = et_id t"
  "et_issueNumber (moved_to s c t) = et_issueNumber t" "et_parks (moved_to s c t) = et_parks t"
  "et_type (moved_to s c t) = et_type t" "et_core (moved_to s c t) = transition_body (et_core t) s c"
  "et_cancelRequested (moved_to s c t) = et_cancelRequested t" "et_pauseRequested (moved_to s c t) = et_pauseRequested t"
  "et_approvals (moved_to s c t) = et_approvals t" "et_autonomy (moved_to s c t) = et_autonomy t"
  by (simp_all add: moved_to_def on_core_def)

lemma move_named:
  "canTransition (et_status t) s \<Longrightarrow> (s = Waiting \<Longrightarrow> wait_reason_of (c_waitReason c) \<noteq> None) \<Longrightarrow>
   move t (status_name s) c = Inr (moved_to s c t, move_event s c t)"
  by (simp add: move_def transition_named moved_to_def move_event_def on_core_def)

lemma canTransition_table:
  "canTransition Running Complete" "canTransition Running Failed" "canTransition Running Blocked"
  "canTransition Running Cancelled" "canTransition Running Waiting" "canTransition Running PrOpen"
  "canTransition Running DeadLettered" "canTransition Waiting Paused" "canTransition Pending Running"
  "canTransition Pending DeadLettered" "canTransition Pending Waiting" "canTransition PrOpen Failed"
  "canTransition PrOpen Complete" "canTransition Pending Cancelled" "canTransition Pending Paused"
  "canTransition Waiting Cancelled" "canTransition Waiting Pending" "canTransition Paused Pending"
  "canTransition Paused Cancelled"
  by (simp_all add: canTransition_def)

lemma etask_moves:
  "canTransition (et_status t) Complete \<Longrightarrow> move t ''complete'' c = Inr (moved_to Complete c t, move_event Complete c t)"
  "canTransition (et_status t) Failed \<Longrightarrow> move t ''failed'' c = Inr (moved_to Failed c t, move_event Failed c t)"
  "canTransition (et_status t) Blocked \<Longrightarrow> move t ''blocked'' c = Inr (moved_to Blocked c t, move_event Blocked c t)"
  "canTransition (et_status t) Cancelled \<Longrightarrow> move t ''cancelled'' c = Inr (moved_to Cancelled c t, move_event Cancelled c t)"
  "canTransition (et_status t) PrOpen \<Longrightarrow> move t ''pr-open'' c = Inr (moved_to PrOpen c t, move_event PrOpen c t)"
  "canTransition (et_status t) DeadLettered \<Longrightarrow>
     move t ''dead-lettered'' c = Inr (moved_to DeadLettered c t, move_event DeadLettered c t)"
  "canTransition (et_status t) Paused \<Longrightarrow> move t ''paused'' c = Inr (moved_to Paused c t, move_event Paused c t)"
  "canTransition (et_status t) Running \<Longrightarrow> move t ''running'' c = Inr (moved_to Running c t, move_event Running c t)"
  "canTransition (et_status t) Pending \<Longrightarrow> move t ''pending'' c = Inr (moved_to Pending c t, move_event Pending c t)"
  "canTransition (et_status t) Waiting \<Longrightarrow> wait_reason_of (c_waitReason c) \<noteq> None \<Longrightarrow>
     move t ''waiting'' c = Inr (moved_to Waiting c t, move_event Waiting c t)"
  using move_named [of t Complete c] move_named [of t Failed c] move_named [of t Blocked c] move_named [of t Cancelled c]
    move_named [of t PrOpen c] move_named [of t DeadLettered c] move_named [of t Paused c] move_named [of t Running c]
    move_named [of t Pending c] move_named [of t Waiting c]
  by simp_all

lemma wait_reason_literal [simp]:
  "wait_reason_of (Some ''approval'') = Some WApproval" "wait_reason_of (Some ''budget'') = Some WBudget"
  "wait_reason_of (Some ''pulse-budget'') = Some WPulseBudget" "wait_reason_of (Some ''quota'') = Some WQuota"
  "wait_reason_of (Some ''provider'') = Some WProvider" "wait_reason_of (Some ''dependency'') = Some WDependency"
  using wait_reason_of_name [of WApproval] wait_reason_of_name [of WBudget] wait_reason_of_name [of WPulseBudget]
    wait_reason_of_name [of WQuota] wait_reason_of_name [of WProvider] wait_reason_of_name [of WDependency]
  by simp_all

lemma wf_moved_to:
  "wf_task (et_core t) \<Longrightarrow> canTransition (et_status t) s \<Longrightarrow> (s = Waiting \<Longrightarrow> wait_reason_of (c_waitReason c) \<noteq> None) \<Longrightarrow>
   wf_task (et_core (moved_to s c t))"
  by (simp add: wf_body)

lemma set_usage_simps [simp]:
  "et_status (set_usage u t) = et_status t" "et_id (set_usage u t) = et_id t" "et_issueNumber (set_usage u t) = et_issueNumber t"
  "et_parks (set_usage u t) = et_parks t" "et_type (set_usage u t) = et_type t"
  "et_cancelRequested (set_usage u t) = et_cancelRequested t" "et_pauseRequested (set_usage u t) = et_pauseRequested t"
  "et_approvals (set_usage u t) = et_approvals t" "et_autonomy (set_usage u t) = et_autonomy t"
  "t_lease (et_core (set_usage u t)) = t_lease (et_core t)"
  by (simp_all add: set_usage_def)

lemma wf_wallMs [simp]: "wf_task (t\<lparr>t_wallMs := x\<rparr>) = wf_task t"
  by (simp add: wf_task_def)

lemma wf_set_usage [simp]: "wf_task (et_core (set_usage u t)) = wf_task (et_core t)"
  by (simp add: set_usage_def)

end
