(* ===== verification/Task_Run.thy ===== *)
theory Task_Run
  imports Engine_Task Orchestrate Leases Side_Effects Pulse_Control Reconcile
begin

text \<open>
  One claimed task inside a pulse, \<open>processTaskInner\<close> of \<open>src/engine/pulse.js\<close>: budgets, the reviewer gate,
  the orchestrated run, parking, and the policy-gated delivery. The world holds everything the handler can
  change: the task object, the checkpoint object and the checkpoint files, the side-effect ledger and GitHub, the
  lease directory and the run records. A handler step answers the exception that ended it, if any, with the
  world as it is then. The clock of the task is one instant; the counters of the pulse (model calls, tokens, wall
  time) may have any value at any point, and are an argument. Disk writes are taken to succeed.
\<close>

section \<open>State\<close>

record gate_verdict =
  gv_verdict :: string
  gv_classification :: string
  gv_layer :: string
  gv_reason :: "string option"

record pulse_cp =
  pc_orch :: checkpoint
  pc_runId :: string
  pc_gate :: "gate_verdict option"
  pc_sideEffects :: "(string \<times> stamp) list"
  pc_delivering :: bool

text \<open>The counters as the handler may find them: the monotonic clock, the calls, tokens and wall time of this task
  in this pulse, and the model calls of the whole pulse.\<close>

record seen =
  sn_clock :: rat
  sn_calls :: nat
  sn_tokens :: int
  sn_wallMs :: int
  sn_pulseCalls :: nat

record limits =
  li_pulseMaxCalls :: nat
  li_taskMaxCalls :: nat
  li_taskMaxTokens :: int
  li_taskMaxWallMs :: int
  li_maxParks :: nat

datatype run_note =
    NMoved tevent
  | NGate gate_verdict
  | NPolicy decided
  | NDeliveryDenied string
  | NDeliverySuppressed string bool

record run_world =
  rw_task :: etask
  rw_cp :: pulse_cp
  rw_fx :: effects
  rw_hub :: hub
  rw_files :: "string \<Rightarrow> pulse_cp option"
  rw_leases :: lease_dir
  rw_runs :: "(string \<times> js) list"
  rw_notes :: "run_note list"
  rw_base :: "nat \<times> int \<times> int"
  rw_seen :: seen

datatype run_exn = CommentThrew string | CloseThrew string | ProposeThrew | MoveThrew lc_error | NoReturn

record pr_result =
  pq_status :: string
  pq_number :: "nat option"
  pq_url :: "string option"
  pq_reason :: "string option"

text \<open>What a run of the handler depends on. The gate's review, the planner, the pull-request flow the network
  and the rendering of an instant are functions; \<open>pe_seen\<close> gives the counters at a point of the run, inside the scheduler or between rounds.\<close>

record proc_env =
  pe_mgr :: lease_mgr
  pe_control :: control
  pe_rules :: safety_rules
  pe_sha1 :: "string \<Rightarrow> string"
  pe_number :: "rat \<Rightarrow> string"
  pe_limits :: limits
  pe_budget :: budget
  pe_newRunId :: string
  pe_start :: seen
  pe_seen :: "checkpoint \<Rightarrow> sched option \<Rightarrow> seen"
  pe_review :: "string \<Rightarrow> string \<Rightarrow> string \<Rightarrow> gate_verdict"
  pe_orch :: orch_env
  pe_planner :: "etask \<Rightarrow> err + plan"
  pe_listFails :: "string \<Rightarrow> bool"
  pe_fate :: "string \<Rightarrow> fate"
  pe_propose :: "etask \<Rightarrow> synthesis \<Rightarrow> hub \<Rightarrow> pr_result option \<times> hub"
  pe_why :: "park_why \<Rightarrow> string"
  pe_actionsUrl :: "string option"
  pe_iso :: "int \<Rightarrow> string"

abbreviation pe_now :: "proc_env \<Rightarrow> int" where "pe_now pe \<equiv> lm_now (pe_mgr pe)"

type_synonym handler = "run_world \<Rightarrow> run_exn option \<times> run_world"

definition and_then :: "handler \<Rightarrow> handler \<Rightarrow> handler" where
  "and_then f g w = (case f w of (Some e, w') \<Rightarrow> (Some e, w') | (None, w') \<Rightarrow> g w')"

definition pure_step :: "(run_world \<Rightarrow> run_world) \<Rightarrow> handler" where
  "pure_step f w = (None, f w)"

section \<open>Usage and budgets\<close>

definition show_int :: "int \<Rightarrow> string" where
  "show_int i = (if i < 0 then ''-'' @ show_nat (nat (- i)) else show_nat (nat i))"

definition seconds :: "int \<Rightarrow> string" where
  "seconds ms = show_int ((ms + 500) div 1000)"

definition usage_at :: "nat \<times> int \<times> int \<Rightarrow> seen \<Rightarrow> nat \<times> int \<times> int" where
  "usage_at base s = (fst base + sn_calls s, fst (snd base) + sn_tokens s, snd (snd base) + sn_wallMs s)"

definition overBudget :: "limits \<Rightarrow> nat \<times> int \<times> int \<Rightarrow> string option" where
  "overBudget li u =
    (if li_taskMaxCalls li < fst u
     then Some (''model calls '' @ show_nat (fst u) @ '' exceed the task ceiling of '' @ show_nat (li_taskMaxCalls li))
     else if li_taskMaxTokens li < fst (snd u)
     then Some (''tokens '' @ show_int (fst (snd u)) @ '' exceed the task ceiling of '' @ show_int (li_taskMaxTokens li))
     else if li_taskMaxWallMs li < snd (snd u)
     then Some (''active time '' @ seconds (snd (snd u)) @ '' s exceeds the task ceiling of '' @ seconds (li_taskMaxWallMs li) @ '' s'')
     else None)"

definition pulseCallsSpent :: "limits \<Rightarrow> seen \<Rightarrow> bool" where
  "pulseCallsSpent li s = (li_pulseMaxCalls li \<le> sn_pulseCalls s)"

definition usage_now :: "run_world \<Rightarrow> nat \<times> int \<times> int" where
  "usage_now w = usage_at (rw_base w) (rw_seen w)"

text \<open>The closure \<open>shouldDrain\<close> that the run is given.\<close>

definition drain_wish :: "proc_env \<Rightarrow> etask \<Rightarrow> nat \<times> int \<times> int \<Rightarrow> seen \<Rightarrow> bool" where
  "drain_wish pe t base s =
    (shouldDrain (pe_budget pe) (sn_clock s) \<or> pulseCallsSpent (pe_limits pe) s \<or>
     overBudget (pe_limits pe) (usage_at base s) \<noteq> None \<or> et_cancelRequested t \<or> et_pauseRequested t)"

definition run_env :: "proc_env \<Rightarrow> etask \<Rightarrow> nat \<times> int \<times> int \<Rightarrow> orch_env" where
  "run_env pe t base =
    (pe_orch pe)\<lparr>oe_drain := (\<lambda>cp. drain_wish pe t base (pe_seen pe cp None)),
      oe_sched := (\<lambda>cp. (oe_sched (pe_orch pe) cp)\<lparr>sv_drain := (\<lambda>s. drain_wish pe t base (pe_seen pe cp (Some s)))\<rparr>)\<rparr>"

section \<open>Writes\<close>

definition on_task :: "(etask \<Rightarrow> etask) \<Rightarrow> run_world \<Rightarrow> run_world" where
  "on_task f w = w\<lparr>rw_task := f (rw_task w)\<rparr>"

definition record_note :: "run_note \<Rightarrow> run_world \<Rightarrow> run_world" where
  "record_note n w = w\<lparr>rw_notes := rw_notes w @ [n]\<rparr>"

text \<open>\<open>persist\<close>: the usage goes into the checkpoint and the task, the checkpoint to its file, and the lease is renewed.\<close>

definition stamped_cp :: "run_world \<Rightarrow> pulse_cp" where
  "stamped_cp w = (rw_cp w)\<lparr>pc_orch := (pc_orch (rw_cp w))\<lparr>kp_usage := Some (usage_now w)\<rparr>, pc_sideEffects := se_ledger (rw_fx w)\<rparr>"

definition persist_run :: "proc_env \<Rightarrow> run_world \<Rightarrow> run_world" where
  "persist_run pe w =
    w\<lparr>rw_cp := stamped_cp w, rw_task := set_usage (usage_now w) (rw_task w),
      rw_files := (rw_files w)(safeName (et_id (rw_task w)) \<mapsto> stamped_cp w),
      rw_leases := fst (renew (pe_mgr pe) (et_id (rw_task w)) (rw_leases w))\<rparr>"

definition drop_file :: "run_world \<Rightarrow> run_world" where
  "drop_file w = w\<lparr>rw_files := (rw_files w)(safeName (et_id (rw_task w)) := None)\<rparr>"

text \<open>\<open>task.usage = usageNow(); store.deleteCheckpoint(task.id)\<close>.\<close>

definition close_books :: "run_world \<Rightarrow> run_world" where
  "close_books w = drop_file (on_task (set_usage (usage_now w)) w)"

definition step_to :: "string \<Rightarrow> ctx \<Rightarrow> handler" where
  "step_to to c w =
    (case move (rw_task w) to c of
       Inl e \<Rightarrow> (Some (MoveThrew e), w)
     | Inr (t, e) \<Rightarrow> (None, record_note (NMoved e) (w\<lparr>rw_task := t\<rparr>)))"

text \<open>A comment through the ledger: a key that was recorded makes the ledger persist the checkpoint.\<close>

definition say :: "proc_env \<Rightarrow> string \<Rightarrow> string \<Rightarrow> handler" where
  "say pe key body w =
    (let (r, s, h) = comment (Iso (pe_now pe)) (pe_listFails pe key) (pe_fate pe key) (et_issueNumber (rw_task w)) key body
           (rw_fx w, rw_hub w);
         w1 = w\<lparr>rw_fx := s, rw_hub := h\<rparr>
     in case r of
          None \<Rightarrow> (Some (CommentThrew key), w1)
        | Some x \<Rightarrow> (None, if x = Posted \<or> x = SkippedRemote then persist_run pe w1 else w1))"

definition close_issue :: "proc_env \<Rightarrow> string \<Rightarrow> handler" where
  "close_issue pe key w =
    (let (r, s, h) = closeIssue (Iso (pe_now pe)) (pe_fate pe key) (et_issueNumber (rw_task w)) key (rw_fx w, rw_hub w);
         w1 = w\<lparr>rw_fx := s, rw_hub := h\<rparr>
     in case r of
          None \<Rightarrow> (Some (CloseThrew key), w1)
        | Some x \<Rightarrow> (None, if x = Closed then persist_run pe w1 else w1))"

section \<open>What is written about a run\<close>

text \<open>The result comment.\<close>

definition headline :: "run_outcome \<Rightarrow> string" where
  "headline r =
    (if oc_ok r then
       ''TITAN-Runner finished this task''
       @ (case oc_verification r of None \<Rightarrow> []
          | Some v \<Rightarrow> if kv_unjudged v then '' (verified by checks; no independent judge was available)''
                    else '' (verified by '' @ (case kv_judge v of None \<Rightarrow> ''a judge model'' | Some j \<Rightarrow> jd_provider j) @ '')'')
       @ ''.''
     else if oc_failedVerification r then
       ''TITAN-Runner finished the work, but it did not pass verification: ''
       @ redactString (case oc_verification r of None \<Rightarrow> ''unknown'' | Some v \<Rightarrow> kv_reason v)
     else ''TITAN-Runner finished this task, but one or more subtasks failed.'')"

definition verdict_word :: "bool \<Rightarrow> string" where
  "verdict_word b = (if b then ''pass'' else ''fail'')"

definition verdict_lines :: "kept_verdict \<Rightarrow> string list" where
  "verdict_lines v =
    [[], ''<details><summary>Verification</summary>'', [],
     ''Verdict: **'' @ verdict_word (kv_pass v) @ ''** '' @ utf8 8212 @ '' '' @ redactString (kv_reason v)]
    @ (case kv_judge v of None \<Rightarrow> []
       | Some j \<Rightarrow> [''Judge: '' @ jd_provider j @ '' '' @ utf8 8594 @ '' ''
           @ (case jd_verdict j of None \<Rightarrow> ''no verdict'' | Some b \<Rightarrow> verdict_word b)
           @ (if jd_reason j = [] then [] else '' ('' @ redactString (jd_reason j) @ '')'')])
    @ map (\<lambda>(i, _, d). ''- '' @ i @ '': '' @ redactString d) (filter (\<lambda>(_, good, _). \<not> good) (kv_checks v))
    @ [''</details>'']"

definition file_lines :: "synth_file list \<Rightarrow> string list" where
  "file_lines fs =
    (if fs = [] then []
     else [[], ''<details><summary>Files produced</summary>'', []]
       @ concat (map (\<lambda>f. [''**`'' @ sf_path f @ ''`**'', ''```'', take 3000 (sf_content f), ''```'', []]) fs)
       @ [''</details>''])"

definition files_of :: "run_outcome \<Rightarrow> synth_file list" where
  "files_of r = (case oc_synthesis r of None \<Rightarrow> [] | Some s \<Rightarrow> sy_files s)"

definition summary_of :: "run_outcome \<Rightarrow> string" where
  "summary_of r = (case oc_synthesis r of None \<Rightarrow> [] | Some s \<Rightarrow> sy_markdownSummary s)"

definition issueCommentFor :: "run_outcome \<Rightarrow> string" where
  "issueCommentFor r =
    join_with newline
      ([headline r, [], take 60000 (summary_of r)]
       @ (case oc_verification r of None \<Rightarrow> [] | Some v \<Rightarrow> verdict_lines v)
       @ file_lines (files_of r)
       @ [[], ''---'', ''_Generated by [TITAN-Runner](../../README.md), an automated pulse._''])"

text \<open>The run record. A missing text is null.\<close>

definition js_opt :: "string option \<Rightarrow> js" where
  "js_opt x = (case x of None \<Rightarrow> JNull | Some s \<Rightarrow> JStr s)"

definition js_int :: "int \<Rightarrow> js" where
  "js_int i = JNum (Fin (of_int i))"

definition MAX_FILE_PREVIEW_CHARS :: nat where "MAX_FILE_PREVIEW_CHARS = 4000"
definition MAX_RUN_FILE_CHARS :: nat where "MAX_RUN_FILE_CHARS = 6000"

definition run_step_js :: "entry \<Rightarrow> js" where
  "run_step_js e =
    JObj [(''id'', JStr (entry_id e)), (''title'', JStr (gs_title (en_step e))), (''aspect'', JStr (gs_aspect (en_step e))),
      (''state'', JStr (step_state_name (en_state e))),
      (''assignment'', case en_assignment e of None \<Rightarrow> JNull | Some (a, b, c) \<Rightarrow> JArr [JStr a, JStr b, JStr c]),
      (''attempts'', JArr (map (\<lambda>a. JObj [(''modelId'', JStr (at_modelId a)), (''pool'', JStr (at_pool a)), (''ok'', JBool (at_ok a)),
         (''ms'', js_int (at_ms a)), (''tokensUsed'', case at_tokensUsed a of None \<Rightarrow> JNull | Some n \<Rightarrow> js_int n)]) (en_attempts e))),
      (''outputPreview'', js_opt (map_option (take MAX_FILE_PREVIEW_CHARS) (en_output e))),
      (''error'', case en_error e of None \<Rightarrow> JNull
         | Some x \<Rightarrow> JObj [(''code'', JStr (sx_code x)), (''class'', js_opt (sx_class x)), (''message'', JStr (sx_message x))])]"

definition run_record :: "proc_env \<Rightarrow> etask \<Rightarrow> string \<Rightarrow> graph \<Rightarrow> run_outcome \<Rightarrow> js \<Rightarrow> int \<Rightarrow> js" where
  "run_record pe t runId g r createdAt durationMs =
    scrubForState (JObj
      [(''runId'', JStr runId), (''taskId'', JStr (et_id t)), (''taskTitle'', JStr (et_title t)), (''issueUrl'', js_opt (et_issueUrl t)),
       (''createdAt'', createdAt), (''durationMs'', js_int durationMs),
       (''state'', JStr (if oc_ok r then ''complete'' else ''failed'')), (''actionsRunUrl'', js_opt (pe_actionsUrl pe)),
       (''sharedContext'', JStr (take MAX_RUN_FILE_CHARS (gr_sharedContext g))),
       (''tasks'', JArr (map (\<lambda>q. run_step_js (snd q)) (oc_tasks r))),
       (''files'', JArr (map (\<lambda>f. JObj [(''path'', JStr (sf_path f)), (''sourceTaskId'', JStr (sf_sourceTaskId f)),
          (''conflict'', JBool (sf_conflict f))]) (files_of r))),
       (''markdownSummary'', JStr (take MAX_RUN_FILE_CHARS (summary_of r)))])"

definition write_record :: "string \<Rightarrow> js \<Rightarrow> run_world \<Rightarrow> run_world" where
  "write_record runId j w = w\<lparr>rw_runs := assoc_put runId j (rw_runs w)\<rparr>"

section \<open>The ways a task is left\<close>

definition blank_line :: string where "blank_line = [CHR 0x0A, CHR 0x0A]"

definition deadLetterNote :: "string \<Rightarrow> string" where
  "deadLetterNote reason = ''TITAN-Runner has stopped working on this task: '' @ reason @ '' An authorized user can retry it later with `/titan retry`.''"

definition askApproval :: "proc_env \<Rightarrow> string \<Rightarrow> string \<Rightarrow> handler" where
  "askApproval pe key what w =
    and_then
      (say pe (''approval:'' @ key)
        (''TITAN-Runner needs an authorized user's approval before it continues with this task.'' @ blank_line @ what @ blank_line
         @ ''Reply `/titan approve '' @ key @ ''` to allow it or `/titan deny '' @ key @ ''` to stop it. (Autonomy: ''
         @ level_name (effectiveAutonomy (ct_autonomy (pe_control pe)) (et_autonomy (rw_task w))) @ ''.)''))
      (step_to ''waiting'' (wait_ctx (pe_now pe) (''waiting for approval of '' @ key) ''approval'' (Iso (pe_now pe)))) w"

definition dead_reason :: "string \<Rightarrow> string" where
  "dead_reason code = map (\<lambda>c. if c = CHR ''_'' then CHR '' '' else c) (toLowerCase code)"

definition deadLetter :: "proc_env \<Rightarrow> string \<Rightarrow> string \<Rightarrow> string \<Rightarrow> string \<Rightarrow> handler" where
  "deadLetter pe code cls msg note w =
    and_then (say pe (''dead-letter:'' @ pc_runId (rw_cp w)) (deadLetterNote note))
      (and_then (step_to ''dead-lettered'' (gave_up (pe_now pe) (dead_reason code) msg cls code msg)) (pure_step close_books)) w"

definition over_task_budget :: "proc_env \<Rightarrow> string \<Rightarrow> handler" where
  "over_task_budget pe over = deadLetter pe ''TASK_BUDGET'' ''budget_exhausted'' (''Dead-lettered: '' @ over @ ''.'') (over @ ''.'')"

section \<open>The stages\<close>

text \<open>The gate: asked once per run, and recorded.\<close>

definition gate_stage :: "proc_env \<Rightarrow> run_world \<Rightarrow> run_world" where
  "gate_stage pe w =
    (case pc_gate (rw_cp w) of
       Some _ \<Rightarrow> w
     | None \<Rightarrow>
         (let t = rw_task w;
              g = pe_review pe (if et_type t = ''self-improve'' then ''self-improve-task'' else ''orchestrate-task'') (et_title t) (et_prompt t)
          in persist_run pe (record_note (NGate g) (w\<lparr>rw_cp := (rw_cp w)\<lparr>pc_gate := Some g\<rparr>\<rparr>))))"

definition blocked_stage :: "proc_env \<Rightarrow> gate_verdict \<Rightarrow> handler" where
  "blocked_stage pe g w =
    (let err = dflt (gv_reason g) ''Blocked by the Reviewer Gate.'' in
     and_then (say pe (''blocked:'' @ pc_runId (rw_cp w)) (''TITAN-Runner declined this task: '' @ redactString err))
       (and_then (step_to ''blocked'' (gave_up (pe_now pe) ''reviewer gate'' err ''policy_blocked'' ''GATE_BLOCK'' err)) (pure_step close_books)) w)"

definition crashed_stage :: "proc_env \<Rightarrow> string \<Rightarrow> handler" where
  "crashed_stage pe raw w =
    (let m = redactString raw in
     and_then (say pe (''error:'' @ pc_runId (rw_cp w)) (''TITAN-Runner hit an internal error on this task: '' @ m))
       (and_then (step_to ''failed'' (gave_up (pe_now pe) ''internal error'' m ''permanent'' ''INTERNAL'' m)) (pure_step close_books)) w)"

text \<open>The run was drained: a command first, then the task's budget, then the pulse's.\<close>

definition drained_stage :: "proc_env \<Rightarrow> handler" where
  "drained_stage pe w =
    (let now = pe_now pe; t = rw_task w in
     if et_cancelRequested t then
       and_then (step_to ''cancelled'' ((why_ctx now ''cancel command honoured at a step boundary'')\<lparr>c_error := Some (Some ''Cancelled by an authorized command.'')\<rparr>))
         (pure_step drop_file) (on_task (\<lambda>t. t\<lparr>et_cancelRequested := False\<rparr>) w)
     else if et_pauseRequested t then
       and_then (step_to ''waiting'' (wait_ctx now ''pause command honoured at a step boundary'' ''budget'' (Iso now)))
         (step_to ''paused'' (why_ctx now ''paused by an authorized command'')) (on_task (\<lambda>t. t\<lparr>et_pauseRequested := False\<rparr>) w)
     else
       (case overBudget (pe_limits pe) (usage_now w) of
          Some over \<Rightarrow> over_task_budget pe over w
        | None \<Rightarrow>
            step_to ''waiting''
              (wait_ctx now
                (if pulseCallsSpent (pe_limits pe) (rw_seen w)
                 then ''pulse model-call ceiling ('' @ show_nat (li_pulseMaxCalls (pe_limits pe)) @ '') reached; checkpoint retained''
                 else ''pulse budget exhausted; checkpoint retained'') ''pulse-budget'' (Iso now))
              (persist_run pe w)))"

definition wake_at :: "int \<Rightarrow> rat \<Rightarrow> stamp" where
  "wake_at now wakeInMs = Iso (now + \<lfloor>max 1000 wakeInMs\<rfloor>)"

definition park_class :: "parked_run \<Rightarrow> string" where
  "park_class p = (if pr_reason p = ''quota'' then ''budget_exhausted'' else ''provider_down'')"

definition iso_text :: "proc_env \<Rightarrow> stamp \<Rightarrow> string" where
  "iso_text pe s = (case s of Iso n \<Rightarrow> pe_iso pe n | Junk x \<Rightarrow> x)"

text \<open>Parked: on an approval the task asks for it; on a provider it counts the park, and gives up above the ceiling.\<close>

definition parked_stage :: "proc_env \<Rightarrow> parked_run \<Rightarrow> handler" where
  "parked_stage pe p w =
    (if pr_reason p = ''approval'' then
       askApproval pe (dflt (pr_approvalKey p) ''undefined'')
         (''A step asked to run a tool that needs approval at this autonomy level: '' @ redactString (pe_why pe (pr_why p))) (persist_run pe w)
     else
       (let now = pe_now pe; n = dflt (et_parks (rw_task w)) 0 + 1; w1 = on_task (\<lambda>t. t\<lparr>et_parks := Some n\<rparr>) w; why = pe_why pe (pr_why p) in
        if li_maxParks (pe_limits pe) < n then
          deadLetter pe ''PARK_CEILING'' (park_class p)
            (''Dead-lettered: parked '' @ show_nat n @ '' times waiting on '' @ pr_reason p @ '' ('' @ why @ '').'')
            (''it waited '' @ show_nat n @ '' times for '' @ (if pr_reason p = ''quota'' then ''quota to return'' else ''a provider to recover'')
             @ '' and never got through.'') w1
        else
          (let wake = wake_at now (pr_wakeInMs p) in
           step_to ''waiting''
             ((wait_ctx now (''parked on '' @ pr_reason p @ '' ('' @ why @ ''); wakes at '' @ iso_text pe wake) (pr_reason p) wake)
                \<lparr>c_failure := Some (Some \<lparr>f_class = dflt (pr_class p) (park_class p), f_code = pr_code p, f_message = why, f_at = Iso now\<rparr>)\<rparr>)
             (persist_run pe w1))))"

definition failed_step :: "run_outcome \<Rightarrow> entry option" where
  "failed_step r = map_option snd (List.find (\<lambda>q. en_state (snd q) = SFailed) (oc_tasks r))"

definition step_message :: "entry option \<Rightarrow> string" where
  "step_message e = (case Option.bind e en_error of None \<Rightarrow> ''one or more steps failed'' | Some x \<Rightarrow> sx_message x)"

definition step_class :: "entry option \<Rightarrow> string" where
  "step_class e = (case Option.bind e en_error of None \<Rightarrow> ''permanent'' | Some x \<Rightarrow> dflt (sx_class x) ''permanent'')"

definition step_code :: "entry option \<Rightarrow> string" where
  "step_code e = (case Option.bind e en_error of None \<Rightarrow> ''STEP_FAILED'' | Some x \<Rightarrow> sx_code x)"

definition verification_message :: "run_outcome \<Rightarrow> string" where
  "verification_message r = ''Verification failed: '' @ (case oc_verification r of None \<Rightarrow> ''unknown'' | Some v \<Rightarrow> kv_reason v)"

definition delivery_action :: "run_world \<Rightarrow> action" where
  "delivery_action w =
    \<lparr>ac_kind = Some (if et_type (rw_task w) = ''self-improve'' then ''self-improve'' else ''deliver''), ac_toolId = None,
     ac_effect = Some ''external'', ac_runId = Some (pc_runId (rw_cp w)), ac_args = JUndef\<rparr>"

definition policy_task :: "etask \<Rightarrow> ptask" where
  "policy_task t = \<lparr>pt_autonomy = et_autonomy t, pt_approvals = et_approvals t\<rparr>"

definition delivery_decision :: "proc_env \<Rightarrow> run_world \<Rightarrow> decided" where
  "delivery_decision pe w =
    decide (pe_sha1 pe) (pe_number pe) (delivery_action w) (pe_control pe) (policy_task (rw_task w)) (pe_rules pe)"


text \<open>Delivery denied: by a person it ends the task; otherwise the work is kept and nothing is posted.\<close>

definition denied_stage :: "proc_env \<Rightarrow> decided \<Rightarrow> handler" where
  "denied_stage pe d w =
    (let why = dc_reason d in
     and_then (step_to ''cancelled'' (gave_up (pe_now pe) (''delivery '' @ why) (''Cancelled: delivery '' @ why @ ''.'') ''cancelled'' ''DELIVERY_DENIED'' why))
       (pure_step close_books) (record_note (NDeliveryDenied why) w))"

definition suppressed_stage :: "proc_env \<Rightarrow> run_outcome \<Rightarrow> decided \<Rightarrow> handler" where
  "suppressed_stage pe r d w =
    (let now = pe_now pe; why = dc_reason d; w1 = record_note (NDeliverySuppressed why (oc_ok r)) w;
         m = (if oc_failedVerification r then verification_message r else step_message (failed_step r)) in
     and_then
       (if et_type (rw_task w) = ''self-improve'' then
          step_to ''blocked'' (gave_up now (''pull request not opened: '' @ why) (''Not delivered: '' @ why @ ''.'') ''policy_blocked'' ''DELIVERY_SUPPRESSED'' why)
        else if oc_ok r then step_to ''complete'' (why_ctx now (''complete; delivery suppressed ('' @ why @ '')''))
        else step_to ''failed'' (gave_up now (''failed; delivery suppressed ('' @ why @ '')'') m
               (if oc_failedVerification r then ''permanent'' else step_class (failed_step r))
               (if oc_failedVerification r then ''VERIFICATION_FAILED'' else step_code (failed_step r)) m))
       (pure_step close_books) w1)"

text \<open>Self-improvement: one pull request per run, opened under the ledger; the ledger's own comment follows.\<close>

definition no_synthesis :: synthesis where
  "no_synthesis = \<lparr>sy_files = [], sy_conflicts = [], sy_fileTree = None, sy_markdownSummary = [], sy_taskParseResults = []\<rparr>"

definition propose_once :: "proc_env \<Rightarrow> run_outcome \<Rightarrow> run_world \<Rightarrow> pr_result option \<times> run_world" where
  "propose_once pe r w =
    (let t = rw_task w;
         (res, s, h) = once (Iso (pe_now pe)) (''pr:'' @ pc_runId (rw_cp w)) (pe_propose pe t (dflt (oc_synthesis r) no_synthesis)) (rw_fx w, rw_hub w);
         w1 = w\<lparr>rw_fx := s, rw_hub := h\<rparr>
     in case res of
          None \<Rightarrow> (None, w1)
        | Some (fired, x) \<Rightarrow>
            if fired then (x, persist_run pe w1)
            else (Some \<lparr>pq_status = ''pr-open'', pq_number = et_prNumber t, pq_url = et_prUrl t, pq_reason = Some ''recorded on a previous pulse''\<rparr>, w1))"

definition first_of :: "'a option \<Rightarrow> 'a option \<Rightarrow> 'a option" where
  "first_of a b = (case a of None \<Rightarrow> b | Some x \<Rightarrow> Some x)"

definition pr_stage :: "proc_env \<Rightarrow> run_outcome \<Rightarrow> handler" where
  "pr_stage pe r w =
    (case propose_once pe r w of
       (None, w1) \<Rightarrow> (Some ProposeThrew, w1)
     | (Some f, w1) \<Rightarrow>
         (let now = pe_now pe; runId = pc_runId (rw_cp w) in
          if pq_status f = ''pr-open'' then
            (let w2 = on_task (\<lambda>t. t\<lparr>et_prNumber := first_of (pq_number f) (et_prNumber t), et_prUrl := first_of (pq_url f) (et_prUrl t)\<rparr>) w1 in
             and_then
               (say pe (''pr-comment:'' @ runId)
                 (''TITAN-Runner opened a draft pull request for this self-improvement task: '' @ dflt (et_prUrl (rw_task w2)) ''(PR URL unavailable in dry-run)''
                  @ blank_line @ ''It will not be merged automatically '' @ utf8 8212
                  @ '' CI (full test suite + the denylist gate) must pass, and a maintainer decides whether to merge.''))
               (and_then (step_to ''pr-open'' (why_ctx now ''draft PR opened'')) (pure_step close_books)) w2)
          else
            (let err = dflt (pq_reason f) (pq_status f) in
             and_then (say pe (''pr-refused:'' @ runId) (''TITAN-Runner did not open a pull request for this task: '' @ redactString err))
               (and_then
                 (step_to ''failed'' (gave_up now (''self-improve '' @ pq_status f) err
                    (if pq_status f = ''refused'' \<or> pq_status f = ''blocked'' then ''policy_blocked'' else ''permanent'') (toUpperCase (pq_status f)) err))
                 (pure_step close_books)) w1)))"

definition poisoned_step :: "run_outcome \<Rightarrow> entry option" where
  "poisoned_step r =
    (case failed_step r of
       None \<Rightarrow> None
     | Some e \<Rightarrow> if \<not> oc_ok r \<and> Option.bind (en_error e) sx_class = Some ''poisoned'' then Some e else None)"

definition done_reason :: "run_outcome \<Rightarrow> string" where
  "done_reason r =
    (if map_option kv_unjudged (oc_verification r) = Some True then ''all steps complete; verified by checks (unjudged)''
     else ''all steps complete and verified'')"

definition publish_stage :: "proc_env \<Rightarrow> run_outcome \<Rightarrow> handler" where
  "publish_stage pe r w =
    (let now = pe_now pe; runId = pc_runId (rw_cp w); fs = failed_step r in
     case poisoned_step r of
       Some e \<Rightarrow> deadLetter pe ''NO_PROGRESS'' ''poisoned'' (''Dead-lettered: '' @ step_message (Some e))
                   (''step '' @ entry_id e @ '' kept failing the same way ('' @ redactString (step_message (Some e)) @ '').'') w
     | None \<Rightarrow>
         and_then (say pe (''done:'' @ runId) (issueCommentFor r))
           (and_then
             (if oc_ok r then
                and_then (close_issue pe (''close:'' @ runId))
                  (step_to ''complete'' (why_ctx now (done_reason r)))
              else if oc_failedVerification r then
                step_to ''failed'' (gave_up now
                  (''verification failed after '' @ show_nat (case oc_verification r of None \<Rightarrow> 0 | Some v \<Rightarrow> kv_round v) @ '' remediation(s)'')
                  (verification_message r) ''permanent'' ''VERIFICATION_FAILED'' (verification_message r))
              else step_to ''failed'' (gave_up now ''a step failed'' (step_message fs) (step_class fs) (step_code fs) (step_message fs)))
             (pure_step close_books)) w)"

definition graph_of :: "pulse_cp \<Rightarrow> graph" where
  "graph_of cp = (case kp_plan (pc_orch cp) of None \<Rightarrow> \<lparr>gr_sharedContext = [], gr_tasks = []\<rparr> | Some p \<Rightarrow> pn_graph p)"

definition record_run :: "proc_env \<Rightarrow> run_outcome \<Rightarrow> run_world \<Rightarrow> run_world" where
  "record_run pe r w =
    write_record (pc_runId (rw_cp w))
      (run_record pe (rw_task w) (pc_runId (rw_cp w)) (graph_of (rw_cp w)) r (JStr (pe_iso pe (pe_now pe))) (sn_wallMs (rw_seen w))) w"

definition deliver_stage :: "proc_env \<Rightarrow> run_outcome \<Rightarrow> handler" where
  "deliver_stage pe r w =
    (let w0 = record_run pe r w; d = delivery_decision pe w0; w1 = record_note (NPolicy d) w0;
         self = (et_type (rw_task w) = ''self-improve'') in
     if dc_decision d = Approve then
       askApproval pe (dc_approvalKey d)
         (if self then ''It wants to open a draft pull request with the proposed change.''
          else ''It has finished the work ('' @ (if oc_ok r then ''verified'' else ''with failures'') @ '') and wants to post the result on this issue''
            @ (if oc_ok r then '' and close it'' else []) @ ''.'') (persist_run pe w1)
     else if dc_decision d = Deny \<and> dc_source d = ByDenial then denied_stage pe d w1
     else if dc_decision d = Deny then suppressed_stage pe r d w1
     else
       (let w2 = persist_run pe (w1\<lparr>rw_cp := (rw_cp w1)\<lparr>pc_delivering := True\<rparr>\<rparr>) in
        if self then pr_stage pe r w2 else publish_stage pe r w2))"

section \<open>The handler\<close>

definition settle_stage :: "proc_env \<Rightarrow> run_outcome \<Rightarrow> handler" where
  "settle_stage pe r w =
    (if oc_drained r then drained_stage pe w
     else (case oc_parked r of Some p \<Rightarrow> parked_stage pe p w | None \<Rightarrow> deliver_stage pe r w))"

definition orch_task_of :: "etask \<Rightarrow> orch_task" where
  "orch_task_of t = \<lparr>ot_request = \<lparr>rq_id = et_id t, rq_title = et_title t, rq_prompt = et_prompt t\<rparr>,
     ot_parks = dflt (et_parks t) 0, ot_routingHint = et_routingHint t\<rparr>"

text \<open>The run persists at its own boundaries; each write overwrites the last, so the file holds the newest.\<close>

definition write_back :: "proc_env \<Rightarrow> (string \<times> checkpoint) list \<Rightarrow> run_world \<Rightarrow> run_world" where
  "write_back pe saved w = fold (\<lambda>(_, cp) v. persist_run pe (v\<lparr>rw_cp := (rw_cp v)\<lparr>pc_orch := cp\<rparr>\<rparr>)) saved w"

definition after_run :: "proc_env \<Rightarrow> orch \<Rightarrow> run_world \<Rightarrow> run_world" where
  "after_run pe x w =
    (let w1 = write_back pe (ow_saved x) (w\<lparr>rw_seen := pe_seen pe (ow_cp x) None\<rparr>)
     in w1\<lparr>rw_cp := (rw_cp w1)\<lparr>pc_orch := ow_cp x\<rparr>\<rparr>)"

definition run_stage :: "proc_env \<Rightarrow> handler" where
  "run_stage pe w =
    (case runOrchestration (run_env pe (rw_task w) (rw_base w)) (pe_planner pe (rw_task w)) (orch_task_of (rw_task w)) (pc_orch (rw_cp w)) of
       None \<Rightarrow> (Some NoReturn, w)
     | Some (Inl e) \<Rightarrow> crashed_stage pe (er_message e) w
     | Some (Inr (r, x)) \<Rightarrow> settle_stage pe r (after_run pe x w))"

text \<open>The ledger of this pulse: suppressed by dry-run autonomy or safe mode, careful on a resumed task.\<close>

definition suppressed_by :: "proc_env \<Rightarrow> etask \<Rightarrow> string option" where
  "suppressed_by pe t =
    (if effectiveAutonomy (ct_autonomy (pe_control pe)) (et_autonomy t) = DryRun then Some ''autonomy is dry-run''
     else if ct_safeMode (pe_control pe) then Some ''safe mode is on'' else None)"

definition new_pulse_cp :: "proc_env \<Rightarrow> string \<Rightarrow> pulse_cp" where
  "new_pulse_cp pe taskId = \<lparr>pc_orch = newCheckpoint taskId, pc_runId = pe_newRunId pe, pc_gate = None, pc_sideEffects = [], pc_delivering = False\<rparr>"

definition begin_run :: "proc_env \<Rightarrow> etask \<Rightarrow> hub \<Rightarrow> (string \<Rightarrow> pulse_cp option) \<Rightarrow> lease_dir \<Rightarrow> (string \<times> js) list \<Rightarrow> run_world" where
  "begin_run pe t h files leases runs =
    (let existing = files (safeName (et_id t)); cp = dflt existing (new_pulse_cp pe (et_id t)) in
     \<lparr>rw_task = on_core (\<lambda>k. k\<lparr>t_runId := Some (pc_runId cp)\<rparr>) t, rw_cp = cp,
      rw_fx = new_effects (pc_sideEffects cp) (existing \<noteq> None) (suppressed_by pe t),
      rw_hub = h, rw_files = files, rw_leases = leases, rw_runs = runs, rw_notes = [],
      rw_base = usageOf (pc_orch cp), rw_seen = pe_start pe\<rparr>)"

definition body_stage :: "proc_env \<Rightarrow> handler" where
  "body_stage pe w =
    (case overBudget (pe_limits pe) (usage_now w) of
       Some over \<Rightarrow> over_task_budget pe over w
     | None \<Rightarrow>
         (let w1 = gate_stage pe w in
          case pc_gate (rw_cp w1) of
            None \<Rightarrow> run_stage pe w1
          | Some g \<Rightarrow> if gv_verdict g = ''block'' then blocked_stage pe g w1 else run_stage pe w1))"

definition processTask :: "proc_env \<Rightarrow> etask \<Rightarrow> hub \<Rightarrow> (string \<Rightarrow> pulse_cp option) \<Rightarrow> lease_dir \<Rightarrow> (string \<times> js) list \<Rightarrow> run_exn option \<times> run_world" where
  "processTask pe t h files leases runs = body_stage pe (begin_run pe t h files leases runs)"

section \<open>Every run settles its task\<close>

definition kept_file :: "run_world \<Rightarrow> bool" where
  "kept_file w = (rw_files w (safeName (et_id (rw_task w))) \<noteq> None)"

definition working :: "run_world \<Rightarrow> bool" where
  "working w = (et_status (rw_task w) = Running \<and> wf_task (et_core (rw_task w)))"

fun github_exn :: "run_exn \<Rightarrow> bool" where
  "github_exn (CommentThrew k) = True"
| "github_exn (CloseThrew k) = True"
| "github_exn ProposeThrew = True"
| "github_exn _ = False"

definition STOPPED :: "status list" where
  "STOPPED = [Complete, Failed, Blocked, Cancelled, DeadLettered, PrOpen, Waiting, Paused]"

text \<open>How a run may end: stopped in a legal status, with its checkpoint kept exactly when it will go on; or thrown
  by GitHub, still running.\<close>

definition good_end :: "run_exn option \<times> run_world \<Rightarrow> bool" where
  "good_end r =
    (wf_task (et_core (rw_task (snd r))) \<and>
     (case fst r of
        Some x \<Rightarrow> github_exn x \<and> et_status (rw_task (snd r)) = Running
      | None \<Rightarrow> et_status (rw_task (snd r)) \<in> set STOPPED \<and>
          kept_file (snd r) = (et_status (rw_task (snd r)) \<in> {Waiting, Paused})))"

lemma working_simps [simp]:
  "working (record_note n w) = working w" "working (write_record i j w) = working w"
  "working (w\<lparr>rw_cp := c\<rparr>) = working w" "working (w\<lparr>rw_seen := s\<rparr>) = working w"
  "working (w\<lparr>rw_fx := f, rw_hub := h\<rparr>) = working w" "working (persist_run pe w) = working w"
  "kept_file (record_note n w) = kept_file w" "kept_file (write_record i j w) = kept_file w"
  "kept_file (w\<lparr>rw_cp := c\<rparr>) = kept_file w" "kept_file (w\<lparr>rw_seen := s\<rparr>) = kept_file w"
  "kept_file (w\<lparr>rw_fx := f, rw_hub := h\<rparr>) = kept_file w" "kept_file (persist_run pe w)"
  by (simp_all add: working_def kept_file_def record_note_def write_record_def persist_run_def)

lemma working_on_task [simp]:
  "et_core (f (rw_task w)) = et_core (rw_task w) \<Longrightarrow> working (on_task f w) = working w"
  "et_core (f (rw_task w)) = et_core (rw_task w) \<Longrightarrow> kept_file (on_task f w) = kept_file w"
  by (simp_all add: working_def kept_file_def on_task_def)

lemma and_then_Some: "f w = (Some e, w') \<Longrightarrow> and_then f g w = (Some e, w')"
  by (simp add: and_then_def)

lemma and_then_None: "f w = (None, w') \<Longrightarrow> and_then f g w = g w'"
  by (simp add: and_then_def)

text \<open>A write through the ledger leaves the task's status alone, or throws.\<close>

definition quiet :: "handler \<Rightarrow> bool" where
  "quiet f = (\<forall>w. working w \<longrightarrow> working (snd (f w)) \<and> (kept_file w \<longrightarrow> kept_file (snd (f w))) \<and>
     (case fst (f w) of None \<Rightarrow> True | Some x \<Rightarrow> github_exn x))"

lemma quiet_say: "quiet (say pe key body)"
  by (auto simp: quiet_def say_def Let_def split: prod.split option.split)

lemma quiet_close: "quiet (close_issue pe key)"
  by (auto simp: quiet_def close_issue_def Let_def split: prod.split option.split)

lemma quiet_then:
  assumes "quiet f" and "working w" and "\<And>w'. working w' \<Longrightarrow> (kept_file w \<Longrightarrow> kept_file w') \<Longrightarrow> good_end (g w')"
  shows "good_end (and_then f g w)"
proof -
  obtain e w' where f: "f w = (e, w')" by (cases "f w")
  have w': "working w'" "kept_file w \<Longrightarrow> kept_file w'" "case e of None \<Rightarrow> True | Some x \<Rightarrow> github_exn x"
    using assms(1,2) f by (auto simp: quiet_def dest!: spec [of _ w])
  show ?thesis
    by (cases e) (use assms(3) w' f in \<open>auto simp: and_then_None and_then_Some good_end_def working_def\<close>)
qed

text \<open>Leaving for good, and leaving for a while.\<close>

lemma step_to_named:
  "canTransition (et_status (rw_task w)) s \<Longrightarrow> (s = Waiting \<Longrightarrow> wait_reason_of (c_waitReason c) \<noteq> None) \<Longrightarrow>
   step_to (status_name s) c w = (None, record_note (NMoved (move_event s c (rw_task w))) (w\<lparr>rw_task := moved_to s c (rw_task w)\<rparr>))"
  by (simp add: step_to_def move_named)

lemma leave_good:
  assumes "working w" and "s \<in> {Complete, Failed, Blocked, Cancelled, DeadLettered, PrOpen}"
  shows "good_end (and_then (step_to (status_name s) c) (pure_step close_books) w)"
    and "good_end (and_then (step_to (status_name s) c) (pure_step drop_file) w)"
proof -
  have ok: "canTransition Running s" using assms(2) by (auto simp: canTransition_table)
  have wf: "wf_task (transition_body (et_core (rw_task w)) s c)"
    using assms ok by (intro wf_body) (auto simp: working_def)
  have st: "step_to (status_name s) c w = (None, record_note (NMoved (move_event s c (rw_task w))) (w\<lparr>rw_task := moved_to s c (rw_task w)\<rparr>))"
    using assms ok by (intro step_to_named) (auto simp: working_def)
  have stop: "s \<in> set STOPPED" "s \<noteq> Waiting" "s \<noteq> Paused" using assms(2) by (auto simp: STOPPED_def)
  show "good_end (and_then (step_to (status_name s) c) (pure_step close_books) w)"
    using wf stop
    by (simp add: and_then_def st pure_step_def good_end_def close_books_def drop_file_def on_task_def record_note_def kept_file_def)
  show "good_end (and_then (step_to (status_name s) c) (pure_step drop_file) w)"
    using wf stop
    by (simp add: and_then_def st pure_step_def good_end_def drop_file_def on_task_def record_note_def kept_file_def)
qed

lemmas leave_goods =
  leave_good [of _ Complete, simplified] leave_good [of _ Failed, simplified] leave_good [of _ Blocked, simplified]
  leave_good [of _ Cancelled, simplified] leave_good [of _ DeadLettered, simplified] leave_good [of _ PrOpen, simplified]

lemma hold_good:
  assumes "working w" and "kept_file w" and "wait_reason_of (c_waitReason c) \<noteq> None"
  shows "good_end (step_to ''waiting'' c w)"
proof -
  have wf: "wf_task (transition_body (et_core (rw_task w)) Waiting c)"
    using assms by (intro wf_body) (auto simp: working_def canTransition_table)
  have st: "step_to ''waiting'' c w = (None, record_note (NMoved (move_event Waiting c (rw_task w))) (w\<lparr>rw_task := moved_to Waiting c (rw_task w)\<rparr>))"
    using assms step_to_named [of w Waiting c] by (auto simp: working_def canTransition_table)
  show ?thesis
    using wf assms(2) by (simp add: st good_end_def record_note_def kept_file_def STOPPED_def)
qed

lemma pause_good:
  assumes "working w" and "kept_file w" and "wait_reason_of (c_waitReason c) \<noteq> None"
  shows "good_end (and_then (step_to ''waiting'' c) (step_to ''paused'' c') w)"
proof -
  let ?t = "moved_to Waiting c (rw_task w)"
  let ?w = "record_note (NMoved (move_event Waiting c (rw_task w))) (w\<lparr>rw_task := ?t\<rparr>)"
  have wf: "wf_task (transition_body (et_core (rw_task w)) Waiting c)"
    using assms by (intro wf_body) (auto simp: working_def canTransition_table)
  then have wf2: "wf_task (transition_body (et_core ?t) Paused c')"
    by (intro wf_body) (simp_all add: canTransition_table)
  have st: "step_to ''waiting'' c w = (None, ?w)"
    using assms step_to_named [of w Waiting c] by (auto simp: working_def canTransition_table)
  have st2: "step_to ''paused'' c' ?w = (None, record_note (NMoved (move_event Paused c' ?t)) (?w\<lparr>rw_task := moved_to Paused c' ?t\<rparr>))"
    using step_to_named [of ?w Paused c'] by (simp add: canTransition_table record_note_def)
  have "and_then (step_to ''waiting'' c) (step_to ''paused'' c') w = step_to ''paused'' c' ?w" by (simp only: and_then_def st) simp
  then show ?thesis
    unfolding st2 using wf2 assms(2) by (simp add: good_end_def record_note_def kept_file_def STOPPED_def)
qed

lemma quiet_leave:
  assumes "quiet f" and "working w" and "s \<in> {Complete, Failed, Blocked, Cancelled, DeadLettered, PrOpen}"
  shows "good_end (and_then f (and_then (step_to (status_name s) c) (pure_step close_books)) w)"
  using assms leave_good(1) by (blast intro: quiet_then)

lemma deadLetter_good: "working w \<Longrightarrow> good_end (deadLetter pe code cls msg note w)"
  using quiet_leave [OF quiet_say, of w DeadLettered] by (simp add: deadLetter_def)

lemma askApproval_good: "working w \<Longrightarrow> kept_file w \<Longrightarrow> good_end (askApproval pe key what w)"
  unfolding askApproval_def by (rule quiet_then [OF quiet_say]) (auto intro: hold_good)

lemma blocked_good: "working w \<Longrightarrow> good_end (blocked_stage pe g w)"
  using quiet_leave [OF quiet_say, of w Blocked] by (simp add: blocked_stage_def Let_def)

lemma crashed_good: "working w \<Longrightarrow> good_end (crashed_stage pe m w)"
  using quiet_leave [OF quiet_say, of w Failed] by (simp add: crashed_stage_def Let_def)

lemma drained_good: "working w \<Longrightarrow> kept_file w \<Longrightarrow> good_end (drained_stage pe w)"
  unfolding drained_stage_def Let_def over_task_budget_def
  by (auto intro!: leave_goods pause_good deadLetter_good hold_good split: option.split)

text \<open>The reasons a run can be parked for are wait reasons.\<close>

definition sound_park :: "run_outcome \<Rightarrow> bool" where
  "sound_park r = (case oc_parked r of None \<Rightarrow> True | Some p \<Rightarrow> pr_reason p \<in> {''approval'', ''quota'', ''provider''})"

lemma parked_good:
  assumes "working w" and "kept_file w" and "pr_reason p \<in> {''approval'', ''quota'', ''provider''}"
  shows "good_end (parked_stage pe p w)"
  using assms by (auto simp: parked_stage_def Let_def intro!: askApproval_good deadLetter_good hold_good)

lemma denied_good: "working w \<Longrightarrow> good_end (denied_stage pe d w)"
  by (simp add: denied_stage_def Let_def leave_goods)

lemma suppressed_good: "working w \<Longrightarrow> good_end (suppressed_stage pe r d w)"
  by (auto simp: suppressed_stage_def Let_def intro!: leave_goods)

lemma propose_quiet: "working w \<Longrightarrow> propose_once pe r w = (x, w') \<Longrightarrow> working w'"
  by (auto simp: propose_once_def Let_def split: prod.splits option.splits if_splits)

lemma pr_good:
  assumes "working w"
  shows "good_end (pr_stage pe r w)"
proof -
  obtain x w1 where p: "propose_once pe r w = (x, w1)" by (cases "propose_once pe r w")
  have w1: "working w1" using propose_quiet [OF assms p] .
  show ?thesis
  proof (cases x)
    case None
    then show ?thesis using w1 by (simp add: pr_stage_def p good_end_def working_def)
  next
    case (Some f)
    note leave = quiet_leave [OF quiet_say, of _ PrOpen, simplified] quiet_leave [OF quiet_say, of _ Failed, simplified]
    show ?thesis using w1 by (simp add: pr_stage_def p Some Let_def leave)
  qed
qed

lemma and_then_assoc: "and_then (and_then f g) h = and_then f (and_then g h)"
  by (rule ext) (simp add: and_then_def split: prod.split option.split)

lemma publish_good:
  assumes "working w"
  shows "good_end (publish_stage pe r w)"
proof (cases "poisoned_step r")
  case (Some e)
  then show ?thesis using assms by (simp add: publish_stage_def Let_def deadLetter_good)
next
  case None
  have "good_end (and_then (close_issue pe k) (and_then (step_to ''complete'' c) (pure_step close_books)) v)" if "working v" for k c v
    using quiet_leave [OF quiet_close that, of Complete] by simp
  then show ?thesis
    using None assms
    by (auto simp: publish_stage_def Let_def and_then_assoc intro!: quiet_then [OF quiet_say] leave_goods)
qed

lemma deliver_good:
  assumes "working w"
  shows "good_end (deliver_stage pe r w)"
  using assms
  by (auto simp: deliver_stage_def record_run_def Let_def intro!: askApproval_good denied_good suppressed_good pr_good publish_good)

lemma settle_good:
  assumes "working w" and "kept_file w" and "sound_park r"
  shows "good_end (settle_stage pe r w)"
  using assms by (auto simp: settle_stage_def sound_park_def intro!: drained_good parked_good deliver_good split: option.split)

lemma write_back_working:
  "working w \<Longrightarrow> working (write_back pe saved w)" "kept_file w \<Longrightarrow> kept_file (write_back pe saved w)"
  by (induction saved arbitrary: w) (auto simp: write_back_def)

lemma after_run_working:
  "working w \<Longrightarrow> working (after_run pe x w)" "kept_file w \<Longrightarrow> kept_file (after_run pe x w)"
  by (simp_all add: after_run_def Let_def write_back_working)

lemma sound_no_outcome [simp]: "sound_park (no_outcome ts b)"
  by (simp add: sound_park_def no_outcome_def)

lemma parked_outcome_reason: "pr_reason (parked_outcome ps) \<in> {''approval'', ''quota'', ''provider''}"
  by (simp add: parked_outcome_def Let_def split: prod.split)

lemma sound_settle:
  assumes "settle_round env task p planned fs tasks w = (Some r, w')"
  shows "sound_park r"
  using assms parked_outcome_reason [of "parked_steps tasks"]
  by (auto simp: settle_round_def Let_def sound_park_def no_outcome_def split: prod.splits if_splits)

lemma sound_rounds: "rounds n env task planned w = Some (r, w') \<Longrightarrow> sound_park r"
proof (induction n arbitrary: w)
  case (Suc n)
  then show ?case by (auto simp: Let_def split: option.splits prod.splits dest: sound_settle)
qed simp

lemma PARKABLE_reason: "PARKABLE cls = Some x \<Longrightarrow> x \<in> {''quota'', ''provider''}"
  by (auto simp: PARKABLE_def split: if_splits)

lemma sound_plan_parked: "plan_parked e n = Some p \<Longrightarrow> pr_reason p \<in> {''quota'', ''provider''}"
  by (auto simp: plan_parked_def parkFor_def Let_def split: option.splits dest!: PARKABLE_reason)

lemma run_returns: "runOrchestration env planner task cp \<noteq> None"
proof -
  have fuel: "oe_maxRemediations env - k < oe_maxRemediations env + 1" for k by simp
  have ret: "rounds (oe_maxRemediations env + 1) env task b w \<noteq> None" if "kp_plan (ow_cp w) \<noteq> None" for b w
    using rounds_return [OF that fuel, of task b] by auto
  show ?thesis
    using ret by (auto simp del: rounds.simps simp: runOrchestration_def Let_def plan_usage_def split: option.splits sum.splits)
qed

lemma run_sound:
  assumes "runOrchestration env planner task cp = Some (Inr (r, x))"
  shows "sound_park r"
proof (cases "kp_plan cp")
  case (Some p)
  then show ?thesis using assms by (auto simp: runOrchestration_def Let_def simp del: rounds.simps dest: sound_rounds)
next
  case None
  then show ?thesis
    using assms
    by (auto simp: runOrchestration_def Let_def sound_park_def no_outcome_def simp del: rounds.simps split: sum.splits option.splits dest!: sound_rounds sound_plan_parked)
qed

lemma run_good:
  assumes "working w" and "kept_file w"
  shows "good_end (run_stage pe w)"
proof -
  obtain y where y: "runOrchestration (run_env pe (rw_task w) (rw_base w)) (pe_planner pe (rw_task w)) (orch_task_of (rw_task w)) (pc_orch (rw_cp w)) = Some y"
    using run_returns by (meson not_None_eq)
  show ?thesis
  proof (cases y)
    case (Inl e)
    then show ?thesis using assms by (simp add: run_stage_def y crashed_good)
  next
    case (Inr z)
    obtain r x where z: "z = (r, x)" by (cases z)
    have "sound_park r" using run_sound y Inr z by blast
    then show ?thesis using assms Inr z by (simp add: run_stage_def y settle_good after_run_working)
  qed
qed

lemma gate_working: "working w \<Longrightarrow> working (gate_stage pe w)" "pc_gate (rw_cp (gate_stage pe w)) \<noteq> None"
  "kept_file w \<or> pc_gate (rw_cp w) = None \<Longrightarrow> kept_file (gate_stage pe w)"
  by (auto simp: gate_stage_def Let_def persist_run_def stamped_cp_def record_note_def working_def kept_file_def split: option.split)

lemma body_good:
  assumes "working w" and "kept_file w \<or> pc_gate (rw_cp w) = None"
  shows "good_end (body_stage pe w)"
proof -
  note g = gate_working(1) [OF assms(1), of pe] gate_working(3) [OF assms(2), of pe]
  show ?thesis
    using assms(1) g
    by (auto simp: body_stage_def over_task_budget_def Let_def intro!: deadLetter_good blocked_good run_good split: option.split)
qed

lemma wf_runId [simp]: "wf_task (t\<lparr>t_runId := x\<rparr>) = wf_task t"
  by (simp add: wf_task_def)

lemma start_working:
  assumes "et_status t = Running" and "wf_task (et_core t)"
  shows "working (begin_run pe t h files leases runs)"
    and "kept_file (begin_run pe t h files leases runs) \<or> pc_gate (rw_cp (begin_run pe t h files leases runs)) = None"
  using assms
  by (cases "files (safeName (et_id t))"; simp add: begin_run_def Let_def working_def kept_file_def on_core_def new_pulse_cp_def)+

lemma processTask_good: "et_status t = Running \<Longrightarrow> wf_task (et_core t) \<Longrightarrow> good_end (processTask pe t h files leases runs)"
  unfolding processTask_def by (intro body_good start_working)

end
