(* ===== verification/Task_Delivery.thy ===== *)
theory Task_Delivery
  imports Task_Run
begin

text \<open>
  What a run of the pulse's task handler can cause outside: an invariant of the handler's elementary updates is
  an invariant of the handler (\<open>run_invariant\<close>), and three instances of it. A run under safe mode or dry-run
  autonomy says nothing on GitHub; a run touches the checkpoint and the lease of no other task; and only a run
  that was verified completes its task, and only one whose delivery is allowed closes the issue.
\<close>

section \<open>Invariants of the handler\<close>

definition run_result :: "proc_env \<Rightarrow> run_world \<Rightarrow> (err + run_outcome \<times> orch) option" where
  "run_result pe w =
    runOrchestration (run_env pe (rw_task w) (rw_base w)) (pe_planner pe (rw_task w)) (orch_task_of (rw_task w)) (pc_orch (rw_cp w))"

text \<open>\<open>okay\<close> says whether the run may complete the task, \<open>permitted\<close> whether it may close the issue.\<close>

locale run_invariant =
  fixes I :: "run_world \<Rightarrow> bool" and pe :: proc_env and okay :: bool and permitted :: bool
  assumes I_note: "I w \<Longrightarrow> (case nt of NMoved _ \<Rightarrow> False | _ \<Rightarrow> True) \<Longrightarrow> I (record_note nt w)"
    and I_cp: "I w \<Longrightarrow> I (w\<lparr>rw_cp := pcp\<rparr>)"
    and I_seen: "I w \<Longrightarrow> I (w\<lparr>rw_seen := sn\<rparr>)"
    and I_persist: "I w \<Longrightarrow> I (persist_run pe w)"
    and I_record: "I w \<Longrightarrow> I (write_record i j w)"
    and I_drop: "I w \<Longrightarrow> I (drop_file w)"
    and I_task: "I w \<Longrightarrow> et_id t = et_id (rw_task w) \<Longrightarrow> et_status t = et_status (rw_task w) \<Longrightarrow>
      t_dependsOn (et_core t) = t_dependsOn (et_core (rw_task w)) \<Longrightarrow> I (w\<lparr>rw_task := t\<rparr>)"
    and I_step: "I w \<Longrightarrow> canTransition (et_status (rw_task w)) s \<Longrightarrow> (s = Complete \<Longrightarrow> okay) \<Longrightarrow>
      I (record_note (NMoved (move_event s c (rw_task w))) (w\<lparr>rw_task := moved_to s c (rw_task w)\<rparr>))"
    and I_comment: "I w \<Longrightarrow> comment (Iso (pe_now pe)) (pe_listFails pe k) (pe_fate pe k) num k b (rw_fx w, rw_hub w) = (x, f, h) \<Longrightarrow>
      I (w\<lparr>rw_fx := f, rw_hub := h\<rparr>)"
    and I_close: "I w \<Longrightarrow> permitted \<Longrightarrow> closeIssue (Iso (pe_now pe)) (pe_fate pe k) num k (rw_fx w, rw_hub w) = (x, f, h) \<Longrightarrow>
      I (w\<lparr>rw_fx := f, rw_hub := h\<rparr>)"
    and I_once: "I w \<Longrightarrow> once (Iso (pe_now pe)) k (pe_propose pe t y) (rw_fx w, rw_hub w) = (z, f, h) \<Longrightarrow>
      I (w\<lparr>rw_fx := f, rw_hub := h\<rparr>)"
begin

definition keeps :: "handler \<Rightarrow> bool" where
  "keeps f = (\<forall>w. I w \<longrightarrow> I (snd (f w)))"

lemma keepsD: "keeps f \<Longrightarrow> I w \<Longrightarrow> I (snd (f w))"
  by (simp add: keeps_def)

lemma keeps_then: "keeps f \<Longrightarrow> keeps g \<Longrightarrow> keeps (and_then f g)"
  by (auto simp: keeps_def and_then_def split: prod.split option.split)

lemma keeps_say: "keeps (say pe k b)"
  by (auto simp: keeps_def say_def Let_def intro: I_comment I_persist split: prod.split option.split)

lemma keeps_close: "permitted \<Longrightarrow> keeps (close_issue pe k)"
  by (auto simp: keeps_def close_issue_def Let_def intro: I_close I_persist split: prod.split option.split)

lemma keeps_step:
  assumes "to = ''complete'' \<Longrightarrow> okay"
  shows "keeps (step_to to c)"
proof -
  have "I (snd (step_to to c w))" if "I w" for w
  proof (cases "move (rw_task w) to c")
    case (Inl e)
    then show ?thesis using that by (simp add: step_to_def)
  next
    case (Inr te)
    from Inr obtain k e where k: "transition (et_core (rw_task w)) to c = Inr (k, e)" "te = ((rw_task w)\<lparr>et_core := k\<rparr>, e)"
      by (auto simp: move_def res_bind_eq_Inr)
    from k(1) obtain s where s: "status_of to = Some s" "canTransition (et_status (rw_task w)) s" "k = transition_body (et_core (rw_task w)) s c"
      "e = transition_event (et_status (rw_task w)) s c k" by (auto elim: transition_InrD)
    have "to = ''complete''" if "s = Complete"
      using s(1) that by (auto simp: status_of_def TASK_STATUSES_def split: if_splits)
    then have "I (record_note (NMoved (move_event s c (rw_task w))) (w\<lparr>rw_task := moved_to s c (rw_task w)\<rparr>))"
      using I_step [OF that s(2)] assms by blast
    then show ?thesis using Inr k(2) s(3,4) by (simp add: step_to_def moved_to_def on_core_def move_event_def)
  qed
  then show ?thesis by (simp add: keeps_def)
qed

lemma I_on_task: "I w \<Longrightarrow> (\<And>t. et_core (f t) = et_core t) \<Longrightarrow> I (on_task f w)"
  by (simp add: on_task_def I_task)

lemma I_books: "I w \<Longrightarrow> I (close_books w)"
  by (simp add: close_books_def on_task_def I_drop I_task set_usage_def)

lemma keeps_books: "keeps (pure_step close_books)" "keeps (pure_step drop_file)"
  by (simp_all add: keeps_def pure_step_def I_books I_drop)

lemmas keeps_rules = keeps_then keeps_say keeps_step keeps_books

lemma keeps_deadLetter: "keeps (deadLetter pe code cls m note)"
  unfolding keeps_def deadLetter_def by (auto intro!: keepsD [OF keeps_then] keeps_rules)

lemma keeps_ask: "keeps (askApproval pe key what)"
  unfolding keeps_def askApproval_def by (auto intro!: keepsD [OF keeps_then] keeps_rules)

lemma I_drained: "I w \<Longrightarrow> I (snd (drained_stage pe w))"
  unfolding drained_stage_def Let_def over_task_budget_def
  by (auto intro!: keepsD [OF keeps_then] keeps_rules I_on_task keepsD [OF keeps_deadLetter] keepsD [OF keeps_step] I_persist split: option.split)

lemma I_parked: "I w \<Longrightarrow> I (snd (parked_stage pe p w))"
  by (auto simp: parked_stage_def Let_def
      intro!: keepsD [OF keeps_ask] keepsD [OF keeps_deadLetter] keepsD [OF keeps_step] I_persist I_on_task)

lemma I_suppressed: "I w \<Longrightarrow> (oc_ok r \<Longrightarrow> okay) \<Longrightarrow> I (snd (suppressed_stage pe r d w))"
  by (auto simp: suppressed_stage_def Let_def intro!: keepsD [OF keeps_then] keeps_rules I_note)

lemma I_denied: "I w \<Longrightarrow> I (snd (denied_stage pe d w))"
  by (auto simp: denied_stage_def Let_def intro!: keepsD [OF keeps_then] keeps_rules I_note)

lemma I_propose:
  assumes "I w"
  shows "I (snd (propose_once pe r w))"
  using assms by (auto simp: propose_once_def Let_def intro!: I_persist I_once split: option.split prod.split)

lemma I_pr:
  assumes "I w"
  shows "I (snd (pr_stage pe r w))"
proof -
  obtain x w1 where p: "propose_once pe r w = (x, w1)" by (cases "propose_once pe r w")
  have "I w1" using I_propose [OF assms, of r] by (simp add: p)
  then show ?thesis
    by (auto simp: pr_stage_def p Let_def intro!: keepsD [OF keeps_then] keeps_rules I_on_task split: option.split)
qed

lemma I_publish: "I w \<Longrightarrow> (oc_ok r \<Longrightarrow> okay \<and> permitted) \<Longrightarrow> I (snd (publish_stage pe r w))"
  by (auto simp: publish_stage_def Let_def intro!: keepsD [OF keeps_deadLetter] keepsD [OF keeps_then] keeps_rules keeps_close split: option.split)

lemma I_settle:
  assumes "I w" and "oc_ok r \<Longrightarrow> okay" and "oc_ok r \<Longrightarrow> dc_decision (delivery_decision pe w) = Allow \<Longrightarrow> permitted"
  shows "I (snd (settle_stage pe r w))"
proof -
  have d: "delivery_decision pe (record_run pe r w) = delivery_decision pe w"
    by (simp add: delivery_decision_def delivery_action_def record_run_def write_record_def)
  have ok: "dc_decision (delivery_decision pe w) = Allow" if "dc_decision (delivery_decision pe w) \<noteq> Approve" "dc_decision (delivery_decision pe w) \<noteq> Deny"
    using that by (cases "dc_decision (delivery_decision pe w)") auto
  have rec: "I (record_run pe r w)" by (simp add: record_run_def I_record assms(1))
  then have "I (snd (deliver_stage pe r w))"
    using assms(2,3) ok
    by (auto simp: deliver_stage_def d Let_def intro!: keepsD [OF keeps_ask] I_persist I_denied I_suppressed I_pr I_publish I_note I_cp)
  then show ?thesis using assms(1) by (auto simp: settle_stage_def I_drained I_parked split: option.split)
qed

lemma I_write_back: "I w \<Longrightarrow> I (write_back pe saved w)"
  by (induction saved arbitrary: w) (auto simp: write_back_def intro!: I_persist I_cp)

lemma I_after_run: "I w \<Longrightarrow> I (after_run pe x w)"
  by (simp add: after_run_def Let_def I_cp I_seen I_write_back)

lemma I_crashed: "I w \<Longrightarrow> I (snd (crashed_stage pe m w))"
  by (auto simp: crashed_stage_def Let_def intro!: keepsD [OF keeps_then] keeps_rules)

lemma I_blocked: "I w \<Longrightarrow> I (snd (blocked_stage pe g w))"
  by (auto simp: blocked_stage_def Let_def intro!: keepsD [OF keeps_then] keeps_rules)

lemma I_gate: "I w \<Longrightarrow> I (gate_stage pe w)"
  by (auto simp: gate_stage_def Let_def intro!: I_persist I_note I_cp split: option.split)

text \<open>The invariant of a whole run, when its outcome says what the two flags claim.\<close>

lemma I_body:
  assumes "I w"
    and "\<And>r x. run_result pe (gate_stage pe w) = Some (Inr (r, x)) \<Longrightarrow> oc_ok r \<Longrightarrow> okay"
    and "\<And>r x. run_result pe (gate_stage pe w) = Some (Inr (r, x)) \<Longrightarrow> oc_ok r \<Longrightarrow>
      dc_decision (delivery_decision pe (after_run pe x (gate_stage pe w))) = Allow \<Longrightarrow> permitted"
  shows "I (snd (body_stage pe w))"
proof -
  let ?w = "gate_stage pe w"
  have g: "I ?w" using assms(1) by (rule I_gate)
  have "I (snd (run_stage pe ?w))"
    using g assms(2,3)
    by (auto simp: run_stage_def run_result_def intro!: I_crashed I_settle I_after_run split: option.split sum.split)
  then show ?thesis
    using g assms(1) by (auto simp: body_stage_def over_task_budget_def Let_def I_blocked keepsD [OF keeps_deadLetter] split: option.split)
qed

end

section \<open>A suppressed run is silent\<close>

definition silent :: "hub \<Rightarrow> run_world \<Rightarrow> bool" where
  "silent h w = (rw_hub w = h \<and> se_suppressed (rw_fx w) \<noteq> None)"

lemma suppressed_ledger:
  "comment now lf f i k b (s, h) = (x, s', h') \<Longrightarrow> se_suppressed s = Some y \<Longrightarrow> h' = h \<and> se_suppressed s' = Some y"
  "closeIssue now f i k (s, h) = (x, s', h') \<Longrightarrow> se_suppressed s = Some y \<Longrightarrow> h' = h \<and> se_suppressed s' = Some y"
  "once now k fn (s, h) = (z, s', h') \<Longrightarrow> se_suppressed s = Some y \<Longrightarrow> h' = h \<and> se_suppressed s' = Some y"
  by (auto simp: comment_def closeIssue_def once_def suppress_def skip_one_def log_event_def split: if_splits option.splits)

interpretation quiet_run: run_invariant "silent h" pe True True for h pe
  by unfold_locales
    (auto simp: silent_def record_note_def persist_run_def write_record_def drop_file_def dest: suppressed_ledger)

section \<open>A run touches only its own task\<close>

definition stays_in :: "string \<Rightarrow> (string \<Rightarrow> pulse_cp option) \<Rightarrow> lease_dir \<Rightarrow> run_world \<Rightarrow> bool" where
  "stays_in i files d w = (et_id (rw_task w) = i \<and> (\<forall>f. f \<noteq> safeName i \<longrightarrow> rw_files w f = files f) \<and>
     (\<forall>p. p \<noteq> pathFor i \<longrightarrow> ld_files (rw_leases w) p = ld_files d p))"

interpretation own_run: run_invariant "stays_in i files d" pe True True for i files d pe
  by unfold_locales (auto simp: stays_in_def record_note_def persist_run_def write_record_def drop_file_def renew_frame)

section \<open>Done means verified, closed means allowed\<close>

definition open_status :: "run_world \<Rightarrow> bool" where
  "open_status w = (et_status (rw_task w) \<noteq> Complete)"

interpretation verified_run: run_invariant open_status pe False True for pe
  by unfold_locales (auto simp: open_status_def record_note_def persist_run_def write_record_def drop_file_def)

definition same_closed :: "nat list \<Rightarrow> run_world \<Rightarrow> bool" where
  "same_closed c w = (hub_closed (rw_hub w) = c)"

definition keeps_issues_open :: "proc_env \<Rightarrow> bool" where
  "keeps_issues_open pe = (\<forall>t y h. hub_closed (snd (pe_propose pe t y h)) = hub_closed h)"

lemma comment_closed: "comment now lf f i k b (s, h) = (x, s', h') \<Longrightarrow> hub_closed h' = hub_closed h"
  by (auto simp: comment_def commentOnIssue_def split: if_splits option.splits fate.splits)

lemma once_closed:
  assumes "keeps_issues_open pe" and "once now k (pe_propose pe t y) (s, h) = (z, s', h')"
  shows "hub_closed h' = hub_closed h"
proof -
  have "hub_closed (snd (pe_propose pe t y h)) = hub_closed h" using assms(1) by (simp add: keeps_issues_open_def)
  then show ?thesis using assms(2) by (auto simp: once_def split: if_splits option.splits prod.splits)
qed

text \<open>With the law of the pull-request flow made part of the invariant, the instance holds for every environment.\<close>

definition held_open :: "proc_env \<Rightarrow> nat list \<Rightarrow> run_world \<Rightarrow> bool" where
  "held_open pe c w = (keeps_issues_open pe \<longrightarrow> same_closed c w)"

interpretation closing_run: run_invariant "held_open pe c" pe True False for pe c
  by unfold_locales
    (auto simp: held_open_def same_closed_def record_note_def persist_run_def write_record_def drop_file_def
      dest: comment_closed once_closed)

section \<open>The properties of a run\<close>

lemma begin_run_simps [simp]:
  "rw_hub (begin_run pe t h files d runs) = h" "rw_files (begin_run pe t h files d runs) = files"
  "rw_leases (begin_run pe t h files d runs) = d" "et_id (rw_task (begin_run pe t h files d runs)) = et_id t"
  "et_status (rw_task (begin_run pe t h files d runs)) = et_status t"
  "se_suppressed (rw_fx (begin_run pe t h files d runs)) = suppressed_by pe t"
  by (simp_all add: begin_run_def Let_def on_core_def new_effects_def)

lemma run_id: "et_id (rw_task (snd (processTask pe t h files d runs))) = et_id t"
proof -
  have "stays_in (et_id t) files d (begin_run pe t h files d runs)" by (simp add: stays_in_def)
  from own_run.I_body [OF this] show ?thesis by (simp add: processTask_def stays_in_def)
qed


text \<open>C8. Under safe mode or dry-run autonomy a run says nothing outside: GitHub is afterwards exactly as it was, on
  every path of the handler, whether the run is delivered, parked, blocked, crashed or dead-lettered.\<close>

theorem suppressed_run_is_silent:
  assumes "ct_safeMode (pe_control pe) \<or> effectiveAutonomy (ct_autonomy (pe_control pe)) (et_autonomy t) = DryRun"
  shows "rw_hub (snd (processTask pe t h files d runs)) = h"
proof -
  have "silent h (begin_run pe t h files d runs)" using assms by (auto simp: silent_def suppressed_by_def)
  from quiet_run.I_body [OF this] show ?thesis by (simp add: processTask_def silent_def)
qed

text \<open>A run reads and writes under its own task's name only: the checkpoint files and the lease files of every
  other name are untouched, so two tasks of one pulse cannot disturb each other's durable state.\<close>

theorem task_run_stays_in_its_files:
  "(\<forall>f. f = safeName (et_id t) \<or> rw_files (snd (processTask pe t h files d runs)) f = files f) \<and>
   (\<forall>p. p = pathFor (et_id t) \<or> ld_files (rw_leases (snd (processTask pe t h files d runs))) p = ld_files d p)"
proof -
  have "stays_in (et_id t) files d (begin_run pe t h files d runs)" by (simp add: stays_in_def)
  from own_run.I_body [OF this] show ?thesis by (auto simp: processTask_def stays_in_def)
qed

text \<open>The world in which the run of a task starts: after its gate.\<close>

definition gated_start :: "proc_env \<Rightarrow> etask \<Rightarrow> hub \<Rightarrow> (string \<Rightarrow> pulse_cp option) \<Rightarrow> lease_dir \<Rightarrow> (string \<times> js) list \<Rightarrow> run_world" where
  "gated_start pe t h files d runs = gate_stage pe (begin_run pe t h files d runs)"

definition run_passed :: "proc_env \<Rightarrow> run_world \<Rightarrow> run_outcome \<Rightarrow> orch \<Rightarrow> bool" where
  "run_passed pe w r x =
    (run_result pe w = Some (Inr (r, x)) \<and> oc_ok r \<and> (case oc_verification r of None \<Rightarrow> False | Some kv \<Rightarrow> kv_pass kv) \<and>
     (\<not> unpassed (pc_orch (rw_cp w)) \<or> verified_end (run_env pe (rw_task w) (rw_base w)) r x))"

lemma ok_passed: "run_result pe w = Some (Inr (r, x)) \<Longrightarrow> oc_ok r \<Longrightarrow> run_passed pe w r x"
  by (auto simp: run_passed_def run_result_def dest: ok_run_passed ok_run_verified)

text \<open>C2. Done means verified, and closed means allowed: if a run leaves its task complete, its orchestration was ok
  with a passed verdict, over a deliverable that passed every deterministic check when the checkpoint it started
  from held no verdict; and if it closes the issue (the pull-request flow closes none), the policy allowed the
  delivery besides.\<close>

theorem done_means_verified:
  assumes "et_status t = Running" and "keeps_issues_open pe"
    and "processTask pe t h files d runs = (e, w)"
  shows "(et_status (rw_task w) = Complete \<longrightarrow> (\<exists>r x. run_passed pe (gated_start pe t h files d runs) r x)) \<and>
    (hub_closed (rw_hub w) \<noteq> hub_closed h \<longrightarrow>
      (\<exists>r x. run_passed pe (gated_start pe t h files d runs) r x \<and>
        dc_decision (delivery_decision pe (after_run pe x (gated_start pe t h files d runs))) = Allow))"
proof -
  let ?w = "begin_run pe t h files d runs"
  have w: "w = snd (body_stage pe ?w)" using assms(3) by (simp add: processTask_def)
  have "open_status ?w" using assms(1) by (simp add: open_status_def)
  from verified_run.I_body [OF this, of pe] have c: "et_status (rw_task w) = Complete \<Longrightarrow> \<exists>r x. run_passed pe (gate_stage pe ?w) r x"
    unfolding w open_status_def using ok_passed by blast
  have "held_open pe (hub_closed h) ?w" by (simp add: held_open_def same_closed_def)
  from closing_run.I_body [OF this] assms(2)
  have "hub_closed (rw_hub w) \<noteq> hub_closed h \<Longrightarrow>
      \<exists>r x. run_passed pe (gate_stage pe ?w) r x \<and> dc_decision (delivery_decision pe (after_run pe x (gate_stage pe ?w))) = Allow"
    unfolding w held_open_def same_closed_def using ok_passed by blast
  with c show ?thesis by (simp add: gated_start_def)
qed

end
