(* ===== verification/Task_Done.thy ===== *)
theory Task_Done
  imports Task_Delivery
begin

text \<open>
  The good path of the pulse's task handler: a verified run whose delivery is allowed ends with its task complete
  and its issue closed, when GitHub takes its calls. A concrete task that an earlier pulse verified but did not
  deliver is run through the handler, and serves as the instance of the handler's properties.
\<close>

section \<open>A verified run is delivered\<close>

definition calm_network :: "proc_env \<Rightarrow> bool" where
  "calm_network pe = (\<forall>k. pe_fate pe k = Landed)"

lemma say_calm: "calm_network pe \<Longrightarrow> fst (say pe k b w) = None"
  by (auto simp: calm_network_def say_def comment_def commentOnIssue_def Let_def split: option.split prod.split)

lemma close_calm: "calm_network pe \<Longrightarrow> fst (close_issue pe k w) = None"
  by (auto simp: calm_network_def close_issue_def closeIssue_def hub_closeIssue_def Let_def split: option.split prod.split)

text \<open>The number of a task, and its ledger's permission to write, are invariants too.\<close>

definition loud_on :: "nat \<Rightarrow> string \<Rightarrow> run_world \<Rightarrow> bool" where
  "loud_on i k w = (et_issueNumber (rw_task w) = i \<and> se_suppressed (rw_fx w) = None \<and> \<not> has_key k (rw_fx w))"

lemma loud_simps [simp]:
  "loud_on i ck (record_note n w) = loud_on i ck w" "loud_on i ck (write_record a j w) = loud_on i ck w"
  "loud_on i ck (w\<lparr>rw_cp := c\<rparr>) = loud_on i ck w" "loud_on i ck (w\<lparr>rw_seen := s\<rparr>) = loud_on i ck w" "loud_on i ck (persist_run pe w) = loud_on i ck w"
  by (simp_all add: loud_on_def record_note_def write_record_def persist_run_def)

lemma assoc_put_key: "(j, b) \<in> set (assoc_put k v xs) \<Longrightarrow> j = k \<or> j \<in> fst ` set xs"
proof (induction xs)
  case (Cons y ys)
  then show ?case by (cases y) (force split: if_splits)
qed simp

lemma ledger_frame:
  "comment now lf f i k b (s, h) = (x, s', h') \<Longrightarrow> se_suppressed s' = se_suppressed s \<and> (has_key j s' \<longrightarrow> j = k \<or> has_key j s)"
  by (auto simp: comment_def suppress_def skip_one_def log_event_def fired_one_def record_key_def has_key_def
      split: if_splits option.splits prod.splits dest: assoc_put_key)

lemma loud_say: "say pe k b w = (r, w') \<Longrightarrow> loud_on i ck w \<Longrightarrow> k \<noteq> ck \<Longrightarrow> loud_on i ck w'"
  by (auto simp: say_def Let_def loud_on_def persist_run_def split: option.splits prod.splits if_splits dest: ledger_frame [of _ _ _ _ _ _ _ _ _ _ _ ck])

lemma close_calm_closes:
  assumes "calm_network pe" and "loud_on i k w" and "i \<noteq> 0"
    and "close_issue pe k w = (r, w')"
  shows "i \<in> set (hub_closed (rw_hub w'))"
  using assms
  by (auto simp: calm_network_def loud_on_def close_issue_def closeIssue_def hub_closeIssue_def persist_run_def Let_def split: option.split prod.split)

lemma loud_write_back: "loud_on i ck w \<Longrightarrow> loud_on i ck (write_back pe saved w)"
  by (induction saved arbitrary: w) (auto simp: write_back_def)

lemma allowed_is_loud:
  assumes "dc_decision (delivery_decision pe w) = Allow"
  shows "suppressed_by pe (rw_task w) = None"
proof -
  have "effect_of (delivery_action w) = External" by (simp add: effect_of_def delivery_action_def)
  then show ?thesis
    using assms
    by (auto simp: suppressed_by_def delivery_decision_def decide_def policy_task_def Let_def split: if_splits)
qed


lemma settle_plain:
  "settle_round env task p planned fs tasks w = (Some oc, w') \<Longrightarrow> oc_ok oc \<Longrightarrow> \<not> oc_drained oc \<and> oc_parked oc = None"
  by (auto simp: settle_round_def Let_def no_outcome_def split: prod.splits if_splits)

lemma rounds_plain: "rounds n env task planned w = Some (oc, w') \<Longrightarrow> oc_ok oc \<Longrightarrow> \<not> oc_drained oc \<and> oc_parked oc = None"
proof (induction n arbitrary: w)
  case (Suc n)
  then show ?case by (auto simp: Let_def split: option.splits prod.splits dest: settle_plain)
qed simp

lemma ok_run_plain: "runOrchestration env planner task cp = Some (Inr (oc, w)) \<Longrightarrow> oc_ok oc \<Longrightarrow> \<not> oc_drained oc \<and> oc_parked oc = None"
  by (auto simp: runOrchestration_def Let_def no_outcome_def simp del: rounds.simps split: option.splits sum.splits dest!: rounds_plain)

lemma quiet_None: "quiet f \<Longrightarrow> working w \<Longrightarrow> f w = (e, w') \<Longrightarrow> working w'"
  by (auto simp: quiet_def dest!: spec [of _ w])

lemma publish_completes:
  assumes "working w" and "calm_network pe" and "oc_ok r" and "loud_on i (''close:'' @ pc_runId (rw_cp w)) w" and "i \<noteq> 0"
  shows "\<exists>w'. publish_stage pe r w = (None, w') \<and> et_status (rw_task w') = Complete \<and> i \<in> set (hub_closed (rw_hub w'))"
proof -
  let ?done = "say pe (''done:'' @ pc_runId (rw_cp w)) (issueCommentFor r)" and ?k = "''close:'' @ pc_runId (rw_cp w)"
  let ?c = "why_ctx (pe_now pe) (done_reason r)"
  obtain w1 where w1: "?done w = (None, w1)" using say_calm [OF assms(2)] by (metis eq_fst_iff)
  have 1: "working w1" "loud_on i ?k w1"
    using quiet_None [OF quiet_say assms(1) w1] loud_say [OF w1 assms(4)] by simp_all
  obtain w2 where w2: "close_issue pe ?k w1 = (None, w2)" using close_calm [OF assms(2)] by (metis eq_fst_iff)
  have 2: "working w2" "i \<in> set (hub_closed (rw_hub w2))"
    using quiet_None [OF quiet_close 1(1) w2] close_calm_closes [OF assms(2) 1(2) assms(5) w2] by simp_all
  have 3: "step_to ''complete'' ?c w2 = (None, record_note (NMoved (move_event Complete ?c (rw_task w2))) (w2\<lparr>rw_task := moved_to Complete ?c (rw_task w2)\<rparr>))"
    using step_to_named [of w2 Complete ?c] 2(1) by (simp add: working_def canTransition_table)
  have none: "poisoned_step r = None" using assms(3) by (auto simp: poisoned_step_def split: option.split)
  have "publish_stage pe r w = pure_step close_books (snd (step_to ''complete'' ?c w2))"
    unfolding publish_stage_def Let_def none using assms(3) w1 w2 3 by (simp add: and_then_def)
  then show ?thesis using 2(2) by (simp add: 3 pure_step_def close_books_def drop_file_def on_task_def record_note_def)
qed


lemma write_back_runId: "pc_runId (rw_cp (write_back pe saved w)) = pc_runId (rw_cp w)"
  by (induction saved arbitrary: w) (auto simp: write_back_def persist_run_def stamped_cp_def)

lemma after_run_frame:
  "loud_on i k w \<Longrightarrow> loud_on i k (after_run pe x w)" "pc_runId (rw_cp (after_run pe x w)) = pc_runId (rw_cp w)"
  by (simp_all add: after_run_def Let_def loud_write_back write_back_runId)

lemma gate_frame:
  "loud_on i k w \<Longrightarrow> loud_on i k (gate_stage pe w)" "pc_runId (rw_cp (gate_stage pe w)) = pc_runId (rw_cp w)"
  by (auto simp: gate_stage_def Let_def persist_run_def stamped_cp_def record_note_def loud_on_def split: option.split)

definition same_terms :: "etask \<Rightarrow> etask \<Rightarrow> bool" where
  "same_terms t u = (et_type u = et_type t \<and> et_autonomy u = et_autonomy t \<and> et_approvals u = et_approvals t \<and> et_id u = et_id t)"

lemma persist_terms [simp]: "same_terms t (rw_task (persist_run pe w)) = same_terms t (rw_task w)"
  by (simp add: persist_run_def same_terms_def set_usage_def)

lemma write_back_terms: "same_terms t (rw_task (write_back pe saved w)) = same_terms t (rw_task w)"
proof (induction saved arbitrary: w)
  case (Cons q qs)
  then show ?case by (cases q) (simp add: write_back_def)
qed (simp add: write_back_def)

lemma run_terms: "same_terms t (rw_task (after_run pe x (gate_stage pe (begin_run pe t h files d runs))))"
proof -
  have "same_terms t (rw_task (begin_run pe t h files d runs))" by (simp add: same_terms_def begin_run_def Let_def on_core_def)
  then have "same_terms t (rw_task (gate_stage pe (begin_run pe t h files d runs)))"
    by (auto simp: gate_stage_def Let_def persist_run_def record_note_def same_terms_def set_usage_def split: option.split)
  then show ?thesis by (simp add: after_run_def Let_def write_back_terms)
qed

text \<open>The ledger of a new run: nothing under its keys unless the checkpoint says so.\<close>

lemma begin_loud:
  "suppressed_by pe t = None \<Longrightarrow> (case files (safeName (et_id t)) of None \<Rightarrow> True | Some cp \<Rightarrow> k \<notin> fst ` set (pc_sideEffects cp)) \<Longrightarrow>
   loud_on (et_issueNumber t) k (begin_run pe t h files d runs)"
  by (auto simp: loud_on_def begin_run_def Let_def on_core_def new_effects_def has_key_def new_pulse_cp_def split: option.splits)

definition close_key :: "run_world \<Rightarrow> string" where
  "close_key w = ''close:'' @ pc_runId (rw_cp w)"

lemma run_completes:
  assumes "et_status t = Running" and "wf_task (et_core t)" and "et_type t \<noteq> ''self-improve''" and "calm_network pe"
    and "overBudget (pe_limits pe) (usage_now (begin_run pe t h files d runs)) = None"
    and "pc_gate (rw_cp (gated_start pe t h files d runs)) = Some g" and "gv_verdict g \<noteq> ''block''"
    and "run_passed pe (gated_start pe t h files d runs) r x"
    and "dc_decision (delivery_decision pe (after_run pe x (gated_start pe t h files d runs))) = Allow"
    and "et_issueNumber t \<noteq> 0"
    and "case files (safeName (et_id t)) of None \<Rightarrow> True
         | Some cp \<Rightarrow> close_key (begin_run pe t h files d runs) \<notin> fst ` set (pc_sideEffects cp)"
  shows "\<exists>w. processTask pe t h files d runs = (None, w) \<and> et_status (rw_task w) = Complete \<and>
    rw_files w (safeName (et_id t)) = None \<and> et_issueNumber t \<in> set (hub_closed (rw_hub w))"
proof -
  let ?s = "begin_run pe t h files d runs"
  let ?g = "gate_stage pe ?s"
  let ?w = "after_run pe x ?g"
  let ?k = "close_key ?s" and ?i = "et_issueNumber t"
  have g: "gated_start pe t h files d runs = ?g" by (simp add: gated_start_def)
  note passed = assms(8) [unfolded g run_passed_def]
  have plain: "\<not> oc_drained r" "oc_parked r = None" using ok_run_plain passed by (auto simp: run_result_def)
  have wk: "working ?w" using start_working(1) [OF assms(1,2)] gate_working(1) after_run_working(1) by blast
  have terms: "same_terms t (rw_task ?w)"
    by (rule run_terms)
  then have ty: "et_type (rw_task ?w) \<noteq> ''self-improve''" using assms(3) by (simp add: same_terms_def)
  have "suppressed_by pe t = None"
    using allowed_is_loud [OF assms(9)] terms by (simp add: g suppressed_by_def same_terms_def split: if_splits)
  then have loud: "loud_on ?i ?k ?w" using after_run_frame(1) gate_frame(1) begin_loud assms(11) by blast
  let ?w1 = "record_note (NPolicy (delivery_decision pe (record_run pe r ?w))) (record_run pe r ?w)"
  let ?w2 = "persist_run pe (?w1\<lparr>rw_cp := (rw_cp ?w1)\<lparr>pc_delivering := True\<rparr>\<rparr>)"
  have d: "delivery_decision pe (record_run pe r ?w) = delivery_decision pe ?w"
    by (simp add: delivery_decision_def delivery_action_def record_run_def write_record_def)
  have cp: "rw_cp (record_run pe r ?w) = rw_cp ?w" by (simp add: record_run_def write_record_def)
  have k: "''close:'' @ pc_runId (rw_cp ?w2) = ?k"
    using after_run_frame(2) [of pe x ?g] gate_frame(2) [of pe ?s] by (simp add: persist_run_def stamped_cp_def record_note_def cp close_key_def)
  have wk2: "working ?w2" "loud_on ?i ?k ?w2" using wk loud by (simp_all add: record_run_def)
  from publish_completes [OF wk2(1) assms(4) _ _ assms(10), of r] wk2(2) passed
  obtain w' where w': "publish_stage pe r ?w2 = (None, w')" "et_status (rw_task w') = Complete" "?i \<in> set (hub_closed (rw_hub w'))"
    unfolding k by blast
  have del: "deliver_stage pe r ?w = publish_stage pe r ?w2"
    using assms(9) ty by (simp add: deliver_stage_def Let_def d g)
  have "settle_stage pe r ?w = publish_stage pe r ?w2" using plain del by (simp add: settle_stage_def)
  moreover have "run_stage pe ?g = settle_stage pe r ?w" using passed by (simp add: run_stage_def run_result_def)
  moreover have "processTask pe t h files d runs = run_stage pe ?g"
    using assms(5-7) by (simp add: processTask_def body_stage_def Let_def g)
  ultimately have run: "processTask pe t h files d runs = (None, w')" using w'(1) by simp
  have "kept_file w' = False" using processTask_good [OF assms(1,2), of pe h files d runs] run w'(2) by (simp add: good_end_def)
  then show ?thesis using run w' run_id [of pe t h files d runs] by (simp add: kept_file_def)
qed


section \<open>Instances\<close>

definition demo_gate :: gate_verdict where
  "demo_gate = \<lparr>gv_verdict = ''allow'', gv_classification = ''safe'', gv_layer = ''l0'', gv_reason = None\<rparr>"

definition demo_seen :: seen where
  "demo_seen = \<lparr>sn_clock = 0, sn_calls = 0, sn_tokens = 0, sn_wallMs = 0, sn_pulseCalls = 0\<rparr>"

definition demo_env :: "bool \<Rightarrow> proc_env" where
  "demo_env safe =
    \<lparr>pe_mgr = mgr ''p1'' 0, pe_control = full_auto\<lparr>ct_safeMode := safe\<rparr>, pe_rules = DEFAULT_SAFETY_RULES, pe_sha1 = id, pe_number = (\<lambda>_. []),
     pe_limits = \<lparr>li_pulseMaxCalls = 120, li_taskMaxCalls = 40, li_taskMaxTokens = 200000, li_taskMaxWallMs = 3600000, li_maxParks = 6\<rparr>,
     pe_budget = new_budget None None None 0, pe_newRunId = ''r1'', pe_start = demo_seen, pe_seen = (\<lambda>_ _. demo_seen),
     pe_review = (\<lambda>_ _ _. demo_gate), pe_orch = plain_env calm_verify False False, pe_planner = (\<lambda>_. Inr long_plan),
     pe_listFails = (\<lambda>_. False), pe_fate = (\<lambda>_. Landed), pe_propose = (\<lambda>_ _ h. (None, h)), pe_why = (\<lambda>_. []), pe_actionsUrl = None,
     pe_iso = show_int\<rparr>"

definition demo_task :: etask where
  "demo_task =
    \<lparr>et_core = sample_task\<lparr>t_status := Running, t_startedAt := Some (Iso 0)\<rparr>, et_type = ''task'', et_issueNumber = 7, et_issueUrl = None,
     et_author = None, et_title = ''t'', et_prompt = ''p'', et_routingHint = None, et_autonomy = None, et_approvals = [], et_parks = None,
     et_cancelRequested = False, et_pauseRequested = False, et_prNumber = None, et_prUrl = None, et_usage = None,
     et_idempotencyKey = None, et_seen = None, et_duplicateOf = None, et_retriedBy = None\<rparr>"

text \<open>The task was verified by an earlier pulse, which died before it delivered.\<close>

definition demo_cp :: pulse_cp where
  "demo_cp = \<lparr>pc_orch = merge_checkpoint\<lparr>kp_verification := Some passed\<rparr>, pc_runId = ''r1'', pc_gate = Some demo_gate, pc_sideEffects = [],
     pc_delivering = False\<rparr>"

definition demo_files :: "string \<Rightarrow> pulse_cp option" where
  "demo_files = [safeName ''issue-7'' \<mapsto> demo_cp]"

abbreviation demo_start :: run_world where
  "demo_start \<equiv> begin_run (demo_env False) demo_task quiet_hub demo_files no_leases []"

lemma demo_task_facts:
  "et_status demo_task = Running" "wf_task (et_core demo_task)" "et_type demo_task \<noteq> ''self-improve''" "et_issueNumber demo_task \<noteq> 0"
  "et_id demo_task = ''issue-7''" "et_autonomy demo_task = None" "et_approvals demo_task = []" "et_type demo_task = ''task''"
  by (simp_all add: demo_task_def wf_task_def sample_task_def MAX_HISTORY_def)

lemma demo_env_facts: "calm_network (demo_env s)" "keeps_issues_open (demo_env s)"
  by (simp_all add: calm_network_def keeps_issues_open_def demo_env_def)

lemma demo_cp_start: "rw_cp demo_start = demo_cp"
  by (simp add: begin_run_def demo_files_def demo_task_facts Let_def)

lemma demo_gated: "gated_start (demo_env False) demo_task quiet_hub demo_files no_leases [] = demo_start"
  by (simp add: gated_start_def gate_stage_def demo_cp_start demo_cp_def)

lemma demo_budget: "overBudget (pe_limits (demo_env False)) (usage_now demo_start) = None"
  by (simp add: begin_run_def demo_files_def demo_task_facts Let_def usage_now_def usage_at_def usageOf_def demo_cp_def merge_checkpoint_def
      newCheckpoint_def demo_env_def demo_seen_def overBudget_def)

lemma demo_passed: "\<exists>r x. run_passed (demo_env False) demo_start r x"
proof -
  let ?cp = "merge_checkpoint\<lparr>kp_verification := Some passed\<rparr>"
  have "kp_plan ?cp = Some (unplanned merge_graph)" "kp_verification ?cp = Some passed" "kv_pass passed" "kv_round passed = kp_remediations ?cp"
    by (simp_all add: merge_checkpoint_def newCheckpoint_def passed_def)
  moreover have "recorded_complete (pn_graph (unplanned merge_graph)) (map_of (kp_subtasks ?cp))"
    using merge_recorded by (simp add: unplanned_def)
  ultimately have "\<exists>oc w. runOrchestration env pl tk ?cp = Some (Inr (oc, w)) \<and> oc_ok oc" for env pl tk
    using verified_resume by blast
  moreover have "pc_orch (rw_cp demo_start) = ?cp" by (simp add: demo_cp_start) (simp add: demo_cp_def)
  ultimately show ?thesis using ok_passed by (metis run_result_def)
qed

lemma demo_allowed: "dc_decision (delivery_decision (demo_env False) (after_run (demo_env False) x demo_start)) = Allow"
proof -
  let ?w = "after_run (demo_env False) x demo_start"
  have g: "gate_stage (demo_env False) demo_start = demo_start" using demo_gated by (simp add: gated_start_def)
  have t: "same_terms demo_task (rw_task ?w)" using run_terms [of demo_task "demo_env False" x] by (metis g)
  have c: "pc_runId (rw_cp ?w) = ''r1''" by (simp add: after_run_frame(2) demo_cp_start) (simp add: demo_cp_def)
  have "delivery_action ?w = \<lparr>ac_kind = Some ''deliver'', ac_toolId = None, ac_effect = Some ''external'', ac_runId = Some ''r1'', ac_args = JUndef\<rparr>"
    "policy_task (rw_task ?w) = \<lparr>pt_autonomy = None, pt_approvals = []\<rparr>"
    using t c by (simp_all add: delivery_action_def policy_task_def same_terms_def demo_task_facts)
  moreover have "dc_decision (decide id (\<lambda>_. []) \<lparr>ac_kind = Some ''deliver'', ac_toolId = None, ac_effect = Some ''external'',
      ac_runId = Some ''r1'', ac_args = JUndef\<rparr> (full_auto\<lparr>ct_safeMode := False\<rparr>) \<lparr>pt_autonomy = None, pt_approvals = []\<rparr> DEFAULT_SAFETY_RULES) = Allow"
    by code_simp
  ultimately show ?thesis by (simp add: delivery_decision_def demo_env_def)
qed


lemma demo_completes:
  "\<exists>w. processTask (demo_env False) demo_task quiet_hub demo_files no_leases [] = (None, w) \<and> et_status (rw_task w) = Complete \<and>
     hub_closed (rw_hub w) \<noteq> hub_closed quiet_hub"
proof -
  obtain r x where p: "run_passed (demo_env False) demo_start r x" using demo_passed by blast
  have k: "case demo_files (safeName (et_id demo_task)) of None \<Rightarrow> True | Some cp \<Rightarrow> close_key demo_start \<notin> fst ` set (pc_sideEffects cp)"
    by (simp add: demo_files_def demo_task_facts demo_cp_def)
  have "pc_gate (rw_cp demo_start) = Some demo_gate" "gv_verdict demo_gate \<noteq> ''block''"
    by (simp_all add: demo_cp_start) (simp_all add: demo_cp_def demo_gate_def)
  from run_completes [OF demo_task_facts(1-3) demo_env_facts(1) demo_budget _ _ _ _ demo_task_facts(4) k, unfolded demo_gated, OF this p demo_allowed]
  show ?thesis by (auto simp: quiet_hub_def)
qed


theorem suppressed_run_is_silent_witness:
  "rw_hub (snd (processTask (demo_env True) demo_task quiet_hub demo_files no_leases [])) = quiet_hub"
  by (rule suppressed_run_is_silent) (simp add: demo_env_def)

theorem done_means_verified_witness:
  "\<exists>r x. run_passed (demo_env False) demo_start r x \<and>
     dc_decision (delivery_decision (demo_env False) (after_run (demo_env False) x demo_start)) = Allow"
proof -
  obtain w where w: "processTask (demo_env False) demo_task quiet_hub demo_files no_leases [] = (None, w)"
    "hub_closed (rw_hub w) \<noteq> hub_closed quiet_hub"
    using demo_completes by blast
  from done_means_verified [OF demo_task_facts(1) demo_env_facts(2) w(1)] w(2) show ?thesis unfolding demo_gated by blast
qed

end
