(* ===== verification/Claims.thy ===== *)
theory Claims
  imports Task_Done
begin

text \<open>
  Which tasks a pulse works on, \<open>claimAndRun\<close> of \<open>src/engine/pulse.js\<close>: the pending tasks by falling priority,
  each checked against the pulse's budgets and its dependencies, leased, run through the handler of \<open>Task_Run\<close>,
  released and saved. The task objects are shared between the list and the \<open>byId\<close> map, so a dependency that
  completes in this pulse frees its dependants later in the same loop. The environment of a task may depend on the
  whole pulse so far; an exception of the handler leaves the loop at once.
\<close>

section \<open>State\<close>

record pulse_counts =
  pn_claimed :: nat
  pn_completed :: nat
  pn_failed :: nat
  pn_parked :: nat
  pn_skippedLeased :: nat

definition no_pulse_counts :: pulse_counts where
  "no_pulse_counts = \<lparr>pn_claimed = 0, pn_completed = 0, pn_failed = 0, pn_parked = 0, pn_skippedLeased = 0\<rparr>"

datatype claim_note =
    SkippedBudget string
  | SkippedCalls string nat
  | SkippedLeased string string
  | Claimed string "rat option" nat bool
  | PulseMove tevent

record pulse_world =
  pw_tasks :: "etask list"
  pw_hub :: hub
  pw_files :: "string \<Rightarrow> pulse_cp option"
  pw_leases :: lease_dir
  pw_runs :: "(string \<times> js) list"
  pw_counts :: pulse_counts
  pw_owned :: "string list"
  pw_saves :: "(etask list \<times> string list) list"
  pw_notes :: "claim_note list"

record claim_env =
  ce_now :: int
  ce_maxTasks :: nat
  ce_env :: "pulse_world \<Rightarrow> string \<Rightarrow> proc_env"

section \<open>Dependencies and order\<close>

datatype dep_state = DepMissing | DepFailed | DepReady | DepWaiting

definition by_eid :: "etask list \<Rightarrow> string \<Rightarrow> etask option" where
  "by_eid ts i = List.find (\<lambda>t. et_id t = i) (rev ts)"

definition dependencyState :: "etask list \<Rightarrow> etask \<Rightarrow> dep_state" where
  "dependencyState ts t =
    (let deps = map (by_eid ts) (t_dependsOn (et_core t)) in
     if list_ex (\<lambda>d. d = None) deps then DepMissing
     else (let st = map (\<lambda>d. et_status (the d)) deps in
       if list_ex (\<lambda>s. isTerminal s \<and> s \<noteq> Complete) st then DepFailed
       else if list_all (\<lambda>s. s = Complete) st then DepReady
       else DepWaiting))"

definition dependents_of :: "etask list \<Rightarrow> string \<Rightarrow> nat" where
  "dependents_of ts i = length (filter (\<lambda>d. d = i) (concat (map (\<lambda>t. t_dependsOn (et_core t)) ts)))"

definition score_of :: "int \<Rightarrow> etask list \<Rightarrow> nat \<Rightarrow> rat option" where
  "score_of now ts k = effectivePriority (et_core (ts ! k)) now (dependents_of ts (et_id (ts ! k)))"

text \<open>The pending tasks, by position, highest score first; equal scores keep the order of the queue. A creation time
  that does not parse has no score; the code's comparator is then undefined, and the model sorts it as 0.\<close>

definition runnable :: "int \<Rightarrow> etask list \<Rightarrow> (nat \<times> rat option) list" where
  "runnable now ts =
    sort_key (\<lambda>(k, s). - dflt s 0)
      (map (\<lambda>k. (k, score_of now ts k)) (filter (\<lambda>k. et_status (ts ! k) = Pending) [0..<length ts]))"

section \<open>One task of the loop\<close>

datatype claim_flow = Next | Stop | Threw run_exn

definition note_claim :: "claim_note \<Rightarrow> pulse_world \<Rightarrow> pulse_world" where
  "note_claim n w = w\<lparr>pw_notes := pw_notes w @ [n]\<rparr>"

definition count_pulse :: "(pulse_counts \<Rightarrow> pulse_counts) \<Rightarrow> pulse_world \<Rightarrow> pulse_world" where
  "count_pulse f w = w\<lparr>pw_counts := f (pw_counts w)\<rparr>"

definition put_task :: "nat \<Rightarrow> etask \<Rightarrow> pulse_world \<Rightarrow> pulse_world" where
  "put_task k t w = w\<lparr>pw_tasks := (pw_tasks w)[k := t]\<rparr>"

definition save_queue :: "pulse_world \<Rightarrow> pulse_world" where
  "save_queue w = w\<lparr>pw_saves := pw_saves w @ [(pw_tasks w, pw_owned w)]\<rparr>"

text \<open>A transition of the task at one position; an illegal one throws.\<close>

definition move_at :: "nat \<Rightarrow> string \<Rightarrow> ctx \<Rightarrow> pulse_world \<Rightarrow> claim_flow \<times> pulse_world" where
  "move_at k to c w =
    (case move (pw_tasks w ! k) to c of
       Inl e \<Rightarrow> (Threw (MoveThrew e), w)
     | Inr (t, e) \<Rightarrow> (Next, note_claim (PulseMove e) (put_task k t w)))"

definition unknown_dep_ctx :: "int \<Rightarrow> etask \<Rightarrow> ctx" where
  "unknown_dep_ctx now t =
    (why_ctx now ''depends on an unknown task'')
      \<lparr>c_error := Some (Some (''Dead-lettered: depends on '' @ join_with '', '' (t_dependsOn (et_core t)) @ '', which does not exist.'')),
       c_failure := Some (Some \<lparr>f_class = ''permanent'', f_code = Some ''DEPENDENCY_MISSING'', f_message = ''unknown dependency'', f_at = Iso now\<rparr>)\<rparr>"

definition failed_dep_ctx :: "int \<Rightarrow> ctx" where
  "failed_dep_ctx now =
    (why_ctx now ''a dependency failed'')
      \<lparr>c_error := Some (Some ''Dead-lettered: a task this one depends on did not complete.''),
       c_failure := Some (Some \<lparr>f_class = ''permanent'', f_code = Some ''DEPENDENCY_FAILED'', f_message = ''dependency failed'', f_at = Iso now\<rparr>)\<rparr>"

text \<open>\<open>score.toFixed(1)\<close>, for the scores the queue gives (they are not negative).\<close>

definition fixed1 :: "rat option \<Rightarrow> string" where
  "fixed1 s =
    (case s of None \<Rightarrow> ''NaN''
     | Some r \<Rightarrow> (let n = nat \<lfloor>r * 10 + 1 / 2\<rfloor> in show_nat (n div 10) @ ''.'' @ show_nat (n mod 10)))"

definition count_end :: "status \<Rightarrow> pulse_counts \<Rightarrow> pulse_counts" where
  "count_end s c =
    (if s = Complete \<or> s = PrOpen then c\<lparr>pn_completed := pn_completed c + 1\<rparr>
     else if s = Waiting then c\<lparr>pn_parked := pn_parked c + 1\<rparr>
     else if isTerminal s then c\<lparr>pn_failed := pn_failed c + 1\<rparr>
     else c)"

text \<open>The task is leased: it is moved to running, saved, run, released and saved again.\<close>

definition absorb :: "nat \<Rightarrow> run_world \<Rightarrow> pulse_world \<Rightarrow> pulse_world" where
  "absorb k v w = w\<lparr>pw_tasks := (pw_tasks w)[k := rw_task v], pw_hub := rw_hub v, pw_files := rw_files v, pw_leases := rw_leases v,
     pw_runs := rw_runs v\<rparr>"

definition start_claim :: "proc_env \<Rightarrow> nat \<Rightarrow> lease \<Rightarrow> pulse_world \<Rightarrow> pulse_world" where
  "start_claim pe k l w =
    (let t = on_core (\<lambda>c. c\<lparr>t_lease := Some l, t_claimedAt := Some (Iso (pe_now pe))\<rparr>) (pw_tasks w ! k)
     in put_task k t (w\<lparr>pw_owned := pw_owned w @ [et_id t]\<rparr>))"

definition claim_ctx :: "proc_env \<Rightarrow> rat option \<Rightarrow> ctx" where
  "claim_ctx pe score = (why_ctx (pe_now pe) (''claimed (priority '' @ fixed1 score @ '')''))\<lparr>c_by := Some (lm_owner (pe_mgr pe))\<rparr>"

definition note_claimed :: "nat \<Rightarrow> rat option \<Rightarrow> pulse_world \<Rightarrow> pulse_world" where
  "note_claimed k score w =
    (let t = pw_tasks w ! k in
     note_claim (Claimed (et_id t) score (dflt (t_attempts (et_core t)) 0) (pw_files w (safeName (et_id t)) \<noteq> None))
       (count_pulse (\<lambda>c. c\<lparr>pn_claimed := pn_claimed c + 1\<rparr>) w))"

definition finish_claim :: "proc_env \<Rightarrow> nat \<Rightarrow> pulse_world \<Rightarrow> pulse_world" where
  "finish_claim pe k w =
    (let t = pw_tasks w ! k in
     save_queue (count_pulse (count_end (et_status t)) (w\<lparr>pw_leases := fst (release (pe_mgr pe) (et_id t) (pw_leases w))\<rparr>)))"

definition run_claimed :: "proc_env \<Rightarrow> nat \<Rightarrow> rat option \<Rightarrow> lease \<Rightarrow> pulse_world \<Rightarrow> claim_flow \<times> pulse_world" where
  "run_claimed pe k score l w =
    (case move_at k ''running'' (claim_ctx pe score) (start_claim pe k l w) of
       (Threw x, w1) \<Rightarrow> (Threw x, w1)
     | (_, w1) \<Rightarrow>
         (let w2 = save_queue (note_claimed k score w1) in
          case processTask pe (pw_tasks w2 ! k) (pw_hub w2) (pw_files w2) (pw_leases w2) (pw_runs w2) of
            (Some x, v) \<Rightarrow> (Threw x, absorb k v w2)
          | (None, v) \<Rightarrow> (Next, finish_claim pe k (absorb k v w2))))"

definition claim_one :: "claim_env \<Rightarrow> nat \<Rightarrow> rat option \<Rightarrow> pulse_world \<Rightarrow> claim_flow \<times> pulse_world" where
  "claim_one ce k score w =
    (let t = pw_tasks w ! k; i = et_id t; pe = ce_env ce w i; s = pe_start pe; now = pe_now pe in
     if ce_maxTasks ce \<le> pn_claimed (pw_counts w) then (Stop, w)
     else if \<not> canClaim (pe_budget pe) (sn_clock s) then (Stop, note_claim (SkippedBudget i) w)
     else if li_pulseMaxCalls (pe_limits pe) \<le> sn_pulseCalls s then (Stop, note_claim (SkippedCalls i (sn_pulseCalls s)) w)
     else
       (case dependencyState (pw_tasks w) t of
          DepMissing \<Rightarrow> move_at k ''dead-lettered'' (unknown_dep_ctx now t) w
        | DepWaiting \<Rightarrow> move_at k ''waiting'' (wait_ctx now ''waiting on dependencies'' ''dependency'' (Iso now)) w
        | DepFailed \<Rightarrow> move_at k ''dead-lettered'' (failed_dep_ctx now) w
        | DepReady \<Rightarrow>
            (case acquire (pe_mgr pe) i (pw_leases w) of
               (d, HeldBy who _) \<Rightarrow>
                 (Next, note_claim (SkippedLeased i who) (count_pulse (\<lambda>c. c\<lparr>pn_skippedLeased := pn_skippedLeased c + 1\<rparr>) (w\<lparr>pw_leases := d\<rparr>)))
             | (d, Acquired l) \<Rightarrow> run_claimed pe k score l (w\<lparr>pw_leases := d\<rparr>))))"

fun claim_loop :: "claim_env \<Rightarrow> (nat \<times> rat option) list \<Rightarrow> pulse_world \<Rightarrow> run_exn option \<times> pulse_world" where
  "claim_loop ce [] w = (None, w)"
| "claim_loop ce (q # qs) w =
     (case claim_one ce (fst q) (snd q) w of
        (Next, w') \<Rightarrow> claim_loop ce qs w'
      | (Stop, w') \<Rightarrow> (None, w')
      | (Threw x, w') \<Rightarrow> (Some x, w'))"

definition claimAndRun :: "claim_env \<Rightarrow> pulse_world \<Rightarrow> run_exn option \<times> pulse_world" where
  "claimAndRun ce w = claim_loop ce (runnable (ce_now ce) (pw_tasks w)) w"

section \<open>What one step of the loop does to the queue\<close>

definition queue_wf :: "etask list \<Rightarrow> bool" where
  "queue_wf ts = list_all (\<lambda>t. wf_task (et_core t)) ts"

text \<open>A queue with one pending task replaced by the same task in another state.\<close>

definition replaced :: "nat \<Rightarrow> status list \<Rightarrow> etask list \<Rightarrow> etask list \<Rightarrow> bool" where
  "replaced k sts ts ts' =
    (\<exists>u. ts' = ts[k := u] \<and> et_id u = et_id (ts ! k) \<and> t_dependsOn (et_core u) = t_dependsOn (et_core (ts ! k)) \<and>
      wf_task (et_core u) \<and> et_status u \<in> set sts)"

lemma move_at_pending:
  assumes "et_status (pw_tasks w ! k) = Pending" and "wf_task (et_core (pw_tasks w ! k))" and "canTransition Pending s"
    and "s = Waiting \<Longrightarrow> wait_reason_of (c_waitReason c) \<noteq> None" and "move_at k (status_name s) c w = (f, w')"
  shows "f = Next \<and> replaced k [s] (pw_tasks w) (pw_tasks w') \<and> pw_owned w' = pw_owned w \<and> pw_leases w' = pw_leases w \<and>
    pw_counts w' = pw_counts w"
proof -
  let ?t = "pw_tasks w ! k"
  have m: "move ?t (status_name s) c = Inr (moved_to s c ?t, move_event s c ?t)"
    using assms(1,3,4) by (intro move_named) auto
  have "wf_task (transition_body (et_core ?t) s c)" using assms(1-4) by (intro wf_body) auto
  then show ?thesis
    using assms(5) by (auto simp: move_at_def m note_claim_def put_task_def replaced_def)
qed

lemma body_grant:
  "transition_body (k\<lparr>t_lease := l, t_claimedAt := x\<rparr>) Running c = (transition_body k Running c)\<lparr>t_lease := l, t_claimedAt := x\<rparr>"
  by (simp add: transition_body_def set_defs split: option.split)

lemma wf_claimedAt [simp]: "wf_task (t\<lparr>t_claimedAt := x\<rparr>) = wf_task t"
  by (simp add: wf_task_def)

lemma wf_granted:
  assumes "wf_task k" and "t_status k = Pending"
  shows "wf_task (transition_body (k\<lparr>t_lease := l, t_claimedAt := x\<rparr>) Running c)"
proof -
  have "wf_task (transition_body k Running c)" using assms by (intro wf_body) (auto simp: canTransition_table)
  then have "wf_task ((transition_body k Running c)\<lparr>t_lease := l\<rparr>)" by (intro wf_grant) simp_all
  then have "wf_task ((transition_body k Running c)\<lparr>t_lease := l, t_claimedAt := x\<rparr>)"
    by simp
  then show ?thesis by (simp only: body_grant)
qed

text \<open>A run keeps the dependencies of its task, and its lease stays with its owner.\<close>

definition depends_on :: "string list \<Rightarrow> run_world \<Rightarrow> bool" where
  "depends_on ds w = (t_dependsOn (et_core (rw_task w)) = ds)"

definition our_lease :: "proc_env \<Rightarrow> string \<Rightarrow> run_world \<Rightarrow> bool" where
  "our_lease pe i w = (et_id (rw_task w) = i \<and>
     (case ld_files (rw_leases w) (pathFor i) of Some (LeaseFile l) \<Rightarrow> l_owner l = lm_owner (pe_mgr pe) | _ \<Rightarrow> False))"

lemma renew_ours:
  assumes "case ld_files d (pathFor i) of Some (LeaseFile l) \<Rightarrow> l_owner l = lm_owner m | _ \<Rightarrow> False"
  shows "case ld_files (fst (renew m i d)) (pathFor i) of Some (LeaseFile l) \<Rightarrow> l_owner l = lm_owner m | _ \<Rightarrow> False"
  using assms
  by (auto simp: renew_def Let_def held_elsewhere_def read_lease_def fresh_lease_def split: option.splits lfile.splits)

interpretation leased_run: run_invariant "our_lease pe i" pe True True for pe i
  by unfold_locales
    (use renew_ours in \<open>auto simp: our_lease_def record_note_def persist_run_def write_record_def drop_file_def\<close>)

interpretation dependent_run: run_invariant "depends_on ds" pe True True for pe ds
  by unfold_locales (auto simp: depends_on_def record_note_def persist_run_def write_record_def drop_file_def set_usage_def)

lemma release_ours:
  assumes "case ld_files d (pathFor i) of Some (LeaseFile l) \<Rightarrow> l_owner l = lm_owner m | _ \<Rightarrow> False"
  shows "ld_files (fst (release m i d)) (pathFor i) = None"
  using assms by (auto simp: release_def Let_def held_elsewhere_def read_lease_def split: option.splits lfile.splits)

lemma acquire_ours:
  "acquire m i d = (d', Acquired l) \<Longrightarrow> (case ld_files d' (pathFor i) of Some (LeaseFile x) \<Rightarrow> l_owner x = lm_owner m | _ \<Rightarrow> False)"
  by (auto simp: acquire_def Let_def split: option.splits if_splits)

lemma begin_run_task:
  "t_dependsOn (et_core (rw_task (begin_run pe t h files d runs))) = t_dependsOn (et_core t)"
  by (simp add: begin_run_def Let_def on_core_def)

lemma run_dependsOn: "t_dependsOn (et_core (rw_task (snd (processTask pe t h files d runs)))) = t_dependsOn (et_core t)"
proof -
  have "depends_on (t_dependsOn (et_core t)) (begin_run pe t h files d runs)" by (simp add: depends_on_def begin_run_task)
  from dependent_run.I_body [OF this] show ?thesis by (simp add: processTask_def depends_on_def)
qed

lemma run_our_lease:
  assumes "case ld_files d (pathFor (et_id t)) of Some (LeaseFile l) \<Rightarrow> l_owner l = lm_owner (pe_mgr pe) | _ \<Rightarrow> False"
  shows "case ld_files (rw_leases (snd (processTask pe t h files d runs))) (pathFor (et_id t)) of
      Some (LeaseFile l) \<Rightarrow> l_owner l = lm_owner (pe_mgr pe) | _ \<Rightarrow> False"
proof -
  have "our_lease pe (et_id t) (begin_run pe t h files d runs)" using assms by (simp add: our_lease_def)
  from leased_run.I_body [OF this] show ?thesis by (simp add: processTask_def our_lease_def)
qed

text \<open>The claim of one ready, leased task.\<close>

definition claim_effect :: "nat \<Rightarrow> claim_flow \<Rightarrow> pulse_world \<Rightarrow> pulse_world \<Rightarrow> bool" where
  "claim_effect k f w w' =
    (let i = et_id (pw_tasks w ! k) in
     replaced k (if f = Next then STOPPED else [Running]) (pw_tasks w) (pw_tasks w') \<and>
     pw_owned w' = pw_owned w @ [i] \<and>
     pn_claimed (pw_counts w') = pn_claimed (pw_counts w) + 1 \<and>
     (\<forall>p. p \<noteq> pathFor i \<longrightarrow> ld_files (pw_leases w') p = ld_files (pw_leases w) p) \<and>
     (case f of Next \<Rightarrow> ld_files (pw_leases w') (pathFor i) = None | Stop \<Rightarrow> False | Threw x \<Rightarrow> github_exn x))"

lemma STOPPED_simps [simp]: "Running \<notin> set STOPPED" "Pending \<notin> set STOPPED" "Waiting \<in> set STOPPED" "DeadLettered \<in> set STOPPED"
  by (simp_all add: STOPPED_def)

lemma count_end_claimed [simp]: "pn_claimed (count_end s c) = pn_claimed c"
  by (simp add: count_end_def)

lemma run_claimed_effect:
  assumes "k < length (pw_tasks w)" and "et_status (pw_tasks w ! k) = Pending" and "wf_task (et_core (pw_tasks w ! k))"
    and own: "case ld_files (pw_leases w) (pathFor (et_id (pw_tasks w ! k))) of
        Some (LeaseFile l) \<Rightarrow> l_owner l = lm_owner (pe_mgr pe) | _ \<Rightarrow> False"
    and run: "run_claimed pe k score l w = (f, w')"
  shows "claim_effect k f w w'"
proof -
  let ?t = "pw_tasks w ! k" and ?i = "et_id (pw_tasks w ! k)"
  define g where "g = on_core (\<lambda>c. c\<lparr>t_lease := Some l, t_claimedAt := Some (Iso (pe_now pe))\<rparr>) ?t"
  define u where "u = moved_to Running (claim_ctx pe score) g"
  have g: "et_status g = Pending" "et_id g = ?i" "t_dependsOn (et_core g) = t_dependsOn (et_core ?t)"
    using assms(2) by (simp_all add: g_def on_core_def)
  have "et_core u = transition_body ((et_core ?t)\<lparr>t_lease := Some l, t_claimedAt := Some (Iso (pe_now pe))\<rparr>) Running (claim_ctx pe score)"
    by (simp add: u_def g_def on_core_def)
  then have u: "et_status u = Running" "wf_task (et_core u)" "et_id u = ?i" "t_dependsOn (et_core u) = t_dependsOn (et_core ?t)"
    using wf_granted [OF assms(3,2)] g by (simp_all add: u_def)
  let ?w0 = "start_claim pe k l w"
  have w0: "pw_tasks ?w0 ! k = g" using assms(1) by (simp add: start_claim_def put_task_def g_def Let_def)
  have mv: "move g ''running'' (claim_ctx pe score) = Inr (u, move_event Running (claim_ctx pe score) g)"
    using etask_moves(8) [of g "claim_ctx pe score"] g(1) by (simp add: u_def canTransition_table)
  define w2 where "w2 = save_queue (note_claimed k score (note_claim (PulseMove (move_event Running (claim_ctx pe score) g)) (put_task k u ?w0)))"
  have w2: "pw_tasks w2 = (pw_tasks w)[k := u]" "pw_owned w2 = pw_owned w @ [?i]" "pw_leases w2 = pw_leases w"
    "pn_claimed (pw_counts w2) = pn_claimed (pw_counts w) + 1" "pw_tasks w2 ! k = u"
    using assms(1)
    by (simp_all add: w2_def save_queue_def note_claimed_def note_claim_def count_pulse_def put_task_def start_claim_def Let_def on_core_def)
  obtain e v where v: "processTask pe u (pw_hub w2) (pw_files w2) (pw_leases w2) (pw_runs w2) = (e, v)" by fastforce
  note good = processTask_good [OF u(1,2), of pe "pw_hub w2" "pw_files w2" "pw_leases w2" "pw_runs w2", unfolded v]
  note vid = run_id [of pe u "pw_hub w2" "pw_files w2" "pw_leases w2" "pw_runs w2", unfolded v snd_conv u]
  note vdep = run_dependsOn [of pe u "pw_hub w2" "pw_files w2" "pw_leases w2" "pw_runs w2", unfolded v snd_conv u]
  have "stays_in ?i (pw_files w2) (pw_leases w2) (begin_run pe u (pw_hub w2) (pw_files w2) (pw_leases w2) (pw_runs w2))"
    using u(3) by (simp add: stays_in_def)
  from own_run.I_body [OF this, of pe] v have vframe: "\<forall>p. p \<noteq> pathFor ?i \<longrightarrow> ld_files (rw_leases v) p = ld_files (pw_leases w) p"
    by (simp add: processTask_def stays_in_def w2(3))
  have vown: "case ld_files (rw_leases v) (pathFor ?i) of Some (LeaseFile l) \<Rightarrow> l_owner l = lm_owner (pe_mgr pe) | _ \<Rightarrow> False"
    using run_our_lease [where d = "pw_leases w2" and t = u and pe = pe and h = "pw_hub w2" and files = "pw_files w2" and runs = "pw_runs w2"] own w2(3) u(3) v by simp
  have step: "run_claimed pe k score l w = (case e of Some x \<Rightarrow> (Threw x, absorb k v w2) | None \<Rightarrow> (Next, finish_claim pe k (absorb k v w2)))"
    unfolding run_claimed_def move_at_def w0 mv by (simp add: v w2(5) Let_def split: option.split flip: w2_def)
  show ?thesis
  proof (cases e)
    case None
    then have w': "f = Next" "w' = finish_claim pe k (absorb k v w2)" using run step by simp_all
    have "ld_files (fst (release (pe_mgr pe) ?i (rw_leases v))) (pathFor ?i) = None" using release_ours [OF vown] .
    then show ?thesis
      using w' good None vid vdep vframe w2 assms(1) release_frame
      by (auto simp: claim_effect_def Let_def replaced_def finish_claim_def absorb_def save_queue_def count_pulse_def good_end_def)
  next
    case (Some x)
    then have w': "f = Threw x" "w' = absorb k v w2" using run step by simp_all
    then show ?thesis
      using good Some vid vdep vframe w2 by (auto simp: claim_effect_def Let_def replaced_def absorb_def good_end_def)
  qed
qed

definition idle_effect :: "nat \<Rightarrow> claim_flow \<Rightarrow> pulse_world \<Rightarrow> pulse_world \<Rightarrow> bool" where
  "idle_effect k f w w' =
    (f \<in> {Next, Stop} \<and> pw_owned w' = pw_owned w \<and> pw_leases w' = pw_leases w \<and> pn_claimed (pw_counts w') = pn_claimed (pw_counts w) \<and>
     (pw_tasks w' = pw_tasks w \<or> replaced k [DeadLettered, Waiting] (pw_tasks w) (pw_tasks w')))"

lemma held_leases: "acquire m i d = (d', HeldBy who x) \<Longrightarrow> d' = d"
  by (auto simp: acquire_def Let_def split: option.splits if_splits)

lemma claim_one_effect:
  assumes "k < length (pw_tasks w)" and "et_status (pw_tasks w ! k) = Pending" and "wf_task (et_core (pw_tasks w ! k))"
    and one: "claim_one ce k score w = (f, w')"
  shows "idle_effect k f w w' \<or>
    claim_effect k f w w' \<and> pn_claimed (pw_counts w) < ce_maxTasks ce \<and> dependencyState (pw_tasks w) (pw_tasks w ! k) = DepReady"
proof -
  let ?t = "pw_tasks w ! k" and ?i = "et_id (pw_tasks w ! k)"
  let ?pe = "ce_env ce w ?i"
  note one' = one [unfolded claim_one_def Let_def]
  consider (stop) "ce_maxTasks ce \<le> pn_claimed (pw_counts w) \<or> \<not> canClaim (pe_budget ?pe) (sn_clock (pe_start ?pe)) \<or>
      li_pulseMaxCalls (pe_limits ?pe) \<le> sn_pulseCalls (pe_start ?pe)"
    | (dep) "\<not> (ce_maxTasks ce \<le> pn_claimed (pw_counts w) \<or> \<not> canClaim (pe_budget ?pe) (sn_clock (pe_start ?pe)) \<or>
      li_pulseMaxCalls (pe_limits ?pe) \<le> sn_pulseCalls (pe_start ?pe))" "dependencyState (pw_tasks w) ?t \<noteq> DepReady"
    | (ready) "\<not> (ce_maxTasks ce \<le> pn_claimed (pw_counts w) \<or> \<not> canClaim (pe_budget ?pe) (sn_clock (pe_start ?pe)) \<or>
      li_pulseMaxCalls (pe_limits ?pe) \<le> sn_pulseCalls (pe_start ?pe))" "dependencyState (pw_tasks w) ?t = DepReady"
    by blast
  then show ?thesis
  proof cases
    case stop
    then show ?thesis using one' by (auto simp: idle_effect_def note_claim_def split: if_splits)
  next
    case dep
    then obtain s c where m: "move_at k (status_name s) c w = (f, w')" and s: "s \<in> {DeadLettered, Waiting}"
      and wr: "s = Waiting \<Longrightarrow> wait_reason_of (c_waitReason c) \<noteq> None"
      using one' that [of DeadLettered] that [of Waiting] by (cases "dependencyState (pw_tasks w) ?t") auto
    from s have "canTransition Pending s" by (auto simp: canTransition_table)
    from move_at_pending [OF assms(2,3) this wr m] s show ?thesis by (auto simp: idle_effect_def replaced_def)
  next
    case ready
    obtain d a where a: "acquire (pe_mgr ?pe) ?i (pw_leases w) = (d, a)" by fastforce
    show ?thesis
    proof (cases a)
      case (HeldBy who x)
      then show ?thesis using one' ready a held_leases [of "pe_mgr ?pe" ?i "pw_leases w"]
        by (auto simp: idle_effect_def note_claim_def count_pulse_def)
    next
      case (Acquired l)
      let ?w = "w\<lparr>pw_leases := d\<rparr>"
      have "claim_effect k f ?w w'"
        by (rule run_claimed_effect [of k ?w ?pe score l]) (use assms(1-3) one' ready a Acquired acquire_ours in auto)
      moreover have "\<forall>p. p \<noteq> pathFor ?i \<longrightarrow> ld_files d p = ld_files (pw_leases w) p"
        using a acquire_frame by (metis fst_conv)
      ultimately show ?thesis using ready by (auto simp: claim_effect_def Let_def)
    qed
  qed
qed

section \<open>The loop\<close>

text \<open>What may have become of a task of the queue, and the state of the leases this pulse took.\<close>

definition outcome_ok :: "bool \<Rightarrow> etask \<Rightarrow> etask \<Rightarrow> bool" where
  "outcome_ok thrown t u =
    (et_id u = et_id t \<and> t_dependsOn (et_core u) = t_dependsOn (et_core t) \<and> wf_task (et_core u) \<and>
     (if et_status t = Pending then et_status u \<in> set (Pending # STOPPED) \<or> thrown \<and> et_status u = Running else u = t))"

definition all_released :: "pulse_world \<Rightarrow> bool" where
  "all_released w = (\<forall>i\<in>set (pw_owned w). ld_files (pw_leases w) (pathFor i) = None)"

lemma outcome_refl: "wf_task (et_core t) \<Longrightarrow> outcome_ok b t t"
  by (simp add: outcome_ok_def)

lemma queue_nth: "queue_wf ts \<Longrightarrow> k < length ts \<Longrightarrow> wf_task (et_core (ts ! k))"
  by (simp add: queue_wf_def list_all_length)

lemma replaced_queue:
  assumes "replaced k sts ts ts'" and "queue_wf ts" and "k < length ts" and "et_status (ts ! k) = Pending"
    and "set sts \<subseteq> set STOPPED \<or> b \<and> set sts \<subseteq> insert Running (set STOPPED)"
  shows "queue_wf ts' \<and> list_all2 (outcome_ok b) ts ts' \<and> (\<forall>j. j \<noteq> k \<longrightarrow> ts' ! j = ts ! j)"
proof -
  obtain u where u: "ts' = ts[k := u]" "et_id u = et_id (ts ! k)" "t_dependsOn (et_core u) = t_dependsOn (et_core (ts ! k))"
    "wf_task (et_core u)" "et_status u \<in> set sts"
    using assms(1) by (auto simp: replaced_def)
  have "outcome_ok b (ts ! j) (ts' ! j)" if "j < length ts" for j
    using that u assms(2-5) by (cases "j = k") (auto simp: outcome_ok_def queue_nth)
  moreover have "queue_wf ts'" using u assms(2,3) by (auto simp: queue_wf_def list_all_length nth_list_update)
  ultimately show ?thesis using u by (simp add: list_all2_conv_all_nth)
qed

lemma outcome_trans:
  assumes "list_all2 (outcome_ok False) a b" and "list_all2 (outcome_ok x) b c"
    and "\<And>k. k < length a \<Longrightarrow> et_status (a ! k) = Pending \<Longrightarrow> b ! k = a ! k \<or> c ! k = b ! k"
  shows "list_all2 (outcome_ok x) a c"
proof -
  have "outcome_ok x (a ! k) (c ! k)" if "k < length a" for k
  proof -
    have ab: "outcome_ok False (a ! k) (b ! k)" and bc: "outcome_ok x (b ! k) (c ! k)"
      using assms(1,2) that by (simp_all add: list_all2_conv_all_nth)
    show ?thesis
      using ab bc assms(3) [OF that] by (auto simp: outcome_ok_def split: if_splits)
  qed
  then show ?thesis using assms(1,2) by (simp add: list_all2_conv_all_nth)
qed

definition step_ok_claim :: "claim_env \<Rightarrow> nat \<Rightarrow> claim_flow \<Rightarrow> pulse_world \<Rightarrow> pulse_world \<Rightarrow> bool" where
  "step_ok_claim ce k f w w' =
    (queue_wf (pw_tasks w') \<and> list_all2 (outcome_ok (case f of Threw x \<Rightarrow> True | _ \<Rightarrow> False)) (pw_tasks w) (pw_tasks w') \<and>
     (\<forall>j. j \<noteq> k \<longrightarrow> pw_tasks w' ! j = pw_tasks w ! j) \<and>
     pn_claimed (pw_counts w') \<le> max (pn_claimed (pw_counts w)) (ce_maxTasks ce) \<and>
     (case f of Threw x \<Rightarrow> github_exn x | _ \<Rightarrow> all_released w \<longrightarrow> all_released w'))"

lemma claim_step:
  assumes "queue_wf (pw_tasks w)" and "k < length (pw_tasks w)" and "et_status (pw_tasks w ! k) = Pending"
    and one: "claim_one ce k score w = (f, w')"
  shows "step_ok_claim ce k f w w'"
proof -
  let ?i = "et_id (pw_tasks w ! k)"
  note wf = queue_nth [OF assms(1,2)]
  consider (idle) "idle_effect k f w w'" | (claim) "claim_effect k f w w'" "pn_claimed (pw_counts w) < ce_maxTasks ce"
    using claim_one_effect [OF assms(2,3) wf one] by blast
  then show ?thesis
  proof cases
    case idle
    have "list_all2 (outcome_ok False) (pw_tasks w) (pw_tasks w)"
      using assms(1) by (simp add: list_all2_conv_all_nth outcome_refl queue_nth)
    moreover have "set [DeadLettered, Waiting] \<subseteq> set STOPPED" by simp
    ultimately show ?thesis
      using idle replaced_queue [of k "[DeadLettered, Waiting]" "pw_tasks w" "pw_tasks w'" False] assms
      by (auto simp: idle_effect_def step_ok_claim_def all_released_def)
  next
    case claim
    have r: "replaced k (if f = Next then STOPPED else [Running]) (pw_tasks w) (pw_tasks w')" using claim by (simp add: claim_effect_def Let_def)
    have free: "all_released w'" if "all_released w" "f = Next"
      using claim that by (auto simp: claim_effect_def Let_def all_released_def) metis
    show ?thesis
    proof (cases f)
      case Next
      then show ?thesis
        using replaced_queue [OF r assms(1-3), of False] claim free by (auto simp: step_ok_claim_def claim_effect_def Let_def)
    next
      case (Threw x)
      then show ?thesis
        using replaced_queue [OF r assms(1-3), of True] claim by (auto simp: step_ok_claim_def claim_effect_def Let_def)
    qed (use claim in \<open>auto simp: claim_effect_def\<close>)
  qed
qed

definition positions_ok :: "(nat \<times> rat option) list \<Rightarrow> etask list \<Rightarrow> bool" where
  "positions_ok qs ts = (distinct (map fst qs) \<and> (\<forall>k\<in>fst ` set qs. k < length ts \<and> et_status (ts ! k) = Pending))"

lemma rest_positions:
  assumes "queue_wf (pw_tasks w)" and "positions_ok (q # qs) (pw_tasks w)" and "claim_one ce (fst q) (snd q) w = (f, w1)"
  shows "positions_ok qs (pw_tasks w1) \<and> queue_wf (pw_tasks w1) \<and> map et_id (pw_tasks w1) = map et_id (pw_tasks w)"
proof -
  have k: "fst q < length (pw_tasks w)" "et_status (pw_tasks w ! fst q) = Pending" "fst q \<notin> fst ` set qs"
    using assms(2) by (auto simp: positions_ok_def)
  note st = claim_step [OF assms(1) k(1,2) assms(3), unfolded step_ok_claim_def]
  have len: "length (pw_tasks w1) = length (pw_tasks w)" using st by (simp add: list_all2_conv_all_nth)
  have "j < length (pw_tasks w1) \<and> et_status (pw_tasks w1 ! j) = Pending" if "j \<in> fst ` set qs" for j
  proof -
    have "j \<noteq> fst q" using k(3) that by metis
    then have "pw_tasks w1 ! j = pw_tasks w ! j" using st by simp
    then show ?thesis using assms(2) len that by (auto simp: positions_ok_def)
  qed
  then have "positions_ok qs (pw_tasks w1)" using assms(2) unfolding positions_ok_def by simp
  moreover have "map et_id (pw_tasks w1) = map et_id (pw_tasks w)"
    using st by (auto simp: list_all2_conv_all_nth outcome_ok_def intro: nth_equalityI)
  ultimately show ?thesis using st by blast
qed

lemma claim_loop_effect:
  assumes "queue_wf (pw_tasks w)" and "positions_ok qs (pw_tasks w)" and "claim_loop ce qs w = (e, w')"
  shows "queue_wf (pw_tasks w') \<and> list_all2 (outcome_ok (e \<noteq> None)) (pw_tasks w) (pw_tasks w') \<and>
    (\<forall>j. j \<notin> fst ` set qs \<longrightarrow> pw_tasks w' ! j = pw_tasks w ! j) \<and>
    pn_claimed (pw_counts w') \<le> max (pn_claimed (pw_counts w)) (ce_maxTasks ce) \<and>
    (case e of Some x \<Rightarrow> github_exn x | None \<Rightarrow> all_released w \<longrightarrow> all_released w')"
  using assms
proof (induction qs arbitrary: w)
  case Nil
  then show ?case by (simp add: list_all2_conv_all_nth outcome_refl queue_nth)
next
  case (Cons q qs)
  obtain f w1 where one: "claim_one ce (fst q) (snd q) w = (f, w1)" by fastforce
  have k: "fst q < length (pw_tasks w)" "et_status (pw_tasks w ! fst q) = Pending" "fst q \<notin> fst ` set qs"
    using Cons.prems(2) by (auto simp: positions_ok_def)
  note st = claim_step [OF Cons.prems(1) k(1,2) one]
  show ?case
  proof (cases f)
    case Next
    have st': "list_all2 (outcome_ok False) (pw_tasks w) (pw_tasks w1)" "\<forall>j. j \<noteq> fst q \<longrightarrow> pw_tasks w1 ! j = pw_tasks w ! j"
      "pn_claimed (pw_counts w1) \<le> max (pn_claimed (pw_counts w)) (ce_maxTasks ce)" "all_released w \<longrightarrow> all_released w1"
      "queue_wf (pw_tasks w1)"
      using st Next by (simp_all add: step_ok_claim_def)
    have pos: "positions_ok qs (pw_tasks w1)" using rest_positions [OF Cons.prems(1,2) one] by blast
    have rest: "claim_loop ce qs w1 = (e, w')" using Cons.prems(3) one Next by simp
    note IH = Cons.IH [OF st'(5) pos rest]
    have "list_all2 (outcome_ok (e \<noteq> None)) (pw_tasks w) (pw_tasks w')"
    proof (rule outcome_trans [OF st'(1)])
      show "list_all2 (outcome_ok (e \<noteq> None)) (pw_tasks w1) (pw_tasks w')" using IH by simp
      show "pw_tasks w1 ! j = pw_tasks w ! j \<or> pw_tasks w' ! j = pw_tasks w1 ! j" for j
        using IH st'(2) k(3) by (cases "j = fst q") simp_all
    qed
    then show ?thesis using IH st' by (auto split: option.splits)
  next
    case Stop
    then have "e = None" "w' = w1" using Cons.prems(3) one by simp_all
    then show ?thesis using st Stop by (auto simp: step_ok_claim_def)
  next
    case (Threw x)
    then have "e = Some x" "w' = w1" using Cons.prems(3) one by simp_all
    then show ?thesis using st Threw by (auto simp: step_ok_claim_def)
  qed
qed

lemma runnable_positions: "positions_ok (runnable now ts) ts"
proof -
  let ?ks = "filter (\<lambda>k. et_status (ts ! k) = Pending) [0..<length ts]"
  have "mset (map fst (runnable now ts)) = mset (map fst (map (\<lambda>k. (k, score_of now ts k)) ?ks))"
    by (simp only: runnable_def mset_map mset_sort)
  then have m: "mset (map fst (runnable now ts)) = mset ?ks" by (simp only: map_map comp_def fst_conv map_ident)
  then have "distinct (map fst (runnable now ts))" by (metis distinct_filter distinct_upt mset_eq_imp_distinct_iff)
  moreover have "set (map fst (runnable now ts)) = set (filter (\<lambda>k. et_status (ts ! k) = Pending) [0..<length ts])"
    using m by (metis set_mset_mset)
  ultimately show ?thesis by (auto simp: positions_ok_def)
qed

section \<open>Dependencies first\<close>

lemma find_app: "List.find P (xs @ ys) = (case List.find P xs of None \<Rightarrow> List.find P ys | Some x \<Rightarrow> Some x)"
  by (induction xs) auto

lemma by_eid_Cons: "by_eid (t # ts) i = (case by_eid ts i of None \<Rightarrow> if et_id t = i then Some t else None | Some x \<Rightarrow> Some x)"
  by (simp add: by_eid_def find_app split: option.split)

lemma by_eid_update_None: "by_eid ts i = None \<Longrightarrow> et_id u = et_id (ts ! k) \<Longrightarrow> by_eid (ts[k := u]) i = None"
proof (induction ts arbitrary: k)
  case (Cons t ts)
  then show ?case by (cases k) (auto simp: by_eid_Cons split: option.splits if_splits)
qed simp

lemma by_eid_update:
  "by_eid ts i = Some x \<Longrightarrow> et_status x \<noteq> Pending \<Longrightarrow> k < length ts \<Longrightarrow> et_status (ts ! k) = Pending \<Longrightarrow> et_id u = et_id (ts ! k) \<Longrightarrow>
   by_eid (ts[k := u]) i = Some x"
proof (induction ts arbitrary: k)
  case (Cons t ts)
  then show ?case by (cases k) (auto simp: by_eid_Cons by_eid_update_None split: option.splits if_splits)
qed simp

lemma ready_iff:
  "dependencyState ts t = DepReady \<longleftrightarrow> (\<forall>d\<in>set (t_dependsOn (et_core t)). \<exists>x. by_eid ts d = Some x \<and> et_status x = Complete)"
proof -
  have none: "None \<in> by_eid ts ` ds \<longleftrightarrow> (\<exists>d\<in>ds. by_eid ts d = None)" for ds by (metis (no_types, lifting) image_iff)
  have "dependencyState ts t = DepReady \<longleftrightarrow>
      (\<forall>d\<in>set (t_dependsOn (et_core t)). by_eid ts d \<noteq> None) \<and>
      (\<forall>d\<in>set (t_dependsOn (et_core t)). et_status (the (by_eid ts d)) = Complete)"
    using none by (auto simp: dependencyState_def Let_def list_ex_iff list_all_iff)
  then show ?thesis by (metis option.exhaust_sel option.sel option.distinct(1))
qed

lemma ready_stable:
  assumes "dependencyState ts t = DepReady" and "replaced k sts ts ts'" and "k < length ts" and "et_status (ts ! k) = Pending"
    and "t_dependsOn (et_core u) = t_dependsOn (et_core t)"
  shows "dependencyState ts' u = DepReady"
proof -
  obtain v where v: "ts' = ts[k := v]" "et_id v = et_id (ts ! k)" using assms(2) by (auto simp: replaced_def)
  have "by_eid ts' d = Some x" if "by_eid ts d = Some x" "et_status x = Complete" for d x
    using by_eid_update [OF that(1) _ assms(3,4) v(2)] that(2) v(1) by simp
  then show ?thesis using assms(1,5) unfolding ready_iff by metis
qed

definition deps_done :: "pulse_world \<Rightarrow> bool" where
  "deps_done w = (\<forall>t\<in>set (pw_tasks w). et_id t \<in> set (pw_owned w) \<longrightarrow> dependencyState (pw_tasks w) t = DepReady)"

lemma deps_step:
  assumes "deps_done w" and "distinct (map et_id (pw_tasks w))" and "k < length (pw_tasks w)"
    and "et_status (pw_tasks w ! k) = Pending" and "wf_task (et_core (pw_tasks w ! k))" and one: "claim_one ce k score w = (f, w')"
  shows "deps_done w'"
proof -
  consider (same) "pw_tasks w' = pw_tasks w" "pw_owned w' = pw_owned w"
    | (moved) sts where "replaced k sts (pw_tasks w) (pw_tasks w')" "pw_owned w' = pw_owned w"
    | (claim) sts where "replaced k sts (pw_tasks w) (pw_tasks w')" "pw_owned w' = pw_owned w @ [et_id (pw_tasks w ! k)]"
        "dependencyState (pw_tasks w) (pw_tasks w ! k) = DepReady"
    using claim_one_effect [OF assms(3-5) one] by (auto simp: idle_effect_def claim_effect_def Let_def)
  then show ?thesis
  proof cases
    case same
    then show ?thesis using assms(1) by (simp add: deps_done_def)
  next
    case moved
    show ?thesis unfolding deps_done_def
    proof (intro ballI impI)
      fix t assume t: "t \<in> set (pw_tasks w')" "et_id t \<in> set (pw_owned w')"
      obtain j where j: "j < length (pw_tasks w)" "t = pw_tasks w' ! j"
        using t(1) moved(1) by (auto simp: replaced_def in_set_conv_nth)
      have "et_id t = et_id (pw_tasks w ! j)" "t_dependsOn (et_core t) = t_dependsOn (et_core (pw_tasks w ! j))"
        using moved(1) j assms(3) by (auto simp: replaced_def nth_list_update)
      moreover have "dependencyState (pw_tasks w) (pw_tasks w ! j) = DepReady"
        using assms(1) t(2) moved(2) j(1) calculation(1) by (simp add: deps_done_def)
      ultimately show "dependencyState (pw_tasks w') t = DepReady"
        using ready_stable [OF _ moved(1) assms(3,4)] by blast
    qed
  next
    case claim
    show ?thesis unfolding deps_done_def
    proof (intro ballI impI)
      fix t assume t: "t \<in> set (pw_tasks w')" "et_id t \<in> set (pw_owned w')"
      obtain j where j: "j < length (pw_tasks w)" "t = pw_tasks w' ! j"
        using t(1) claim(1) by (auto simp: replaced_def in_set_conv_nth)
      have tj: "et_id t = et_id (pw_tasks w ! j)" "t_dependsOn (et_core t) = t_dependsOn (et_core (pw_tasks w ! j))"
        using claim(1) j assms(3) by (auto simp: replaced_def nth_list_update)
      have "j = k" if "et_id (pw_tasks w ! j) = et_id (pw_tasks w ! k)"
        using assms(2,3) j(1) that nth_eq_iff_index_eq [of "map et_id (pw_tasks w)" j k] by simp
      then have "dependencyState (pw_tasks w) (pw_tasks w ! j) = DepReady"
        using assms(1) t(2) claim(2,3) j(1) tj(1) by (auto simp: deps_done_def)
      then show "dependencyState (pw_tasks w') t = DepReady"
        using ready_stable [OF _ claim(1) assms(3,4)] tj(2) by blast
    qed
  qed
qed

lemma deps_loop:
  assumes "deps_done w" and "distinct (map et_id (pw_tasks w))" and "queue_wf (pw_tasks w)" and "positions_ok qs (pw_tasks w)"
    and "claim_loop ce qs w = (e, w')"
  shows "deps_done w'"
  using assms
proof (induction qs arbitrary: w)
  case (Cons q qs)
  obtain f w1 where one: "claim_one ce (fst q) (snd q) w = (f, w1)" by fastforce
  have k: "fst q < length (pw_tasks w)" "et_status (pw_tasks w ! fst q) = Pending"
    using Cons.prems(4) by (auto simp: positions_ok_def)
  have d1: "deps_done w1" by (rule deps_step [OF Cons.prems(1,2) k queue_nth [OF Cons.prems(3) k(1)] one])
  show ?case
  proof (cases f)
    case Next
    have "claim_loop ce qs w1 = (e, w')" using Cons.prems(5) one Next by simp
    then show ?thesis
      using Cons.IH [OF d1] rest_positions [OF Cons.prems(3,4) one] Cons.prems(2) by simp
  qed (use Cons.prems(5) one d1 in auto)
qed simp

section \<open>Highest priority first\<close>

fun note_score :: "claim_note \<Rightarrow> rat list" where
  "note_score (Claimed i s n r) = [dflt s 0]"
| "note_score _ = []"

definition claim_scores :: "pulse_world \<Rightarrow> rat list" where
  "claim_scores w = concat (map note_score (pw_notes w))"

lemma move_at_scores: "move_at k to c w = (f, w') \<Longrightarrow> claim_scores w' = claim_scores w"
  by (auto simp: move_at_def claim_scores_def note_claim_def put_task_def split: sum.splits prod.splits)

lemma scores_simps [simp]:
  "claim_scores (save_queue w) = claim_scores w" "claim_scores (absorb k v w) = claim_scores w"
  "claim_scores (count_pulse g w) = claim_scores w" "claim_scores (start_claim pe k l w) = claim_scores w"
  "claim_scores (finish_claim pe k w) = claim_scores w" "claim_scores (w\<lparr>pw_leases := d\<rparr>) = claim_scores w"
  "claim_scores (note_claim n w) = claim_scores w @ note_score n"
  by (simp_all add: claim_scores_def save_queue_def absorb_def count_pulse_def start_claim_def put_task_def finish_claim_def Let_def note_claim_def)

lemma claim_one_scores:
  assumes "claim_one ce k s w = (f, w')"
  shows "claim_scores w' = claim_scores w \<or> claim_scores w' = claim_scores w @ [dflt s 0]"
proof -
  have run: "claim_scores w2 = claim_scores w1 \<or> claim_scores w2 = claim_scores w1 @ [dflt s 0]"
    if "run_claimed pe k s l w1 = (g, w2)" for pe l g w1 w2
  proof -
    obtain x v where m: "move_at k ''running'' (claim_ctx pe s) (start_claim pe k l w1) = (x, v)" by fastforce
    show ?thesis
      using that move_at_scores [OF m] by (auto simp: run_claimed_def m Let_def note_claimed_def split: claim_flow.splits option.splits prod.splits)
  qed
  show ?thesis
    using assms run
    by (auto simp: claim_one_def Let_def split: if_splits dep_state.splits prod.splits acquired.splits dest!: move_at_scores)
      (metis scores_simps(6))+
qed

definition falling :: "rat list \<Rightarrow> bool" where
  "falling xs = sorted_wrt (\<lambda>a b. b \<le> a) xs"

lemma falling_loop:
  assumes "falling (claim_scores w)" and "sorted_wrt (\<lambda>p q. dflt (snd q) 0 \<le> dflt (snd p) 0) qs"
    and "\<forall>x\<in>set (claim_scores w). \<forall>q\<in>set qs. dflt (snd q) 0 \<le> x" and "claim_loop ce qs w = (e, w')"
  shows "falling (claim_scores w')"
  using assms
proof (induction qs arbitrary: w)
  case (Cons q qs)
  obtain f w1 where one: "claim_one ce (fst q) (snd q) w = (f, w1)" by fastforce
  note sc = claim_one_scores [OF one]
  have f1: "falling (claim_scores w1)"
    using sc Cons.prems(1,3) by (auto simp: falling_def sorted_wrt_append)
  show ?case
  proof (cases f)
    case Next
    have "\<forall>x\<in>set (claim_scores w1). \<forall>q\<in>set qs. dflt (snd q) 0 \<le> x"
    proof (intro ballI)
      fix x p assume x: "x \<in> set (claim_scores w1)" and p: "p \<in> set qs"
      have "x \<in> set (claim_scores w) \<or> x = dflt (snd q) 0" using sc x by auto
      moreover have "dflt (snd p) 0 \<le> dflt (snd q) 0" using Cons.prems(2) p by simp
      ultimately show "dflt (snd p) 0 \<le> x" using Cons.prems(3) p by auto
    qed
    then show ?thesis using Cons.IH [OF f1] Cons.prems(2,4) one Next by simp
  qed (use Cons.prems(4) one f1 in auto)
qed simp

lemma runnable_falls: "sorted_wrt (\<lambda>p q. dflt (snd q) 0 \<le> dflt (snd p) 0) (runnable now ts)"
proof -
  have "sorted (map (\<lambda>(k, s). - dflt s 0) (runnable now ts))" unfolding runnable_def by (rule sorted_sort_key)
  then show ?thesis by (simp add: sorted_map case_prod_unfold)
qed

section \<open>What a pulse's claims guarantee\<close>

text \<open>C6. Whatever the models, the network and the budgets do, a pulse leaves its queue well formed: a task that was not
  pending is untouched, and a pending one is still pending or stopped in a legal status, unless GitHub refused a
  call, which ends the loop with that one task running. It never claims more than its ceiling, and when the
  loop was not cut short the lease of every task it claimed is free again.\<close>

theorem pulse_settles_its_claims:
  assumes "queue_wf (pw_tasks w)" and "pw_owned w = []"
  shows "case claimAndRun ce w of (e, w') \<Rightarrow>
    list_all2 (outcome_ok (e \<noteq> None)) (pw_tasks w) (pw_tasks w') \<and>
    pn_claimed (pw_counts w') \<le> max (pn_claimed (pw_counts w)) (ce_maxTasks ce) \<and>
    (case e of
       Some x \<Rightarrow> github_exn x
     | None \<Rightarrow> list_all (\<lambda>i. ld_files (pw_leases w') (pathFor i) = None) (pw_owned w'))"
proof -
  obtain e w' where r: "claimAndRun ce w = (e, w')" by fastforce
  from claim_loop_effect [OF assms(1) runnable_positions r [unfolded claimAndRun_def]] assms(2)
  show ?thesis by (auto simp: r all_released_def list_all_iff split: option.splits)
qed


text \<open>An instance: a pending task that waits for nothing.\<close>

definition demo_pulse :: pulse_world where
  "demo_pulse = \<lparr>pw_tasks = [demo_task\<lparr>et_core := sample_task\<rparr>], pw_hub = quiet_hub, pw_files = demo_files, pw_leases = no_leases, pw_runs = [],
     pw_counts = no_pulse_counts, pw_owned = [], pw_saves = [], pw_notes = []\<rparr>"

definition demo_claims :: claim_env where
  "demo_claims = \<lparr>ce_now = 0, ce_maxTasks = 3, ce_env = (\<lambda>_ _. demo_env False)\<rparr>"

lemma demo_pulse_facts: "queue_wf (pw_tasks demo_pulse)" "distinct (map et_id (pw_tasks demo_pulse))" "pw_owned demo_pulse = []" "pw_notes demo_pulse = []"
  using wf_sample by (simp_all add: demo_pulse_def queue_wf_def)

theorem pulse_settles_its_claims_witness:
  "case claimAndRun demo_claims demo_pulse of (e, w') \<Rightarrow>
    list_all2 (outcome_ok (e \<noteq> None)) (pw_tasks demo_pulse) (pw_tasks w') \<and> pn_claimed (pw_counts w') \<le> 3 \<and>
    (case e of Some x \<Rightarrow> github_exn x | None \<Rightarrow> list_all (\<lambda>i. ld_files (pw_leases w') (pathFor i) = None) (pw_owned w'))"
proof -
  have "max (pn_claimed (pw_counts demo_pulse)) (ce_maxTasks demo_claims) = 3" by (simp add: demo_pulse_def no_pulse_counts_def demo_claims_def)
  with pulse_settles_its_claims [OF demo_pulse_facts(1,3), of demo_claims] show ?thesis by simp
qed


end
