(* ===== verification/Control_Commands.thy ===== *)
theory Control_Commands
  imports Regex
begin

text \<open>
  Who may steer the runner and in which words: \<open>src/security/authorization.js\<close> and
  \<open>src/control/commands.js\<close>. An actor is what GitHub puts on an issue or a comment; \<open>None\<close> stands for a field
  that is missing or not a string. Both components are pure.
\<close>

section \<open>Authorization\<close>

definition TRUSTED_ASSOCIATIONS :: "string list" where
  "TRUSTED_ASSOCIATIONS = [''OWNER'', ''MEMBER'', ''COLLABORATOR'']"

definition NEVER_TRUSTED_LOGINS :: "string list" where
  "NEVER_TRUSTED_LOGINS = [''github-actions[bot]'', ''dependabot[bot]'']"

text \<open>\<open>raw.split(/[,\s]+/)\<close>, each part trimmed, in lower case and without one leading \<open>@\<close>; a set keeps the first
  of equal logins. Empty parts are dropped, so a run of separators can be split at each of them.\<close>

definition drop_at :: "string \<Rightarrow> string" where
  "drop_at s = (case s of c # cs \<Rightarrow> if c = CHR ''@'' then cs else s | [] \<Rightarrow> [])"

definition parseLoginList :: "string option \<Rightarrow> string list" where
  "parseLoginList raw =
    (case raw of None \<Rightarrow> []
     | Some s \<Rightarrow> rev (remdups (rev (filter (\<lambda>l. l \<noteq> [])
         (map (\<lambda>p. drop_at (toLowerCase (js_trim p))) (split_on (\<lambda>c. c = CHR '','' \<or> is_space c) s))))))"

record authz =
  az_allowlist :: "string list"
  az_repoOwner :: "string option"
  az_trustAssociations :: bool

record actor =
  ak_login :: "string option"
  ak_type :: "string option"
  ak_association :: "string option"

record authorized =
  au_ok :: bool
  au_reason :: string
  au_login :: "string option"

definition lower_login :: "actor \<Rightarrow> string option" where
  "lower_login a = (case ak_login a of None \<Rightarrow> None | Some l \<Rightarrow> if l = [] then None else Some (toLowerCase l))"

definition association :: "actor \<Rightarrow> string" where
  "association a = (case ak_association a of None \<Rightarrow> [] | Some s \<Rightarrow> toUpperCase s)"

definition quoted :: "string \<Rightarrow> string" where
  "quoted s = [CHR 0x22] @ s @ [CHR 0x22]"

definition authorizeActor :: "actor \<Rightarrow> authz \<Rightarrow> authorized" where
  "authorizeActor a z =
    (case lower_login a of
       None \<Rightarrow> \<lparr>au_ok = False, au_reason = ''no author login on the payload'', au_login = None\<rparr>
     | Some l \<Rightarrow>
         (let out = (\<lambda>ok r. \<lparr>au_ok = ok, au_reason = r, au_login = Some l\<rparr>); asc = association a in
          if l \<in> set NEVER_TRUSTED_LOGINS \<or> ak_type a = Some ''Bot'' then out False (quoted l @ '' is a bot account'')
          else if (case az_repoOwner z of None \<Rightarrow> False | Some w \<Rightarrow> w \<noteq> [] \<and> l = w) then out True ''repository owner''
          else if l \<in> set (az_allowlist z) then out True ''login allowlist (TITAN_TASK_AUTHORS)''
          else if az_trustAssociations z \<and> asc \<in> set TRUSTED_ASSOCIATIONS then out True (''author_association '' @ asc)
          else out False (quoted l @ '' is not the owner, not allowlisted, and association is ''
            @ quoted (if asc = [] then ''NONE'' else asc))))"

definition authorizationContextFrom :: "string list \<Rightarrow> string option \<Rightarrow> bool option \<Rightarrow> authz" where
  "authorizationContextFrom taskAuthors repository trustCollaborators =
    \<lparr>az_allowlist = map toLowerCase taskAuthors,
     az_repoOwner = (case repository of None \<Rightarrow> None
        | Some r \<Rightarrow> if CHR ''/'' \<in> set r then Some (toLowerCase (takeWhile (\<lambda>c. c \<noteq> CHR ''/'') r)) else None),
     az_trustAssociations = (trustCollaborators = Some True)\<rparr>"

section \<open>The command grammar\<close>

definition COMMANDS :: "(string \<times> nat) list" where
  "COMMANDS = [(''retry'', 0), (''cancel'', 0), (''pause'', 0), (''resume'', 0), (''priority'', 1), (''approve'', 1), (''deny'', 1)]"

definition arg_char :: "char \<Rightarrow> bool" where
  "arg_char c = (is_lower c \<or> is_upper c \<or> is_digit c)"

definition ARG_PATTERN :: rx where
  "ARG_PATTERN = seqs [Bol, Cls arg_char, rep_upto 63 (Cls (\<lambda>c. arg_char c \<or> c \<in> set '':_.-'')), Eol]"

definition DASHBOARD_RETRY_MARKER :: string where
  "DASHBOARD_RETRY_MARKER = ''**Retry requested** from the TITAN-Runner dashboard''"

record command =
  cm_verb :: string
  cm_args :: "string list"
  cm_raw :: string

text \<open>The lines of a comment, and its first one that is not blank, trimmed.\<close>

definition first_line :: "string \<Rightarrow> string" where
  "first_line body = dflt (List.find (\<lambda>l. l \<noteq> []) (map js_trim (split_on (\<lambda>c. c = CHR 0x0A) body))) []"

text \<open>\<open>/^\/titan\s+([a-z]+)(?:\s+(.*))?$/i\<close> on a trimmed line: the verb, and the rest after white space. The line holds no
  line feed; a carriage return inside the rest, which \<open>.\<close> refuses, makes the whole match fail.\<close>

definition line_end :: "char \<Rightarrow> bool" where
  "line_end c = (code_of c = 10 \<or> code_of c = 13)"

definition match_titan :: "string \<Rightarrow> (string \<times> string) option" where
  "match_titan l =
    (if \<not> startsWith (toLowerCase l) ''/titan'' then None
     else (let r = drop 6 l; s = dropWhile is_space r; v = takeWhile (\<lambda>c. is_lower (lower_char c)) s; rest = drop (length v) s in
       if s = r \<or> v = [] then None
       else (case rest of
           [] \<Rightarrow> Some (v, [])
         | c # cs \<Rightarrow>
             if \<not> is_space c then None
             else (let t = dropWhile is_space rest in if list_ex line_end t then None else Some (v, t)))))"

definition words_of :: "string \<Rightarrow> string list" where
  "words_of s = filter (\<lambda>w. w \<noteq> []) (split_on is_space (js_trim s))"

definition parseTitanCommand :: "string option \<Rightarrow> command option" where
  "parseTitanCommand body =
    (case body of None \<Rightarrow> None
     | Some b \<Rightarrow>
        (let l = first_line b in
         if startsWith l DASHBOARD_RETRY_MARKER then Some \<lparr>cm_verb = ''retry'', cm_args = [], cm_raw = l\<rparr>
         else (case match_titan l of
             None \<Rightarrow> None
           | Some (v, rest) \<Rightarrow>
               (let verb = toLowerCase v; args = words_of rest in
                case map_of COMMANDS verb of
                  None \<Rightarrow> None
                | Some n \<Rightarrow>
                    if length args = n \<and> list_all (rx_test ARG_PATTERN) args
                    then Some \<lparr>cm_verb = verb, cm_args = args, cm_raw = take 200 l\<rparr> else None))))"

end
