(* ===== verification/Task_Yaml.thy ===== *)
theory Task_Yaml
  imports Regex Mini_Yaml
begin

text \<open>
  The machine-readable block of a task issue: the generator \<open>dashboard/lib/taskYaml.ts\<close> and the parser
  \<open>src/lib/taskYaml.js\<close>, which each promises to be in lockstep with the other. \<open>Date.parse\<close> and \<open>Number\<close> on
  arbitrary text are the arguments \<open>dp\<close> and \<open>num\<close> (\<open>None\<close> is NaN). The main result is the round trip.
\<close>

definition nl :: char where "nl = CHR 0x0A"

section \<open>The parser\<close>

definition VALID_PRIORITIES :: "string list" where
  "VALID_PRIORITIES = [''low'', ''normal'', ''high'', ''urgent'']"

definition VALID_ROUTING_HINTS :: "string list" where
  "VALID_ROUTING_HINTS = [''fast'', ''cheap'', ''careful'', ''any'']"

definition VALID_AUTONOMY :: "string list" where
  "VALID_AUTONOMY = [''dry-run'', ''propose'', ''approval'', ''autonomous'']"

definition MAX_DEPENDENCIES :: nat where "MAX_DEPENDENCIES = 8"
definition MAX_TTL_HOURS :: rat where "MAX_TTL_HOURS = 24 * 30"

text \<open>\<open>TASK_ID_PATTERN\<close>: \<open>issue-\<close> or \<open>manual-\<close> and digits.\<close>

definition is_task_id :: "string \<Rightarrow> bool" where
  "is_task_id s =
    ((startsWith s ''issue-'' \<and> drop 6 s \<noteq> [] \<and> list_all is_digit (drop 6 s)) \<or>
     (startsWith s ''manual-'' \<and> drop 7 s \<noteq> [] \<and> list_all is_digit (drop 7 s)))"

text \<open>\<open>.replace(/\\"/g, '"')\<close> and \<open>.replace(/\\\\/g, '\\')\<close>.\<close>

fun unescape_quotes :: "string \<Rightarrow> string" where
  "unescape_quotes (a # b # cs) =
     (if a = backslash \<and> b = dquote then dquote # unescape_quotes cs else a # unescape_quotes (b # cs))"
| "unescape_quotes cs = cs"

fun unescape_backslashes :: "string \<Rightarrow> string" where
  "unescape_backslashes (a # b # cs) =
     (if a = backslash \<and> b = backslash then backslash # unescape_backslashes cs else a # unescape_backslashes (b # cs))"
| "unescape_backslashes cs = cs"

definition unquoteScalar :: "string \<Rightarrow> string" where
  "unquoteScalar raw =
    (let t = js_trim raw in
     if startsWith t [dquote] \<and> endsWith t [dquote] \<and> 2 \<le> length t
     then unescape_backslashes (unescape_quotes (butlast (tl t))) else t)"

text \<open>\<open>FENCE_PATTERN\<close> at one position: the group is the text after the last line feed of the white space that
  follows the tag, up to the first \<open>-->\<close>.\<close>

definition ARROW :: string where "ARROW = ''-->''"

fun upto_arrow :: "string \<Rightarrow> string option" where
  "upto_arrow [] = None"
| "upto_arrow (c # cs) = (if startsWith (c # cs) ARROW then Some [] else map_option (Cons c) (upto_arrow cs))"

definition block_at :: "string \<Rightarrow> string option" where
  "block_at s =
    (if \<not> startsWith s ''<!--'' then None
     else (let r = dropWhile is_space (drop 4 s) in
       if \<not> startsWith r ''titan-task-v1'' then None
       else (let t = drop 13 r; ws = takeWhile is_space t in
         if nl \<notin> set ws then None
         else upto_arrow (rev (takeWhile (\<lambda>c. c \<noteq> nl) (rev ws)) @ dropWhile is_space t))))"

fun find_fence :: "string \<Rightarrow> string option" where
  "find_fence [] = None"
| "find_fence (c # cs) = (case block_at (c # cs) of Some t \<Rightarrow> Some t | None \<Rightarrow> find_fence cs)"

text \<open>\<open>/^(\w+):\s*(.*)$/\<close> on a line; \<open>.\<close> refuses a carriage return.\<close>

definition cr_or_lf :: "char \<Rightarrow> bool" where
  "cr_or_lf c = (code_of c = 10 \<or> code_of c = 13)"

definition scalar_line :: "string \<Rightarrow> (string \<times> string) option" where
  "scalar_line l =
    (let k = takeWhile is_word l; r = drop (length k) l in
     case r of
       [] \<Rightarrow> None
     | c # cs \<Rightarrow>
         if k = [] \<or> c \<noteq> CHR '':'' then None
         else (let v = dropWhile is_space cs in if list_ex cr_or_lf v then None else Some (k, v)))"

text \<open>The block scalar: blank lines and lines indented by two, and what is left.\<close>

fun block_lines :: "string list \<Rightarrow> string list \<times> string list" where
  "block_lines [] = ([], [])"
| "block_lines (l # ls) =
     (if l = [] then (let (b, r) = block_lines ls in ([] # b, r))
      else if \<not> startsWith l ''  '' then ([], l # ls)
      else (let (b, r) = block_lines ls in (drop 2 l # b, r)))"

lemma block_lines_shorter: "length (snd (block_lines ls)) \<le> length ls"
  by (induction ls) (auto simp: Let_def split: prod.splits)

definition drop_blank_tail :: "string list \<Rightarrow> string list" where
  "drop_blank_tail ls = rev (dropWhile (\<lambda>l. l = []) (rev ls))"

type_synonym fields = "(string \<Rightarrow> string option) \<times> string option"

function (sequential) read_fields :: "string list \<Rightarrow> fields \<Rightarrow> fields" where
  "read_fields [] f = f"
| "read_fields (l # ls) f =
     (case scalar_line l of
        None \<Rightarrow> read_fields ls f
      | Some (k, v) \<Rightarrow>
          if k = ''description'' \<and> js_trim v = ''|''
          then read_fields (snd (block_lines ls)) (fst f, Some (join_with [nl] (drop_blank_tail (fst (block_lines ls)))))
          else read_fields ls ((fst f)(k \<mapsto> unquoteScalar v), snd f))"
  by pat_completeness auto
termination
  by (relation "measure (\<lambda>(ls, _). length ls)") (auto simp: le_imp_less_Suc block_lines_shorter)

record task_spec =
  sp_title :: string
  sp_description :: string
  sp_priority :: string
  sp_routingHint :: string
  sp_filedVia :: "string option"
  sp_dependsOn :: "string list"
  sp_deadline :: "int option"
  sp_ttlHours :: "rat option"
  sp_autonomy :: "string option"

definition member_or :: "string list \<Rightarrow> string option \<Rightarrow> string \<Rightarrow> string" where
  "member_or valid v d = (case v of None \<Rightarrow> d | Some s \<Rightarrow> if s \<in> set valid then s else d)"

definition depends_list :: "string option \<Rightarrow> string list" where
  "depends_list v =
    (case v of None \<Rightarrow> []
     | Some s \<Rightarrow> take MAX_DEPENDENCIES (rev (remdups (rev
         (filter is_task_id (map js_trim (split_on (\<lambda>c. c = CHR '','' \<or> is_space c) s)))))))"

definition spec_of :: "(string \<Rightarrow> int option) \<Rightarrow> (string \<Rightarrow> rat option) \<Rightarrow> fields \<Rightarrow> task_spec option" where
  "spec_of dp num f =
    (let sc = fst f; title = js_trim (dflt (sc ''title'') []) in
     case snd f of
       None \<Rightarrow> None
     | Some d \<Rightarrow>
         if title = [] \<or> js_trim d = [] then None
         else Some \<lparr>sp_title = title, sp_description = d,
           sp_priority = member_or VALID_PRIORITIES (sc ''priority'') ''normal'',
           sp_routingHint = member_or VALID_ROUTING_HINTS (sc ''routingHint'') ''any'',
           sp_filedVia = sc ''filedVia'',
           sp_dependsOn = depends_list (sc ''dependsOn''),
           sp_deadline = Option.bind (sc ''deadline'') dp,
           sp_ttlHours = (case Option.bind (sc ''ttlHours'') num of
              None \<Rightarrow> None | Some r \<Rightarrow> if 0 < r then Some (min r MAX_TTL_HOURS) else None),
           sp_autonomy = (case sc ''autonomy'' of None \<Rightarrow> None | Some s \<Rightarrow> if s \<in> set VALID_AUTONOMY then Some s else None)\<rparr>)"

definition parseTaskYaml :: "(string \<Rightarrow> int option) \<Rightarrow> (string \<Rightarrow> rat option) \<Rightarrow> string \<Rightarrow> task_spec option" where
  "parseTaskYaml dp num body =
    (case find_fence body of
       None \<Rightarrow> None
     | Some t \<Rightarrow> spec_of dp num (read_fields (split_on (\<lambda>c. c = nl) t) (Map.empty, None)))"

section \<open>The generator\<close>

record task_input =
  ti_title :: string
  ti_description :: string
  ti_priority :: string
  ti_routingHint :: string
  ti_dependsOn :: "string list"
  ti_deadline :: "string option"
  ti_ttlHours :: "rat option"
  ti_autonomy :: "string option"

fun escape_scalar :: "string \<Rightarrow> string" where
  "escape_scalar [] = []"
| "escape_scalar (c # cs) =
     (if c = backslash then [backslash, backslash] else if c = dquote then [backslash, dquote] else [c]) @ escape_scalar cs"

text \<open>Doubling the backslashes first and then escaping the quotes touches each character once, as here.\<close>

definition quoteScalar :: "string \<Rightarrow> string" where
  "quoteScalar v = [dquote] @ escape_scalar v @ [dquote]"

fun crlf_to_lf :: "string \<Rightarrow> string" where
  "crlf_to_lf (a # b # cs) =
     (if a = CHR 0x0D \<and> b = nl then nl # crlf_to_lf cs else a # crlf_to_lf (b # cs))"
| "crlf_to_lf cs = cs"

definition blockScalar :: "string \<Rightarrow> string list" where
  "blockScalar v = map (\<lambda>l. if l = [] then [] else ''  '' @ l) (split_on (\<lambda>c. c = nl) (crlf_to_lf v))"

definition dep_char :: "char \<Rightarrow> bool" where
  "dep_char c = (is_word c \<or> c = CHR ''-'')"

definition usable_dep :: "string \<Rightarrow> bool" where
  "usable_dep i = (1 \<le> length i \<and> length i \<le> 64 \<and> list_all dep_char i)"

definition FENCE_START :: string where "FENCE_START = ''<!-- titan-task-v1''"

definition scalar_lines :: "task_input \<Rightarrow> string list" where
  "scalar_lines t =
    (let deps = filter usable_dep (ti_dependsOn t) in
     [''title: '' @ quoteScalar (ti_title t), ''priority: '' @ ti_priority t, ''routingHint: '' @ ti_routingHint t, ''filedVia: dashboard'']
     @ (if deps = [] then [] else [''dependsOn: '' @ join_with '', '' deps])
     @ (case ti_deadline t of None \<Rightarrow> [] | Some d \<Rightarrow> if d = [] then [] else [''deadline: '' @ d])
     @ (case ti_ttlHours t of None \<Rightarrow> [] | Some h \<Rightarrow> if 0 < h then [''ttlHours: '' @ show_nat (nat \<lfloor>h + 1 / 2\<rfloor>)] else [])
     @ (case ti_autonomy t of None \<Rightarrow> [] | Some a \<Rightarrow> if a = [] then [] else [''autonomy: '' @ a]))"

definition buildYamlBlock :: "task_input \<Rightarrow> string" where
  "buildYamlBlock t =
    join_with [nl] ([FENCE_START] @ scalar_lines t @ [''description: |'', join_with [nl] (blockScalar (ti_description t)), ARROW])"

definition buildIssueBody :: "task_input \<Rightarrow> string" where
  "buildIssueBody t =
    (let p = ti_priority t; label = (case p of [] \<Rightarrow> [] | c # cs \<Rightarrow> upper_char c # cs);
         hint = (if ti_routingHint t = ''any'' then ''any (no preference)'' else ti_routingHint t) in
     join_with [nl]
       [js_trim (ti_description t), [], ''**Priority:** '' @ label @ '' '' @ utf8 183 @ '' **Routing hint:** '' @ hint, [],
        buildYamlBlock t, [], ''---'', ''_Filed via the TITAN-Runner dashboard's task-filing modal._''])"

section \<open>Substrings\<close>

lemma includes_app_right: "str_includes b p \<Longrightarrow> str_includes (a @ b) p"
  by (induction a) auto

lemma startsWith_app: "startsWith a p \<Longrightarrow> startsWith (a @ b) p"
  by (auto simp: startsWith_def) (metis append_eq_conv_conj append_take_drop_id length_append length_take min.absorb_iff2 nat_le_linear take_all)

lemma includes_app_left: "str_includes a p \<Longrightarrow> str_includes (a @ b) p"
proof (induction a)
  case Nil
  then show ?case by (cases b) (auto simp: startsWith_def)
next
  case (Cons c cs)
  then show ?case using startsWith_app [of "c # cs" p b] by auto
qed

text \<open>A character the pattern does not have separates the places where it can occur.\<close>

lemma starts_before_sep: "startsWith (a @ x # b) p \<Longrightarrow> x \<notin> set p \<Longrightarrow> startsWith a p"
proof (induction a arbitrary: p)
  case Nil
  then show ?case by (cases p) (auto simp: startsWith_def)
next
  case (Cons c cs)
  then show ?case by (cases p) (auto simp: startsWith_def)
qed

lemma includes_sep: "str_includes (a @ x # b) p \<Longrightarrow> x \<notin> set p \<Longrightarrow> p \<noteq> [] \<Longrightarrow> str_includes a p \<or> str_includes b p"
proof (induction a)
  case Nil
  then show ?case by (cases p) (auto simp: startsWith_def)
next
  case (Cons c cs)
  then show ?case using starts_before_sep [of "c # cs" x b p] by auto
qed

lemma includes_chars: "str_includes s p \<Longrightarrow> set p \<subseteq> set s"
  by (induction s) (auto simp: startsWith_def dest!: arg_cong [where f = set] in_set_takeD)

lemma hd_split_prefix: "startsWith (hd (split_on P s)) p \<Longrightarrow> startsWith s p"
proof -
  have "\<exists>r. s = hd (split_on P s) @ r" for s
  proof (induction s)
    case (Cons c cs)
    then show ?case by (cases "split_on P cs") auto
  qed simp
  then obtain r where "s = hd (split_on P s) @ r" by blast
  then show "startsWith (hd (split_on P s)) p \<Longrightarrow> startsWith s p" by (metis startsWith_app)
qed

lemma includes_split: "w \<in> set (split_on P s) \<Longrightarrow> str_includes w p \<Longrightarrow> str_includes s p"
proof (induction s arbitrary: w)
  case (Cons c cs)
  obtain v vs where v: "split_on P cs = v # vs" by (cases "split_on P cs") auto
  show ?case
  proof (cases "P c \<or> w \<in> set vs")
    case True
    then show ?thesis using Cons v by (auto simp: startsWith_def split: if_splits)
  next
    case False
    then have w: "w = c # v" using Cons.prems(1) v by simp
    then have "startsWith (c # v) p \<or> str_includes v p" using Cons.prems(2) by simp
    moreover have "startsWith (c # cs) p" if "startsWith (c # v) p"
      using hd_split_prefix [of P "c # cs" p] False v that by simp
    ultimately show ?thesis using Cons.IH [of v] v by auto
  qed
qed simp

lemma includes_join:
  "str_includes (join_with [x] ls) p \<Longrightarrow> x \<notin> set p \<Longrightarrow> p \<noteq> [] \<Longrightarrow> \<exists>l\<in>set ls. str_includes l p"
proof (induction ls)
  case Nil
  then show ?case by (cases p) (auto simp: startsWith_def)
next
  case (Cons l ls)
  show ?case
  proof (cases ls)
    case Nil
    then show ?thesis using Cons.prems by simp
  next
    case (Cons m ms)
    then have "str_includes (l @ x # join_with [x] ls) p" using Cons.prems(1) by simp
    then show ?thesis using includes_sep [of l x "join_with [x] ls" p] Cons.IH Cons.prems(2,3) by auto
  qed
qed


section \<open>Finding the block again\<close>

lemma find_fence_skips: "\<not> str_includes m ''<!--'' \<Longrightarrow> find_fence (m @ nl # z) = find_fence (nl # z)"
proof (induction m)
  case (Cons c m)
  have "\<not> startsWith ((c # m) @ nl # z) ''<!--''"
  proof
    assume "startsWith ((c # m) @ nl # z) ''<!--''"
    then have "startsWith (c # m) ''<!--''" by (rule starts_before_sep) (simp add: nl_def)
    then show False using Cons.prems by simp
  qed
  then show ?case using Cons by (simp add: block_at_def)
qed simp

lemma find_fence_nl: "find_fence (nl # z) = find_fence z"
  by (simp add: block_at_def startsWith_def nl_def)

lemma upto_arrow_block: "\<not> str_includes m ARROW \<Longrightarrow> upto_arrow (m @ nl # ARROW @ z) = Some (m @ [nl])"
proof (induction m)
  case Nil
  then show ?case by (simp add: ARROW_def startsWith_def nl_def)
next
  case (Cons c m)
  have "\<not> startsWith ((c # m) @ nl # ARROW @ z) ARROW"
  proof
    assume "startsWith ((c # m) @ nl # ARROW @ z) ARROW"
    then have "startsWith (c # m) ARROW" by (rule starts_before_sep) (simp add: nl_def ARROW_def)
    then show False using Cons.prems by simp
  qed
  then show ?case using Cons by simp
qed

lemma block_at_start: "x \<noteq> [] \<Longrightarrow> \<not> is_space (hd x) \<Longrightarrow> block_at (FENCE_START @ nl # x) = upto_arrow x"
proof -
  have sp: "is_space CHR '' ''" "is_space nl" "\<not> is_space CHR ''t''" by code_simp+
  assume "x \<noteq> []" and "\<not> is_space (hd x)"
  then obtain y ys where x: "x = y # ys" "\<not> is_space y" by (cases x) auto
  have d: "dropWhile is_space (drop 4 (FENCE_START @ nl # x)) = ''titan-task-v1'' @ nl # x"
    using sp by (simp add: FENCE_START_def)
  have s: "startsWith (FENCE_START @ nl # x) ''<!--''" by (simp add: FENCE_START_def startsWith_def)
  have t: "startsWith (''titan-task-v1'' @ nl # x) ''titan-task-v1''" "drop 13 (''titan-task-v1'' @ nl # x) = nl # x"
    by (simp_all add: startsWith_def)
  show ?thesis unfolding block_at_def Let_def d t using s t(1) sp x by simp
qed

lemma find_fence_block:
  assumes "\<not> str_includes pre ''<!--''" "x \<noteq> []" "\<not> is_space (hd x)" "\<not> str_includes x ARROW"
  shows "find_fence (pre @ nl # FENCE_START @ nl # x @ nl # ARROW @ z) = Some (x @ [nl])"
proof -
  have "block_at (FENCE_START @ nl # x @ nl # ARROW @ z) = upto_arrow (x @ nl # ARROW @ z)"
    using assms(2,3) by (intro block_at_start) auto
  then have f: "block_at (FENCE_START @ nl # x @ nl # ARROW @ z) = Some (x @ [nl])" using upto_arrow_block [OF assms(4)] by simp
  obtain c cs where "FENCE_START @ nl # x @ nl # ARROW @ z = c # cs" by (cases "FENCE_START @ nl # x @ nl # ARROW @ z") simp_all
  then have "find_fence (FENCE_START @ nl # x @ nl # ARROW @ z) = Some (x @ [nl])" using f by simp
  then show ?thesis using find_fence_skips [OF assms(1), of "FENCE_START @ nl # x @ nl # ARROW @ z"] by (simp only: find_fence_nl)
qed

section \<open>Quoting\<close>

fun double_backslashes :: "string \<Rightarrow> string" where
  "double_backslashes [] = []"
| "double_backslashes (c # cs) = (if c = backslash then [backslash, backslash] else [c]) @ double_backslashes cs"

lemma quote_not_backslash: "dquote \<noteq> backslash"
  by (simp add: dquote_def backslash_def)

lemma unescape_quotes_step:
  "unescape_quotes (a # cs) = (if a = backslash \<and> cs \<noteq> [] \<and> hd cs = dquote then dquote # unescape_quotes (tl cs) else a # unescape_quotes cs)"
  by (cases cs) auto

lemma unescape_backslashes_step:
  "unescape_backslashes (a # cs) = (if a = backslash \<and> cs \<noteq> [] \<and> hd cs = backslash then backslash # unescape_backslashes (tl cs) else a # unescape_backslashes cs)"
  by (cases cs) auto

lemma escape_no_quote_head: "escape_scalar cs \<noteq> [] \<Longrightarrow> hd (escape_scalar cs) \<noteq> dquote"
  using quote_not_backslash by (cases cs) auto

lemma unescape_escape_quotes: "unescape_quotes (escape_scalar s) = double_backslashes s"
  using quote_not_backslash escape_no_quote_head by (induction s) (auto simp: unescape_quotes_step)

lemma unescape_doubled: "unescape_backslashes (double_backslashes s) = s"
  by (induction s) (auto simp: unescape_backslashes_step)

lemma unquote_quote: "unquoteScalar (quoteScalar s) = s"
proof -
  have d: "\<not> is_space dquote" by code_simp
  have "js_trim (quoteScalar s) = quoteScalar s" by (rule js_trim_id) (simp_all add: quoteScalar_def d)
  then show ?thesis
    by (simp add: unquoteScalar_def quoteScalar_def startsWith_def endsWith_def butlast_append unescape_escape_quotes unescape_doubled)
qed

lemma unquote_plain: "v \<noteq> [] \<Longrightarrow> \<not> is_space (hd v) \<Longrightarrow> \<not> is_space (last v) \<Longrightarrow> hd v \<noteq> dquote \<Longrightarrow> unquoteScalar v = v"
  by (cases v) (simp_all add: unquoteScalar_def js_trim_id startsWith_def)

lemma escape_starts:
  "startsWith (escape_scalar cs) p \<Longrightarrow> backslash \<notin> set p \<Longrightarrow> dquote \<notin> set p \<Longrightarrow> startsWith cs p"
proof (induction cs arbitrary: p)
  case (Cons c cs)
  then show ?case by (cases p) (auto simp: startsWith_def split: if_splits)
qed simp

lemma escape_includes:
  "str_includes (escape_scalar cs) p \<Longrightarrow> backslash \<notin> set p \<Longrightarrow> dquote \<notin> set p \<Longrightarrow> p \<noteq> [] \<Longrightarrow> str_includes cs p"
proof (induction cs)
  case (Cons c cs)
  have ns: "\<not> startsWith (backslash # r) p" "\<not> startsWith (dquote # r) p" for r
    using Cons.prems by (cases p; auto simp: startsWith_def)+
  show ?case
  proof (cases "c = backslash \<or> c = dquote")
    case True
    then show ?thesis using Cons ns quote_not_backslash by (auto split: if_splits)
  next
    case False
    then have "startsWith (c # escape_scalar cs) p \<or> str_includes (escape_scalar cs) p" using Cons.prems(1) by simp
    moreover have "startsWith (c # cs) p" if "startsWith (c # escape_scalar cs) p"
      using escape_starts [of "c # cs" p] that False Cons.prems(2,3) by simp
    ultimately show ?thesis using Cons.IH Cons.prems by auto
  qed
qed simp

lemma quote_includes:
  assumes "str_includes (quoteScalar v) p" "backslash \<notin> set p" "dquote \<notin> set p" "p \<noteq> []"
  shows "str_includes v p"
proof -
  have "str_includes ([] @ dquote # (escape_scalar v @ [dquote])) p" using assms(1) by (simp add: quoteScalar_def)
  then have "str_includes (escape_scalar v @ dquote # []) p" using includes_sep [of "[]" dquote _ p] assms(3,4) by auto
  then have "str_includes (escape_scalar v) p" using includes_sep [of "escape_scalar v" dquote "[]" p] assms(3,4) by auto
  then show ?thesis using escape_includes assms by blast
qed

lemma escape_set: "set (escape_scalar v) \<subseteq> set v \<union> {backslash, dquote}"
  by (induction v) auto


section \<open>The lines of the block\<close>

lemma split_word: "\<forall>c\<in>set w. \<not> P c \<Longrightarrow> P c \<Longrightarrow> split_on P (w @ c # s) = w # split_on P s"
  by (induction w) auto

lemma split_one_word: "\<forall>c\<in>set w. \<not> P c \<Longrightarrow> split_on P w = [w]"
  by (induction w) auto

lemma join_snoc: "ls \<noteq> [] \<Longrightarrow> join_with [x] (ls @ [l]) = join_with [x] ls @ x # l"
  by (induction ls rule: induct_list012) auto

lemma join_nested: "ms \<noteq> [] \<Longrightarrow> join_with [x] (ls @ [join_with [x] ms]) = join_with [x] (ls @ ms)"
proof (induction ls)
  case (Cons l ls)
  then show ?case by (cases "ls @ ms") (cases ls; auto)+
qed simp

lemma last_split: "s \<noteq> [] \<Longrightarrow> \<not> P (last s) \<Longrightarrow> last (split_on P s) \<noteq> []"
proof (induction s)
  case (Cons c s)
  show ?case
  proof (cases s)
    case Nil
    then show ?thesis using Cons.prems by auto
  next
    case (Cons d ds)
    then have "last (split_on P s) \<noteq> []" using Cons.IH Cons.prems by simp
    then show ?thesis by (cases "split_on P s") auto
  qed
qed simp

definition line_of :: "string \<times> string \<Rightarrow> string" where
  "line_of kv = fst kv @ '': '' @ snd kv"

definition plain_pair :: "string \<times> string \<Rightarrow> bool" where
  "plain_pair kv =
    (fst kv \<noteq> [] \<and> list_all is_word (fst kv) \<and> fst kv \<noteq> ''description'' \<and>
     snd kv \<noteq> [] \<and> \<not> is_space (hd (snd kv)) \<and> \<not> list_ex cr_or_lf (snd kv))"

lemma takeWhile_word: "list_all is_word k \<Longrightarrow> takeWhile is_word (k @ CHR '':'' # r) = k"
proof -
  have "\<not> is_word CHR '':''" by code_simp
  then show "list_all is_word k \<Longrightarrow> takeWhile is_word (k @ CHR '':'' # r) = k" by (induction k) auto
qed

lemma scalar_line_of:
  assumes "k \<noteq> []" "list_all is_word k" "v = [] \<or> \<not> is_space (hd v)" "\<not> list_ex cr_or_lf v"
  shows "scalar_line (k @ '': '' @ v) = Some (k, v)"
proof -
  have sp: "is_space CHR '' ''" by code_simp
  have "dropWhile is_space v = v" using assms(3) by (cases v) auto
  then show ?thesis using assms sp by (simp add: scalar_line_def takeWhile_word)
qed

definition put_pair :: "string \<times> string \<Rightarrow> (string \<Rightarrow> string option) \<Rightarrow> string \<Rightarrow> string option" where
  "put_pair kv m = m(fst kv \<mapsto> unquoteScalar (snd kv))"

lemma read_pairs:
  "list_all plain_pair kvs \<Longrightarrow> read_fields (map line_of kvs @ ls) (m, d) = read_fields ls (fold put_pair kvs m, d)"
proof (induction kvs arbitrary: m)
  case (Cons kv kvs)
  obtain k v where kv: "kv = (k, v)" by (cases kv) simp
  have l: "scalar_line (line_of (k, v)) = Some (k, v)"
    unfolding line_of_def fst_conv snd_conv using Cons.prems by (intro scalar_line_of) (auto simp: plain_pair_def kv)
  have "k \<noteq> ''description''" "list_all plain_pair kvs" using Cons.prems by (simp_all add: kv, simp add: plain_pair_def)
  moreover have "m(k \<mapsto> unquoteScalar v) = put_pair (k, v) m" by (simp only: put_pair_def fst_conv snd_conv)
  ultimately show ?case unfolding kv by (simp only: list.map fold_simps append_Cons read_fields.simps l option.case prod.case simp_thms if_False fst_conv snd_conv Cons.IH)
qed simp

lemma block_lines_indented:
  "block_lines (map (\<lambda>l. if l = [] then [] else ''  '' @ l) ls @ [[]]) = (ls @ [[]], [])"
  by (induction ls) (auto simp: startsWith_def Let_def)

lemma drop_blank_tail_split: "ls \<noteq> [] \<Longrightarrow> last ls \<noteq> [] \<Longrightarrow> drop_blank_tail (ls @ [[]]) = ls"
  by (cases ls rule: rev_cases) (simp_all add: drop_blank_tail_def)

lemma crlf_id: "CHR 0x0D \<notin> set s \<Longrightarrow> crlf_to_lf s = s"
  by (induction s rule: crlf_to_lf.induct) auto

lemma read_description:
  assumes "s \<noteq> []" "last s \<noteq> nl" "CHR 0x0D \<notin> set s"
  shows "read_fields ([''description: |''] @ blockScalar s @ [[]]) (m, d) = (m, Some s)"
proof -
  have l: "scalar_line ''description: |'' = Some (''description'', ''|'')" by code_simp
  have t: "js_trim ''|'' = ''|''" by code_simp
  let ?ls = "split_on (\<lambda>c. c = nl) s"
  have b: "block_lines (blockScalar s @ [[]]) = (?ls @ [[]], [])"
    by (simp only: blockScalar_def crlf_id [OF assms(3)] block_lines_indented)
  have "last ?ls \<noteq> []" using assms(1,2) by (intro last_split)
  then have "drop_blank_tail (?ls @ [[]]) = ?ls" by (intro drop_blank_tail_split) simp_all
  then show ?thesis using l t b by (simp add: join_split)
qed


section \<open>The round trip\<close>

definition block_pairs :: "task_input \<Rightarrow> (string \<times> string) list" where
  "block_pairs t =
    (let deps = filter usable_dep (ti_dependsOn t) in
     [(''title'', quoteScalar (ti_title t)), (''priority'', ti_priority t), (''routingHint'', ti_routingHint t), (''filedVia'', ''dashboard'')]
     @ (if deps = [] then [] else [(''dependsOn'', join_with '', '' deps)])
     @ (case ti_deadline t of None \<Rightarrow> [] | Some d \<Rightarrow> if d = [] then [] else [(''deadline'', d)])
     @ (case ti_ttlHours t of None \<Rightarrow> [] | Some h \<Rightarrow> if 0 < h then [(''ttlHours'', show_nat (nat \<lfloor>h + 1 / 2\<rfloor>))] else [])
     @ (case ti_autonomy t of None \<Rightarrow> [] | Some a \<Rightarrow> if a = [] then [] else [(''autonomy'', a)]))"

lemma scalar_lines_pairs: "scalar_lines t = map line_of (block_pairs t)"
  by (simp add: scalar_lines_def block_pairs_def Let_def line_of_def split: option.split)

text \<open>A value that survives on a line of its own without quotes.\<close>

definition plain_value :: "string \<Rightarrow> bool" where
  "plain_value v =
    (v \<noteq> [] \<and> \<not> is_space (hd v) \<and> \<not> is_space (last v) \<and> hd v \<noteq> dquote \<and> \<not> list_ex cr_or_lf v \<and> \<not> str_includes v ARROW)"

definition plain_input :: "task_input \<Rightarrow> bool" where
  "plain_input t =
    (js_trim (ti_title t) \<noteq> [] \<and> \<not> list_ex cr_or_lf (ti_title t) \<and> \<not> str_includes (ti_title t) ARROW \<and>
     js_trim (ti_description t) \<noteq> [] \<and> CHR 0x0D \<notin> set (ti_description t) \<and> last (ti_description t) \<noteq> nl \<and>
     \<not> str_includes (ti_description t) ARROW \<and> \<not> str_includes (ti_description t) ''<!--'' \<and>
     ti_priority t \<in> set VALID_PRIORITIES \<and> ti_routingHint t \<in> set VALID_ROUTING_HINTS \<and>
     (case ti_autonomy t of None \<Rightarrow> True | Some a \<Rightarrow> a \<in> set VALID_AUTONOMY) \<and>
     (case ti_deadline t of None \<Rightarrow> True | Some d \<Rightarrow> plain_value d))"

text \<open>The dependencies that reach the parser's list.\<close>

definition first_only :: "'a list \<Rightarrow> 'a list" where
  "first_only xs = rev (remdups (rev xs))"

definition parsed_ttl :: "rat option \<Rightarrow> rat option" where
  "parsed_ttl h =
    (case h of None \<Rightarrow> None
     | Some r \<Rightarrow> if 0 < r \<and> 0 < nat \<lfloor>r + 1 / 2\<rfloor> then Some (min (of_nat (nat \<lfloor>r + 1 / 2\<rfloor>)) MAX_TTL_HOURS) else None)"

subsection \<open>Values\<close>

lemma show_nat_digits: "show_nat n \<noteq> [] \<and> list_all is_digit (show_nat n)"
proof (induction n rule: show_nat.induct)
  case (1 n)
  have d: "is_digit (char_of (48 + m))" if "m < 10" for m :: nat
    using that by (simp add: is_digit_def code_of_def)
  show ?case using 1 d [of n] d [of "n mod 10"] by (subst (1 2) show_nat.simps) auto
qed

lemma class_codes: "code_of (CHR '','') = 44" "code_of (CHR ''>'') = 62" "code_of dquote = 34" "code_of (CHR ''-'') = 45" "code_of (CHR ''_'') = 95"
  by (simp_all add: code_of_def dquote_def)

lemmas char_classes = is_digit_def is_word_def is_lower_def is_upper_def is_space_def cr_or_lf_def dep_char_def

lemma cr_or_lf_space: "cr_or_lf c \<Longrightarrow> is_space c"
  by (auto simp: cr_or_lf_def is_space_def)

lemma plain_chars:
  assumes "v \<noteq> []" "\<forall>c\<in>set v. \<not> is_space c \<and> c \<noteq> dquote \<and> c \<noteq> CHR ''>''"
  shows "plain_value v"
proof -
  have "\<not> str_includes v ARROW" using includes_chars [of v ARROW] assms(2) by (auto simp: ARROW_def)
  moreover have "\<not> list_ex cr_or_lf v" using assms(2) cr_or_lf_space by (auto simp: list_ex_iff)
  ultimately show ?thesis using assms by (auto simp: plain_value_def)
qed

lemma show_nat_plain: "plain_value (show_nat n)"
  using show_nat_digits [of n] class_codes by (intro plain_chars) (auto simp: list_all_iff is_digit_def is_space_def)

lemma dep_not_space: "dep_char c \<Longrightarrow> \<not> is_space c"
proof -
  assume "dep_char c"
  then consider "c = CHR ''-''" | "c = CHR ''_''" | "is_lower c" | "is_upper c" | "is_digit c"
    unfolding dep_char_def is_word_def by blast
  then show "\<not> is_space c"
  proof cases
    case 1
    show ?thesis unfolding 1 by code_simp
  next
    case 2
    show ?thesis unfolding 2 by code_simp
  qed (auto simp: is_lower_def is_upper_def is_digit_def is_space_def)
qed

lemma dep_plain: "dep_char c \<Longrightarrow> \<not> is_space c \<and> c \<noteq> dquote \<and> c \<noteq> CHR ''>'' \<and> c \<noteq> CHR '',''"
proof -
  have "\<not> dep_char dquote" "\<not> dep_char CHR ''>''" "\<not> dep_char CHR '',''" by code_simp+
  then show "dep_char c \<Longrightarrow> \<not> is_space c \<and> c \<noteq> dquote \<and> c \<noteq> CHR ''>'' \<and> c \<noteq> CHR '',''"
    using dep_not_space by blast
qed

lemma deps_chars:
  assumes "\<forall>d\<in>set ds. usable_dep d" "c \<in> set (join_with '', '' ds)"
  shows "dep_char c \<or> c = CHR '','' \<or> c = CHR '' ''"
proof -
  have "c \<in> set '', '' \<union> (\<Union>l\<in>set ds. set l)" by (rule subsetD [OF set_join assms(2)])
  moreover have "set '', '' = {CHR '','', CHR '' ''}" by simp
  moreover have "\<forall>l\<in>set ds. \<forall>x\<in>set l. dep_char x" using assms(1) unfolding usable_dep_def list_all_iff by blast
  ultimately show ?thesis by blast
qed

lemma hd_join: "ds \<noteq> [] \<Longrightarrow> \<forall>d\<in>set ds. d \<noteq> [] \<Longrightarrow> hd (join_with sep ds) = hd (hd ds) \<and> join_with sep ds \<noteq> []"
  by (cases ds; cases "tl ds") auto

lemma last_join: "ds \<noteq> [] \<Longrightarrow> \<forall>d\<in>set ds. d \<noteq> [] \<Longrightarrow> last (join_with sep ds) = last (last ds)"
  by (induction ds rule: induct_list012) (auto simp: hd_join)

lemma deps_plain:
  assumes "ds \<noteq> []" "\<forall>d\<in>set ds. usable_dep d"
  shows "plain_value (join_with '', '' ds)"
proof -
  have ne: "\<forall>d\<in>set ds. d \<noteq> []" using assms(2) by (auto simp: usable_dep_def)
  have dep: "dep_char c" if "d \<in> set ds" "c \<in> set d" for c d using assms(2) that by (auto simp: usable_dep_def list_all_iff)
  have "dep_char (hd (hd ds))" "dep_char (last (last ds))"
    using assms(1) ne dep [of "hd ds"] dep [of "last ds"] by simp_all
  then have e: "\<not> is_space (hd (join_with '', '' ds))" "\<not> is_space (last (join_with '', '' ds))" "hd (join_with '', '' ds) \<noteq> dquote"
    using hd_join [OF assms(1) ne] last_join [OF assms(1) ne] dep_plain by auto
  have "\<not> str_includes (join_with '', '' ds) ARROW"
    using includes_chars [of "join_with '', '' ds" ARROW] deps_chars [OF assms(2)] dep_plain by (fastforce simp: ARROW_def)
  moreover have "\<not> list_ex cr_or_lf (join_with '', '' ds)"
    using deps_chars [OF assms(2)] class_codes by (fastforce simp: list_ex_iff char_classes code_of_def)
  ultimately show ?thesis using e hd_join [OF assms(1) ne] by (simp add: plain_value_def)
qed

lemma plain_unquote: "plain_value v \<Longrightarrow> unquoteScalar v = v"
  by (rule unquote_plain) (simp_all add: plain_value_def)


subsection \<open>The dependencies\<close>

lemma task_id_chars:
  assumes "is_task_id d" and "c \<in> set d"
  shows "c \<noteq> CHR '','' \<and> \<not> is_space c"
proof -
  have i: "\<forall>c\<in>set ''issue-''. c \<noteq> CHR '','' \<and> \<not> is_space c" and m: "\<forall>c\<in>set ''manual-''. c \<noteq> CHR '','' \<and> \<not> is_space c" by code_simp+
  have len: "length ''issue-'' = 6" "length ''manual-'' = 7" by simp_all
  have dg: "is_digit c \<Longrightarrow> c \<noteq> CHR '','' \<and> \<not> is_space c" for c using class_codes by (auto simp: is_digit_def is_space_def)
  consider "take 6 d = ''issue-''" "list_all is_digit (drop 6 d)" | "take 7 d = ''manual-''" "list_all is_digit (drop 7 d)"
    using assms(1) unfolding is_task_id_def startsWith_def len by blast
  then show ?thesis
  proof cases
    case 1
    have "c \<in> set (take 6 d) \<or> c \<in> set (drop 6 d)" using assms(2) by (metis UnE append_take_drop_id set_append)
    then show ?thesis using 1 i dg by (auto simp: list_all_iff)
  next
    case 2
    have "c \<in> set (take 7 d) \<or> c \<in> set (drop 7 d)" using assms(2) by (metis UnE append_take_drop_id set_append)
    then show ?thesis using 2 m dg by (auto simp: list_all_iff)
  qed
qed

lemma trim_spaceless: "\<forall>c\<in>set s. \<not> is_space c \<Longrightarrow> js_trim s = s"
  by (cases "s = []") (auto simp: js_trim_def trimStart_id trimEnd_id)

lemma split_deps:
  assumes "\<forall>d\<in>set ds. usable_dep d"
  shows "filter is_task_id (map js_trim (split_on (\<lambda>c. c = CHR '','' \<or> is_space c) (join_with '', '' ds))) = filter is_task_id ds"
  using assms
proof (induction ds rule: induct_list012)
  case 1
  have "js_trim [] = []" "\<not> is_task_id []" by code_simp+
  then show ?case by simp
next
  case (2 d)
  then have d: "\<forall>c\<in>set d. \<not> (c = CHR '','' \<or> is_space c)" using dep_plain by (auto simp: usable_dep_def list_all_iff)
  then have "js_trim d = d" by (intro trim_spaceless) blast
  then show ?case using split_one_word [OF d] by simp
next
  case (3 d e ds)
  let ?P = "\<lambda>c. c = CHR '','' \<or> is_space c"
  have sp: "is_space CHR '' ''" and n: "js_trim [] = []" "\<not> is_task_id []" by code_simp+
  have d: "\<forall>c\<in>set d. \<not> ?P c" using 3 dep_plain by (auto simp: usable_dep_def list_all_iff)
  then have t: "js_trim d = d" by (intro trim_spaceless) blast
  have j: "join_with '', '' (d # e # ds) = d @ CHR '','' # CHR '' '' # join_with '', '' (e # ds)" by simp
  have "split_on ?P (join_with '', '' (d # e # ds)) = d # [] # split_on ?P (join_with '', '' (e # ds))"
    unfolding j using split_word [OF d] sp by simp
  moreover have "filter is_task_id (map js_trim (split_on ?P (join_with '', '' (e # ds)))) = filter is_task_id (e # ds)"
    using 3 by simp
  ultimately show ?case using t n by simp
qed

definition kept_deps :: "string list \<Rightarrow> string list" where
  "kept_deps ds = take MAX_DEPENDENCIES (first_only (filter is_task_id (filter usable_dep ds)))"

lemma depends_join: "depends_list (if filter usable_dep ds = [] then None else Some (join_with '', '' (filter usable_dep ds))) = kept_deps ds"
proof (cases "filter usable_dep ds = []")
  case True
  then show ?thesis by (simp add: depends_list_def kept_deps_def first_only_def del: filter_filter)
next
  case False
  have "\<forall>d\<in>set (filter usable_dep ds). usable_dep d" by simp
  from split_deps [OF this] False show ?thesis by (simp add: depends_list_def kept_deps_def first_only_def del: filter_filter)
qed

subsection \<open>The block\<close>

lemma valid_words:
  "\<forall>v\<in>set VALID_PRIORITIES. plain_value v" "\<forall>v\<in>set VALID_ROUTING_HINTS. plain_value v" "\<forall>v\<in>set VALID_AUTONOMY. plain_value v" "plain_value ''dashboard''"
  by code_simp+

lemma quote_no_break: "\<not> list_ex cr_or_lf v \<Longrightarrow> \<not> list_ex cr_or_lf (quoteScalar v)"
proof -
  have "\<not> cr_or_lf dquote" "\<not> cr_or_lf backslash" by code_simp+
  moreover have "set (quoteScalar v) \<subseteq> set v \<union> {backslash, dquote}" using escape_set [of v] by (auto simp: quoteScalar_def)
  ultimately show "\<not> list_ex cr_or_lf v \<Longrightarrow> \<not> list_ex cr_or_lf (quoteScalar v)" by (auto simp: list_ex_iff)
qed

definition clean_pair :: "string \<times> string \<Rightarrow> bool" where
  "clean_pair kv = (plain_pair kv \<and> \<not> str_includes (fst kv) ARROW \<and> \<not> str_includes (snd kv) ARROW)"

definition good_key :: "string \<Rightarrow> bool" where
  "good_key k = (k \<noteq> [] \<and> list_all is_word k \<and> k \<noteq> ''description'' \<and> \<not> str_includes k ARROW)"

lemma good_keys:
  "good_key ''title''" "good_key ''priority''" "good_key ''routingHint''" "good_key ''filedVia''"
  "good_key ''dependsOn''" "good_key ''deadline''" "good_key ''ttlHours''" "good_key ''autonomy''"
  by code_simp+

lemma clean_plain: "good_key k \<Longrightarrow> plain_value v \<Longrightarrow> clean_pair (k, v)"
  by (simp add: clean_pair_def plain_pair_def plain_value_def good_key_def)

lemma clean_quoted:
  assumes "good_key k" "\<not> list_ex cr_or_lf v" "\<not> str_includes v ARROW"
  shows "clean_pair (k, quoteScalar v)"
proof -
  have d: "\<not> is_space dquote" by code_simp
  have a: "backslash \<notin> set ARROW" "dquote \<notin> set ARROW" "ARROW \<noteq> []" by code_simp+
  have "\<not> str_includes (quoteScalar v) ARROW" using assms quote_includes [OF _ a] by blast
  moreover have "\<not> is_space (hd (quoteScalar v))" "quoteScalar v \<noteq> []" using d by (simp_all add: quoteScalar_def)
  ultimately show ?thesis using assms(1) quote_no_break [OF assms(2)] by (simp add: clean_pair_def plain_pair_def good_key_def)
qed

lemma block_pairs_clean:
  assumes "plain_input t"
  shows "list_all clean_pair (block_pairs t)"
proof -
  have de: "clean_pair (''dependsOn'', join_with '', '' ds)" if "ds = filter usable_dep (ti_dependsOn t)" "ds \<noteq> []" for ds
    using that by (intro clean_plain good_keys deps_plain) simp_all
  have ti: "clean_pair (''title'', quoteScalar (ti_title t))"
    using assms unfolding plain_input_def by (intro clean_quoted good_keys) simp_all
  have mem: "ti_priority t \<in> set VALID_PRIORITIES" "ti_routingHint t \<in> set VALID_ROUTING_HINTS"
    using assms unfolding plain_input_def by blast+
  have pr: "clean_pair (''priority'', ti_priority t)" "clean_pair (''routingHint'', ti_routingHint t)" "clean_pair (''filedVia'', ''dashboard'')"
    by (rule clean_plain, rule good_keys, rule bspec [OF valid_words(1) mem(1)] bspec [OF valid_words(2) mem(2)] valid_words(4))+
  have dl: "clean_pair (''deadline'', d)" if "ti_deadline t = Some d" for d
    using assms that by (intro clean_plain good_keys) (simp add: plain_input_def)
  have au: "clean_pair (''autonomy'', d)" if "ti_autonomy t = Some d" for d
  proof -
    have "d \<in> set VALID_AUTONOMY" using assms that unfolding plain_input_def by auto
    then show ?thesis using valid_words(3) by (intro clean_plain good_keys) blast
  qed
  have tt: "clean_pair (''ttlHours'', show_nat n)" for n by (intro clean_plain good_keys show_nat_plain)
  show ?thesis unfolding block_pairs_def Let_def list_all_append
  proof (intro conjI)
    show "list_all clean_pair (case ti_deadline t of None \<Rightarrow> [] | Some d \<Rightarrow> if d = [] then [] else [(''deadline'', d)])"
      using dl by (cases "ti_deadline t") simp_all
    show "list_all clean_pair (case ti_autonomy t of None \<Rightarrow> [] | Some a \<Rightarrow> if a = [] then [] else [(''autonomy'', a)])"
      using au by (cases "ti_autonomy t") simp_all
    show "list_all clean_pair (case ti_ttlHours t of None \<Rightarrow> [] | Some h \<Rightarrow> if 0 < h then [(''ttlHours'', show_nat (nat \<lfloor>h + 1 / 2\<rfloor>))] else [])"
      using tt by (cases "ti_ttlHours t") simp_all
  qed (use ti pr de in simp_all)
qed


definition inner_lines :: "task_input \<Rightarrow> string list" where
  "inner_lines t = map line_of (block_pairs t) @ [''description: |''] @ blockScalar (ti_description t)"

lemma blockScalar_nonempty: "blockScalar s \<noteq> []"
  by (simp add: blockScalar_def)

lemma buildYamlBlock_inner: "buildYamlBlock t = FENCE_START @ nl # join_with [nl] (inner_lines t) @ nl # ARROW"
proof -
  let ?b = "blockScalar (ti_description t)" and ?ps = "map line_of (block_pairs t) @ [''description: |'']"
  have "buildYamlBlock t = join_with [nl] (([FENCE_START] @ ?ps @ [join_with [nl] ?b]) @ [ARROW])"
    by (simp add: buildYamlBlock_def scalar_lines_pairs)
  also have "\<dots> = join_with [nl] ([FENCE_START] @ ?ps @ [join_with [nl] ?b]) @ nl # ARROW"
    by (rule join_snoc) simp
  also have "join_with [nl] ([FENCE_START] @ ?ps @ [join_with [nl] ?b]) = join_with [nl] ([FENCE_START] @ ?ps @ ?b)"
    using join_nested [OF blockScalar_nonempty, of nl "[FENCE_START] @ ?ps"] by simp
  also have "\<dots> = FENCE_START @ nl # join_with [nl] (inner_lines t)"
    by (cases "?ps @ ?b") (simp_all add: inner_lines_def)
  finally show ?thesis by simp
qed

lemma line_of_includes: "str_includes (line_of kv) ARROW \<Longrightarrow> str_includes (fst kv) ARROW \<or> str_includes (snd kv) ARROW"
proof -
  have a: "CHR '':'' \<notin> set ARROW" "CHR '' '' \<notin> set ARROW" "ARROW \<noteq> []" "\<not> str_includes [] ARROW" by code_simp+
  assume "str_includes (line_of kv) ARROW"
  then have "str_includes (fst kv @ CHR '':'' # ([] @ CHR '' '' # snd kv)) ARROW" by (simp add: line_of_def)
  then show ?thesis using includes_sep [OF _ a(1,3)] includes_sep [OF _ a(2,3)] a(4) by blast
qed

lemma block_line_includes:
  assumes "l \<in> set (blockScalar s)" "CHR 0x0D \<notin> set s" "str_includes l ARROW"
  shows "str_includes s ARROW"
proof -
  have a: "CHR '' '' \<notin> set ARROW" "ARROW \<noteq> []" "\<not> str_includes [] ARROW" by code_simp+
  obtain w where w: "w \<in> set (split_on (\<lambda>c. c = nl) s)" "l = (if w = [] then [] else ''  '' @ w)"
    using assms(1) unfolding blockScalar_def crlf_id [OF assms(2)] by auto
  then have "str_includes ([] @ CHR '' '' # ([] @ CHR '' '' # w)) ARROW" using assms(3) a(3) by (simp split: if_splits)
  then have "str_includes w ARROW" using includes_sep [OF _ a(1,2)] a(3) by blast
  then show ?thesis using includes_split [OF w(1)] by blast
qed

lemma inner_no_arrow:
  assumes "plain_input t"
  shows "\<not> str_includes (join_with [nl] (inner_lines t)) ARROW"
proof
  have a: "nl \<notin> set ARROW" "ARROW \<noteq> []" "\<not> str_includes ''description: |'' ARROW" by code_simp+
  assume "str_includes (join_with [nl] (inner_lines t)) ARROW"
  then obtain l where l: "l \<in> set (inner_lines t)" "str_includes l ARROW" using includes_join [OF _ a(1,2)] by blast
  have d: "CHR 0x0D \<notin> set (ti_description t)" "\<not> str_includes (ti_description t) ARROW"
    using assms unfolding plain_input_def by blast+
  consider kv where "kv \<in> set (block_pairs t)" "l = line_of kv" | "l = ''description: |''" | "l \<in> set (blockScalar (ti_description t))"
    using l(1) unfolding inner_lines_def by auto
  then show False
  proof cases
    case 1
    then have "clean_pair kv" using block_pairs_clean [OF assms] by (simp add: list_all_iff)
    then show False using line_of_includes [of kv] l(2) 1(2) by (simp add: clean_pair_def)
  next
    case 2
    then show False using l(2) a(3) by simp
  next
    case 3
    then show False using block_line_includes [OF _ d(1) l(2)] d(2) by blast
  qed
qed

lemma inner_no_nl:
  assumes "plain_input t"
  shows "\<forall>l\<in>set (inner_lines t @ [[]]). nl \<notin> set l"
proof -
  have n: "\<not> is_word nl" "cr_or_lf nl" "nl \<notin> set '': ''" "nl \<notin> set ''description: |''" "nl \<noteq> CHR '' ''" by code_simp+
  have d: "CHR 0x0D \<notin> set (ti_description t)" using assms unfolding plain_input_def by blast
  have kv: "nl \<notin> set (line_of kv)" if "kv \<in> set (block_pairs t)" for kv
  proof -
    have "clean_pair kv" using block_pairs_clean [OF assms] that by (simp add: list_all_iff)
    then have "nl \<notin> set (fst kv)" "nl \<notin> set (snd kv)" using n(1,2) by (auto simp: clean_pair_def plain_pair_def list_all_iff list_ex_iff)
    then show ?thesis using n(3) by (simp add: line_of_def)
  qed
  have "nl \<notin> set l" if b: "l \<in> set (blockScalar (ti_description t))" for l
  proof -
    obtain w where w: "w \<in> set (split_on (\<lambda>c. c = nl) (ti_description t))" "l = (if w = [] then [] else ''  '' @ w)"
      using b unfolding blockScalar_def crlf_id [OF d] by auto
    then have "nl \<notin> set w" using split_on_no_sep by blast
    then show ?thesis using w(2) n(5) by simp
  qed
  then show ?thesis using kv n(4) unfolding inner_lines_def by auto
qed

lemma read_inner:
  assumes "plain_input t"
  shows "read_fields (split_on (\<lambda>c. c = nl) (join_with [nl] (inner_lines t) @ [nl])) (Map.empty, None)
    = (fold put_pair (block_pairs t) Map.empty, Some (ti_description t))"
proof -
  have ne: "inner_lines t \<noteq> []" by (simp add: inner_lines_def)
  have j: "join_with [nl] (inner_lines t) @ [nl] = join_with [nl] (inner_lines t @ [[]])"
    using join_snoc [OF ne, of nl "[]"] by simp
  have s: "split_on (\<lambda>c. c = nl) (join_with [nl] (inner_lines t) @ [nl]) = inner_lines t @ [[]]"
    unfolding j using inner_no_nl [OF assms] by (intro split_join) simp_all
  have pl: "list_all plain_pair (block_pairs t)"
    using block_pairs_clean [OF assms] by (auto simp: list_all_iff clean_pair_def)
  have "js_trim [] = []" by code_simp
  then have d: "ti_description t \<noteq> []" "last (ti_description t) \<noteq> nl" "CHR 0x0D \<notin> set (ti_description t)"
    using assms unfolding plain_input_def by auto
  show ?thesis by (subst s) (unfold inner_lines_def append_assoc read_pairs [OF pl], rule read_description [OF d])
qed


subsection \<open>What the parser finds\<close>

lemma put_pair_simps:
  "put_pair (k, v) m k = Some (unquoteScalar v)"
  "k \<noteq> k' \<Longrightarrow> put_pair (k', v) m k = m k"
  by (simp_all add: put_pair_def)

lemma block_fields:
  fixes t :: task_input
  defines "m \<equiv> fold put_pair (block_pairs t) Map.empty"
  shows "m ''title'' = Some (ti_title t)"
    "m ''priority'' = Some (unquoteScalar (ti_priority t))"
    "m ''routingHint'' = Some (unquoteScalar (ti_routingHint t))"
    "m ''filedVia'' = Some (unquoteScalar ''dashboard'')"
    "m ''dependsOn'' = (if filter usable_dep (ti_dependsOn t) = [] then None else Some (unquoteScalar (join_with '', '' (filter usable_dep (ti_dependsOn t)))))"
    "m ''deadline'' = (case ti_deadline t of None \<Rightarrow> None | Some d \<Rightarrow> if d = [] then None else Some (unquoteScalar d))"
    "m ''ttlHours'' = (case ti_ttlHours t of None \<Rightarrow> None | Some h \<Rightarrow> if 0 < h then Some (unquoteScalar (show_nat (nat \<lfloor>h + 1 / 2\<rfloor>))) else None)"
    "m ''autonomy'' = (case ti_autonomy t of None \<Rightarrow> None | Some a \<Rightarrow> if a = [] then None else Some (unquoteScalar a))"
  unfolding m_def block_pairs_def Let_def
  by (cases "filter usable_dep (ti_dependsOn t) = []"; cases "ti_deadline t"; cases "ti_ttlHours t"; cases "ti_autonomy t";
      simp add: put_pair_simps unquote_quote del: filter_False)+


definition parsed_from :: "(string \<Rightarrow> int option) \<Rightarrow> task_input \<Rightarrow> task_spec" where
  "parsed_from dp t =
    \<lparr>sp_title = js_trim (ti_title t), sp_description = ti_description t, sp_priority = ti_priority t,
     sp_routingHint = ti_routingHint t, sp_filedVia = Some ''dashboard'', sp_dependsOn = kept_deps (ti_dependsOn t),
     sp_deadline = Option.bind (ti_deadline t) dp, sp_ttlHours = parsed_ttl (ti_ttlHours t), sp_autonomy = ti_autonomy t\<rparr>"

lemma member_valid: "v \<in> set valid \<Longrightarrow> member_or valid (Some v) d = v"
  by (simp add: member_or_def)

lemma spec_of_block:
  assumes "plain_input t" and num: "\<And>n. num (show_nat n) = Some (of_nat n)"
  shows "spec_of dp num (fold put_pair (block_pairs t) Map.empty, Some (ti_description t)) = Some (parsed_from dp t)"
proof -
  have p: "ti_priority t \<in> set VALID_PRIORITIES" "ti_routingHint t \<in> set VALID_ROUTING_HINTS"
      "js_trim (ti_title t) \<noteq> []" "js_trim (ti_description t) \<noteq> []"
    using assms(1) unfolding plain_input_def by blast+
  have u: "unquoteScalar (ti_priority t) = ti_priority t" "unquoteScalar (ti_routingHint t) = ti_routingHint t"
      "unquoteScalar ''dashboard'' = ''dashboard''"
    by (rule plain_unquote, rule bspec [OF valid_words(1) p(1)] bspec [OF valid_words(2) p(2)] valid_words(4))+
  have dd: "(if ds = [] then None else Some (unquoteScalar (join_with '', '' ds))) = (if ds = [] then None else Some (join_with '', '' ds))"
    if "\<forall>d\<in>set ds. usable_dep d" for ds
    using plain_unquote [OF deps_plain [OF _ that]] by (cases "ds = []") (simp_all only: if_True if_False simp_thms)
  have du: "\<forall>d\<in>set (filter usable_dep (ti_dependsOn t)). usable_dep d" unfolding set_filter by blast
  have dl: "(case ti_deadline t of None \<Rightarrow> None | Some d \<Rightarrow> if d = [] then None else Some (unquoteScalar d)) = ti_deadline t"
    using assms(1) plain_unquote by (auto simp: plain_input_def plain_value_def split: option.split)
  have au: "(case ti_autonomy t of None \<Rightarrow> None | Some a \<Rightarrow> if a = [] then None else Some (unquoteScalar a)) = ti_autonomy t"
      "\<And>a. ti_autonomy t = Some a \<Longrightarrow> a \<in> set VALID_AUTONOMY"
  proof -
    show mem: "\<And>a. ti_autonomy t = Some a \<Longrightarrow> a \<in> set VALID_AUTONOMY" using assms(1) unfolding plain_input_def by auto
    have "a \<noteq> [] \<and> unquoteScalar a = a" if "ti_autonomy t = Some a" for a
    proof -
      have "plain_value a" using mem [OF that] valid_words(3) by blast
      then show ?thesis using plain_unquote by (auto simp: plain_value_def)
    qed
    then show "(case ti_autonomy t of None \<Rightarrow> None | Some a \<Rightarrow> if a = [] then None else Some (unquoteScalar a)) = ti_autonomy t"
      by (simp split: option.split)
  qed
  have tt: "(case Option.bind (case ti_ttlHours t of None \<Rightarrow> None | Some h \<Rightarrow> if 0 < h then Some (unquoteScalar (show_nat (nat \<lfloor>h + 1 / 2\<rfloor>))) else None) num of
      None \<Rightarrow> None | Some r \<Rightarrow> if 0 < r then Some (min r MAX_TTL_HOURS) else None) = parsed_ttl (ti_ttlHours t)"
    using num plain_unquote [OF show_nat_plain] by (simp add: parsed_ttl_def split: option.split)
  show ?thesis
    unfolding spec_of_def Let_def fst_conv snd_conv block_fields dd [OF du] dl au(1) tt u depends_join member_valid [OF p(1)] member_valid [OF p(2)] parsed_from_def
    using p(3,4) au(2) by (cases "ti_autonomy t") (simp_all add: dflt_def)
qed

lemma priority_line_no_open:
  assumes "p \<in> set VALID_PRIORITIES" "h \<in> set VALID_ROUTING_HINTS"
  shows "\<not> str_includes (''**Priority:** '' @ (case p of [] \<Rightarrow> [] | c # cs \<Rightarrow> upper_char c # cs) @ '' '' @ utf8 183 @ '' **Routing hint:** '' @
     (if h = ''any'' then ''any (no preference)'' else h)) ''<!--''"
proof -
  have "\<forall>p\<in>set VALID_PRIORITIES. \<forall>h\<in>set VALID_ROUTING_HINTS.
     \<not> str_includes (''**Priority:** '' @ (case p of [] \<Rightarrow> [] | c # cs \<Rightarrow> upper_char c # cs) @ '' '' @ utf8 183 @ '' **Routing hint:** '' @
     (if h = ''any'' then ''any (no preference)'' else h)) ''<!--''" by code_simp
  then show ?thesis using assms by blast
qed

lemma trim_includes: "str_includes (js_trim s) p \<Longrightarrow> str_includes s p"
proof -
  have s: "s = takeWhile is_space s @ trimStart s" for s by (simp add: trimStart_def)
  have e: "\<exists>r. s = trimEnd s @ r" for s
  proof -
    have "s = rev (dropWhile is_space (rev s)) @ rev (takeWhile is_space (rev s))"
      by (metis rev_append rev_rev_ident takeWhile_dropWhile_id)
    then show ?thesis unfolding trimEnd_def by blast
  qed
  obtain r where "trimStart s = js_trim s @ r" using e unfolding js_trim_def by blast
  then have d: "s = takeWhile is_space s @ js_trim s @ r" using s by metis
  show "str_includes (js_trim s) p \<Longrightarrow> str_includes s p"
    by (subst d) (intro includes_app_right includes_app_left)
qed



definition number_of_digits :: "string \<Rightarrow> rat option" where
  "number_of_digits s = (if s \<noteq> [] \<and> list_all is_digit s then Some (of_int (digits_val s)) else None)"

lemma digits_val_snoc: "digits_val (ds @ [c]) = 10 * digits_val ds + (int (code_of c) - 48)"
  by (simp add: digits_val_def)

lemma digits_val_show: "digits_val (show_nat n) = int n"
proof (induction n rule: show_nat.induct)
  case (1 n)
  have d: "int (code_of (char_of (48 + m))) - 48 = int m" if "m < 10" for m :: nat using that by (simp add: code_of_def)
  show ?case
  proof (cases "n < 10")
    case True
    then show ?thesis using d [of n] by (subst show_nat.simps) (simp add: digits_val_def)
  next
    case False
    then have "digits_val (show_nat n) = 10 * int (n div 10) + int (n mod 10)"
      using 1 d [of "n mod 10"] by (subst show_nat.simps) (simp add: digits_val_snoc)
    also have "\<dots> = int (10 * (n div 10) + n mod 10)" by (simp only: of_nat_add of_nat_mult of_nat_numeral)
    finally show ?thesis by simp
  qed
qed

lemma number_of_show: "number_of_digits (show_nat n) = Some (of_nat n)"
  using show_nat_digits [of n] by (simp add: number_of_digits_def digits_val_show)

definition demo_input :: task_input where
  "demo_input =
    \<lparr>ti_title = '' Fix \"\"it '', ti_description = [CHR ''a'', CHR 0x0A, CHR 0x0A, CHR '' '', CHR ''b''],
     ti_priority = ''high'', ti_routingHint = ''any'', ti_dependsOn = [''issue-7'', ''x'', ''issue-7''],
     ti_deadline = None, ti_ttlHours = Some (3 / 2), ti_autonomy = Some ''propose''\<rparr>"

lemma demo_input_plain: "plain_input demo_input"
  by code_simp


section \<open>Where the two ends differ\<close>

text \<open>The prose above the block is the description itself, so a description that carries a block of its own is read
  instead of the generated one.\<close>

definition forged_block :: string where
  "forged_block = FENCE_START @ nl # ''title: Mine'' @ nl # ''priority: urgent'' @ nl # ''description: |'' @ nl # ''  other'' @ nl # ARROW"

lemma forged_block_wins:
  "map_option (\<lambda>s. (sp_title s, sp_priority s)) (parseTaskYaml (\<lambda>_. None) number_of_digits
     (buildIssueBody (demo_input\<lparr>ti_description := forged_block, ti_ttlHours := None\<rparr>))) = Some (''Mine'', ''urgent'')"
  by code_simp

end
