(* ===== verification/Issue_Body.thy ===== *)
theory Issue_Body
  imports Regex Mini_Yaml Task_Yaml
begin

text \<open>
  What intake makes of the title and body of an issue before it looks for a task block:
  \<open>src/lib/issueBody.js\<close>. The patterns are terms of the matcher of theory Regex; a character of a class that is
  not ASCII is an alternative of its own. The lookahead after a brand is left out: what may follow a brand (the
  end, white space or punctuation) already excludes what it excludes.
\<close>

section \<open>Patterns\<close>

definition any_bytes :: "nat list \<Rightarrow> rx" where
  "any_bytes ns = alts (map (\<lambda>n. lit (utf8 n)) ns)"

definition dashes :: "nat list" where "dashes = [8211, 8212]"

definition MARKER_BEGIN :: rx where
  "MARKER_BEGIN = seqs [lit ''<!--'', Star space, ilit ''titan-intake:begin'', Star space, lit ''-->'']"

definition MARKER_END :: rx where
  "MARKER_END = seqs [lit ''<!--'', Star space, ilit ''titan-intake:end'', Star space, lit ''-->'']"

definition BRAND :: rx where
  "BRAND = alts [ilit ''zapier'', ilit ''zap'', Seq (ilit ''make'') (opt (ilit ''.com'')), ilit ''integromat'']"

definition TAIL :: rx where
  "TAIL =
    seqs [opt (seqs [Star space,
           opt (seqs [Alt (any_of ''-|:(['') (any_bytes (183 # dashes)), rep_upto 80 dot]),
           Star (any_of ''.!_*)]~'')]), Star space, Eol]"

definition LEAD :: rx where
  "LEAD = Seq Bol (Star (alts [space, any_of ''>*_~-'', any_bytes dashes]))"

definition words_seq :: "string list \<Rightarrow> rx" where
  "words_seq ws = seqs (map (\<lambda>w. Seq (ilit w) (plus space)) ws)"

definition BANNER_CREATED :: rx where
  "BANNER_CREATED =
    seqs [LEAD,
      opt (seqs [ilit ''this'', plus space, alts (map ilit [''issue'', ''task'', ''message'', ''ticket'']), plus space, ilit ''was'', plus space]),
      opt (Seq (ilit ''automatically'') (plus space)),
      alts (map ilit [''created'', ''sent'', ''posted'', ''generated'', ''triggered'', ''filed'', ''submitted'', ''forwarded'']), plus space,
      alts (map ilit [''via'', ''by'', ''from'', ''with'', ''using'', ''through'']), plus space,
      opt (alts [words_seq [''a''], words_seq [''an''], words_seq [''the''], words_seq [''your'']]), BRAND, TAIL]"

definition BANNER_POWERED :: rx where
  "BANNER_POWERED = seqs [LEAD, words_seq [''powered'', ''by''], BRAND, TAIL]"

definition META_LINE :: rx where
  "META_LINE =
    seqs [Bol, Star (Alt space (any_of ''>*_~-'')),
      alts [seqs [ilit ''zap'', opt (ilit ''ier''),
              opt (Seq (plus space) (alts [ilit ''name'', ilit ''id'', Seq (ilit ''task'') (opt (Seq (plus space) (ilit ''id'')))]))],
            Seq (ilit ''scenario'') (opt (Seq (plus space) (alts [ilit ''name'', ilit ''id'']))),
            seqs [ilit ''make'', plus space, alts [ilit ''scenario'', ilit ''execution''], opt (Seq (plus space) (ilit ''id''))]],
      Star space, any_of '':='', Star space, nonspace, Star dot, Eol]"

definition SEPARATOR :: rx where
  "SEPARATOR =
    seqs [Bol, Star space, alts [at_least 2 (chr CHR ''-''), at_least 3 (chr CHR ''_''), at_least 3 (chr CHR ''*''), at_least 3 (chr CHR ''='')], Star space, Eol]"

definition MAX_BANNER_LINE :: nat where "MAX_BANNER_LINE = 160"

definition TITLE_TAG :: rx where
  "TITLE_TAG =
    seqs [Bol, Star space, any_of ''[('', BRAND, any_of ''])'', Star space, opt (chr CHR '':''), Star space]"

definition isBlank :: "string \<Rightarrow> bool" where "isBlank l = (js_trim l = [])"

definition isBanner :: "string \<Rightarrow> bool" where
  "isBanner l = (length l \<le> MAX_BANNER_LINE \<and> (rx_test BANNER_CREATED l \<or> rx_test BANNER_POWERED l))"

definition isMeta :: "string \<Rightarrow> bool" where
  "isMeta l = (length l \<le> MAX_BANNER_LINE \<and> rx_test META_LINE l)"

section \<open>Tidying\<close>

definition control_char :: "char \<Rightarrow> bool" where
  "control_char c = (code_of c \<le> 8 \<or> code_of c = 11 \<or> code_of c = 12 \<or> (14 \<le> code_of c \<and> code_of c \<le> 31) \<or> code_of c = 127)"

definition erase :: "rx \<Rightarrow> string \<Rightarrow> string" where "erase r = rx_replace r (\<lambda>_. [])"
definition replace_with :: "rx \<Rightarrow> string \<Rightarrow> string \<Rightarrow> string" where "replace_with r t = rx_replace r (\<lambda>_. t)"

definition tidy :: "string \<Rightarrow> string" where
  "tidy s =
    js_trim
      (replace_with (at_least 3 (chr nl)) [nl, nl]
        (replace_with (Seq (plus (any_of [CHR '' '', CHR 0x09])) (chr nl)) [nl]
          (erase (Cls control_char)
            (replace_with (lit (utf8 160)) '' ''
              (erase (any_bytes [8203, 8204, 8205, 8288, 65279])
                (replace_with (Seq (chr CHR 0x0D) (opt (chr nl))) [nl]
                  (erase (Seq Bol (lit (utf8 65279))) s)))))))"

section \<open>Markers\<close>

record mark =
  mk_begin :: bool
  mk_start :: nat
  mk_end :: nat

text \<open>\<open>text.matchAll(MARKER_PATTERN)\<close>: at a position with a match it goes on behind it.\<close>

definition marker_at :: "mstate \<Rightarrow> (bool \<times> nat) option" where
  "marker_at s =
    (case rx_match MARKER_BEGIN s of
       t # _ \<Rightarrow> Some (True, length (snd s) - length (snd t))
     | [] \<Rightarrow> (case rx_match MARKER_END s of
         t # _ \<Rightarrow> Some (False, length (snd s) - length (snd t))
       | [] \<Rightarrow> None))"

fun marks_from :: "nat \<Rightarrow> nat \<Rightarrow> char option \<Rightarrow> string \<Rightarrow> mark list" where
  "marks_from skip pos p [] = []"
| "marks_from skip pos p (c # cs) =
     (if 0 < skip then marks_from (skip - 1) (pos + 1) (Some c) cs
      else (case marker_at (p, c # cs) of
          None \<Rightarrow> marks_from 0 (pos + 1) (Some c) cs
        | Some (b, n) \<Rightarrow> \<lparr>mk_begin = b, mk_start = pos, mk_end = pos + n\<rparr> # marks_from (n - 1) (pos + 1) (Some c) cs))"

definition extractMarked :: "string \<Rightarrow> string option" where
  "extractMarked s =
    (let ms = marks_from 0 0 None s in
     if ms = [] then None
     else (let from = (case List.find mk_begin ms of None \<Rightarrow> 0 | Some m \<Rightarrow> mk_end m);
               till = (case List.find (\<lambda>m. \<not> mk_begin m \<and> from \<le> mk_start m) ms of None \<Rightarrow> length s | Some m \<Rightarrow> mk_start m)
           in Some (drop from (take till s))))"

section \<open>Banners\<close>

definition banner_block :: "string list \<Rightarrow> string list option" where
  "banner_block ls =
    (let rest = dropWhile isBlank ls; block = takeWhile (\<lambda>l. isBanner l \<or> isMeta l) rest in
     if \<not> list_ex isBanner block then None
     else Some (dropWhile (\<lambda>l. isBlank l \<or> rx_test SEPARATOR l) (drop (length block) rest)))"

definition stripHeader :: "string list \<Rightarrow> string list \<times> bool" where
  "stripHeader ls = (case banner_block ls of None \<Rightarrow> (ls, False) | Some r \<Rightarrow> (r, True))"

definition stripFooter :: "string list \<Rightarrow> string list \<times> bool" where
  "stripFooter ls = (case banner_block (rev ls) of None \<Rightarrow> (ls, False) | Some r \<Rightarrow> (rev r, True))"

section \<open>The body and the title\<close>

datatype body_source = Plain | Fence | Marked | BannerStripped

record normalized =
  nb_text :: string
  nb_source :: body_source
  nb_stripped :: "string list"

definition FENCE_OPEN :: rx where
  "FENCE_OPEN = seqs [lit ''<!--'', Star space, lit ''titan-task-v1'', Star space, chr nl]"

definition normalizeIssueBody :: "string option \<Rightarrow> normalized" where
  "normalizeIssueBody body =
    (let raw = dflt body []; t = tidy raw; ws = (if t \<noteq> js_trim raw then [''whitespace''] else []);
         inner = map_option tidy (extractMarked t) in
     if inner \<noteq> None \<and> inner \<noteq> Some [] then \<lparr>nb_text = the inner, nb_source = Marked, nb_stripped = ws @ [''outside-markers'']\<rparr>
     else if rx_test FENCE_OPEN t then \<lparr>nb_text = t, nb_source = Fence, nb_stripped = ws\<rparr>
     else
       (let (ls1, head) = stripHeader (split_on (\<lambda>c. c = nl) t); (ls2, foot) = stripFooter ls1;
            st = ws @ (if head then [''banner-header''] else []) @ (if foot then [''banner-footer''] else []) in
        if head \<or> foot then \<lparr>nb_text = tidy (join_with [nl] ls2), nb_source = BannerStripped, nb_stripped = st\<rparr>
        else \<lparr>nb_text = t, nb_source = Plain, nb_stripped = st\<rparr>))"

definition drop_tag :: "string \<Rightarrow> string" where
  "drop_tag t = (if rx_test TITLE_TAG t then js_trim (erase TITLE_TAG t) else t)"

definition normalizeIssueTitle :: "string option \<Rightarrow> string \<Rightarrow> string" where
  "normalizeIssueTitle title body =
    (let t = drop_tag (drop_tag (drop_tag (replace_with (plus (chr nl)) '' '' (tidy (dflt title [])))))
     in if t \<noteq> [] then t
        else (case List.find (\<lambda>l. l \<noteq> [] \<and> \<not> startsWith l ''<!--'') (map js_trim (split_on (\<lambda>c. c = nl) body)) of
            None \<Rightarrow> ''Untitled task''
          | Some l \<Rightarrow> take 120 l))"

end
