(* ===== verification/Issue_Control.thy ===== *)
theory Issue_Control
  imports Engine_Task Control_Commands Issue_Body Redact
begin

text \<open>
  Issues as the queue and as the control surface: \<open>src/issueSync.js\<close>, with the two listings of
  \<open>src/github.js\<close> it reads. An issue and a comment hold the fields intake reads; the digest of sha256 is the
  argument \<open>sha256\<close>, and what \<open>Date.parse\<close> and \<open>Number\<close> make of text are the arguments of the task block's parser.
  The clock of one pass is one instant. The answer of GitHub to a request is \<open>None\<close> when the request fails.
\<close>

section \<open>What GitHub lists\<close>

record gh_issue =
  gi_number :: nat
  gi_pull_request :: bool
  gi_actor :: actor
  gi_labels :: "string list"
  gi_title :: "string option"
  gi_body :: "string option"
  gi_url :: "string option"
  gi_created :: "stamp option"
  gi_updated :: "stamp option"

record gh_comment =
  gc_body :: "string option"
  gc_created :: "stamp option"
  gc_actor :: actor

definition listOpenTaskIssues :: "bool \<Rightarrow> gh_issue list option \<Rightarrow> gh_issue list" where
  "listOpenTaskIssues ready reply = (if \<not> ready then [] else dflt reply [])"

definition listComments :: "bool \<Rightarrow> gh_comment list option \<Rightarrow> gh_comment list" where
  "listComments ready reply = (if \<not> ready then [] else dflt reply [])"

section \<open>Duplicates\<close>

text \<open>\<open>replace(/\s+/g, ' ')\<close>.\<close>

definition one_space :: "string \<Rightarrow> string" where
  "one_space s = rx_replace (plus space) (\<lambda>_. '' '') s"

definition idempotencyKeyFor :: "(string \<Rightarrow> string) \<Rightarrow> string \<Rightarrow> string \<Rightarrow> string \<Rightarrow> string" where
  "idempotencyKeyFor sha256 type title prompt =
    ''idem-'' @ take 20 (sha256 (join_with [nl] [type, toLowerCase (js_trim title), toLowerCase (js_trim (one_space prompt))]))"

definition DEFAULT_DUPLICATE_WINDOW_MS :: int where "DEFAULT_DUPLICATE_WINDOW_MS = 24 * 3600000"

definition parsed_at :: "stamp option \<Rightarrow> int option" where
  "parsed_at s = Option.bind s date_parse"

definition same_submission :: "string \<Rightarrow> int \<Rightarrow> int \<Rightarrow> etask \<Rightarrow> bool" where
  "same_submission key now window t =
    (et_idempotencyKey t = Some key \<and> et_status t \<noteq> Cancelled \<and>
     (\<not> isTerminal (et_status t) \<or>
      (case parsed_at (t_completedAt (et_core t)) of None \<Rightarrow> False | Some d \<Rightarrow> now - d \<le> window)))"

definition findDuplicate :: "etask list \<Rightarrow> string \<Rightarrow> int \<Rightarrow> int \<Rightarrow> etask option" where
  "findDuplicate ts key now window = List.find (same_submission key now window) ts"

section \<open>Intake\<close>

record intake_env =
  ie_authz :: authz
  ie_now :: int
  ie_window :: int
  ie_maxAttempts :: "nat option"
  ie_sha256 :: "string \<Rightarrow> string"
  ie_date :: "string \<Rightarrow> int option"
  ie_number :: "string \<Rightarrow> rat option"
  ie_labels :: bool
  ie_labelFails :: "nat \<Rightarrow> bool"

definition issue_id :: "nat \<Rightarrow> string" where
  "issue_id n = ''issue-'' @ show_nat n"

definition scrub_stamp :: "stamp \<Rightarrow> stamp" where
  "scrub_stamp s = (case s of Iso n \<Rightarrow> Iso n | Junk x \<Rightarrow> Junk (redactString x))"

text \<open>\<open>taskDefaults\<close> and the literal fields of a new task; every text goes through the secret scan.\<close>

definition new_core :: "string \<Rightarrow> string option \<Rightarrow> int \<Rightarrow> nat option \<Rightarrow> string list \<Rightarrow> stamp option \<Rightarrow> stamp option \<Rightarrow> task" where
  "new_core i priority now maxAttempts deps deadline expires =
    \<lparr>t_id = redactString i, t_status = Pending, t_createdAt = Iso now, t_priority = map_option redactString priority, t_waitReason = None,
     t_wakeAt = None, t_claimedAt = None, t_startedAt = None, t_completedAt = None, t_runId = None, t_error = None, t_failure = None,
     t_attempts = Some 0, t_maxAttempts = Some (dflt maxAttempts 3), t_lease = None, t_dependsOn = map redactString deps,
     t_deadline = deadline, t_expiresAt = expires, t_history = [], t_wallMs = None\<rparr>"

definition issue_type :: "gh_issue \<Rightarrow> string" where
  "issue_type i = (if ''titan-self-improve'' \<in> set (gi_labels i) then ''self-improve'' else ''task'')"

definition issue_spec :: "intake_env \<Rightarrow> gh_issue \<Rightarrow> task_spec option" where
  "issue_spec ie i = parseTaskYaml (ie_date ie) (ie_number ie) (nb_text (normalizeIssueBody (gi_body i)))"

definition issue_title :: "intake_env \<Rightarrow> gh_issue \<Rightarrow> string" where
  "issue_title ie i =
    take 200 (redactString (case issue_spec ie i of
        Some s \<Rightarrow> sp_title s
      | None \<Rightarrow> normalizeIssueTitle (gi_title i) (nb_text (normalizeIssueBody (gi_body i)))))"

definition issue_prompt :: "intake_env \<Rightarrow> gh_issue \<Rightarrow> string" where
  "issue_prompt ie i =
    (let n = normalizeIssueBody (gi_body i);
         plain = (if nb_text n = [] \<and> nb_source n \<noteq> Plain then issue_title ie i else nb_text n) in
     take 8000 (redactString (case issue_spec ie i of Some s \<Rightarrow> sp_description s | None \<Rightarrow> plain)))"

definition issue_key :: "intake_env \<Rightarrow> gh_issue \<Rightarrow> string" where
  "issue_key ie i = idempotencyKeyFor (ie_sha256 ie) (issue_type i) (issue_title ie i) (issue_prompt ie i)"

definition issue_task :: "intake_env \<Rightarrow> gh_issue \<Rightarrow> etask" where
  "issue_task ie i =
    (let s = issue_spec ie i in
     \<lparr>et_core = new_core (issue_id (gi_number i)) (Some (case s of None \<Rightarrow> ''normal'' | Some x \<Rightarrow> sp_priority x)) (ie_now ie) (ie_maxAttempts ie)
        (case s of None \<Rightarrow> [] | Some x \<Rightarrow> sp_dependsOn x)
        (map_option Iso (Option.bind s sp_deadline))
        (map_option (\<lambda>h. Iso (ie_now ie + \<lfloor>h * 3600000\<rfloor>)) (Option.bind s sp_ttlHours)),
      et_type = issue_type i, et_issueNumber = gi_number i, et_issueUrl = map_option redactString (gi_url i),
      et_author = map_option redactString (au_login (authorizeActor (gi_actor i) (ie_authz ie))),
      et_title = redactString (issue_title ie i), et_prompt = redactString (issue_prompt ie i),
      et_routingHint = map_option sp_routingHint s, et_autonomy = Option.bind s sp_autonomy, et_approvals = [], et_parks = None,
      et_cancelRequested = False, et_pauseRequested = False, et_prNumber = None, et_prUrl = None, et_usage = None,
      et_idempotencyKey = Some (redactString (issue_key ie i)), et_seen = map_option scrub_stamp (gi_created i),
      et_duplicateOf = None, et_retriedBy = None\<rparr>)"

datatype intake_note =
    Accepted string string "string option" "string list" string
  | Duplicate string string
  | Ignored "nat list"
  | Labelled nat
  | CtlMove tevent

record intake =
  in_tasks :: "etask list"
  in_added :: nat
  in_ignored :: "gh_issue list"
  in_duplicates :: "string list"
  in_notes :: "intake_note list"
  in_labelled :: "nat list"

definition duplicate_ctx :: "int \<Rightarrow> etask \<Rightarrow> ctx" where
  "duplicate_ctx now d =
    (why_ctx now (''duplicate of '' @ et_id d))\<lparr>c_by := Some ''intake'',
       c_error := Some (Some (''Duplicate submission: identical to '' @ et_id d
         @ (case et_issueUrl d of None \<Rightarrow> [] | Some u \<Rightarrow> if u = [] then [] else '' ('' @ u @ '')'') @ ''.''))\<rparr>"

definition take_in :: "intake_env \<Rightarrow> string list \<Rightarrow> gh_issue \<Rightarrow> intake \<Rightarrow> lc_error + intake" where
  "take_in ie known i st =
    (let au = authorizeActor (gi_actor i) (ie_authz ie); t = issue_task ie i in
     if gi_pull_request i \<or> issue_id (gi_number i) \<in> set known then Inr st
     else if \<not> au_ok au then Inr (st\<lparr>in_ignored := in_ignored st @ [i]\<rparr>)
     else (case findDuplicate (in_tasks st) (issue_key ie i) (ie_now ie) (ie_window ie) of
         Some d \<Rightarrow>
           res_bind (move t ''cancelled'' (duplicate_ctx (ie_now ie) d)) (\<lambda>(t', e).
             Inr (st\<lparr>in_tasks := in_tasks st @ [t'\<lparr>et_duplicateOf := Some (et_id d)\<rparr>],
               in_duplicates := in_duplicates st @ [issue_id (gi_number i)],
               in_notes := in_notes st @ [CtlMove e, Duplicate (issue_id (gi_number i)) (et_id d)]\<rparr>))
       | None \<Rightarrow>
           Inr (st\<lparr>in_tasks := in_tasks st @ [t], in_added := in_added st + 1,
             in_notes := in_notes st @ [Accepted (issue_id (gi_number i)) (issue_type i) (t_priority (et_core t)) (t_dependsOn (et_core t)) (au_reason au)]\<rparr>)))"

fun take_all :: "intake_env \<Rightarrow> string list \<Rightarrow> gh_issue list \<Rightarrow> intake \<Rightarrow> lc_error + intake" where
  "take_all ie known [] st = Inr st"
| "take_all ie known (i # iss) st = res_bind (take_in ie known i st) (take_all ie known iss)"

definition IGNORED_LABEL :: string where "IGNORED_LABEL = ''titan-ignored''"
definition MAX_IGNORE_LABELS_PER_PULSE :: nat where "MAX_IGNORE_LABELS_PER_PULSE = 10"

text \<open>The labels that are put on strangers' issues: at most ten that succeed, never twice on one issue.\<close>

fun label_ignored :: "(nat \<Rightarrow> bool) \<Rightarrow> gh_issue list \<Rightarrow> nat list \<Rightarrow> nat list" where
  "label_ignored fails [] ls = ls"
| "label_ignored fails (i # iss) ls =
     (if MAX_IGNORE_LABELS_PER_PULSE \<le> length ls then ls
      else if IGNORED_LABEL \<in> set (gi_labels i) \<or> fails (gi_number i) then label_ignored fails iss ls
      else label_ignored fails iss (ls @ [gi_number i]))"

definition close_intake :: "intake_env \<Rightarrow> intake \<Rightarrow> intake" where
  "close_intake ie st =
    (if in_ignored st = [] then st
     else (let ls = (if ie_labels ie then label_ignored (ie_labelFails ie) (in_ignored st) [] else []) in
       st\<lparr>in_labelled := ls,
          in_notes := in_notes st @ [Ignored (map gi_number (in_ignored st))] @ (if ls = [] then [] else [Labelled (length ls)])\<rparr>))"

definition syncIssuesIntoTasks :: "intake_env \<Rightarrow> gh_issue list \<Rightarrow> etask list \<Rightarrow> lc_error + intake" where
  "syncIssuesIntoTasks ie issues ts =
    res_bind (take_all ie (map et_id ts) issues
        \<lparr>in_tasks = ts, in_added = 0, in_ignored = [], in_duplicates = [], in_notes = [], in_labelled = []\<rparr>)
      (\<lambda>st. Inr (close_intake ie st))"

text \<open>A task dispatched by hand: no issue, the text as title and prompt.\<close>

definition manual_id :: "int \<Rightarrow> string" where
  "manual_id now = ''manual-'' @ (if now < 0 then ''-'' @ show_nat (nat (- now)) else show_nat (nat now))"

definition addManualTask :: "int \<Rightarrow> (string \<Rightarrow> string) \<Rightarrow> nat option \<Rightarrow> string \<Rightarrow> etask list \<Rightarrow> etask list \<times> string" where
  "addManualTask now sha256 maxAttempts txt ts =
    (let title = take 120 (redactString txt); prompt = take 8000 (redactString txt) in
     (ts @ [\<lparr>et_core = new_core (manual_id now) (Some ''normal'') now maxAttempts [] None None, et_type = ''task'', et_issueNumber = 0,
        et_issueUrl = None, et_author = None, et_title = redactString title, et_prompt = redactString prompt, et_routingHint = None,
        et_autonomy = None, et_approvals = [], et_parks = None, et_cancelRequested = False, et_pauseRequested = False, et_prNumber = None,
        et_prUrl = None, et_usage = None, et_idempotencyKey = Some (redactString (idempotencyKeyFor sha256 ''task'' title prompt)),
        et_seen = None, et_duplicateOf = None, et_retriedBy = None\<rparr>], manual_id now))"


section \<open>Commands\<close>

definition PREEMPTABLE :: "status list" where
  "PREEMPTABLE = [Pending, Waiting, Paused]"

definition by_ctx :: "int \<Rightarrow> string \<Rightarrow> string \<Rightarrow> ctx" where
  "by_ctx now by reason = (why_ctx now reason)\<lparr>c_by := Some by\<rparr>"

datatype ctl_note =
    Moved tevent
  | ApprovalLogged string string string
  | CtlRejected string string
  | CtlCommand string string "string list" string string

definition ctl_move :: "string \<Rightarrow> ctx \<Rightarrow> string \<Rightarrow> etask \<Rightarrow> lc_error + string \<times> etask \<times> ctl_note list" where
  "ctl_move to c outcome t = res_bind (move t to c) (\<lambda>(t', e). Inr (outcome, t', [Moved e]))"

definition applyCommand :: "int \<Rightarrow> string \<Rightarrow> command \<Rightarrow> etask \<Rightarrow> lc_error + string \<times> etask \<times> ctl_note list" where
  "applyCommand now by c t =
    (let v = cm_verb c; st = et_status t; stay = (\<lambda>out. Inr (out, t, [])) in
     if v = ''retry'' then
       (if isTerminal st then
          res_bind (ctl_move ''pending'' (by_ctx now by (''retry requested by '' @ by)) ''retried'' (on_core (\<lambda>k. k\<lparr>t_attempts := Some 0\<rparr>) t))
            (\<lambda>(out, t', ns). Inr (out, t'\<lparr>et_retriedBy := Some by\<rparr>, ns))
        else stay ''ignored-not-terminal'')
     else if v = ''cancel'' then
       (if st \<in> set PREEMPTABLE then
          ctl_move ''cancelled'' ((by_ctx now by (''cancelled by '' @ by))\<lparr>c_error := Some (Some (''Cancelled by '' @ by @ ''.''))\<rparr>) ''cancelled'' t
        else if st = Running then Inr (''cancel-requested'', t\<lparr>et_cancelRequested := True\<rparr>, [])
        else stay ''ignored'')
     else if v = ''pause'' then
       (if st = Pending \<or> st = Waiting then ctl_move ''paused'' (by_ctx now by (''paused by '' @ by)) ''paused'' t
        else if st = Running then Inr (''pause-requested'', t\<lparr>et_pauseRequested := True\<rparr>, [])
        else stay ''ignored'')
     else if v = ''resume'' then
       (if st = Paused then ctl_move ''pending'' (by_ctx now by (''resumed by '' @ by)) ''resumed'' t else stay ''ignored'')
     else if v = ''priority'' then
       (let p = toLowerCase (case cm_args c of [] \<Rightarrow> [] | a # _ \<Rightarrow> a) in
        if p \<notin> set VALID_PRIORITIES then stay ''ignored-bad-priority''
        else Inr (''priority-'' @ p, on_core (\<lambda>k. k\<lparr>t_priority := Some p\<rparr>) t, []))
     else if v = ''approve'' \<or> v = ''deny'' then
       (let step = take 64 (case cm_args c of [] \<Rightarrow> ''all'' | a # _ \<Rightarrow> a);
            d = (if v = ''approve'' then ''approved'' else ''denied'');
            t1 = t\<lparr>et_approvals := assoc_put step \<lparr>hd_decision = d, hd_by = Some by\<rparr> (et_approvals t)\<rparr>;
            n = ApprovalLogged step (categoryForApprovalKey step) d in
        if st = Waiting \<and> t_waitReason (et_core t) = Some WApproval then
          res_bind (ctl_move ''pending'' (by_ctx now by (v @ '' by '' @ by @ '' for '' @ step)) ''approval-recorded'' t1)
            (\<lambda>(out, t', ns). Inr (out, t', n # ns))
        else Inr (''approval-recorded'', t1, [n]))
     else stay ''ignored'')"

section \<open>One pass over the queue\<close>

record ctl_counts =
  cc_cancelled :: nat
  cc_retried :: nat
  cc_commands :: nat
  cc_rejected :: nat
  cc_fetched :: nat
  cc_approvals :: nat

type_synonym ctl = "etask \<times> ctl_counts \<times> ctl_note list"

definition no_ctl_counts :: ctl_counts where
  "no_ctl_counts = \<lparr>cc_cancelled = 0, cc_retried = 0, cc_commands = 0, cc_rejected = 0, cc_fetched = 0, cc_approvals = 0\<rparr>"

definition closed_ctx :: "int \<Rightarrow> ctx" where
  "closed_ctx now =
    (why_ctx now ''issue closed before the task ran'')\<lparr>c_by := Some ''issue-closed'',
       c_error := Some (Some (''Cancelled from the dashboard '' @ utf8 8212 @ '' the originating issue was closed before this task ran.''))\<rparr>"

definition count_command :: "string \<Rightarrow> ctl_counts \<Rightarrow> ctl_counts" where
  "count_command out c =
    c\<lparr>cc_commands := cc_commands c + 1, cc_retried := cc_retried c + (if out = ''retried'' then 1 else 0),
      cc_approvals := cc_approvals c + (if out = ''approval-recorded'' then 1 else 0)\<rparr>"

text \<open>A command is stale when it is not newer than the cursor, or is a retry of an earlier life.\<close>

definition stale :: "int option \<Rightarrow> int option \<Rightarrow> gh_comment \<Rightarrow> command \<Rightarrow> bool" where
  "stale sinceMs completedMs g c =
    (let made = parsed_at (gc_created g) in
     (case (sinceMs, made) of (Some s, Some m) \<Rightarrow> m \<le> s | _ \<Rightarrow> False) \<or>
     (cm_verb c = ''retry'' \<and> (case (completedMs, made) of (Some d, Some m) \<Rightarrow> m \<le> d | _ \<Rightarrow> False)))"

definition on_comment :: "int \<Rightarrow> authz \<Rightarrow> int option \<Rightarrow> int option \<Rightarrow> gh_comment \<Rightarrow> ctl \<Rightarrow> lc_error + ctl" where
  "on_comment now az sinceMs completedMs g s =
    (case s of (t, n, notes) \<Rightarrow>
      (case parseTitanCommand (gc_body g) of
         None \<Rightarrow> Inr s
       | Some c \<Rightarrow>
           (let au = authorizeActor (gc_actor g) az; by = dflt (au_login au) [] in
            if stale sinceMs completedMs g c then Inr s
            else if \<not> au_ok au then Inr (t, n\<lparr>cc_rejected := cc_rejected n + 1\<rparr>, notes @ [CtlRejected (et_id t) (cm_verb c)])
            else res_bind (applyCommand now by c t) (\<lambda>(out, t', ns).
              Inr (t', count_command out n, notes @ ns @ [CtlCommand (et_id t) (cm_verb c) (cm_args c) by out])))))"

fun on_comments :: "int \<Rightarrow> authz \<Rightarrow> int option \<Rightarrow> int option \<Rightarrow> gh_comment list \<Rightarrow> ctl \<Rightarrow> lc_error + ctl" where
  "on_comments now az sinceMs completedMs [] s = Inr s"
| "on_comments now az sinceMs completedMs (g # gs) s =
     res_bind (on_comment now az sinceMs completedMs g s) (on_comments now az sinceMs completedMs gs)"

record control_env =
  ct_env_now :: int
  ct_env_authz :: authz
  ct_env_ready :: bool
  ct_env_comments :: "nat \<Rightarrow> stamp \<Rightarrow> gh_comment list option"

definition comments_since :: "control_env \<Rightarrow> nat \<Rightarrow> stamp \<Rightarrow> gh_comment list" where
  "comments_since ce k since = listComments (ct_env_ready ce) (ct_env_comments ce k since)"

definition open_issue :: "gh_issue list \<Rightarrow> nat \<Rightarrow> gh_issue option" where
  "open_issue iss n = List.find (\<lambda>i. gi_number i = n) (rev iss)"

definition cursor_of :: "etask \<Rightarrow> int option" where
  "cursor_of t =
    (case et_seen t of Some s \<Rightarrow> date_parse s
     | None \<Rightarrow> (case t_completedAt (et_core t) of Some s \<Rightarrow> date_parse s | None \<Rightarrow> date_parse (t_createdAt (et_core t))))"

definition control_task :: "control_env \<Rightarrow> gh_issue list \<Rightarrow> etask \<Rightarrow> ctl_counts \<Rightarrow> lc_error + ctl" where
  "control_task ce iss t n =
    (if et_issueNumber t = 0 then Inr (t, n, [])
     else (case open_issue iss (et_issueNumber t) of
         None \<Rightarrow>
           if et_status t \<in> set PREEMPTABLE
           then res_bind (move t ''cancelled'' (closed_ctx (ct_env_now ce))) (\<lambda>(t', e). Inr (t', n\<lparr>cc_cancelled := cc_cancelled n + 1\<rparr>, [Moved e]))
           else Inr (t, n, [])
       | Some i \<Rightarrow>
           (case parsed_at (gi_updated i) of
              None \<Rightarrow> Inr (t, n, [])
            | Some u \<Rightarrow>
                (let seenAt = cursor_of t in
                 if seenAt \<noteq> None \<and> u \<le> the seenAt then Inr (t, n, [])
                 else
                   (let since = (case seenAt of Some m \<Rightarrow> Iso m | None \<Rightarrow> t_createdAt (et_core t)) in
                    on_comments (ct_env_now ce) (ct_env_authz ce) (date_parse since) (parsed_at (t_completedAt (et_core t)))
                      (comments_since ce (et_issueNumber t) since)
                      (t\<lparr>et_seen := gi_updated i\<rparr>, n\<lparr>cc_fetched := cc_fetched n + 1\<rparr>, []))))))"

fun reconcileIssueState :: "control_env \<Rightarrow> gh_issue list \<Rightarrow> etask list \<Rightarrow> ctl_counts \<Rightarrow> lc_error + etask list \<times> ctl_counts \<times> ctl_note list" where
  "reconcileIssueState ce iss [] n = Inr ([], n, [])"
| "reconcileIssueState ce iss (t # ts) n =
     res_bind (control_task ce iss t n) (\<lambda>(t', n', ns).
       res_bind (reconcileIssueState ce iss ts n') (\<lambda>(ts', n'', ns'). Inr (t' # ts', n'', ns @ ns')))"


section \<open>Commands are legal moves\<close>

text \<open>What control never changes of a task, and the moves it may make: it never moves a running task.\<close>

definition same_work :: "etask \<Rightarrow> etask \<Rightarrow> bool" where
  "same_work t t' =
    (et_id t' = et_id t \<and> et_issueNumber t' = et_issueNumber t \<and> et_type t' = et_type t \<and> et_title t' = et_title t \<and>
     et_prompt t' = et_prompt t \<and> t_dependsOn (et_core t') = t_dependsOn (et_core t) \<and> et_parks t' = et_parks t)"

definition HELD :: "status set" where "HELD = {Running, PrOpen}"
definition STEERED :: "status set" where "STEERED = {Pending, Cancelled, Paused}"

definition steered :: "etask \<Rightarrow> etask \<Rightarrow> bool" where
  "steered t t' =
    (same_work t t' \<and> wf_task (et_core t') \<and>
     (et_status t \<in> HELD \<or> et_status t' \<notin> STEERED \<longrightarrow> et_status t' = et_status t))"

lemma steered_refl: "wf_task (et_core t) \<Longrightarrow> steered t t"
  by (simp add: steered_def same_work_def)

lemma steered_trans: "steered t u \<Longrightarrow> steered u v \<Longrightarrow> steered t v"
  unfolding steered_def same_work_def by metis

lemma steered_wf: "steered t t' \<Longrightarrow> wf_task (et_core t')"
  by (simp add: steered_def)

lemma wf_side_fields [simp]:
  "wf_task (k\<lparr>t_attempts := a\<rparr>) = wf_task k" "wf_task (k\<lparr>t_priority := p\<rparr>) = wf_task k"
  by (simp_all add: wf_task_def)

lemma ctl_move_steers:
  assumes "wf_task (et_core t)" and "canTransition (et_status t) s" and "s \<in> STEERED" and "et_status t \<notin> HELD"
    and "s = Pending \<Longrightarrow> to = ''pending''" "s = Cancelled \<Longrightarrow> to = ''cancelled''" "s = Paused \<Longrightarrow> to = ''paused''"
  shows "ctl_move to c out t = Inr (out, moved_to s c t, [Moved (move_event s c t)]) \<and> steered t (moved_to s c t)"
proof -
  have wf: "wf_task (transition_body (et_core t) s c)" using assms(3) by (intro wf_body [OF assms(1,2)]) (auto simp: STEERED_def)
  have "move t to c = Inr (moved_to s c t, move_event s c t)"
    using assms(2,3,5-7) etask_moves [of t c] by (auto simp: STEERED_def)
  moreover have "steered t (moved_to s c t)"
    using assms(3,4) wf by (auto simp: steered_def same_work_def moved_to_def on_core_def)
  ultimately show ?thesis by (simp add: ctl_move_def)
qed


lemma terminal_moves: "isTerminal st \<Longrightarrow> canTransition st Pending \<and> st \<notin> HELD"
  by (cases st) (simp_all add: canTransition_def HELD_def)

lemma steered_set:
  assumes "wf_task (et_core t)"
  shows "steered t (t\<lparr>et_cancelRequested := b\<rparr>)" "steered t (t\<lparr>et_pauseRequested := b\<rparr>)" "steered t (t\<lparr>et_approvals := ap\<rparr>)"
    "steered t (on_core (\<lambda>k. k\<lparr>t_priority := p\<rparr>) t)" "steered t (on_core (\<lambda>k. k\<lparr>t_attempts := a\<rparr>) t)" "steered t (t\<lparr>et_retriedBy := r\<rparr>)"
    "steered t (t\<lparr>et_seen := u\<rparr>)"
  using assms by (simp_all add: steered_def same_work_def on_core_def)

text \<open>The result of a command: an outcome, and the task steered.\<close>

definition obeys :: "etask \<Rightarrow> lc_error + string \<times> etask \<times> ctl_note list \<Rightarrow> bool" where
  "obeys t r = (\<exists>out t' ns. r = Inr (out, t', ns) \<and> steered t t')"

lemma obeys_if: "(b \<Longrightarrow> obeys t x) \<Longrightarrow> (\<not> b \<Longrightarrow> obeys t y) \<Longrightarrow> obeys t (if b then x else y)"
  by simp

lemma obeys_stay: "steered t t' \<Longrightarrow> obeys t (Inr (out, t', ns))"
  by (simp add: obeys_def)

lemma obeys_bind: "obeys u r \<Longrightarrow> steered t u \<Longrightarrow> (\<And>out t' ns. steered u t' \<Longrightarrow> obeys t (f (out, t', ns))) \<Longrightarrow> obeys t (res_bind r f)"
  by (auto simp: obeys_def)

lemma obeys_move:
  assumes "wf_task (et_core t)"
  shows "et_status t \<in> set PREEMPTABLE \<Longrightarrow> obeys t (ctl_move ''cancelled'' x out t)"
    "et_status t = Pending \<or> et_status t = Waiting \<Longrightarrow> obeys t (ctl_move ''paused'' x out t)"
    "et_status t = Paused \<or> et_status t = Waiting \<or> isTerminal (et_status t) \<Longrightarrow> obeys t (ctl_move ''pending'' x out t)"
proof -
  show "et_status t \<in> set PREEMPTABLE \<Longrightarrow> obeys t (ctl_move ''cancelled'' x out t)"
    using ctl_move_steers [OF assms, of Cancelled "''cancelled''" x out]
    by (auto simp: obeys_def PREEMPTABLE_def canTransition_table STEERED_def HELD_def)
  show "et_status t = Pending \<or> et_status t = Waiting \<Longrightarrow> obeys t (ctl_move ''paused'' x out t)"
    using ctl_move_steers [OF assms, of Paused "''paused''" x out] by (auto simp: obeys_def canTransition_table STEERED_def HELD_def)
  have "canTransition (et_status t) Pending \<and> et_status t \<notin> HELD" if "et_status t = Paused \<or> et_status t = Waiting \<or> isTerminal (et_status t)"
    using that terminal_moves by (auto simp: canTransition_table HELD_def)
  then show "et_status t = Paused \<or> et_status t = Waiting \<or> isTerminal (et_status t) \<Longrightarrow> obeys t (ctl_move ''pending'' x out t)"
    using ctl_move_steers [OF assms, of Pending "''pending''" x out] by (auto simp: obeys_def STEERED_def)
qed

lemma applyCommand_obeys:
  assumes "wf_task (et_core t)"
  shows "obeys t (applyCommand now by c t)"
proof -
  note side = steered_set [OF assms]
  have retry: "obeys t (res_bind (ctl_move ''pending'' x out (on_core (\<lambda>k. k\<lparr>t_attempts := Some 0\<rparr>) t)) (\<lambda>(out, t', ns). Inr (out, t'\<lparr>et_retriedBy := r\<rparr>, ns)))"
    if "isTerminal (et_status t)" for x out r
  proof (rule obeys_bind [OF obeys_move(3) [OF steered_wf [OF side(5)]] side(5)])
    show "et_status (on_core (\<lambda>k. k\<lparr>t_attempts := Some 0\<rparr>) t) = Paused \<or> et_status (on_core (\<lambda>k. k\<lparr>t_attempts := Some 0\<rparr>) t) = Waiting \<or>
        isTerminal (et_status (on_core (\<lambda>k. k\<lparr>t_attempts := Some 0\<rparr>) t))"
      using that by (simp add: on_core_def)
    show "obeys t (case (out, t', ns) of (out, t', ns) \<Rightarrow> Inr (out, t'\<lparr>et_retriedBy := r\<rparr>, ns))"
      if "steered (on_core (\<lambda>k. k\<lparr>t_attempts := Some 0\<rparr>) t) t'" for out t' ns
      using steered_trans [OF side(5) steered_trans [OF that steered_set(6) [OF steered_wf [OF that]]]] by (simp add: obeys_stay)
  qed
  have answer: "obeys t (res_bind (ctl_move ''pending'' x out (t\<lparr>et_approvals := ap\<rparr>)) (\<lambda>(out, t', ns). Inr (out, t', n # ns)))"
    if "et_status t = Waiting" for x out ap n
  proof (rule obeys_bind [OF obeys_move(3) [OF steered_wf [OF side(3)]] side(3)])
    show "obeys t (case (out, t', ns) of (out, t', ns) \<Rightarrow> Inr (out, t', n # ns))" if "steered (t\<lparr>et_approvals := ap\<rparr>) t'" for out t' ns
      using steered_trans [OF side(3) that] by (simp add: obeys_stay)
  qed (use that in simp)
  show ?thesis
    unfolding applyCommand_def Let_def
    by (intro obeys_if retry answer obeys_move [OF assms] obeys_stay side steered_refl [OF assms]; simp)
qed

section \<open>A pass keeps the queue\<close>

definition passes :: "etask \<Rightarrow> lc_error + ctl \<Rightarrow> bool" where
  "passes t r = (\<exists>t' n ns. r = Inr (t', n, ns) \<and> steered t t')"

lemma on_comment_passes:
  assumes "wf_task (et_core t)"
  shows "passes t (on_comment now az s d g (t, n, ns))"
proof -
  have "obeys t (applyCommand now who c t)" for who c by (rule applyCommand_obeys [OF assms])
  then have a: "\<exists>out t' m. applyCommand now who c t = Inr (out, t', m) \<and> steered t t'" for who c by (simp add: obeys_def)
  show ?thesis
  proof (cases "parseTitanCommand (gc_body g)")
    case None
    then show ?thesis by (simp add: on_comment_def passes_def steered_refl [OF assms])
  next
    case (Some c)
    obtain out t' m where "applyCommand now (dflt (au_login (authorizeActor (gc_actor g) az)) []) c t = Inr (out, t', m)" "steered t t'"
      using a by blast
    then show ?thesis using Some steered_refl [OF assms] by (simp add: on_comment_def passes_def Let_def)
  qed
qed

lemma on_comments_passes: "wf_task (et_core t) \<Longrightarrow> passes t (on_comments now az s d gs (t, n, ns))"
proof (induction gs arbitrary: t n ns)
  case Nil
  then show ?case by (simp add: passes_def steered_refl)
next
  case (Cons g gs)
  obtain u m ms where u: "on_comment now az s d g (t, n, ns) = Inr (u, m, ms)" "steered t u"
    using on_comment_passes [OF Cons.prems] unfolding passes_def by blast
  from Cons.IH [OF steered_wf [OF u(2)], of m ms] show ?case using u steered_trans by (auto simp: passes_def)
qed

lemma control_task_passes:
  assumes "wf_task (et_core t)"
  shows "passes t (control_task ce iss t n)"
proof -
  have closed: "passes t (res_bind (move t ''cancelled'' c) (\<lambda>(t', e). Inr (t', n', [Moved e])))" if "et_status t \<in> set PREEMPTABLE" for c n'
    using obeys_move(1) [OF assms that, of c "[]"] by (auto simp: obeys_def passes_def ctl_move_def res_bind_eq_Inr)
  have seen: "passes t (on_comments now az s d gs (t\<lparr>et_seen := u\<rparr>, n', []))" for now az s d gs u n'
  proof -
    note st = steered_set(7) [OF assms, of u]
    from on_comments_passes [OF steered_wf [OF st]] show ?thesis unfolding passes_def using steered_trans [OF st] by blast
  qed
  have stay: "passes t (Inr (t, n, []))" by (simp add: passes_def steered_refl [OF assms])
  show ?thesis
    unfolding control_task_def Let_def using closed seen stay by (simp split: option.split)
qed

lemma reconcile_keeps:
  "list_all (\<lambda>t. wf_task (et_core t)) ts \<Longrightarrow> \<exists>ts' n' ns. reconcileIssueState ce iss ts n = Inr (ts', n', ns) \<and> list_all2 steered ts ts'"
proof (induction ts arbitrary: n)
  case (Cons t ts)
  have "passes t (control_task ce iss t n)" using Cons.prems by (intro control_task_passes) simp
  then obtain t' m ns where t: "control_task ce iss t n = Inr (t', m, ns)" "steered t t'" unfolding passes_def by blast
  have "\<exists>ts' n' ns. reconcileIssueState ce iss ts m = Inr (ts', n', ns) \<and> list_all2 steered ts ts'"
    using Cons.prems by (intro Cons.IH) simp
  then show ?case using t by auto
qed simp


section \<open>Strangers\<close>

definition only_cursor :: "etask \<Rightarrow> etask \<Rightarrow> bool" where
  "only_cursor t t' = (t' = t\<lparr>et_seen := et_seen t'\<rparr>)"

definition from_strangers :: "control_env \<Rightarrow> nat \<Rightarrow> stamp \<Rightarrow> bool" where
  "from_strangers ce k since = list_all (\<lambda>g. \<not> au_ok (authorizeActor (gc_actor g) (ct_env_authz ce))) (comments_since ce k since)"

lemma stranger_comments:
  "list_all (\<lambda>g. \<not> au_ok (authorizeActor (gc_actor g) az)) gs \<Longrightarrow>
   \<exists>n' ns'. on_comments now az s d gs (t, n, ns) = Inr (t, n', ns') \<and> cc_commands n' = cc_commands n"
proof (induction gs arbitrary: n ns)
  case (Cons g gs)
  have "\<exists>m ms. on_comment now az s d g (t, n, ns) = Inr (t, m, ms) \<and> cc_commands m = cc_commands n"
    using Cons.prems by (simp add: on_comment_def Let_def split: option.split)
  then obtain m ms where m: "on_comment now az s d g (t, n, ns) = Inr (t, m, ms)" "cc_commands m = cc_commands n" by blast
  have "\<exists>n' ns'. on_comments now az s d gs (t, m, ms) = Inr (t, n', ns') \<and> cc_commands n' = cc_commands m"
    using Cons.prems by (intro Cons.IH) simp
  then show ?case using m by auto
qed simp

lemma stranger_task:
  assumes "\<And>k since. from_strangers ce k since" and "et_issueNumber t = 0 \<or> open_issue iss (et_issueNumber t) \<noteq> None"
  shows "\<exists>t' n' ns. control_task ce iss t n = Inr (t', n', ns) \<and> only_cursor t t' \<and> cc_commands n' = cc_commands n"
proof -
  have c: "\<exists>n' ns'. on_comments (ct_env_now ce) (ct_env_authz ce) s d (comments_since ce k since) (v, m, ns) = Inr (v, n', ns') \<and>
      cc_commands n' = cc_commands m" for s d k since v m ns
    using assms(1) by (intro stranger_comments) (simp add: from_strangers_def)
  have stay: "\<exists>t' n' ns. Inr (t, n, []) = (Inr (t', n', ns) :: lc_error + ctl) \<and> only_cursor t t' \<and> cc_commands n' = cc_commands n"
    by (simp add: only_cursor_def)
  have seen: "\<exists>t' n' ns. on_comments (ct_env_now ce) (ct_env_authz ce) s d (comments_since ce k since)
      (t\<lparr>et_seen := u\<rparr>, n\<lparr>cc_fetched := f\<rparr>, []) = Inr (t', n', ns) \<and> only_cursor t t' \<and> cc_commands n' = cc_commands n" for s d k since u f
  proof -
    obtain n' ns' where "on_comments (ct_env_now ce) (ct_env_authz ce) s d (comments_since ce k since)
        (t\<lparr>et_seen := u\<rparr>, n\<lparr>cc_fetched := f\<rparr>, []) = Inr (t\<lparr>et_seen := u\<rparr>, n', ns')" "cc_commands n' = cc_commands (n\<lparr>cc_fetched := f\<rparr>)"
      using c by blast
    then show ?thesis by (simp add: only_cursor_def)
  qed
  show ?thesis
  proof (cases "et_issueNumber t = 0")
    case True
    then show ?thesis using stay by (simp add: control_task_def)
  next
    case False
    then obtain i where i: "open_issue iss (et_issueNumber t) = Some i"
      using assms(2) by (cases "open_issue iss (et_issueNumber t)") auto
    show ?thesis unfolding control_task_def i Let_def using False stay seen by (simp split: option.split)
  qed
qed

section \<open>What control guarantees\<close>

text \<open>C10. Control always goes through: whatever is listed and commented, no move of a pass over a well-formed queue is
  refused, every task stays well formed with its work, dependencies and park count unchanged, it can only have
  become pending, cancelled or paused, and a running task or an open pull request is never moved (a running one
  only carries a request).\<close>

theorem control_keeps_queue:
  assumes "list_all (\<lambda>t. wf_task (et_core t)) ts"
  shows "\<exists>ts' n' ns. reconcileIssueState ce iss ts n = Inr (ts', n', ns) \<and> list_all2 steered ts ts'"
  using assms by (rule reconcile_keeps)

text \<open>C11. A stranger cannot steer: when no comment is from an authorized author and the issues are open, a pass changes
  nothing of any task but the cursor, and applies no command.\<close>

theorem strangers_cannot_steer:
  assumes "\<And>k since. from_strangers ce k since"
    and "list_all (\<lambda>t. et_issueNumber t = 0 \<or> open_issue iss (et_issueNumber t) \<noteq> None) ts"
  shows "\<exists>ts' n' ns. reconcileIssueState ce iss ts n = Inr (ts', n', ns) \<and> list_all2 only_cursor ts ts' \<and> cc_commands n' = cc_commands n"
  using assms(2)
proof (induction ts arbitrary: n)
  case (Cons t ts)
  have "\<exists>t' n' ns. control_task ce iss t n = Inr (t', n', ns) \<and> only_cursor t t' \<and> cc_commands n' = cc_commands n"
    using Cons.prems by (intro stranger_task assms(1)) simp
  then obtain t' m ns where t: "control_task ce iss t n = Inr (t', m, ns)" "only_cursor t t'" "cc_commands m = cc_commands n" by blast
  have "\<exists>ts' n' ns. reconcileIssueState ce iss ts m = Inr (ts', n', ns) \<and> list_all2 only_cursor ts ts' \<and> cc_commands n' = cc_commands m"
    using Cons.prems by (intro Cons.IH) simp
  then show ?case using t by auto
qed simp

text \<open>C15. A failed request empties the queue: the listing answers an error with no issues, which control reads as every
  issue closed, so one failing request to GitHub cancels every pending, waiting and paused task that has an issue.\<close>

theorem failed_listing_cancels_queue:
  "\<exists>ts' n' ns. reconcileIssueState ce (listOpenTaskIssues ready None) ts n = Inr (ts', n', ns) \<and>
     list_all2 (\<lambda>t t'. et_status t' = (if et_issueNumber t \<noteq> 0 \<and> et_status t \<in> set PREEMPTABLE then Cancelled else et_status t)) ts ts'"
proof (induction ts arbitrary: n)
  case (Cons t ts)
  have l: "listOpenTaskIssues ready None = []" by (simp add: listOpenTaskIssues_def dflt_def)
  have "move t ''cancelled'' c = Inr (moved_to Cancelled c t, move_event Cancelled c t)" if "et_status t \<in> set PREEMPTABLE" for c
    using that by (intro etask_moves) (auto simp: PREEMPTABLE_def canTransition_table)
  moreover have "open_issue [] k = None" for k by (simp add: open_issue_def)
  ultimately have "\<exists>t' m ns. control_task ce [] t n = Inr (t', m, ns) \<and>
      et_status t' = (if et_issueNumber t \<noteq> 0 \<and> et_status t \<in> set PREEMPTABLE then Cancelled else et_status t)"
    by (simp add: control_task_def)
  then obtain t' m ns where t: "control_task ce [] t n = Inr (t', m, ns)"
    "et_status t' = (if et_issueNumber t \<noteq> 0 \<and> et_status t \<in> set PREEMPTABLE then Cancelled else et_status t)" by blast
  from Cons.IH [of m] show ?case using t by (auto simp: l)
qed simp

text \<open>The same on the comments: when their listing fails, the cursor moves on and the commands of that bump are lost.\<close>

lemma failed_comments_lose_commands:
  assumes "et_issueNumber t \<noteq> 0" and "open_issue iss (et_issueNumber t) = Some i" and "parsed_at (gi_updated i) = Some u"
    and "cursor_of t = Some m" and "m < u" and "\<And>k since. ct_env_comments ce k since = None"
  shows "control_task ce iss t n = Inr (t\<lparr>et_seen := gi_updated i\<rparr>, n\<lparr>cc_fetched := cc_fetched n + 1\<rparr>, [])"
  using assms by (simp add: control_task_def comments_since_def listComments_def dflt_def Let_def)

section \<open>Intake keeps submissions apart\<close>

text \<open>No two live tasks of a queue are the same submission.\<close>

definition no_twins :: "etask list \<Rightarrow> bool" where
  "no_twins ts =
    sorted_wrt (\<lambda>t u. isTerminal (et_status t) \<or> isTerminal (et_status u) \<or> et_idempotencyKey t = None \<or>
      et_idempotencyKey t \<noteq> et_idempotencyKey u) ts"

definition taken_from :: "intake_env \<Rightarrow> string list \<Rightarrow> gh_issue list \<Rightarrow> etask \<Rightarrow> bool" where
  "taken_from ie known issues t =
    (wf_task (et_core t) \<and> et_status t \<in> {Pending, Cancelled} \<and>
     list_ex (\<lambda>i. et_issueNumber t = gi_number i \<and> \<not> gi_pull_request i \<and> au_ok (authorizeActor (gi_actor i) (ie_authz ie)) \<and>
       issue_id (gi_number i) \<notin> set known) issues)"

lemma wf_new_core: "wf_task (new_core i p now mx deps dl ex)"
  by (simp add: new_core_def wf_task_def MAX_HISTORY_def)

lemma issue_task_simps:
  "et_status (issue_task ie i) = Pending" "wf_task (et_core (issue_task ie i))" "et_issueNumber (issue_task ie i) = gi_number i"
  "et_idempotencyKey (issue_task ie i) = Some (redactString (issue_key ie i))"
  by (simp_all add: issue_task_def Let_def wf_new_core) (simp add: new_core_def)

lemma no_twins_snoc:
  "no_twins ts \<Longrightarrow> isTerminal (et_status u) \<or> (\<forall>t\<in>set ts. isTerminal (et_status t) \<or> et_idempotencyKey t = None \<or> et_idempotencyKey t \<noteq> et_idempotencyKey u) \<Longrightarrow>
   no_twins (ts @ [u])"
  by (auto simp: no_twins_def sorted_wrt_append)

lemma no_duplicate: "findDuplicate ts key now window = None \<Longrightarrow> \<forall>t\<in>set ts. isTerminal (et_status t) \<or> et_idempotencyKey t \<noteq> Some key"
  by (auto simp: findDuplicate_def find_None_iff same_submission_def)

definition intake_ok :: "intake_env \<Rightarrow> string list \<Rightarrow> gh_issue list \<Rightarrow> etask list \<Rightarrow> intake \<Rightarrow> bool" where
  "intake_ok ie known issues ts st =
    (no_twins (in_tasks st) \<and> (\<exists>new. in_tasks st = ts @ new \<and> list_all (taken_from ie known issues) new) \<and> in_labelled st = [])"

lemma intake_ok_add:
  assumes "intake_ok ie known issues ts st" and "taken_from ie known issues u" and "no_twins (in_tasks st @ [u])" and "in_tasks st' = in_tasks st @ [u]"
    and "in_labelled st' = in_labelled st"
  shows "intake_ok ie known issues ts st'"
proof -
  obtain new where "in_tasks st = ts @ new" "list_all (taken_from ie known issues) new" using assms(1) by (auto simp: intake_ok_def)
  then have "in_tasks st' = ts @ (new @ [u])" "list_all (taken_from ie known issues) (new @ [u])" using assms(2,4) by simp_all
  then show ?thesis using assms(1,3-5) unfolding intake_ok_def by metis
qed

lemma take_in_ok:
  assumes "intake_ok ie known issues ts st" and "i \<in> set issues" and "redactString (issue_key ie i) = issue_key ie i"
  shows "\<exists>st'. take_in ie known i st = Inr st' \<and> intake_ok ie known issues ts st'"
proof -
  let ?t = "issue_task ie i" and ?au = "authorizeActor (gi_actor i) (ie_authz ie)"
  show ?thesis
  proof (cases "gi_pull_request i \<or> issue_id (gi_number i) \<in> set known \<or> \<not> au_ok ?au")
    case True
    then show ?thesis using assms(1) by (auto simp: take_in_def Let_def intake_ok_def)
  next
    case False
    then have here: "list_ex (\<lambda>j. gi_number i = gi_number j \<and> \<not> gi_pull_request j \<and> au_ok (authorizeActor (gi_actor j) (ie_authz ie)) \<and>
        issue_id (gi_number j) \<notin> set known) issues"
      using assms(2) by (auto simp: list_ex_iff)
    have twins: "no_twins (in_tasks st)" using assms(1) by (simp add: intake_ok_def)
    show ?thesis
    proof (cases "findDuplicate (in_tasks st) (issue_key ie i) (ie_now ie) (ie_window ie)")
      case None
      have "no_twins (in_tasks st @ [?t])"
        using no_duplicate [OF None] assms(3) by (intro no_twins_snoc [OF twins]) (auto simp: issue_task_simps)
      moreover have "taken_from ie known issues ?t" using here by (simp add: taken_from_def issue_task_simps)
      ultimately show ?thesis using False None by (auto simp: take_in_def Let_def intro!: intake_ok_add [OF assms(1)])
    next
      case (Some d)
      let ?c = "duplicate_ctx (ie_now ie) d"
      let ?u = "(moved_to Cancelled ?c ?t)\<lparr>et_duplicateOf := Some (et_id d)\<rparr>"
      have m: "move ?t ''cancelled'' ?c = Inr (moved_to Cancelled ?c ?t, move_event Cancelled ?c ?t)"
        by (intro etask_moves) (simp add: issue_task_simps canTransition_table)
      have "wf_task (et_core (moved_to Cancelled ?c ?t))" by (intro wf_moved_to) (simp_all add: issue_task_simps canTransition_table)
      then have "taken_from ie known issues ?u" using here by (simp add: taken_from_def issue_task_simps)
      moreover have "no_twins (in_tasks st @ [?u])" by (intro no_twins_snoc [OF twins]) simp
      ultimately show ?thesis using False Some m by (auto simp: take_in_def Let_def intro!: intake_ok_add [OF assms(1)])
    qed
  qed
qed

lemma take_all_ok:
  assumes "\<forall>i\<in>set issues. redactString (issue_key ie i) = issue_key ie i"
  shows "intake_ok ie known issues ts st \<Longrightarrow> set iss \<subseteq> set issues \<Longrightarrow>
    \<exists>st'. take_all ie known iss st = Inr st' \<and> intake_ok ie known issues ts st'"
proof (induction iss arbitrary: st)
  case (Cons i iss)
  then obtain st1 where "take_in ie known i st = Inr st1" "intake_ok ie known issues ts st1"
    using take_in_ok [of ie known issues ts st i] assms by auto
  then show ?case using Cons by simp
qed simp

lemma label_bound: "length ls \<le> MAX_IGNORE_LABELS_PER_PULSE \<Longrightarrow> length (label_ignored fails iss ls) \<le> MAX_IGNORE_LABELS_PER_PULSE"
  by (induction iss arbitrary: ls) auto

text \<open>C12. Intake lets in only what it may and never twice: it cannot fail; it leaves the tasks of the queue as they are
  and appends well-formed ones, each from an issue that is not a pull request, was not known and whose author is
  authorized; no two live tasks are the same submission afterwards if none were before; and it labels at most
  ten strangers' issues. The hypothesis says that the secret scan leaves the digests alone.\<close>

theorem intake_lets_in_once:
  assumes "\<forall>i\<in>set issues. redactString (issue_key ie i) = issue_key ie i" and "no_twins ts"
  shows "\<exists>st new. syncIssuesIntoTasks ie issues ts = Inr st \<and> in_tasks st = ts @ new \<and>
    list_all (taken_from ie (map et_id ts) issues) new \<and> no_twins (in_tasks st) \<and> length (in_labelled st) \<le> 10"
proof -
  let ?st = "\<lparr>in_tasks = ts, in_added = 0, in_ignored = [], in_duplicates = [], in_notes = [], in_labelled = []\<rparr>"
  have "intake_ok ie (map et_id ts) issues ts ?st" using assms(2) by (simp add: intake_ok_def)
  from take_all_ok [OF assms(1) this order_refl] obtain st where
    st: "take_all ie (map et_id ts) issues ?st = Inr st" "intake_ok ie (map et_id ts) issues ts st" by blast
  have c: "in_tasks (close_intake ie st) = in_tasks st" "length (in_labelled (close_intake ie st)) \<le> 10"
    using st(2) label_bound [of "[]" "ie_labelFails ie" "in_ignored st"]
    by (auto simp: close_intake_def Let_def intake_ok_def MAX_IGNORE_LABELS_PER_PULSE_def)
  obtain new where "in_tasks st = ts @ new" "list_all (taken_from ie (map et_id ts) issues) new" "no_twins (in_tasks st)"
    using st(2) unfolding intake_ok_def by blast
  then show ?thesis using c st(1) by (simp add: syncIssuesIntoTasks_def)
qed


section \<open>Instances\<close>

definition owner_only :: authz where
  "owner_only = authorizationContextFrom [] (Some ''octo/titan'') None"

definition person :: "string \<Rightarrow> actor" where
  "person login = \<lparr>ak_login = Some login, ak_type = Some ''User'', ak_association = Some ''NONE''\<rparr>"

definition demo_issue :: "nat \<Rightarrow> string \<Rightarrow> gh_issue" where
  "demo_issue n login =
    \<lparr>gi_number = n, gi_pull_request = False, gi_actor = person login, gi_labels = [''titan-task''], gi_title = Some ''Fix it'',
     gi_body = Some ''Please.'', gi_url = None, gi_created = Some (Iso 0), gi_updated = Some (Iso 5)\<rparr>"

definition demo_intake :: intake_env where
  "demo_intake =
    \<lparr>ie_authz = owner_only, ie_now = 0, ie_window = DEFAULT_DUPLICATE_WINDOW_MS, ie_maxAttempts = None,
     ie_sha256 = (\<lambda>_. ''0123456789abcdef0123''), ie_date = (\<lambda>_. None), ie_number = (\<lambda>_. None), ie_labels = True, ie_labelFails = (\<lambda>_. False)\<rparr>"

definition demo_queue :: "etask list" where
  "demo_queue = [issue_task demo_intake (demo_issue 7 ''octo'')]"

definition demo_control :: control_env where
  "demo_control = \<lparr>ct_env_now = 9, ct_env_authz = owner_only, ct_env_ready = True,
     ct_env_comments = (\<lambda>_ _. Some [\<lparr>gc_body = Some ''/titan cancel'', gc_created = Some (Iso 4), gc_actor = person ''mallory''\<rparr>])\<rparr>"

lemma demo_queue_wf: "list_all (\<lambda>t. wf_task (et_core t)) demo_queue"
  by (simp add: demo_queue_def issue_task_simps)

lemma demo_authors: "au_ok (authorizeActor (person ''octo'') owner_only)" "\<not> au_ok (authorizeActor (person ''mallory'') owner_only)"
  by code_simp+

theorem control_keeps_queue_witness:
  "\<exists>ts' n' ns. reconcileIssueState demo_control [demo_issue 7 ''octo''] demo_queue no_ctl_counts = Inr (ts', n', ns) \<and> list_all2 steered demo_queue ts'"
  by (rule control_keeps_queue [OF demo_queue_wf])

theorem strangers_cannot_steer_witness:
  "\<exists>ts' n' ns. reconcileIssueState demo_control [demo_issue 7 ''octo''] demo_queue no_ctl_counts = Inr (ts', n', ns) \<and>
     list_all2 only_cursor demo_queue ts' \<and> cc_commands n' = 0"
proof -
  have s: "from_strangers demo_control k since" for k since
    using demo_authors(2) by (simp add: from_strangers_def demo_control_def comments_since_def listComments_def dflt_def)
  have "open_issue [demo_issue 7 ''octo''] 7 \<noteq> None" by (simp add: open_issue_def demo_issue_def)
  then have "list_all (\<lambda>t. et_issueNumber t = 0 \<or> open_issue [demo_issue 7 ''octo''] (et_issueNumber t) \<noteq> None) demo_queue"
    by (simp add: demo_queue_def issue_task_simps) (simp add: demo_issue_def)
  from strangers_cannot_steer [OF s this, of no_ctl_counts] show ?thesis by (simp add: no_ctl_counts_def)
qed

theorem intake_lets_in_once_witness:
  "\<exists>st new. syncIssuesIntoTasks demo_intake [demo_issue 7 ''octo'', demo_issue 8 ''octo'', demo_issue 9 ''mallory''] [] = Inr st \<and>
     in_tasks st = [] @ new \<and>
     list_all (taken_from demo_intake (map et_id []) [demo_issue 7 ''octo'', demo_issue 8 ''octo'', demo_issue 9 ''mallory'']) new \<and>
     no_twins (in_tasks st) \<and> length (in_labelled st) \<le> 10"
proof -
  have "redactString ''idem-0123456789abcdef0123'' = ''idem-0123456789abcdef0123''" by code_simp
  then have "redactString (issue_key demo_intake i) = issue_key demo_intake i" for i
    by (simp add: issue_key_def idempotencyKeyFor_def demo_intake_def)
  then show ?thesis by (intro intake_lets_in_once) (simp_all add: no_twins_def)
qed

end
