(* ===== verification/Pulse.thy ===== *)
theory Pulse
  imports Claims Issue_Control
begin

text \<open>
  One pulse: the order of \<open>runPulse\<close> and \<open>revisitSelfImprovePr\<close> of \<open>src/engine/pulse.js\<close>, and
  \<open>checkSelfImprovePrStatus\<close> of \<open>src/selfImprove.js\<close>. The sweep, the intake, the control pass, the pull requests of
  earlier pulses and the claims run over one world; an exception of one step skips the rest, and the heartbeat
  records it. What the pulse only reports (views, digests, post-mortems, pruning) is left out.
\<close>

section \<open>State\<close>

datatype pulse_exn = PMove lc_error | PDuplicateComment string | PPrClose nat | PPrComment nat | PPrIssueClose nat | PRun run_exn

record pull_request =
  pl_merged :: bool
  pl_state :: string

datatype pr_watch = PrUnknown | PrMerged | PrClosedFailed | PrStillOpen

record pulse_cfg =
  pu_mgr :: lease_mgr
  pu_ttls :: ttls
  pu_control :: control
  pu_drain :: bool
  pu_dryRun :: bool
  pu_manual :: string
  pu_intake :: intake_env
  pu_ready :: bool
  pu_issues :: "gh_issue list option"
  pu_steer :: control_env
  pu_ls :: "(string \<Rightarrow> pulse_cp option) \<Rightarrow> string list"
  pu_pull :: "nat \<Rightarrow> pull_request option"
  pu_ci :: "nat \<Rightarrow> string"
  pu_prClose :: "nat \<Rightarrow> fate"
  pu_comment :: "string \<Rightarrow> nat \<Rightarrow> fate"
  pu_claims :: claim_env

record pulse_run =
  pr_world :: pulse_world
  pr_prsClosed :: "nat list"
  pr_labelled :: "nat list"
  pr_sweep :: "counts option"
  pr_steered :: ctl_counts

type_synonym pulse_step = "pulse_run \<Rightarrow> pulse_exn option \<times> pulse_run"

definition step_then :: "pulse_step \<Rightarrow> pulse_step \<Rightarrow> pulse_step" where
  "step_then f g p = (case f p of (Some e, p') \<Rightarrow> (Some e, p') | (None, p') \<Rightarrow> g p')"

definition skip_step :: pulse_step where
  "skip_step p = (None, p)"

definition on_world :: "(pulse_world \<Rightarrow> pulse_world) \<Rightarrow> pulse_run \<Rightarrow> pulse_run" where
  "on_world f p = p\<lparr>pr_world := f (pr_world p)\<rparr>"

section \<open>The sweep\<close>

definition sweep_step :: "pulse_cfg \<Rightarrow> pulse_step" where
  "sweep_step c p =
    (let w = pr_world p in
     case reconcile (pu_ttls c) (pu_mgr c)
       \<lparr>sw_tasks = map et_core (pw_tasks w), sw_leases = pw_leases w, sw_checkpoints = pu_ls c (pw_files w), sw_counts = Reconcile.no_counts, sw_events = []\<rparr> of
       Inl e \<Rightarrow> (Some (PMove e), p)
     | Inr s \<Rightarrow>
         (None, p\<lparr>pr_world := w\<lparr>pw_tasks := map2 (\<lambda>t k. t\<lparr>et_core := k\<rparr>) (pw_tasks w) (sw_tasks s), pw_leases := sw_leases s,
            pw_files := (\<lambda>f. if f \<in> set (pu_ls c (pw_files w)) \<and> f \<notin> set (sw_checkpoints s) then None else pw_files w f)\<rparr>, pr_sweep := Some (sw_counts s)\<rparr>))"

section \<open>Intake and control\<close>

text \<open>A duplicate is told once, under a ledger of its own; nothing suppresses this ledger.\<close>

definition duplicate_text :: "etask \<Rightarrow> string" where
  "duplicate_text t =
    ''TITAN-Runner did not run this task: it is a duplicate of '' @ dflt (et_duplicateOf t) ''undefined''
    @ (case t_error (et_core t) of None \<Rightarrow> ''.'' | Some e \<Rightarrow> if e = [] then ''.'' else []) @ [nl, nl] @ dflt (t_error (et_core t)) []"

definition tell_duplicate :: "pulse_cfg \<Rightarrow> string \<Rightarrow> pulse_step" where
  "tell_duplicate c i p =
    (case List.find (\<lambda>t. et_id t = i) (pw_tasks (pr_world p)) of
       None \<Rightarrow> (None, p)
     | Some t \<Rightarrow>
         if et_issueNumber t = 0 then (None, p)
         else (let key = ''dup:'' @ et_id t;
                   (r, s, h) = comment (Iso (lm_now (pu_mgr c))) False (pu_comment c key (et_issueNumber t)) (et_issueNumber t) key (duplicate_text t)
                     (new_effects [] False None, pw_hub (pr_world p));
                   p' = on_world (\<lambda>w. w\<lparr>pw_hub := h\<rparr>) p
               in (case r of None \<Rightarrow> (Some (PDuplicateComment i), p') | Some _ \<Rightarrow> (None, p'))))"

fun tell_duplicates :: "pulse_cfg \<Rightarrow> string list \<Rightarrow> pulse_step" where
  "tell_duplicates c [] p = (None, p)"
| "tell_duplicates c (i # ids) p = step_then (tell_duplicate c i) (tell_duplicates c ids) p"

definition steer_step :: "pulse_cfg \<Rightarrow> gh_issue list \<Rightarrow> pulse_step" where
  "steer_step c issues p =
    (case reconcileIssueState (pu_steer c) issues (pw_tasks (pr_world p)) no_ctl_counts of
       Inl e \<Rightarrow> (Some (PMove e), p)
     | Inr (ts, n, _) \<Rightarrow> (None, (on_world (\<lambda>w. w\<lparr>pw_tasks := ts\<rparr>) p)\<lparr>pr_steered := n\<rparr>))"

definition intake_step :: "pulse_cfg \<Rightarrow> pulse_step" where
  "intake_step c p =
    (if pu_dryRun c then (None, p)
     else
       (let issues = listOpenTaskIssues (pu_ready c) (pu_issues c) in
        case syncIssuesIntoTasks (pu_intake c) issues (pw_tasks (pr_world p)) of
          Inl e \<Rightarrow> (Some (PMove e), p)
        | Inr st \<Rightarrow>
            step_then (tell_duplicates c (in_duplicates st)) (steer_step c issues)
              ((on_world (\<lambda>w. w\<lparr>pw_tasks := in_tasks st\<rparr>) p)\<lparr>pr_labelled := in_labelled st\<rparr>)))"

definition manual_step :: "pulse_cfg \<Rightarrow> pulse_step" where
  "manual_step c p =
    (None, if js_trim (pu_manual c) = [] then p
           else on_world (\<lambda>w. w\<lparr>pw_tasks := fst (addManualTask (lm_now (pu_mgr c)) (ie_sha256 (pu_intake c)) (ie_maxAttempts (pu_intake c))
             (js_trim (pu_manual c)) (pw_tasks w))\<rparr>) p)"

section \<open>Pull requests of earlier pulses\<close>

definition checkSelfImprovePrStatus :: "pulse_cfg \<Rightarrow> etask \<Rightarrow> pr_watch" where
  "checkSelfImprovePrStatus c t =
    (case et_prNumber t of
       None \<Rightarrow> PrUnknown
     | Some n \<Rightarrow>
         if n = 0 then PrUnknown
         else (case pu_pull c n of
             None \<Rightarrow> PrUnknown
           | Some pr \<Rightarrow>
               if pl_merged pr then PrMerged
               else if pl_state pr \<noteq> ''open'' then PrUnknown
               else if pu_ci c n = ''failure'' then PrClosedFailed
               else PrStillOpen))"

definition pr_move :: "nat \<Rightarrow> string \<Rightarrow> ctx \<Rightarrow> pulse_step" where
  "pr_move k to x p =
    (case move (pw_tasks (pr_world p) ! k) to x of
       Inl e \<Rightarrow> (Some (PMove e), p)
     | Inr (t, _) \<Rightarrow> (None, on_world (put_task k t) p))"

text \<open>The comment and the closing go to GitHub directly.\<close>

definition pr_comment :: "pulse_cfg \<Rightarrow> nat \<Rightarrow> string \<Rightarrow> pulse_step" where
  "pr_comment c issue body p =
    (if issue = 0 then (None, p)
     else (let (h, ok) = commentOnIssue (pu_comment c ''pr'' issue) issue body (pw_hub (pr_world p)) in
       (if ok then None else Some (PPrComment issue), on_world (\<lambda>w. w\<lparr>pw_hub := h\<rparr>) p)))"

definition pr_close_issue :: "pulse_cfg \<Rightarrow> nat \<Rightarrow> pulse_step" where
  "pr_close_issue c issue p =
    (if issue = 0 then (None, p)
     else (let (h, ok) = hub_closeIssue (pu_comment c ''close'' issue) issue (pw_hub (pr_world p)) in
       (if ok then None else Some (PPrIssueClose issue), on_world (\<lambda>w. w\<lparr>pw_hub := h\<rparr>) p)))"

definition pr_closed :: "pulse_cfg \<Rightarrow> nat \<Rightarrow> pulse_step" where
  "pr_closed c n p =
    (case pu_prClose c n of
       Landed \<Rightarrow> (None, p\<lparr>pr_prsClosed := pr_prsClosed p @ [n]\<rparr>)
     | LandedUnseen \<Rightarrow> (Some (PPrClose n), p\<lparr>pr_prsClosed := pr_prsClosed p @ [n]\<rparr>)
     | Refused \<Rightarrow> (Some (PPrClose n), p))"

definition ci_error :: string where
  "ci_error = ''CI failed on the self-improve PR; it has been closed.''"

definition revisitSelfImprovePr :: "pulse_cfg \<Rightarrow> nat \<Rightarrow> pulse_step" where
  "revisitSelfImprovePr c k p =
    (let t = pw_tasks (pr_world p) ! k; now = lm_now (pu_mgr c); url = dflt (et_prUrl t) [] in
     case checkSelfImprovePrStatus c t of
       PrClosedFailed \<Rightarrow>
         step_then (pr_closed c (dflt (et_prNumber t) 0))
           (step_then (pr_comment c (et_issueNumber t) (''The pull request for this task failed CI and has been closed: '' @ url))
             (pr_move k ''failed'' (gave_up now ''self-improve PR failed CI'' ci_error ''permanent'' ''PR_CI_FAILED'' ci_error))) p
     | PrMerged \<Rightarrow>
         step_then (pr_comment c (et_issueNumber t) (''The pull request for this task was merged: '' @ url))
           (step_then (pr_close_issue c (et_issueNumber t))
             (pr_move k ''complete'' (why_ctx now ''self-improve PR merged''))) p
     | _ \<Rightarrow> (None, p))"

fun revisit_all :: "pulse_cfg \<Rightarrow> nat list \<Rightarrow> pulse_step" where
  "revisit_all c [] p = (None, p)"
| "revisit_all c (k # ks) p = step_then (revisitSelfImprovePr c k) (revisit_all c ks) p"

definition pr_open_positions :: "etask list \<Rightarrow> nat list" where
  "pr_open_positions ts = filter (\<lambda>k. et_status (ts ! k) = PrOpen) [0..<length ts]"

definition revisit_step :: "pulse_cfg \<Rightarrow> pulse_step" where
  "revisit_step c p = revisit_all c (pr_open_positions (pw_tasks (pr_world p))) p"

section \<open>The pulse\<close>

definition claim_step :: "pulse_cfg \<Rightarrow> pulse_step" where
  "claim_step c p =
    (if pu_drain c then (None, p)
     else (let (e, w) = claimAndRun (pu_claims c) (pr_world p) in (map_option PRun e, p\<lparr>pr_world := w\<rparr>)))"

definition work_step :: "pulse_cfg \<Rightarrow> pulse_step" where
  "work_step c = step_then (intake_step c) (step_then (manual_step c) (step_then (revisit_step c) (claim_step c)))"

definition pulse_body :: "pulse_cfg \<Rightarrow> pulse_step" where
  "pulse_body c = step_then (sweep_step c) (if ct_killSwitch (pu_control c) then skip_step else work_step c)"

record heartbeat =
  hb_status :: string
  hb_claimed :: nat
  hb_completed :: nat
  hb_failed :: nat
  hb_consecutiveFailures :: nat
  hb_totalPulses :: nat

definition next_heartbeat :: "heartbeat \<Rightarrow> pulse_exn option \<Rightarrow> pulse_counts \<Rightarrow> heartbeat" where
  "next_heartbeat h e n =
    \<lparr>hb_status = (if e = None then ''ok'' else ''error''), hb_claimed = pn_claimed n, hb_completed = pn_completed n, hb_failed = pn_failed n,
     hb_consecutiveFailures = (if e = None then 0 else hb_consecutiveFailures h + 1), hb_totalPulses = hb_totalPulses h + 1\<rparr>"

definition open_run :: "pulse_world \<Rightarrow> pulse_run" where
  "open_run w = \<lparr>pr_world = w\<lparr>pw_counts := no_pulse_counts, pw_owned := []\<rparr>, pr_prsClosed = [], pr_labelled = [], pr_sweep = None, pr_steered = no_ctl_counts\<rparr>"

definition runPulse :: "pulse_cfg \<Rightarrow> heartbeat \<Rightarrow> pulse_world \<Rightarrow> pulse_exn option \<times> pulse_run \<times> heartbeat" where
  "runPulse c h w =
    (let (e, p) = pulse_body c (open_run w) in
     (e, on_world save_queue p, next_heartbeat h e (pw_counts (pr_world p))))"


section \<open>Every step keeps the queue\<close>

text \<open>The exceptions a pulse can meet: refusals of GitHub, never a refused move.\<close>

fun refusal :: "pulse_exn \<Rightarrow> bool" where
  "refusal (PMove e) = False"
| "refusal (PRun x) = github_exn x"
| "refusal _ = True"

abbreviation run_tasks :: "pulse_run \<Rightarrow> etask list" where "run_tasks p \<equiv> pw_tasks (pr_world p)"

definition ends_well :: "(pulse_run \<Rightarrow> bool) \<Rightarrow> pulse_exn option \<times> pulse_run \<Rightarrow> bool" where
  "ends_well I r = (I (snd r) \<and> (case fst r of None \<Rightarrow> True | Some e \<Rightarrow> refusal e))"

lemma ends_chain:
  assumes "ends_well I (f p)" and "\<And>p'. I p' \<Longrightarrow> ends_well J (g p')" and "\<And>p'. I p' \<Longrightarrow> J p'"
  shows "ends_well J (step_then f g p)"
proof -
  obtain e p' where r: "f p = (e, p')" by fastforce
  then have i: "I p'" using assms(1) by (simp add: ends_well_def)
  show ?thesis
  proof (cases e)
    case None
    then show ?thesis using assms(2) [OF i] by (simp add: step_then_def r)
  next
    case (Some x)
    then show ?thesis using assms(1) assms(3) [OF i] by (simp add: step_then_def r ends_well_def)
  qed
qed

lemma ends_then: "ends_well I (f p) \<Longrightarrow> (\<And>p'. I p' \<Longrightarrow> ends_well I (g p')) \<Longrightarrow> ends_well I (step_then f g p)"
  by (rule ends_chain)

lemma ends_skip: "I p \<Longrightarrow> ends_well I (None, p)"
  by (simp add: ends_well_def)

definition queue_ok :: "pulse_run \<Rightarrow> bool" where
  "queue_ok p = queue_wf (run_tasks p)"

lemma queue_wf_core: "queue_wf ts = list_all wf_task (map et_core ts)"
  by (simp add: queue_wf_def list_all_iff)

lemma reconcile_keeps_wf:
  assumes "reconcile ttl m s = Inr s'" and "list_all wf_task (sw_tasks s)"
  shows "list_all wf_task (sw_tasks s')"
proof -
  have "length (sw_tasks s') = length (sw_tasks s)" using reconcile_total [of ttl m s] assms(1) by auto
  then show ?thesis using wf_sweep_move [OF reconcile_at [OF assms(1)]] assms(2) by (simp add: list_all_length)
qed

lemma sweep_queue:
  assumes "queue_ok p"
  shows "ends_well queue_ok (sweep_step c p)"
proof -
  let ?w = "pr_world p"
  let ?s = "\<lparr>sw_tasks = map et_core (pw_tasks ?w), sw_leases = pw_leases ?w, sw_checkpoints = pu_ls c (pw_files ?w), sw_counts = Reconcile.no_counts, sw_events = []\<rparr>"
  obtain s' where s: "reconcile (pu_ttls c) (pu_mgr c) ?s = Inr s'" "length (sw_tasks s') = length (sw_tasks ?s)"
    using reconcile_total by blast
  have wf: "list_all wf_task (sw_tasks s')" using reconcile_keeps_wf [OF s(1)] assms by (simp add: queue_ok_def queue_wf_core)
  have "map et_core (map2 (\<lambda>t k. t\<lparr>et_core := k\<rparr>) ts ks) = ks" if "length ks = length ts" for ts :: "etask list" and ks
    using that by (induction ks ts rule: list_induct2) simp_all
  then have "queue_wf (map2 (\<lambda>t k. t\<lparr>et_core := k\<rparr>) (pw_tasks ?w) (sw_tasks s'))" using wf s(2) by (simp add: queue_wf_core)
  then show ?thesis using s(1) by (simp add: sweep_step_def Let_def ends_well_def queue_ok_def)
qed

lemma take_in_wf:
  assumes "queue_wf (in_tasks st)"
  shows "\<exists>st'. take_in ie known i st = Inr st' \<and> queue_wf (in_tasks st')"
proof -
  let ?t = "issue_task ie i"
  have m: "move ?t ''cancelled'' x = Inr (moved_to Cancelled x ?t, move_event Cancelled x ?t)" for x
    by (intro etask_moves) (simp add: issue_task_simps canTransition_table)
  have "wf_task (et_core (moved_to Cancelled x ?t))" for x by (intro wf_moved_to) (simp_all add: issue_task_simps canTransition_table)
  then show ?thesis using assms m
    by (simp add: take_in_def Let_def queue_wf_def issue_task_simps split: option.split del: moved_to_simps)
qed

lemma take_all_wf: "queue_wf (in_tasks st) \<Longrightarrow> \<exists>st'. take_all ie known iss st = Inr st' \<and> queue_wf (in_tasks st')"
proof (induction iss arbitrary: st)
  case (Cons i iss)
  obtain st1 where "take_in ie known i st = Inr st1" "queue_wf (in_tasks st1)" using take_in_wf [OF Cons.prems] by blast
  then show ?case using Cons.IH by simp
qed simp

lemma intake_wf: "queue_wf ts \<Longrightarrow> \<exists>st. syncIssuesIntoTasks ie issues ts = Inr st \<and> queue_wf (in_tasks st)"
proof -
  let ?st = "\<lparr>in_tasks = ts, in_added = 0, in_ignored = [], in_duplicates = [], in_notes = [], in_labelled = []\<rparr>"
  assume "queue_wf ts"
  then have "queue_wf (in_tasks ?st)" by simp
  from take_all_wf [OF this] obtain st where "take_all ie (map et_id ts) issues ?st = Inr st" "queue_wf (in_tasks st)" by blast
  then show ?thesis by (simp add: syncIssuesIntoTasks_def close_intake_def Let_def)
qed

lemma tell_keeps: "run_tasks (snd (tell_duplicate c i p)) = run_tasks p"
  by (simp add: tell_duplicate_def on_world_def Let_def split: option.split prod.split)

lemma tell_queue: "queue_ok p \<Longrightarrow> ends_well queue_ok (tell_duplicates c ids p)"
proof (induction ids arbitrary: p)
  case Nil
  then show ?case by (simp add: ends_skip)
next
  case (Cons i ids)
  have "case fst (tell_duplicate c i p) of None \<Rightarrow> True | Some e \<Rightarrow> refusal e"
    by (simp add: tell_duplicate_def Let_def split: option.split prod.split)
  then have "ends_well queue_ok (tell_duplicate c i p)" using Cons.prems tell_keeps [of c i p] by (simp add: ends_well_def queue_ok_def)
  then show ?case unfolding tell_duplicates.simps by (rule ends_then) (rule Cons.IH)
qed

lemma steer_queue: "queue_ok p \<Longrightarrow> ends_well queue_ok (steer_step c issues p)"
proof -
  assume q: "queue_ok p"
  then have "list_all (\<lambda>t. wf_task (et_core t)) (run_tasks p)" by (simp add: queue_ok_def queue_wf_def)
  from reconcile_keeps [OF this] obtain ts n ns where
    r: "reconcileIssueState (pu_steer c) issues (run_tasks p) no_ctl_counts = Inr (ts, n, ns)" "list_all2 steered (run_tasks p) ts" by blast
  have "queue_wf ts" using r(2) by (auto simp: queue_wf_def list_all_length list_all2_conv_all_nth steered_def)
  then show ?thesis using r(1) by (simp add: steer_step_def ends_well_def queue_ok_def on_world_def)
qed

lemma intake_queue:
  assumes "queue_ok p"
  shows "ends_well queue_ok (intake_step c p)"
proof (cases "pu_dryRun c")
  case True
  then show ?thesis using assms by (simp add: intake_step_def ends_skip)
next
  case False
  let ?is = "listOpenTaskIssues (pu_ready c) (pu_issues c)"
  obtain st where st: "syncIssuesIntoTasks (pu_intake c) ?is (run_tasks p) = Inr st" "queue_wf (in_tasks st)"
    using intake_wf assms unfolding queue_ok_def by blast
  let ?p = "(on_world (\<lambda>w. w\<lparr>pw_tasks := in_tasks st\<rparr>) p)\<lparr>pr_labelled := in_labelled st\<rparr>"
  have "queue_ok ?p" using st(2) by (simp add: queue_ok_def on_world_def)
  then have "ends_well queue_ok (step_then (tell_duplicates c (in_duplicates st)) (steer_step c ?is) ?p)"
    by (intro ends_then tell_queue steer_queue)
  then show ?thesis using False st(1) by (simp add: intake_step_def Let_def)
qed

lemma manual_queue: "queue_ok p \<Longrightarrow> ends_well queue_ok (manual_step c p)"
  by (simp add: manual_step_def ends_well_def queue_ok_def on_world_def addManualTask_def Let_def queue_wf_def wf_new_core)

lemma claim_queue: "queue_ok p \<Longrightarrow> ends_well queue_ok (claim_step c p)"
proof -
  assume q: "queue_ok p"
  obtain e w where r: "claimAndRun (pu_claims c) (pr_world p) = (e, w)" by fastforce
  have "queue_wf (pw_tasks w) \<and> (case e of Some x \<Rightarrow> github_exn x | None \<Rightarrow> True)"
    using claim_loop_effect [OF q [unfolded queue_ok_def] runnable_positions r [unfolded claimAndRun_def]] by (auto split: option.splits)
  then show ?thesis using q r by (auto simp: claim_step_def ends_well_def queue_ok_def split: option.splits)
qed


subsection \<open>Pull requests\<close>

definition pr_step_ok :: "nat \<Rightarrow> pulse_run \<Rightarrow> pulse_run \<Rightarrow> bool" where
  "pr_step_ok k p p' =
    (queue_ok p' \<and> length (run_tasks p') = length (run_tasks p) \<and> (\<forall>j. j \<noteq> k \<longrightarrow> run_tasks p' ! j = run_tasks p ! j))"

definition same_tasks :: "pulse_run \<Rightarrow> pulse_run \<Rightarrow> bool" where
  "same_tasks p p' = (run_tasks p' = run_tasks p)"

lemma hub_steps_same:
  "ends_well (same_tasks p) (pr_comment c i b p)" "ends_well (same_tasks p) (pr_close_issue c i p)" "ends_well (same_tasks p) (pr_closed c n p)"
  by (auto simp: ends_well_def same_tasks_def pr_comment_def pr_close_issue_def pr_closed_def on_world_def split: prod.split fate.split)

lemma pr_move_ok:
  assumes "queue_ok p" and "same_tasks p p'" and "k < length (run_tasks p)" and "et_status (run_tasks p ! k) = PrOpen"
    and "s = Failed \<and> to = ''failed'' \<or> s = Complete \<and> to = ''complete''"
  shows "ends_well (pr_step_ok k p) (pr_move k to x p')"
proof -
  let ?t = "run_tasks p ! k"
  have "move ?t to x = Inr (moved_to s x ?t, move_event s x ?t)"
    using assms(4,5) etask_moves [of ?t x] by (auto simp: canTransition_table)
  moreover have "wf_task (et_core (moved_to s x ?t))"
    using assms(1,3-5) by (intro wf_moved_to) (auto simp: queue_ok_def queue_nth canTransition_table)
  then have "queue_wf ((run_tasks p)[k := moved_to s x ?t])"
    using assms(1,3) by (auto simp: queue_ok_def queue_wf_def list_all_length nth_list_update simp del: moved_to_simps)
  ultimately show ?thesis
    using assms(2) by (simp add: pr_move_def ends_well_def pr_step_ok_def queue_ok_def same_tasks_def on_world_def put_task_def del: moved_to_simps)
qed

lemma revisit_ok:
  assumes "queue_ok p" and "k < length (run_tasks p)" and "et_status (run_tasks p ! k) = PrOpen"
  shows "ends_well (pr_step_ok k p) (revisitSelfImprovePr c k p)"
proof -
  have stay: "same_tasks p p' \<Longrightarrow> pr_step_ok k p p'" for p' using assms(1) by (simp add: pr_step_ok_def same_tasks_def queue_ok_def)
  have chain: "ends_well (pr_step_ok k p) (step_then f g q)" if "ends_well (same_tasks p) (f q)"
    "\<And>p'. same_tasks p p' \<Longrightarrow> ends_well (pr_step_ok k p) (g p')" for f g q
    using that stay by (rule ends_chain)
  have same: "same_tasks p p' \<Longrightarrow> ends_well (same_tasks p) (pr_comment c i b p')" "same_tasks p p' \<Longrightarrow> ends_well (same_tasks p) (pr_close_issue c i p')"
    for p' i b
  proof -
    assume "same_tasks p p'"
    then have "same_tasks p' = same_tasks p" by (auto simp: same_tasks_def fun_eq_iff)
    then show "ends_well (same_tasks p) (pr_comment c i b p')" "ends_well (same_tasks p) (pr_close_issue c i p')"
      using hub_steps_same [of p' c] by simp_all
  qed
  have fail: "ends_well (pr_step_ok k p) (pr_move k ''failed'' x p')" and done': "ends_well (pr_step_ok k p) (pr_move k ''complete'' x p')"
    if "same_tasks p p'" for x p'
    using pr_move_ok [OF assms(1) that assms(2,3)] by blast+
  show ?thesis
  proof (cases "checkSelfImprovePrStatus c (run_tasks p ! k)")
    case PrMerged
    then show ?thesis unfolding revisitSelfImprovePr_def Let_def
      by simp (intro chain same hub_steps_same done')
  next
    case PrClosedFailed
    then show ?thesis unfolding revisitSelfImprovePr_def Let_def
      by simp (intro chain same hub_steps_same fail)
  qed (use stay [of p] in \<open>simp_all add: revisitSelfImprovePr_def Let_def ends_well_def same_tasks_def\<close>)
qed

lemma revisit_all_queue:
  "queue_ok p \<Longrightarrow> distinct ks \<Longrightarrow> \<forall>k\<in>set ks. k < length (run_tasks p) \<and> et_status (run_tasks p ! k) = PrOpen \<Longrightarrow>
   ends_well queue_ok (revisit_all c ks p)"
proof (induction ks arbitrary: p)
  case Nil
  then show ?case by (simp add: ends_skip)
next
  case (Cons k ks)
  have one: "ends_well (pr_step_ok k p) (revisitSelfImprovePr c k p)" using Cons.prems by (intro revisit_ok) auto
  obtain e p' where r: "revisitSelfImprovePr c k p = (e, p')" by fastforce
  have ok: "pr_step_ok k p p'" and e: "case e of None \<Rightarrow> True | Some x \<Rightarrow> refusal x" using one r by (simp_all add: ends_well_def)
  have "\<forall>j\<in>set ks. j < length (run_tasks p') \<and> et_status (run_tasks p' ! j) = PrOpen"
    using ok Cons.prems(2,3) by (auto simp: pr_step_ok_def)
  then have "ends_well queue_ok (revisit_all c ks p')" using ok Cons.prems(2) by (intro Cons.IH) (auto simp: pr_step_ok_def)
  then show ?case using r e ok by (auto simp: step_then_def ends_well_def pr_step_ok_def split: option.splits)
qed

lemma revisit_queue: "queue_ok p \<Longrightarrow> ends_well queue_ok (revisit_step c p)"
  unfolding revisit_step_def by (rule revisit_all_queue) (auto simp: pr_open_positions_def)

lemma body_queue: "queue_ok p \<Longrightarrow> ends_well queue_ok (pulse_body c p)"
  unfolding pulse_body_def
proof (erule ends_then [OF sweep_queue])
  fix p' assume q: "queue_ok p'"
  have "ends_well queue_ok (work_step c p')"
    unfolding work_step_def using q by (intro ends_then intake_queue manual_queue revisit_queue claim_queue)
  then show "ends_well queue_ok ((if ct_killSwitch (pu_control c) then skip_step else work_step c) p')"
    using q by (simp add: skip_step_def ends_skip)
qed

section \<open>What a pulse guarantees\<close>



text \<open>What is told about a merged pull request does not ask for the controls: it is posted in safe mode as well.\<close>

lemma merged_is_told_in_safe_mode:
  assumes "checkSelfImprovePrStatus c (run_tasks p ! k) = PrMerged" and "et_issueNumber (run_tasks p ! k) = n" and "n \<noteq> 0"
    and "pu_comment c ''pr'' n = Landed" and "pu_comment c ''close'' n = Landed"
  shows "hub_closed (pw_hub (pr_world (snd (revisitSelfImprovePr c k p)))) = hub_closed (pw_hub (pr_world p)) @ [n]"
  using assms by (simp add: revisitSelfImprovePr_def Let_def step_then_def pr_comment_def pr_close_issue_def commentOnIssue_def hub_closeIssue_def
      on_world_def pr_move_def put_task_def split: sum.split prod.split)

section \<open>Concrete pulses\<close>

definition demo_cfg :: "bool \<Rightarrow> pulse_cfg" where
  "demo_cfg kill =
    \<lparr>pu_mgr = mgr ''p'' 0, pu_ttls = DEFAULT_TTLS, pu_control = \<lparr>ct_killSwitch = kill, ct_safeMode = False, ct_autonomy = None\<rparr>, pu_drain = False, pu_dryRun = False,
     pu_manual = [], pu_intake = demo_intake, pu_ready = True, pu_issues = Some [demo_issue 7 ''octo'', demo_issue 9 ''mallory''], pu_steer = demo_control,
     pu_ls = (\<lambda>_. []), pu_pull = (\<lambda>_. None), pu_ci = (\<lambda>_. []), pu_prClose = (\<lambda>_. Landed), pu_comment = (\<lambda>_ _. Landed), pu_claims = demo_claims\<rparr>"

definition first_beat :: heartbeat where
  "first_beat = \<lparr>hb_status = ''ok'', hb_claimed = 0, hb_completed = 0, hb_failed = 0, hb_consecutiveFailures = 0, hb_totalPulses = 0\<rparr>"



end
