(* ===== verification/Approvals.thy ===== *)
theory Approvals
  imports Issue_Control Task_Run
begin

text \<open>
  The approval loop, across four components: the policy asks under a key, the handler posts the key, a person answers
  \<open>/titan approve <key>\<close> on the issue, control records the answer, and the policy finds it again.
\<close>

section \<open>A key that can be typed\<close>

definition key_tail :: "char \<Rightarrow> bool" where
  "key_tail c = (arg_char c \<or> c \<in> set '':_.-'')"

definition typable :: "string \<Rightarrow> bool" where
  "typable k = (k \<noteq> [] \<and> length k \<le> 64 \<and> arg_char (hd k) \<and> list_all key_tail (tl k))"

lemma typable_iff: "typable k = (\<exists>c cs. k = c # cs \<and> arg_char c \<and> list_all key_tail cs \<and> length cs \<le> 63)"
  by (cases k) (auto simp: typable_def)

lemma rep_upto_all: "list_all P cs \<Longrightarrow> length cs \<le> n \<Longrightarrow> \<exists>q. rx_rel (rep_upto n (Cls P)) (p, cs) (q, [])"
proof (induction n arbitrary: cs p)
  case 0
  then show ?case by (auto intro: rel_eps)
next
  case (Suc n)
  show ?case
  proof (cases cs)
    case Nil
    then show ?thesis unfolding rep_upto.simps opt_def by (auto intro: rel_right rel_eps)
  next
    case (Cons d ds)
    then obtain q where "rx_rel (rep_upto n (Cls P)) (Some d, ds) (q, [])" using Suc by fastforce
    moreover have "rx_rel (Cls P) (p, d # ds) (Some d, ds)" using Suc.prems Cons by (auto intro: rel_cls)
    ultimately show ?thesis unfolding rep_upto.simps opt_def Cons by (blast intro: rel_left rel_seq)
  qed
qed

lemma typable_matches:
  assumes "typable k"
  shows "rx_test ARG_PATTERN k"
proof -
  obtain c cs where k: "k = c # cs" "arg_char c" "list_all key_tail cs" "length cs \<le> 63" using assms unfolding typable_iff by blast
  obtain q where q: "rx_rel (rep_upto 63 (Cls key_tail)) (Some c, cs) (q, [])" using rep_upto_all [OF k(3,4)] by blast
  have "rx_rel (Cls arg_char) (None, c # cs) (Some c, cs)" using k(2) by (rule rel_cls)
  then have "rx_rel ARG_PATTERN (None, k) (q, [])"
    unfolding ARG_PATTERN_def seqs.simps k(1) key_tail_def [abs_def, symmetric]
    by (auto intro!: rel_seq [OF rel_bol] rel_seq [OF _ rel_seq [OF q rel_eol]])
  then have "(q, []) \<in> set (rx_match ARG_PATTERN (None, k))" by (rule rx_match_complete)
  then show ?thesis unfolding rx_test_def k(1) by auto
qed

lemma typable_chars: "typable k \<Longrightarrow> c \<in> set k \<Longrightarrow> \<not> is_space c"
proof -
  have p: "\<not> is_space c" if "c \<in> set '':_.-''" for c
  proof -
    have "\<forall>c\<in>set '':_.-''. \<not> is_space c" by code_simp
    then show ?thesis using that by blast
  qed
  have a: "arg_char c \<Longrightarrow> \<not> is_space c" for c by (auto simp: arg_char_def is_lower_def is_upper_def is_digit_def is_space_def)
  show "typable k \<Longrightarrow> c \<in> set k \<Longrightarrow> \<not> is_space c"
    using p a by (cases k) (auto simp: typable_def key_tail_def list_all_iff)
qed

section \<open>The command that answers\<close>

definition answer_text :: "string \<Rightarrow> string \<Rightarrow> string" where
  "answer_text verb k = ''/titan '' @ verb @ '' '' @ k"

lemma space_free_split: "\<forall>c\<in>set k. \<not> is_space c \<Longrightarrow> split_on is_space k = [k]"
  by (rule split_one_word)

lemma first_line_one:
  assumes "CHR 0x0A \<notin> set l" and "js_trim l = l" and "l \<noteq> []"
  shows "first_line l = l"
proof -
  have "\<forall>c\<in>set l. c \<noteq> CHR 0x0A" using assms(1) by metis
  then have "split_on (\<lambda>c. c = CHR 0x0A) l = [l]" by (rule split_one_word)
  then show ?thesis using assms(2,3) by (simp add: first_line_def dflt_def)
qed

lemma match_titan_verb:
  assumes v: "verb \<noteq> []" "\<forall>c\<in>set verb. is_lower c" and k: "k \<noteq> []" "\<forall>c\<in>set k. \<not> is_space c"
  shows "match_titan (answer_text verb k) = Some (verb, k)"
proof -
  have sp: "is_space CHR '' ''" "\<not> is_lower CHR '' ''" "lower_char CHR '' '' = CHR '' ''" by code_simp+
  have low: "lower_char c = c \<and> \<not> is_space c" if "is_lower c" for c
    using that by (auto simp: lower_char_def is_lower_def is_upper_def is_space_def)
  have le: "\<not> line_end c" if "\<not> is_space c" for c using that by (auto simp: line_end_def is_space_def)
  have st: "startsWith (toLowerCase (answer_text verb k)) ''/titan''"
  proof -
    have "toLowerCase ''/titan'' = ''/titan''" by code_simp
    then show ?thesis by (simp add: answer_text_def startsWith_def toLowerCase_def)
  qed
  have r: "drop 6 (answer_text verb k) = CHR '' '' # verb @ CHR '' '' # k" by (simp add: answer_text_def)
  have s: "dropWhile is_space (CHR '' '' # verb @ CHR '' '' # k) = verb @ CHR '' '' # k"
    using sp v low by (cases verb) auto
  have t: "takeWhile (\<lambda>c. is_lower (lower_char c)) (verb @ CHR '' '' # k) = verb"
    using v(2) low sp by (simp add: takeWhile_append takeWhile_tail)
  have u: "dropWhile is_space (CHR '' '' # k) = k" using sp k by (cases k) auto
  have "\<not> list_ex line_end k" using k(2) le by (auto simp: list_ex_iff)
  then show ?thesis unfolding match_titan_def Let_def r s t using st v(1) sp(1) u by simp
qed

lemma words_one: "k \<noteq> [] \<Longrightarrow> \<forall>c\<in>set k. \<not> is_space c \<Longrightarrow> words_of k = [k]"
  by (simp add: words_of_def trim_spaceless space_free_split)

lemma answer_parses:
  assumes "typable k" and "verb \<in> {''approve'', ''deny''}"
  shows "\<exists>raw. parseTitanCommand (Some (answer_text verb k)) = Some \<lparr>cm_verb = verb, cm_args = [k], cm_raw = raw\<rparr>"
proof -
  have k: "k \<noteq> []" "\<forall>c\<in>set k. \<not> is_space c" using assms(1) typable_chars by (auto simp: typable_def)
  have verbs: "\<forall>v\<in>{''approve'', ''deny''}. v \<noteq> [] \<and> (\<forall>c\<in>set v. is_lower c) \<and> toLowerCase v = v \<and> map_of COMMANDS v = Some 1"
    by code_simp
  then have v: "verb \<noteq> []" "\<forall>c\<in>set verb. is_lower c" "toLowerCase verb = verb" "map_of COMMANDS verb = Some 1" using assms(2) by blast+
  let ?l = "answer_text verb k"
  have hd: "\<not> is_space (hd ?l)" "?l \<noteq> []"
  proof -
    have "\<not> is_space CHR ''/''" by code_simp
    then show "\<not> is_space (hd ?l)" "?l \<noteq> []" by (simp_all add: answer_text_def)
  qed
  have "last ?l = last k" using k(1) by (simp add: answer_text_def)
  then have trim: "js_trim ?l = ?l" using hd k by (intro js_trim_id) auto
  have "CHR 0x0A \<notin> set ?l"
  proof -
    have n: "is_space CHR 0x0A" "CHR 0x0A \<notin> set ''/titan ''" "CHR 0x0A \<noteq> CHR '' ''" "\<not> is_lower CHR 0x0A" by code_simp+
    then show ?thesis using k(2) v(2) unfolding answer_text_def by auto
  qed
  then have f: "first_line ?l = ?l" using first_line_one trim hd(2) by blast
  have m: "\<not> startsWith ?l DASHBOARD_RETRY_MARKER" by (simp add: answer_text_def startsWith_def DASHBOARD_RETRY_MARKER_def)
  show ?thesis
    unfolding parseTitanCommand_def Let_def option.case f match_titan_verb [OF v(1,2) k] prod.case v(3,4) words_one [OF k]
    using m typable_matches [OF assms(1)] by simp
qed

section \<open>The answer is found\<close>

lemma approved_decision:
  assumes "dc_decision (decide sha1 sn a ct \<lparr>pt_autonomy = lv, pt_approvals = ap\<rparr> rules) = Approve"
  shows "dc_decision (decide sha1 sn a ct \<lparr>pt_autonomy = lv, pt_approvals = assoc_put (approvalKeyFor sha1 sn a) \<lparr>hd_decision = ''approved'', hd_by = w\<rparr> ap\<rparr> rules) = Allow"
  using assms by (simp add: decide_def Let_def split: if_splits)



section \<open>The keys of the engine can be typed\<close>

lemma typable_append: "typable a \<Longrightarrow> list_all key_tail b \<Longrightarrow> length a + length b \<le> 64 \<Longrightarrow> typable (a @ b)"
  by (cases a) (auto simp: typable_def)

definition tool_char :: "char \<Rightarrow> bool" where
  "tool_char c = (is_lower c \<or> is_digit c \<or> c = CHR ''_'')"

lemma tail_chars: "tool_char c \<Longrightarrow> key_tail c" "is_digit c \<or> is_lower c \<Longrightarrow> key_tail c"
  by (auto simp: tool_char_def key_tail_def arg_char_def)

lemma tool_key_typable:
  assumes "ac_kind a = Some ''tool''" and "ac_toolId a = Some i" and "list_all tool_char i" and "length i \<le> 41"
    and "\<And>x. list_all (\<lambda>c. is_digit c \<or> is_lower c) (sha1 x)"
  shows "typable (approvalKeyFor sha1 sn a)"
proof -
  have t: "typable ''tool:''" "key_tail CHR '':''" by code_simp+
  have h: "list_all key_tail (take 8 (sha1 x))" for x
    using assms(5) [of x] tail_chars(2) by (auto simp: list_all_iff dest!: in_set_takeD)
  have i: "list_all key_tail i" using assms(3) tail_chars(1) by (auto simp: list_all_iff)
  show ?thesis
    unfolding approvalKeyFor_def Let_def assms(1,2) dflt_def option.case
    using h i t(2) assms(4) by (simp, intro typable_append [OF t(1), simplified]) auto
qed

lemma delivery_key_typable:
  assumes "ac_kind a = Some ''deliver''" and "ac_runId a = Some r" and "list_all key_tail r" and "length r \<le> 56"
  shows "typable (approvalKeyFor sha1 sn a)"
proof -
  have "typable ''deliver:''" by code_simp
  from typable_append [OF this assms(3)] assms(4) show ?thesis
    by (simp add: approvalKeyFor_def Let_def assms(1,2) dflt_def)
qed

text \<open>An instance: a delivery at the level \<open>approval\<close>.\<close>

definition asking_task :: etask where
  "asking_task = (issue_task demo_intake (demo_issue 7 ''octo''))
     \<lparr>et_core := sample_task\<lparr>t_status := Waiting, t_waitReason := Some WApproval, t_wakeAt := Some (Iso 0)\<rparr>, et_autonomy := None, et_approvals := []\<rparr>"

definition deliver_r1 :: action where
  "deliver_r1 = \<lparr>ac_kind = Some ''deliver'', ac_toolId = None, ac_effect = Some ''external'', ac_runId = Some ''r1'', ac_args = JUndef\<rparr>"

definition asking_control :: control where
  "asking_control = \<lparr>ct_killSwitch = False, ct_safeMode = False, ct_autonomy = Some ''approval''\<rparr>"


end
