(* ===== verification/Spec2Isabelle.thy ===== *)
theory Spec2Isabelle
  imports Reconcile Quota Side_Effects Pulse_Control With_Retry Policy_Engine Store Orchestrate Claims Control_Commands Task_Yaml Pulse Approvals
begin

text \<open>Header.\<close>

end
